(* ===== verification/Ramjet_Prelude.thy ===== *)
theory Ramjet_Prelude
  imports Complex_Main "HOL-Library.Word" "HOL-Library.AList" "HOL-Library.Multiset"
begin

text \<open>
  Shared vocabulary of the ramjet development: the Rust integer types and the saturating,
  wrapping and checked operations the sources call on them, the standard-library list
  operations (\<open>chunks\<close>, \<open>position\<close>, \<open>swap\<close>, \<open>sort_by\<close>), time, and the generic
  lemmas about them that every component uses.

  Two representations of machine integers are used. Where a component's behaviour at the end
  of the range is part of its contract (sequence numbers, fingerprints, generations) an integer
  is a \<open>64 word\<close>. Where the integer counts resident objects it is a \<open>nat\<close> and every saturating
  or wrapping operation of the source is written out against \<open>2 ^ 64\<close>.
\<close>

named_theorems ramjet_defs "definitions unfolded by component proofs"
named_theorems word_sat "unsigned value of saturating word operations"

type_synonym u8 = "8 word"
type_synonym u32 = "32 word"
type_synonym u64 = "64 word"

subsection \<open>Word arithmetic\<close>

definition u64_sat_add :: "u64 \<Rightarrow> u64 \<Rightarrow> u64" where
  "u64_sat_add a b = (if unat a + unat b < 2 ^ 64 then a + b else - 1)"

definition u64_sat_sub :: "u64 \<Rightarrow> u64 \<Rightarrow> u64" where
  "u64_sat_sub a b = (if b \<le> a then a - b else 0)"

definition u64_checked_add :: "u64 \<Rightarrow> u64 \<Rightarrow> u64 option" where
  "u64_checked_add a b = (if unat a + unat b < 2 ^ 64 then Some (a + b) else None)"

subsection \<open>Natural numbers at the width of usize\<close>

definition usize_max :: nat where
  "usize_max = 2 ^ 64 - 1"

definition sat_add :: "nat \<Rightarrow> nat \<Rightarrow> nat" where
  "sat_add a b = min (a + b) usize_max"

definition sat_mul :: "nat \<Rightarrow> nat \<Rightarrow> nat" where
  "sat_mul a b = min (a * b) usize_max"

definition wrap_add :: "nat \<Rightarrow> nat \<Rightarrow> nat" where
  "wrap_add a b = (a + b) mod 2 ^ 64"

definition div_ceil :: "nat \<Rightarrow> nat \<Rightarrow> nat" where
  "div_ceil a b = (a div b) + (if a mod b = 0 then 0 else 1)"

text \<open>Clamping as \<open>Ord::clamp\<close> does it.\<close>

definition clamp :: "nat \<Rightarrow> nat \<Rightarrow> nat \<Rightarrow> nat" where
  "clamp x lo hi = (if x < lo then lo else if hi < x then hi else x)"

subsection \<open>Time\<close>

text \<open>
  \<open>Duration\<close> and \<open>Instant\<close> are nanosecond counts; \<open>saturating_duration_since\<close> is the
  truncated subtraction of \<open>nat\<close>.
\<close>

type_synonym duration = nat
type_synonym instant = nat

definition saturating_duration_since :: "instant \<Rightarrow> instant \<Rightarrow> duration" where
  "saturating_duration_since now earlier = now - earlier"

definition duration_from_secs :: "nat \<Rightarrow> duration" where
  "duration_from_secs s = s * 1000000000"

subsection \<open>List operations of the standard library\<close>

text \<open>\<open>slice.get(i)\<close>.\<close>

definition get :: "'a list \<Rightarrow> nat \<Rightarrow> 'a option" where
  "get xs i = (if i < length xs then Some (xs ! i) else None)"

text \<open>\<open>iter().position(p)\<close>.\<close>

fun position :: "('a \<Rightarrow> bool) \<Rightarrow> 'a list \<Rightarrow> nat option" where
  "position p [] = None"
| "position p (x # xs) = (if p x then Some 0 else map_option Suc (position p xs))"

text \<open>\<open>slice.swap(i, j)\<close>, called with indices in range.\<close>

definition swap :: "'a list \<Rightarrow> nat \<Rightarrow> nat \<Rightarrow> 'a list" where
  "swap xs i j = xs[i := xs ! j, j := xs ! i]"

text \<open>\<open>Vec::remove(i)\<close>, called with an index in range.\<close>

definition remove_at :: "nat \<Rightarrow> 'a list \<Rightarrow> 'a list" where
  "remove_at i xs = take i xs @ drop (Suc i) xs"

text \<open>\<open>slice.chunks(n)\<close> for a positive \<open>n\<close>; a zero chunk size panics and is guarded by callers.\<close>

function chunks :: "nat \<Rightarrow> 'a list \<Rightarrow> 'a list list" where
  "chunks n xs = (if n = 0 \<or> xs = [] then [] else take n xs # chunks n (drop n xs))"
  by pat_completeness auto
termination
  by (relation "measure (\<lambda>(n, xs). length xs)") auto

declare chunks.simps [simp del]

text \<open>
  \<open>slice.sort_by\<close> is stable: equal elements keep their order. \<open>cmp a b\<close> says that \<open>a\<close>
  must come strictly after \<open>b\<close> (\<open>Ordering::Greater\<close>).
\<close>

fun insert_by :: "('a \<Rightarrow> 'a \<Rightarrow> bool) \<Rightarrow> 'a \<Rightarrow> 'a list \<Rightarrow> 'a list" where
  "insert_by gt x [] = [x]"
| "insert_by gt x (y # ys) = (if gt x y then y # insert_by gt x ys else x # y # ys)"

fun sort_by :: "('a \<Rightarrow> 'a \<Rightarrow> bool) \<Rightarrow> 'a list \<Rightarrow> 'a list" where
  "sort_by gt [] = []"
| "sort_by gt (x # xs) = insert_by gt x (sort_by gt xs)"

subsection \<open>Lemmas: words\<close>

lemma unat_u64_sat_add [word_sat]:
  "unat (u64_sat_add a b) = min (unat a + unat b) (2 ^ 64 - 1)"
proof (cases "unat a + unat b < 2 ^ 64")
  case True
  then show ?thesis by (simp add: u64_sat_add_def unat_word_ariths)
next
  case False
  have "unat (- 1 :: u64) = 2 ^ 64 - 1"
    by (simp add: unsigned_minus_1_eq_mask mask_eq_exp_minus_1)
  with False show ?thesis by (simp add: u64_sat_add_def)
qed

lemma unat_u64_sat_sub [word_sat]: "unat (u64_sat_sub a b) = unat a - unat b"
  by (auto simp: u64_sat_sub_def unat_sub word_le_nat_alt)

lemma unat_u64_lt [simp]: "unat (a :: u64) < 18446744073709551616"
  using unsigned_less [of a] by simp

lemma unat_u64_le [simp]: "unat (a :: u64) \<le> 18446744073709551615"
  using unat_u64_lt [of a] by linarith

lemma u64_checked_add_Some:
  "u64_checked_add a b = Some c \<longleftrightarrow> unat a + unat b < 2 ^ 64 \<and> c = a + b"
  by (auto simp: u64_checked_add_def)

lemma u64_sat_add_ge: "a \<le> u64_sat_add a b"
  by (simp add: word_le_nat_alt unat_u64_sat_add)

subsection \<open>Lemmas: natural-number arithmetic\<close>

lemma usize_max_eq: "usize_max = 18446744073709551615"
  by (simp add: usize_max_def)

lemma div_ceil_le_iff:
  assumes "0 < b"
  shows "div_ceil a b \<le> k \<longleftrightarrow> a \<le> k * b"
proof (cases "a mod b = 0")
  case True
  then obtain q where "a = b * q" by (auto simp: mod_eq_0_iff_dvd dvd_def)
  with assms show ?thesis by (simp add: div_ceil_def mult.commute)
next
  case False
  then have "a \<noteq> k * b" by auto
  moreover have "div_ceil a b \<le> k \<longleftrightarrow> a div b < k"
    using False by (simp add: div_ceil_def Suc_le_eq)
  moreover have "a div b < k \<longleftrightarrow> a < k * b"
    using assms by (rule div_less_iff_less_mult)
  ultimately show ?thesis by linarith
qed

lemma div_ceil_mono:
  assumes "0 < b" and "a \<le> c"
  shows "div_ceil a b \<le> div_ceil c b"
proof -
  have "c \<le> div_ceil c b * b" using div_ceil_le_iff [OF assms(1)] by blast
  with assms(2) have "a \<le> div_ceil c b * b" by simp
  then show ?thesis using div_ceil_le_iff [OF assms(1)] by blast
qed

lemma clamp_bounds: "lo \<le> hi \<Longrightarrow> lo \<le> clamp x lo hi \<and> clamp x lo hi \<le> hi"
  by (simp add: clamp_def)

subsection \<open>Lemmas: lists\<close>

lemma get_Some: "get xs i = Some x \<longleftrightarrow> i < length xs \<and> xs ! i = x"
  by (auto simp: get_def)

lemma position_Some:
  "position p xs = Some i \<Longrightarrow> i < length xs \<and> p (xs ! i) \<and> (\<forall>j < i. \<not> p (xs ! j))"
proof (induction xs arbitrary: i)
  case Nil
  then show ?case by simp
next
  case (Cons x xs)
  show ?case
  proof (cases "p x")
    case True
    with Cons.prems show ?thesis by simp
  next
    case False
    with Cons.prems obtain k where k: "position p xs = Some k" "i = Suc k" by auto
    from Cons.IH [OF k(1)] k(2) False show ?thesis by (auto simp: less_Suc_eq_0_disj)
  qed
qed

lemma position_None: "position p xs = None \<longleftrightarrow> (\<forall>x \<in> set xs. \<not> p x)"
  by (induction xs) auto

lemma position_ex: "x \<in> set xs \<Longrightarrow> p x \<Longrightarrow> \<exists>i. position p xs = Some i"
  using position_None [of p xs] by auto

lemma length_swap [simp]: "length (swap xs i j) = length xs"
  by (simp add: swap_def)

lemma mset_swap_at:
  assumes "i < length xs" and "j < length xs"
  shows "mset (swap xs i j) = mset xs"
  using assms by (simp add: swap_def mset_swap)

lemma mset_insert_by [simp]: "mset (insert_by gt x xs) = add_mset x (mset xs)"
  by (induction xs) auto

lemma mset_sort_by [simp]: "mset (sort_by gt xs) = mset xs"
  by (induction xs) auto

lemma set_sort_by [simp]: "set (sort_by gt xs) = set xs"
  by (metis mset_sort_by set_mset_mset)

lemma length_sort_by [simp]: "length (sort_by gt xs) = length xs"
  by (metis mset_sort_by size_mset)

lemma set_insert_by: "set (insert_by gt x xs) = insert x (set xs)"
  by (metis mset_insert_by set_mset_add_mset_insert set_mset_mset)

lemma distinct_map_sort_by:
  assumes "distinct (map f xs)"
  shows "distinct (map f (sort_by gt xs))"
proof -
  have "mset (map f (sort_by gt xs)) = mset (map f xs)" by simp
  then show ?thesis using assms by (metis mset_eq_imp_distinct_iff)
qed

text \<open>
  A comparison that is total and transitive sorts: no earlier element must come after a later
  one.
\<close>

lemma sorted_insert_by:
  assumes asym: "asymp gt" and trans: "transp (\<lambda>a b. \<not> gt a b)"
    and "sorted_wrt (\<lambda>a b. \<not> gt a b) xs"
  shows "sorted_wrt (\<lambda>a b. \<not> gt a b) (insert_by gt x xs)"
  using assms(3)
proof (induction xs)
  case Nil
  then show ?case by simp
next
  case (Cons y ys)
  show ?case
  proof (cases "gt x y")
    case True
    then have "\<not> gt y x" using asym by (blast dest: asympD)
    with True Cons show ?thesis by (auto simp: set_insert_by)
  next
    case False
    then have "\<not> gt x z" if "z \<in> set ys" for z
      using Cons.prems that transpD [OF trans, of x y z] by auto
    with False Cons.prems show ?thesis by auto
  qed
qed

lemma sorted_sort_by:
  assumes "asymp gt" and "transp (\<lambda>a b. \<not> gt a b)"
  shows "sorted_wrt (\<lambda>a b. \<not> gt a b) (sort_by gt xs)"
  by (induction xs) (simp_all add: sorted_insert_by [OF assms])

lemma chunks_Nil [simp]: "chunks n [] = []"
  by (subst chunks.simps) simp

lemma chunks_0 [simp]: "chunks 0 xs = []"
  by (subst chunks.simps) simp

lemma concat_chunks: "0 < n \<Longrightarrow> concat (chunks n xs) = xs"
proof (induction n xs rule: chunks.induct)
  case (1 n xs)
  then show ?case by (cases "xs = []") (auto simp: chunks.simps [of n xs])
qed

lemma chunks_nonempty: "c \<in> set (chunks n xs) \<Longrightarrow> c \<noteq> [] \<and> length c \<le> n"
proof (induction n xs rule: chunks.induct)
  case (1 n xs)
  then show ?case by (cases "n = 0 \<or> xs = []") (auto simp: chunks.simps [of n xs])
qed

lemma length_chunks: "0 < n \<Longrightarrow> length (chunks n xs) = div_ceil (length xs) n"
proof (induction n xs rule: chunks.induct)
  case (1 n xs)
  show ?case
  proof (cases "xs = []")
    case True
    then show ?thesis by (simp add: div_ceil_def)
  next
    case False
    with "1" have IH: "length (chunks n (drop n xs)) = div_ceil (length xs - n) n" by simp
    have step: "length (chunks n xs) = Suc (div_ceil (length xs - n) n)"
      using False "1.prems" IH by (simp add: chunks.simps [of n xs])
    show ?thesis
    proof (cases "n \<le> length xs")
      case True
      then have "length xs = (length xs - n) + n" by simp
      then have "(length xs) div n = Suc ((length xs - n) div n)"
        and "(length xs) mod n = (length xs - n) mod n"
        using "1.prems" True by (auto simp: le_div_geq le_mod_geq)
      then show ?thesis using step by (simp add: div_ceil_def)
    next
      case F: False
      then have "length xs div n = 0" "length xs mod n = length xs" "length xs - n = 0" by auto
      then show ?thesis using step False by (simp add: div_ceil_def)
    qed
  qed
qed

end
