(* ===== verification/F64.thy ===== *)
theory F64
  imports Ramjet_Prelude "HOL-Library.Log_Nat"
begin

text \<open>
  IEEE 754 binary64 as the sources use it: integer-to-float casts, addition, subtraction,
  multiplication, division, fused multiply-add, comparisons and the saturating float-to-integer
  cast. A finite value is the rational it denotes; every operation computes the exact rational
  result and rounds it to the nearest representable value, ties to even, with gradual underflow
  and overflow to infinity. The two zeros are one value: no modelled operation can tell them
  apart. The main facts are that rounding is monotone and that integers up to \<open>2 ^ 53\<close> are exact.
\<close>

section \<open>Values and rounding\<close>

datatype f64 = Finite rat | Infinity (negative: bool) | NaN

datatype ordering = Less | Equal | Greater

definition binade :: "rat \<Rightarrow> int" where
  "binade q = (let (n, d) = quotient_of q; e = bitlen n - bitlen d
               in if 2 powi e \<le> q then e else e - 1)"

definition round_even :: "rat \<Rightarrow> int" where
  "round_even x = (let f = \<lfloor>x\<rfloor>; r = x - of_int f
     in if r < 1 / 2 then f else if 1 / 2 < r then f + 1 else if even f then f else f + 1)"

definition ulp :: "rat \<Rightarrow> rat" where
  "ulp q = 2 powi (max (binade q) (- 1022) - 52)"

definition round_pos :: "rat \<Rightarrow> rat" where
  "round_pos q = of_int (round_even (q / ulp q)) * ulp q"

definition f64_round :: "rat \<Rightarrow> f64" where
  "f64_round q =
     (if q = 0 then Finite 0
      else let r = round_pos \<bar>q\<bar>
           in if r < 2 ^ 1024 then Finite (sgn q * r) else Infinity (q < 0))"

section \<open>Operations\<close>

definition f64_of_nat :: "nat \<Rightarrow> f64" where
  "f64_of_nat n = f64_round (of_nat n)"

fun f64_neg :: "f64 \<Rightarrow> f64" where
  "f64_neg (Finite q) = Finite (- q)"
| "f64_neg (Infinity s) = Infinity (\<not> s)"
| "f64_neg NaN = NaN"

fun f64_add :: "f64 \<Rightarrow> f64 \<Rightarrow> f64" where
  "f64_add NaN _ = NaN"
| "f64_add _ NaN = NaN"
| "f64_add (Infinity s) (Infinity t) = (if s = t then Infinity s else NaN)"
| "f64_add (Infinity s) (Finite _) = Infinity s"
| "f64_add (Finite _) (Infinity t) = Infinity t"
| "f64_add (Finite p) (Finite q) = f64_round (p + q)"

definition f64_sub :: "f64 \<Rightarrow> f64 \<Rightarrow> f64" where
  "f64_sub a b = f64_add a (f64_neg b)"

fun f64_mul :: "f64 \<Rightarrow> f64 \<Rightarrow> f64" where
  "f64_mul NaN _ = NaN"
| "f64_mul _ NaN = NaN"
| "f64_mul (Infinity s) (Infinity t) = Infinity (s \<noteq> t)"
| "f64_mul (Infinity s) (Finite q) = (if q = 0 then NaN else Infinity (s \<noteq> (q < 0)))"
| "f64_mul (Finite p) (Infinity t) = (if p = 0 then NaN else Infinity ((p < 0) \<noteq> t))"
| "f64_mul (Finite p) (Finite q) = f64_round (p * q)"

text \<open>Division by the positive zero an integer cast produces.\<close>

fun f64_div :: "f64 \<Rightarrow> f64 \<Rightarrow> f64" where
  "f64_div NaN _ = NaN"
| "f64_div _ NaN = NaN"
| "f64_div (Infinity s) (Infinity t) = NaN"
| "f64_div (Infinity s) (Finite q) = Infinity (s \<noteq> (q < 0))"
| "f64_div (Finite p) (Infinity t) = Finite 0"
| "f64_div (Finite p) (Finite q) =
     (if q \<noteq> 0 then f64_round (p / q) else if p = 0 then NaN else Infinity (p < 0))"

text \<open>\<open>a.mul_add(b, c)\<close>: one rounding of the exact \<open>a * b + c\<close>.\<close>

fun f64_mul_add :: "f64 \<Rightarrow> f64 \<Rightarrow> f64 \<Rightarrow> f64" where
  "f64_mul_add (Finite a) (Finite b) (Finite c) = f64_round (a * b + c)"
| "f64_mul_add (Finite a) (Finite b) c = c"
| "f64_mul_add a b c = f64_add (f64_mul a b) c"

definition is_finite :: "f64 \<Rightarrow> bool" where
  "is_finite a = (case a of Finite _ \<Rightarrow> True | _ \<Rightarrow> False)"

fun f64_partial_cmp :: "f64 \<Rightarrow> f64 \<Rightarrow> ordering option" where
  "f64_partial_cmp NaN _ = None"
| "f64_partial_cmp _ NaN = None"
| "f64_partial_cmp (Infinity s) (Infinity t) =
     Some (if s = t then Equal else if s then Less else Greater)"
| "f64_partial_cmp (Infinity s) (Finite _) = Some (if s then Less else Greater)"
| "f64_partial_cmp (Finite _) (Infinity t) = Some (if t then Greater else Less)"
| "f64_partial_cmp (Finite p) (Finite q) =
     Some (if p < q then Less else if p = q then Equal else Greater)"

definition f64_eq :: "f64 \<Rightarrow> f64 \<Rightarrow> bool" where
  "f64_eq a b \<longleftrightarrow> f64_partial_cmp a b = Some Equal"

definition f64_less :: "f64 \<Rightarrow> f64 \<Rightarrow> bool" where
  "f64_less a b \<longleftrightarrow> f64_partial_cmp a b = Some Less"

definition f64_le :: "f64 \<Rightarrow> f64 \<Rightarrow> bool" where
  "f64_le a b \<longleftrightarrow> f64_partial_cmp a b = Some Less \<or> f64_partial_cmp a b = Some Equal"

text \<open>\<open>value as u64\<close>: truncation, saturating at both ends, \<open>NaN\<close> to zero.\<close>

definition f64_to_u64 :: "f64 \<Rightarrow> nat" where
  "f64_to_u64 a = (case a of
       Finite q \<Rightarrow> min (nat \<lfloor>q\<rfloor>) usize_max
     | Infinity s \<Rightarrow> if s then 0 else usize_max
     | NaN \<Rightarrow> 0)"

section \<open>Rounding to integers\<close>

lemma round_even_of_int [simp]: "round_even (of_int n) = n"
  by (simp add: round_even_def Let_def)

lemma round_even_cases: "round_even x = \<lfloor>x\<rfloor> \<or> round_even x = \<lfloor>x\<rfloor> + 1"
  by (auto simp: round_even_def Let_def)

lemma round_even_mono:
  assumes "x \<le> y"
  shows "round_even x \<le> round_even y"
proof (cases "\<lfloor>x\<rfloor> = \<lfloor>y\<rfloor>")
  case True
  with assms show ?thesis by (auto simp: round_even_def Let_def)
next
  case False
  with floor_mono [OF assms] have "\<lfloor>x\<rfloor> + 1 \<le> \<lfloor>y\<rfloor>" by linarith
  with round_even_cases [of x] round_even_cases [of y] show ?thesis by linarith
qed

lemma round_even_ge: "of_int n \<le> x \<Longrightarrow> n \<le> round_even x"
  using round_even_mono [of "of_int n" x] by simp

lemma round_even_le: "x \<le> of_int n \<Longrightarrow> round_even x \<le> n"
  using round_even_mono [of x "of_int n"] by simp

section \<open>Binades\<close>

lemma powi_bitlen_bounds:
  assumes "0 < n"
  shows "2 powi (bitlen n - 1) \<le> (of_int n :: rat)" and "(of_int n :: rat) < 2 powi (bitlen n)"
proof -
  have pos: "0 < bitlen n" using assms by (metis bitlen_eq_zero_iff bitlen_nonneg
      order_le_less not_less)
  have b: "2 ^ nat (bitlen n - 1) \<le> n" "n < 2 ^ nat (bitlen n)"
    using bitlen_bounds [OF assms] by auto
  have "(2 :: rat) powi (bitlen n - 1) = of_int (2 ^ nat (bitlen n - 1))"
    using pos by (simp add: power_int_def)
  then show "2 powi (bitlen n - 1) \<le> (of_int n :: rat)" using b(1) by (simp only: of_int_le_iff)
  have "(2 :: rat) powi (bitlen n) = of_int (2 ^ nat (bitlen n))"
    using pos by (simp add: power_int_def)
  then show "(of_int n :: rat) < 2 powi (bitlen n)" using b(2) by (simp only: of_int_less_iff)
qed

lemma binade_bounds:
  assumes "0 < q"
  shows "2 powi (binade q) \<le> q" and "q < 2 powi (binade q + 1)"
proof -
  obtain n d where nd: "quotient_of q = (n, d)" by force
  have d: "0 < d" using quotient_of_denom_pos [OF nd] .
  have q: "q = of_int n / of_int d" using quotient_of_div [OF nd] .
  have n: "0 < n" using assms q d by (simp add: zero_less_divide_iff)
  define a b where "a = bitlen n" and "b = bitlen d"
  have n1: "2 powi (a - 1) \<le> (of_int n :: rat)" and n2: "(of_int n :: rat) < 2 powi a"
    using powi_bitlen_bounds [OF n] by (auto simp: a_def)
  have d1: "2 powi (b - 1) \<le> (of_int d :: rat)" and d2: "(of_int d :: rat) < 2 powi b"
    using powi_bitlen_bounds [OF d] by (auto simp: b_def)
  have up: "q < 2 powi (a - b + 1)"
  proof -
    have "q \<le> of_int n / 2 powi (b - 1)" unfolding q using n d d1
      by (intro divide_left_mono) (auto intro!: mult_pos_pos)
    also have "\<dots> < 2 powi a / 2 powi (b - 1)" using n2 by (simp add: divide_strict_right_mono)
    also have "\<dots> = 2 powi (a - b + 1)" by (simp flip: power_int_diff add: algebra_simps)
    finally show ?thesis .
  qed
  have low: "2 powi (a - b - 1) \<le> q"
  proof -
    have "2 powi (a - b - 1) = (2 powi (a - 1) / 2 powi b :: rat)"
      by (simp flip: power_int_diff add: algebra_simps)
    also have "\<dots> \<le> of_int n / 2 powi b" using n1 by (simp add: divide_right_mono)
    also have "\<dots> \<le> q" unfolding q using n d d2
      by (intro divide_left_mono) (auto intro!: mult_pos_pos)
    finally show ?thesis .
  qed
  have bin: "binade q = (if 2 powi (a - b) \<le> q then a - b else a - b - 1)"
    by (simp add: binade_def nd a_def b_def Let_def)
  show "2 powi (binade q) \<le> q" using bin low by simp
  show "q < 2 powi (binade q + 1)" using bin up by auto
qed

lemma binade_mono:
  assumes "0 < x" and "x \<le> y"
  shows "binade x \<le> binade y"
proof (rule ccontr)
  assume "\<not> ?thesis"
  then have "binade y + 1 \<le> binade x" by simp
  then have "(2 :: rat) powi (binade y + 1) \<le> 2 powi (binade x)"
    by (simp add: power_int_increasing)
  also have "\<dots> \<le> x" using binade_bounds [OF assms(1)] by simp
  also have "\<dots> \<le> y" by fact
  also have "\<dots> < 2 powi (binade y + 1)" using binade_bounds [of y] assms by simp
  finally show False by simp
qed

section \<open>Rounding of rationals\<close>

lemma ulp_pos [simp]: "0 < ulp q"
  by (simp add: ulp_def)

lemma round_pos_nonneg: "0 \<le> q \<Longrightarrow> 0 \<le> round_pos q"
proof -
  assume "0 \<le> q"
  then have "of_int 0 \<le> q / ulp q" by (simp add: less_imp_le)
  then have "0 \<le> round_even (q / ulp q)" by (rule round_even_ge)
  then show ?thesis by (simp add: round_pos_def less_imp_le)
qed

lemma powi_shift: "(2 :: rat) powi (e + int n) = of_int (2 ^ n) * 2 powi e"
  by (simp add: power_int_add)

text \<open>A value inside the binade \<open>e\<close> stays inside its closure.\<close>

lemma round_pos_below_binade:
  assumes "0 < q"
  shows "round_pos q \<le> 2 powi (max (binade q) (- 1022) + 1)"
proof -
  define e where "e = max (binade q) (- 1022)"
  have "q < 2 powi (binade q + 1)" using binade_bounds [OF assms] by simp
  also have "(2 :: rat) powi (binade q + 1) \<le> 2 powi (e + 1)"
    by (simp add: power_int_increasing e_def)
  also have "(2 :: rat) powi (e + 1) = of_int (2 ^ 53) * ulp q"
    using powi_shift [of "e - 52" 53] by (simp add: ulp_def e_def add.commute)
  finally have "q \<le> of_int (2 ^ 53) * ulp q" by simp
  then have "q / ulp q \<le> of_int (2 ^ 53)" by (simp add: pos_divide_le_eq)
  then have "round_even (q / ulp q) \<le> 2 ^ 53" by (rule round_even_le)
  then have "of_int (round_even (q / ulp q)) \<le> (of_int (2 ^ 53) :: rat)"
    by (simp only: of_int_le_iff)
  then have "round_pos q \<le> of_int (2 ^ 53) * ulp q"
    unfolding round_pos_def by (intro mult_right_mono) (auto intro: less_imp_le)
  also have "\<dots> = 2 powi (e + 1)"
    using \<open>(2 :: rat) powi (e + 1) = of_int (2 ^ 53) * ulp q\<close> by simp
  finally show ?thesis by (simp add: e_def)
qed

lemma round_pos_above_binade:
  assumes "0 < q" and "- 1022 \<le> binade q"
  shows "2 powi (binade q) \<le> round_pos q"
proof -
  have eq: "(2 :: rat) powi (binade q) = of_int (2 ^ 52) * ulp q"
    using powi_shift [of "binade q - 52" 52] assms(2) by (simp add: ulp_def max_absorb1)
  have "of_int (2 ^ 52) * ulp q \<le> q" using binade_bounds(1) [OF assms(1)] eq by simp
  then have "of_int (2 ^ 52) \<le> q / ulp q" by (simp add: pos_le_divide_eq)
  then have "2 ^ 52 \<le> round_even (q / ulp q)" by (rule round_even_ge)
  then have "(of_int (2 ^ 52) :: rat) \<le> of_int (round_even (q / ulp q))"
    by (simp only: of_int_le_iff)
  then have "of_int (2 ^ 52) * ulp q \<le> round_pos q"
    unfolding round_pos_def by (intro mult_right_mono) (auto intro: less_imp_le)
  then show ?thesis using eq by simp
qed

lemma round_pos_mono:
  assumes "0 < x" and "x \<le> y"
  shows "round_pos x \<le> round_pos y"
proof (cases "ulp x = ulp y")
  case True
  have "x / ulp x \<le> y / ulp x" using assms by (simp add: divide_right_mono less_imp_le)
  then have "round_even (x / ulp x) \<le> round_even (y / ulp y)"
    using True by (simp add: round_even_mono)
  then show ?thesis unfolding round_pos_def True
    by (intro mult_right_mono) (auto intro: less_imp_le)
next
  case False
  define ex ey where "ex = max (binade x) (- 1022)" and "ey = max (binade y) (- 1022)"
  have "ex \<noteq> ey" using False by (auto simp: ulp_def ex_def ey_def)
  moreover have "ex \<le> ey" using binade_mono [OF assms] by (auto simp: ex_def ey_def)
  ultimately have "ex + 1 \<le> ey" and ey: "ey = binade y" "- 1022 \<le> binade y"
    by (auto simp: ex_def ey_def max_def split: if_splits)
  have "round_pos x \<le> 2 powi (ex + 1)"
    using round_pos_below_binade [OF assms(1)] by (simp add: ex_def)
  also have "\<dots> \<le> 2 powi ey" using \<open>ex + 1 \<le> ey\<close> by (simp add: power_int_increasing)
  also have "\<dots> \<le> round_pos y" using round_pos_above_binade [of y] assms ey by simp
  finally show ?thesis .
qed

lemma binade_eqI:
  assumes "2 powi e \<le> q" and "q < 2 powi (e + 1)"
  shows "binade q = e"
proof -
  have q: "0 < q" using assms(1) by (rule less_le_trans [rotated]) simp
  have "(2 :: rat) powi (binade q) < 2 powi (e + 1)"
    using binade_bounds(1) [OF q] assms(2) by simp
  then have "binade q < e + 1"
    by (metis not_less power_int_increasing one_le_numeral)
  moreover have "(2 :: rat) powi e < 2 powi (binade q + 1)"
    using binade_bounds(2) [OF q] assms(1) by simp
  then have "e < binade q + 1"
    by (metis not_less power_int_increasing one_le_numeral)
  ultimately show ?thesis by simp
qed

text \<open>A value that is an integer multiple of its unit in the last place is representable.\<close>

lemma round_pos_exact: "q = of_int k * ulp q \<Longrightarrow> round_pos q = q"
  using ulp_pos [of q] by (metis less_irrefl nonzero_mult_div_cancel_right round_even_of_int
      round_pos_def)

lemma round_pos_nat:
  assumes "0 < n" and "n < 2 ^ 53"
  shows "round_pos (of_nat n) = of_nat n"
proof -
  have pos: "(0 :: rat) < of_nat n" using assms by simp
  have "(2 :: rat) powi (binade (of_nat n)) \<le> of_nat n" using binade_bounds(1) [OF pos] .
  also have "\<dots> < of_nat (2 ^ 53)" using assms(2) by (simp only: of_nat_less_iff)
  also have "\<dots> = 2 powi 53" by (simp add: power_int_def)
  finally have "binade (of_nat n) < 53"
    by (metis not_less power_int_increasing one_le_numeral)
  moreover have "0 \<le> binade (of_nat n)"
  proof (rule ccontr)
    assume "\<not> ?thesis"
    then have "binade (of_nat n) + 1 \<le> 0" by simp
    then have "(2 :: rat) powi (binade (of_nat n) + 1) \<le> 2 powi 0"
      by (intro power_int_increasing) auto
    then have "(of_nat n :: rat) < 1" using binade_bounds(2) [OF pos] by simp
    then show False using assms(1) by simp
  qed
  moreover define k where "k = nat (52 - binade (of_nat n))"
  ultimately have "max (binade (of_nat n)) (- 1022) - 52 = - int k" by simp
  then have "ulp (of_nat n) = inverse (2 ^ k)" by (simp add: ulp_def power_int_minus)
  then have "of_nat n = of_int (int n * 2 ^ k) * ulp (of_nat n)" by simp
  then show ?thesis by (rule round_pos_exact)
qed

section \<open>The order of floats\<close>

lemma f64_round_not_NaN [simp]: "f64_round q \<noteq> NaN" "f64_partial_cmp (f64_round q) NaN = None"
  by (cases "f64_round q"; simp add: f64_round_def Let_def split: if_splits)+

lemma f64_le_refl: "a \<noteq> NaN \<Longrightarrow> f64_le a a"
  by (cases a) (auto simp: f64_le_def)

lemma f64_le_simps [simp]:
  "f64_le (Finite p) (Finite q) \<longleftrightarrow> p \<le> q"
  "f64_le (Infinity s) (Infinity t) \<longleftrightarrow> s \<or> \<not> t"
  "f64_le (Infinity s) (Finite q) \<longleftrightarrow> s"
  "f64_le (Finite p) (Infinity t) \<longleftrightarrow> \<not> t"
  "\<not> f64_le NaN b" "\<not> f64_le a NaN"
  by (auto simp: f64_le_def) (cases a; simp)+

lemma f64_less_simps [simp]:
  "f64_less (Finite p) (Finite q) \<longleftrightarrow> p < q"
  "f64_less (Infinity s) (Infinity t) \<longleftrightarrow> s \<and> \<not> t"
  "f64_less (Infinity s) (Finite q) \<longleftrightarrow> s"
  "f64_less (Finite p) (Infinity t) \<longleftrightarrow> \<not> t"
  "\<not> f64_less NaN b" "\<not> f64_less a NaN"
  by (auto simp: f64_less_def) (cases a; simp)+

lemma f64_le_top [simp]: "f64_le a (Infinity False) \<longleftrightarrow> a \<noteq> NaN"
  by (cases a) auto

lemma f64_le_bot [simp]: "f64_le (Infinity True) a \<longleftrightarrow> a \<noteq> NaN"
  by (cases a) auto

lemma f64_eq_iff: "a \<noteq> NaN \<Longrightarrow> f64_eq a b \<longleftrightarrow> a = b"
  by (cases a; cases b) (auto simp: f64_eq_def)

lemma f64_le_trans: "f64_le a b \<Longrightarrow> f64_le b c \<Longrightarrow> f64_le a c"
  by (cases a; cases b; cases c) auto

lemma f64_not_less: "a \<noteq> NaN \<Longrightarrow> b \<noteq> NaN \<Longrightarrow> \<not> f64_less a b \<longleftrightarrow> f64_le b a"
  by (cases a; cases b) auto

lemma f64_less_le: "f64_less a b \<longleftrightarrow> f64_le a b \<and> \<not> f64_le b a"
  by (cases a; cases b) auto

lemma f64_le_antisym: "f64_le a b \<Longrightarrow> f64_le b a \<Longrightarrow> a = b"
  by (cases a; cases b) auto

section \<open>Rounding and the operations\<close>

lemma f64_round_pos:
  "0 < q \<Longrightarrow> f64_round q = (if round_pos q < 2 ^ 1024 then Finite (round_pos q) else Infinity False)"
  by (simp add: f64_round_def Let_def)

lemma f64_round_minus: "f64_round (- q) = f64_neg (f64_round q)"
  by (cases "q = 0") (auto simp: f64_round_def Let_def)

lemma f64_neg_mono: "f64_le a b \<Longrightarrow> f64_le (f64_neg b) (f64_neg a)"
  by (cases a; cases b) auto

lemma f64_round_nonneg: "0 \<le> q \<Longrightarrow> f64_le (Finite 0) (f64_round q)"
  using round_pos_nonneg [of q] by (cases "q = 0") (auto simp: f64_round_def Let_def)

lemma f64_round_mono_pos:
  assumes "0 < x" and "x \<le> y"
  shows "f64_le (f64_round x) (f64_round y)"
  using assms round_pos_mono [OF assms] by (simp add: f64_round_pos)

lemma f64_round_mono:
  assumes "x \<le> y"
  shows "f64_le (f64_round x) (f64_round y)"
proof -
  consider "0 < x" | "x \<le> 0" "0 \<le> y" | "y < 0" by linarith
  then show ?thesis
  proof cases
    case 1
    then show ?thesis using assms by (rule f64_round_mono_pos)
  next
    case 2
    have "f64_le (Finite 0) (f64_round (- x))" using 2 by (simp add: f64_round_nonneg)
    then have "f64_le (f64_round x) (Finite 0)"
      using f64_neg_mono [of "Finite 0" "f64_round (- x)"] by (simp flip: f64_round_minus)
    then show ?thesis using f64_round_nonneg [OF 2(2)] by (rule f64_le_trans)
  next
    case 3
    then have "f64_le (f64_round (- y)) (f64_round (- x))"
      using assms by (intro f64_round_mono_pos) auto
    then show ?thesis using f64_neg_mono by (fastforce simp flip: f64_round_minus)
  qed
qed

lemma f64_of_nat_exact:
  assumes "n < 2 ^ 53"
  shows "f64_of_nat n = Finite (of_nat n)"
proof (cases "n = 0")
  case True
  then show ?thesis by (simp add: f64_of_nat_def f64_round_def)
next
  case False
  have "(of_nat n :: rat) < of_nat (2 ^ 53)" using assms by (simp only: of_nat_less_iff)
  also have "\<dots> < 2 ^ 1024" by simp
  finally show ?thesis using False assms
    by (simp add: f64_of_nat_def f64_round_pos round_pos_nat)
qed

lemma f64_of_nat_mono: "m \<le> n \<Longrightarrow> f64_le (f64_of_nat m) (f64_of_nat n)"
  by (simp add: f64_of_nat_def f64_round_mono)

lemma f64_of_nat_nonneg: "f64_le (Finite 0) (f64_of_nat n)"
  by (simp add: f64_of_nat_def f64_round_nonneg)

lemma f64_round_int_exact:
  assumes "\<bar>k\<bar> < 2 ^ 53"
  shows "f64_round (of_int k) = Finite (of_int k)"
proof -
  have *: "f64_round (of_nat (nat \<bar>k\<bar>)) = Finite (of_nat (nat \<bar>k\<bar>))"
    using f64_of_nat_exact [of "nat \<bar>k\<bar>"] assms by (simp add: f64_of_nat_def nat_less_iff)
  show ?thesis
  proof (cases "0 \<le> k")
    case True
    with * show ?thesis by simp
  next
    case False
    with * have "f64_round (- of_int k) = Finite (- of_int k)" by simp
    then show ?thesis using f64_round_minus [of "of_int k"]
      by (cases "f64_round (of_int k)") auto
  qed
qed

lemma f64_add_mono: "f64_le a b \<Longrightarrow> f64_add a c \<noteq> NaN \<Longrightarrow> f64_add b c \<noteq> NaN
    \<Longrightarrow> f64_le (f64_add a c) (f64_add b c)"
  by (cases a; cases b; cases c) (auto intro: f64_round_mono split: if_splits)

lemma f64_add_comm: "f64_add a b = f64_add b a"
  by (cases a; cases b) (auto simp: add.commute)

lemma f64_round_finite:
  assumes "0 \<le> q" and "q \<le> 2 ^ 64"
  obtains r where "f64_round q = Finite r" and "0 \<le> r"
proof (cases "q = 0")
  case True
  then show ?thesis using that [of 0] by (simp add: f64_round_def)
next
  case False
  then have pos: "0 < q" using assms(1) by simp
  have "binade (2 ^ 64) = 64" by (rule binade_eqI) (simp_all add: power_int_def)
  then have "ulp (2 ^ 64) = 2 ^ 12" unfolding ulp_def by (simp only:) (simp add: power_int_def)
  then have "round_pos (2 ^ 64) = 2 ^ 64"
    by (intro round_pos_exact [where k = "2 ^ 52"]) simp
  then have "round_pos q \<le> 2 ^ 64" using round_pos_mono [OF pos assms(2)] by simp
  then have "round_pos q < 2 ^ 1024" by (rule order.strict_trans1) simp
  then show ?thesis using that [of "round_pos q"] f64_round_pos [OF pos] round_pos_nonneg [of q] pos by simp
qed

lemma f64_of_nat_finite:
  assumes "n \<le> usize_max"
  obtains r where "f64_of_nat n = Finite r" and "0 \<le> r"
proof -
  have "(of_nat n :: rat) \<le> of_nat (2 ^ 64)" using assms unfolding usize_max_def by (intro of_nat_mono) simp
  then show ?thesis using f64_round_finite [of "of_nat n"] that by (auto simp: f64_of_nat_def)
qed

lemma f64_mul_mono: "0 \<le> a \<Longrightarrow> p \<le> q \<Longrightarrow> f64_le (f64_mul (Finite a) (Finite p)) (f64_mul (Finite a) (Finite q))"
  by (simp add: f64_round_mono mult_left_mono)

lemma f64_mul_nonneg: "0 \<le> a \<Longrightarrow> 0 \<le> p \<Longrightarrow> f64_le (Finite 0) (f64_mul (Finite a) (Finite p))"
  by (simp add: f64_round_nonneg)

lemma f64_sub_not_NaN: "b \<noteq> NaN \<Longrightarrow> f64_sub (Finite p) b \<noteq> NaN"
  by (cases b) (simp_all add: f64_sub_def)

lemma f64_sub_antimono: "f64_le b c \<Longrightarrow> f64_le (f64_sub (Finite p) c) (f64_sub (Finite p) b)"
  by (cases b; cases c) (auto simp: f64_sub_def intro: f64_round_mono)

end
