(* ===== verification/Kv_Wire.thy ===== *)
theory Kv_Wire
  imports F64
begin

text \<open>
  The bounded decoder of \<^verbatim>\<open>src/kv_wire.rs\<close>: the KV-event data the index consumes and the
  validation of a raw batch. The MessagePack parser (crate \<open>rmp_serde\<close>) is the parameter
  \<open>from_slice\<close> of \<open>decode_batch\<close>; its result type is the source's \<open>RawBatch\<close>.
\<close>

section \<open>Data\<close>

type_synonym token_id = u32

record kv_wire_limits =
  max_payload_bytes :: nat
  max_events :: nat
  max_block_hashes :: nat
  wire_max_token_ids :: nat
  max_block_size :: nat
  max_hash_bytes :: nat

definition kv_wire_limits_default :: kv_wire_limits where
  "kv_wire_limits_default = \<lparr>max_payload_bytes = 16 * 1024 * 1024, max_events = 4096,
     max_block_hashes = 1048576, wire_max_token_ids = 4194304, max_block_size = 1048576,
     max_hash_bytes = 256\<rparr>"

datatype external_block_hash = Bytes "u8 list" | Signed "64 word" | Unsigned u64

record block_stored =
  block_hashes :: "external_block_hash list"
  parent_block_hash :: "external_block_hash option"
  token_ids :: "token_id list"
  block_size :: nat
  group_idx :: "u32 option"
  kv_cache_spec_kind :: "string option"
  kv_cache_spec_sliding_window :: "u64 option"
  medium :: "string option"
  locality :: "string option"
  lora_name :: "string option"
  cache_namespace :: "string option"
  has_extra_keys :: bool

record block_removed =
  rm_block_hashes :: "external_block_hash list"
  rm_group_idx :: "u32 option"
  rm_medium :: "string option"
  rm_locality :: "string option"

datatype kv_event = BlockStored block_stored | BlockRemoved block_removed | AllBlocksCleared

record kv_event_batch =
  timestamp :: f64
  events :: "kv_event list"
  data_parallel_rank :: "u32 option"

definition clears_all :: "kv_event_batch \<Rightarrow> bool" where
  "clears_all b \<longleftrightarrow> list_ex (\<lambda>e. case e of AllBlocksCleared \<Rightarrow> True | _ \<Rightarrow> False) (events b)"

datatype decode_error =
    PayloadTooLarge
  | InvalidMessagePack
  | InvalidTimestamp
  | InvalidDataParallelRank
  | TooManyEvents
  | TooManyBlockHashes
  | TooManyTokenIds
  | InvalidBlockHash
  | InvalidBlockSize
  | WireInconsistentBlockShape
  | InvalidGroupIndex

datatype raw_block_hash = RawBytes "u8 list" | RawSigned "64 word" | RawUnsigned u64

text \<open>
  \<open>i64\<close> fields are the integers a 64-bit two's-complement value denotes. \<open>raw_extra_keys\<close>
  keeps only which entries are present, as \<open>IgnoredAny\<close> does.
\<close>

record raw_block_stored =
  raw_block_hashes :: "raw_block_hash list"
  raw_parent_block_hash :: "raw_block_hash option"
  raw_token_ids :: "token_id list"
  raw_block_size :: nat
  raw_group_idx :: "int option"
  raw_kv_cache_spec_kind :: "string option"
  raw_kv_cache_spec_sliding_window :: "u64 option"
  raw_medium :: "string option"
  raw_locality :: "string option"
  raw_lora_name :: "string option"
  raw_cache_namespace :: "string option"
  raw_extra_keys :: "unit option list option"

record raw_block_removed =
  rawrm_block_hashes :: "raw_block_hash list"
  rawrm_group_idx :: "int option"
  rawrm_medium :: "string option"
  rawrm_locality :: "string option"

datatype raw_event = RawStored raw_block_stored | RawRemoved raw_block_removed | RawCleared

type_synonym raw_batch = "f64 \<times> raw_event list \<times> int option"

section \<open>Operations\<close>

definition validate_block_size :: "nat \<Rightarrow> nat \<Rightarrow> decode_error + unit" where
  "validate_block_size n mx = (if n = 0 \<or> mx < n then Inl InvalidBlockSize else Inr ())"

definition optional_u32 :: "int option \<Rightarrow> decode_error \<Rightarrow> decode_error + u32 option" where
  "optional_u32 v err = (case v of None \<Rightarrow> Inr None
     | Some n \<Rightarrow> if 0 \<le> n \<and> n < 2 ^ 32 then Inr (Some (word_of_int n)) else Inl err)"

definition checked_total :: "nat \<Rightarrow> nat \<Rightarrow> nat \<Rightarrow> decode_error \<Rightarrow> decode_error + nat" where
  "checked_total tot additional maximum err =
     (if tot + additional \<le> usize_max \<and> tot + additional \<le> maximum
      then Inr (tot + additional) else Inl err)"

fun convert_hash :: "raw_block_hash \<Rightarrow> nat \<Rightarrow> decode_error + external_block_hash" where
  "convert_hash (RawBytes bs) mx =
     (if bs = [] \<or> mx < length bs then Inl InvalidBlockHash else Inr (Bytes bs))"
| "convert_hash (RawSigned v) mx = Inr (Signed v)"
| "convert_hash (RawUnsigned v) mx = Inr (Unsigned v)"

fun convert_hashes :: "raw_block_hash list \<Rightarrow> nat \<Rightarrow> decode_error + external_block_hash list" where
  "convert_hashes [] mx = Inr []"
| "convert_hashes (h # hs) mx = (case convert_hash h mx of Inl e \<Rightarrow> Inl e
     | Inr h' \<Rightarrow> (case convert_hashes hs mx of Inl e \<Rightarrow> Inl e | Inr hs' \<Rightarrow> Inr (h' # hs')))"

text \<open>The running hash and token counts are threaded through, as the \<open>&mut\<close> parameters are.\<close>

definition convert_stored ::
  "raw_block_stored \<Rightarrow> kv_wire_limits \<Rightarrow> nat \<Rightarrow> nat \<Rightarrow> decode_error + kv_event \<times> nat \<times> nat" where
  "convert_stored raw limits hash_count token_count =
    (case validate_block_size (raw_block_size raw) (max_block_size limits) of Inl e \<Rightarrow> Inl e
     | Inr _ \<Rightarrow>
    (case checked_total hash_count (length (raw_block_hashes raw)) (max_block_hashes limits)
            TooManyBlockHashes of Inl e \<Rightarrow> Inl e
     | Inr hash_count' \<Rightarrow>
    (case checked_total token_count (length (raw_token_ids raw)) (wire_max_token_ids limits)
            TooManyTokenIds of Inl e \<Rightarrow> Inl e
     | Inr token_count' \<Rightarrow>
    (case convert_hashes (raw_block_hashes raw) (max_hash_bytes limits) of Inl e \<Rightarrow> Inl e
     | Inr hashes \<Rightarrow>
    (case (case raw_parent_block_hash raw of None \<Rightarrow> Inr None
           | Some h \<Rightarrow> (case convert_hash h (max_hash_bytes limits) of Inl e \<Rightarrow> Inl e
                        | Inr h' \<Rightarrow> Inr (Some h'))) of Inl e \<Rightarrow> Inl e
     | Inr parent \<Rightarrow>
    (case optional_u32 (raw_group_idx raw) InvalidGroupIndex of Inl e \<Rightarrow> Inl e
     | Inr grp \<Rightarrow>
       Inr (BlockStored \<lparr>block_hashes = hashes, parent_block_hash = parent,
              token_ids = raw_token_ids raw, block_size = raw_block_size raw, group_idx = grp,
              kv_cache_spec_kind = raw_kv_cache_spec_kind raw,
              kv_cache_spec_sliding_window = raw_kv_cache_spec_sliding_window raw,
              medium = raw_medium raw, locality = raw_locality raw,
              lora_name = raw_lora_name raw, cache_namespace = raw_cache_namespace raw,
              has_extra_keys = (case raw_extra_keys raw of None \<Rightarrow> False
                                | Some keys \<Rightarrow> list_ex (\<lambda>k. k \<noteq> None) keys)\<rparr>,
            hash_count', token_count')))))))"

definition convert_removed ::
  "raw_block_removed \<Rightarrow> kv_wire_limits \<Rightarrow> nat \<Rightarrow> decode_error + kv_event \<times> nat" where
  "convert_removed raw limits hash_count =
    (if rawrm_block_hashes raw = [] then Inl InvalidBlockHash
     else
    (case checked_total hash_count (length (rawrm_block_hashes raw)) (max_block_hashes limits)
            TooManyBlockHashes of Inl e \<Rightarrow> Inl e
     | Inr hash_count' \<Rightarrow>
    (case convert_hashes (rawrm_block_hashes raw) (max_hash_bytes limits) of Inl e \<Rightarrow> Inl e
     | Inr hashes \<Rightarrow>
    (case optional_u32 (rawrm_group_idx raw) InvalidGroupIndex of Inl e \<Rightarrow> Inl e
     | Inr grp \<Rightarrow>
       Inr (BlockRemoved \<lparr>rm_block_hashes = hashes, rm_group_idx = grp,
              rm_medium = rawrm_medium raw, rm_locality = rawrm_locality raw\<rparr>, hash_count')))))"

fun convert_events ::
  "raw_event list \<Rightarrow> kv_wire_limits \<Rightarrow> nat \<Rightarrow> nat \<Rightarrow> decode_error + kv_event list" where
  "convert_events [] limits hc tc = Inr []"
| "convert_events (r # rs) limits hc tc =
    (case (case r of
             RawStored s \<Rightarrow> convert_stored s limits hc tc
           | RawRemoved s \<Rightarrow> (case convert_removed s limits hc of Inl e \<Rightarrow> Inl e
                              | Inr (ev, hc') \<Rightarrow> Inr (ev, hc', tc))
           | RawCleared \<Rightarrow> Inr (AllBlocksCleared, hc, tc)) of
       Inl e \<Rightarrow> Inl e
     | Inr (ev, hc', tc') \<Rightarrow>
        (case convert_events rs limits hc' tc' of Inl e \<Rightarrow> Inl e | Inr evs \<Rightarrow> Inr (ev # evs)))"

definition decode_batch ::
  "(u8 list \<Rightarrow> raw_batch option) \<Rightarrow> u8 list \<Rightarrow> kv_wire_limits \<Rightarrow> decode_error + kv_event_batch" where
  "decode_batch from_slice payload limits =
    (if max_payload_bytes limits < length payload then Inl PayloadTooLarge
     else case from_slice payload of None \<Rightarrow> Inl InvalidMessagePack
     | Some (ts, raw_events, raw_rank) \<Rightarrow>
        if \<not> is_finite ts then Inl InvalidTimestamp
        else if max_events limits < length raw_events then Inl TooManyEvents
        else case optional_u32 raw_rank InvalidDataParallelRank of Inl e \<Rightarrow> Inl e
        | Inr rank \<Rightarrow>
           (case convert_events raw_events limits 0 0 of Inl e \<Rightarrow> Inl e
            | Inr evs \<Rightarrow> Inr \<lparr>timestamp = ts, events = evs, data_parallel_rank = rank\<rparr>))"

section \<open>What an accepted batch satisfies\<close>

fun event_hashes :: "kv_event \<Rightarrow> external_block_hash list" where
  "event_hashes (BlockStored s) = block_hashes s"
| "event_hashes (BlockRemoved r) = rm_block_hashes r"
| "event_hashes AllBlocksCleared = []"

fun event_tokens :: "kv_event \<Rightarrow> token_id list" where
  "event_tokens (BlockStored s) = token_ids s"
| "event_tokens _ = []"

text \<open>The bounds the configured limits promise for one event.\<close>

fun event_bounded :: "kv_wire_limits \<Rightarrow> kv_event \<Rightarrow> bool" where
  "event_bounded limits (BlockStored s) \<longleftrightarrow>
     0 < block_size s \<and> block_size s \<le> max_block_size limits \<and>
     (\<forall>h \<in> set (block_hashes s) \<union> set_option (parent_block_hash s).
        case h of Bytes bs \<Rightarrow> bs \<noteq> [] \<and> length bs \<le> max_hash_bytes limits | _ \<Rightarrow> True)"
| "event_bounded limits (BlockRemoved r) \<longleftrightarrow>
     rm_block_hashes r \<noteq> [] \<and>
     (\<forall>h \<in> set (rm_block_hashes r).
        case h of Bytes bs \<Rightarrow> bs \<noteq> [] \<and> length bs \<le> max_hash_bytes limits | _ \<Rightarrow> True)"
| "event_bounded limits AllBlocksCleared \<longleftrightarrow> True"

lemma convert_hash_bounded:
  "convert_hash r mx = Inr h \<Longrightarrow>
     case h of Bytes bs \<Rightarrow> bs \<noteq> [] \<and> length bs \<le> mx | _ \<Rightarrow> True"
  by (cases r) (auto split: if_splits)

lemma convert_hashes_bounded:
  "convert_hashes rs mx = Inr hs \<Longrightarrow> length hs = length rs \<and>
     (\<forall>h \<in> set hs. case h of Bytes bs \<Rightarrow> bs \<noteq> [] \<and> length bs \<le> mx | _ \<Rightarrow> True)"
proof (induction rs arbitrary: hs)
  case (Cons r rs)
  then obtain h hs' where "convert_hash r mx = Inr h" "convert_hashes rs mx = Inr hs'"
    "hs = h # hs'" by (auto split: sum.splits)
  with Cons.IH [of hs'] convert_hash_bounded [of r mx h] show ?case by simp
qed simp

lemma checked_total_Inr: "checked_total t a m e = Inr n \<longleftrightarrow>
    n = t + a \<and> t + a \<le> usize_max \<and> t + a \<le> m"
  by (auto simp: checked_total_def)

lemma convert_stored_Inr:
  assumes "convert_stored raw limits hc tc = Inr (ev, hc', tc')"
  shows "event_bounded limits ev \<and> hc' = hc + length (event_hashes ev) \<and>
    tc' = tc + length (event_tokens ev) \<and> hc' \<le> max_block_hashes limits \<and>
    tc' \<le> wire_max_token_ids limits"
  using assms
  by (auto simp: convert_stored_def validate_block_size_def checked_total_Inr
      split: sum.splits option.splits if_splits
      dest!: convert_hashes_bounded convert_hash_bounded)

lemma convert_removed_Inr:
  assumes "convert_removed raw limits hc = Inr (ev, hc')"
  shows "event_bounded limits ev \<and> hc' = hc + length (event_hashes ev) \<and>
    event_tokens ev = [] \<and> hc' \<le> max_block_hashes limits"
  using assms
  by (auto simp: convert_removed_def checked_total_Inr split: sum.splits if_splits
      dest!: convert_hashes_bounded)

lemma convert_events_Inr:
  assumes "convert_events rs limits hc tc = Inr evs"
    and "hc \<le> max_block_hashes limits" and "tc \<le> wire_max_token_ids limits"
  shows "length evs = length rs \<and> (\<forall>e \<in> set evs. event_bounded limits e) \<and>
    hc + length (concat (map event_hashes evs)) \<le> max_block_hashes limits \<and>
    tc + length (concat (map event_tokens evs)) \<le> wire_max_token_ids limits"
  using assms
proof (induction rs arbitrary: hc tc evs)
  case (Cons r rs)
  obtain ev hc' tc' evs' where step: "(case r of
             RawStored s \<Rightarrow> convert_stored s limits hc tc
           | RawRemoved s \<Rightarrow> (case convert_removed s limits hc of Inl e \<Rightarrow> Inl e
                              | Inr (ev, hc') \<Rightarrow> Inr (ev, hc', tc))
           | RawCleared \<Rightarrow> Inr (AllBlocksCleared, hc, tc)) = Inr (ev, hc', tc')"
    and rest: "convert_events rs limits hc' tc' = Inr evs'" and evs: "evs = ev # evs'"
    using Cons.prems(1) by (auto split: sum.splits)
  have ev: "event_bounded limits ev \<and> hc' = hc + length (event_hashes ev) \<and>
      tc' = tc + length (event_tokens ev) \<and> hc' \<le> max_block_hashes limits \<and>
      tc' \<le> wire_max_token_ids limits"
    using step Cons.prems(2,3)
    by (cases r) (auto dest: convert_stored_Inr convert_removed_Inr split: sum.splits)
  with Cons.IH [OF rest] evs show ?case by auto
qed simp

lemma decode_batch_Inr:
  assumes "decode_batch from_slice payload limits = Inr b"
  shows "length (events b) \<le> max_events limits"
    and "\<And>e. e \<in> set (events b) \<Longrightarrow> event_bounded limits e"
    and "length (concat (map event_hashes (events b))) \<le> max_block_hashes limits"
    and "length (concat (map event_tokens (events b))) \<le> wire_max_token_ids limits"
  using assms by (auto simp: decode_batch_def split: if_splits option.splits sum.splits
      dest!: convert_events_Inr)

section \<open>Properties\<close>

text \<open>
  C18. Decoding is bounded: whatever the MessagePack parser returns, an accepted batch obeys the
  configured limits, on the payload, the number of events, the total number of hashes and of tokens
  over all its events, and in every event the block size and the length of each byte-string hash.
\<close>

theorem decode_batch_bounded:
  assumes "decode_batch from_slice payload limits = Inr b"
  shows "length payload \<le> max_payload_bytes limits \<and> is_finite (timestamp b) \<and>
    length (events b) \<le> max_events limits \<and>
    length (concat (map event_hashes (events b))) \<le> max_block_hashes limits \<and>
    length (concat (map event_tokens (events b))) \<le> wire_max_token_ids limits \<and>
    (\<forall>e \<in> set (events b). event_bounded limits e)"
proof -
  have "length payload \<le> max_payload_bytes limits \<and> is_finite (timestamp b)"
    using assms by (auto simp: decode_batch_def split: if_splits option.splits sum.splits)
  with decode_batch_Inr [OF assms] show ?thesis by blast
qed

theorem decode_batch_bounded_witness:
  "\<exists>b. decode_batch (\<lambda>_. Some (Finite 1, [RawCleared], Some 3)) [0x93] kv_wire_limits_default = Inr b \<and>
     length (events b) \<le> max_events kv_wire_limits_default"
proof -
  obtain b where b: "decode_batch (\<lambda>_. Some (Finite 1, [RawCleared], Some 3)) [0x93]
      kv_wire_limits_default = Inr b"
    by (simp add: decode_batch_def kv_wire_limits_default_def is_finite_def optional_u32_def)
  with decode_batch_bounded [OF b] show ?thesis by blast
qed

end
