(* ===== verification/Exact_Index.thy ===== *)
theory Exact_Index
  imports Kv_Wire "HOL-Library.Sublist"
begin

text \<open>
  The bounded per-engine inventory of \<^verbatim>\<open>src/exact_index.rs\<close>, \<open>ExactKvIndex\<close>: an arena of trie
  nodes addressed by index, a free list, and a reverse map from engine block hashes to nodes. A
  \<open>HashMap\<close> is an association list read with \<open>map_of\<close> and written with \<open>AList.update\<close> and
  \<open>AList.delete\<close>; no modelled operation depends on its iteration order.

  The outer \<open>option\<close> of every operation that dereferences a node is \<open>None\<close> where the source
  panics (\<open>expect("live exact index node")\<close>, an index out of range, an arithmetic underflow) or
  does not return; \<^verbatim>\<open>Exact_Index_Proofs\<close> shows that this never happens to a well-formed index.
\<close>

section \<open>Data\<close>

definition root_node :: nat where
  "root_node = 0"

record exact_index_limits =
  max_nodes :: nat
  max_token_ids :: nat
  max_lookup_steps :: nat

definition exact_index_limits_default :: exact_index_limits where
  "exact_index_limits_default =
     \<lparr>max_nodes = 131072, max_token_ids = 16777216, max_lookup_steps = 131072\<rparr>"

record exact_match =
  em_blocks :: nat
  em_token_ids :: nat

record exact_index_stats =
  st_nodes :: nat
  st_token_ids :: nat
  st_external_hashes :: nat

datatype exact_index_error =
    InconsistentBlockShape
  | ParentNotFound
  | DuplicateHash
  | ConflictingPath
  | ConflictingGroupKind
  | CapacityExceeded
  | LookupBudgetExceeded

record node =
  parent :: "nat option"
  block :: "token_id list"
  children :: "(token_id list \<times> nat) list"
  child_lengths :: "nat list"
  external_hash :: "external_block_hash option"
  present :: bool

definition node_root :: node where
  "node_root = \<lparr>parent = None, block = [], children = [], child_lengths = [],
     external_hash = None, present = True\<rparr>"

record exact_kv_index =
  limits :: exact_index_limits
  nodes :: "node option list"
  free_nodes :: "nat list"
  by_external_hash :: "(external_block_hash \<times> nat) list"
  live_nodes :: nat
  resident_token_ids :: nat

section \<open>Operations\<close>

definition index_new :: "exact_index_limits \<Rightarrow> exact_kv_index" where
  "index_new l = \<lparr>limits = l, nodes = [Some node_root], free_nodes = [], by_external_hash = [],
     live_nodes = 0, resident_token_ids = 0\<rparr>"

definition index_clear :: "exact_kv_index \<Rightarrow> exact_kv_index" where
  "index_clear ix = ix\<lparr>nodes := [Some node_root], free_nodes := [], by_external_hash := [],
     live_nodes := 0, resident_token_ids := 0\<rparr>"

definition index_stats :: "exact_kv_index \<Rightarrow> exact_index_stats" where
  "index_stats ix = \<lparr>st_nodes = live_nodes ix, st_token_ids = resident_token_ids ix,
     st_external_hashes = length (by_external_hash ix)\<rparr>"

definition node_at :: "exact_kv_index \<Rightarrow> nat \<Rightarrow> node option" where
  "node_at ix i = (case get (nodes ix) i of None \<Rightarrow> None | Some n \<Rightarrow> n)"

definition put_node :: "nat \<Rightarrow> node option \<Rightarrow> exact_kv_index \<Rightarrow> exact_kv_index" where
  "put_node i n ix = ix\<lparr>nodes := (nodes ix)[i := n]\<rparr>"

definition allocate_node :: "node \<Rightarrow> exact_kv_index \<Rightarrow> (exact_kv_index \<times> nat) option" where
  "allocate_node n ix =
     (if free_nodes ix \<noteq> [] then
        let node_id = last (free_nodes ix);
            ix' = ix\<lparr>free_nodes := butlast (free_nodes ix)\<rparr>
        in if node_id < length (nodes ix) then Some (put_node node_id (Some n) ix', node_id) else None
      else Some (ix\<lparr>nodes := nodes ix @ [Some n]\<rparr>, length (nodes ix)))"

text \<open>\<open>child_lengths\<close> holds each length once, longest first.\<close>

definition add_length :: "nat \<Rightarrow> nat list \<Rightarrow> nat list" where
  "add_length l ls = (if l \<in> set ls then ls else rev (sort (ls @ [l])))"

definition insert_child ::
  "nat \<Rightarrow> token_id list \<Rightarrow> external_block_hash \<Rightarrow> exact_kv_index \<Rightarrow> (exact_kv_index \<times> nat) option"
where
  "insert_child parent_id chunk h ix =
    Option.bind (allocate_node \<lparr>parent = Some parent_id, block = chunk, children = [],
        child_lengths = [], external_hash = Some h, present = True\<rparr> ix) (\<lambda>(ix1, node_id).
    Option.bind (node_at ix1 parent_id) (\<lambda>p.
      Some ((put_node parent_id (Some (p\<lparr>children := AList.update chunk node_id (children p),
               child_lengths := add_length (length chunk) (child_lengths p)\<rparr>)) ix1)
              \<lparr>live_nodes := live_nodes ix1 + 1,
               resident_token_ids := resident_token_ids ix1 + length chunk\<rparr>, node_id)))"

text \<open>The walk over the part of the path that exists already: \<open>(first_new, existing_path)\<close>.\<close>

fun scan_path ::
  "exact_kv_index \<Rightarrow> nat \<Rightarrow> nat \<Rightarrow> (token_id list \<times> external_block_hash) list \<Rightarrow> nat \<Rightarrow> nat list
    \<Rightarrow> (exact_index_error + nat \<times> nat list) option" where
  "scan_path ix first_new pos [] cursor path = Some (Inr (first_new, path))"
| "scan_path ix first_new pos ((chunk, h) # rest) cursor path =
    Option.bind (node_at ix cursor) (\<lambda>n.
      case map_of (children n) chunk of
        None \<Rightarrow> Some (Inr (pos, path))
      | Some child_id \<Rightarrow>
          Option.bind (node_at ix child_id) (\<lambda>child.
            if external_hash child \<noteq> Some h then Some (Inl ConflictingPath)
            else if (case map_of (by_external_hash ix) h of None \<Rightarrow> False | Some e \<Rightarrow> e \<noteq> child_id)
            then Some (Inl ConflictingPath)
            else scan_path ix first_new (Suc pos) rest child_id (path @ [child_id])))"

fun hash_conflict :: "exact_kv_index \<Rightarrow> nat list \<Rightarrow> nat \<Rightarrow> external_block_hash list \<Rightarrow> bool" where
  "hash_conflict ix path pos [] = False"
| "hash_conflict ix path pos (h # hs) =
     ((case map_of (by_external_hash ix) h of None \<Rightarrow> False | Some e \<Rightarrow> get path pos \<noteq> Some e)
      \<or> hash_conflict ix path (Suc pos) hs)"

fun checked_sum :: "nat \<Rightarrow> nat list \<Rightarrow> nat option" where
  "checked_sum acc [] = Some acc"
| "checked_sum acc (x # xs) = (if acc + x \<le> usize_max then checked_sum (acc + x) xs else None)"

text \<open>One iteration of the loop that attaches the path: the index and the next cursor.\<close>

definition attach_one ::
  "nat \<Rightarrow> token_id list \<Rightarrow> external_block_hash \<Rightarrow> exact_kv_index \<Rightarrow> (exact_kv_index \<times> nat) option"
where
  "attach_one cursor chunk h ix =
    Option.bind (node_at ix cursor) (\<lambda>n.
    Option.bind (case map_of (children n) chunk of
        Some existing \<Rightarrow> Some (ix, existing)
      | None \<Rightarrow> insert_child cursor chunk h ix) (\<lambda>(ix1, child_id).
    Option.bind (node_at ix1 child_id) (\<lambda>child.
      let ix2 = put_node child_id (Some (child\<lparr>present := True, external_hash := Some h\<rparr>)) ix1
      in Some (ix2\<lparr>by_external_hash := AList.update h child_id (by_external_hash ix2)\<rparr>, child_id))))"

fun attach_path ::
  "nat \<Rightarrow> (token_id list \<times> external_block_hash) list \<Rightarrow> exact_kv_index \<Rightarrow> exact_kv_index option"
where
  "attach_path cursor [] ix = Some ix"
| "attach_path cursor ((chunk, h) # rest) ix =
    Option.bind (attach_one cursor chunk h ix) (\<lambda>(ix', child_id). attach_path child_id rest ix')"

definition store_parent :: "exact_kv_index \<Rightarrow> block_stored \<Rightarrow> nat option" where
  "store_parent ix event = (case parent_block_hash event of
       Some p \<Rightarrow> map_of (by_external_hash ix) p
     | None \<Rightarrow> Some root_node)"

definition index_store ::
  "block_stored \<Rightarrow> exact_kv_index \<Rightarrow> (exact_index_error + exact_kv_index \<times> nat) option" where
  "index_store event ix =
    (if block_size event = 0 \<or> token_ids event = [] \<or> block_hashes event = [] \<or>
        div_ceil (length (token_ids event)) (block_size event) \<noteq> length (block_hashes event)
     then Some (Inl InconsistentBlockShape)
     else case store_parent ix event of
       None \<Rightarrow> Some (Inl ParentNotFound)
     | Some parent_id \<Rightarrow>
        if \<not> distinct ((case parent_block_hash event of None \<Rightarrow> [] | Some p \<Rightarrow> [p])
                        @ block_hashes event)
        then Some (Inl DuplicateHash)
        else
          let cs = chunks (block_size event) (token_ids event) in
          Option.bind (scan_path ix (length cs) 0 (zip cs (block_hashes event)) parent_id [])
            (\<lambda>r. case r of
               Inl e \<Rightarrow> Some (Inl e)
             | Inr (first_new, path) \<Rightarrow>
                if hash_conflict ix path 0 (block_hashes event) then Some (Inl ConflictingPath)
                else
                  let new_nodes = length cs - first_new in
                  (case checked_sum 0 (map length (drop first_new cs)) of
                     None \<Rightarrow> Some (Inl CapacityExceeded)
                   | Some new_token_ids \<Rightarrow>
                      if max_nodes (limits ix) < sat_add (live_nodes ix) new_nodes
                         \<or> max_token_ids (limits ix) < sat_add (resident_token_ids ix) new_token_ids
                      then Some (Inl CapacityExceeded)
                      else map_option (\<lambda>ix'. Inr (ix', length (block_hashes event)))
                             (attach_path parent_id (zip cs (block_hashes event)) ix))))"

text \<open>
  Each iteration of \<open>prune_from\<close> takes one node out of the arena, so the number of live slots
  decreases.
\<close>

abbreviation live_slots :: "exact_kv_index \<Rightarrow> nat" where
  "live_slots ix \<equiv> length (filter (\<lambda>n. n \<noteq> None) (nodes ix))"

definition unlink_node :: "nat \<Rightarrow> exact_kv_index \<Rightarrow> (exact_kv_index \<times> nat) option" where
  "unlink_node node_id ix =
    Option.bind (node_at ix node_id) (\<lambda>n.
    Option.bind (parent n) (\<lambda>parent_id.
      let ix1 = put_node node_id None ix in
    Option.bind (node_at ix1 parent_id) (\<lambda>p.
      if live_nodes ix = 0 \<or> resident_token_ids ix < length (block n) then None
      else Some ((put_node parent_id (Some (p\<lparr>children := AList.delete (block n) (children p)\<rparr>)) ix1)
                   \<lparr>live_nodes := live_nodes ix - 1,
                    resident_token_ids := resident_token_ids ix - length (block n),
                    free_nodes := free_nodes ix @ [node_id]\<rparr>, parent_id))))"

lemma live_slots_update_Some:
  "i < length xs \<Longrightarrow> xs ! i \<noteq> None \<Longrightarrow> m \<noteq> None \<Longrightarrow>
    length (filter (\<lambda>n. n \<noteq> None) (xs[i := m])) = length (filter (\<lambda>n. n \<noteq> None) xs)"
  by (induction xs arbitrary: i) (auto split: nat.splits)

lemma live_slots_update_None:
  "i < length xs \<Longrightarrow> xs ! i \<noteq> None \<Longrightarrow>
    Suc (length (filter (\<lambda>n. n \<noteq> None) (xs[i := None]))) = length (filter (\<lambda>n. n \<noteq> None) xs)"
  by (induction xs arbitrary: i) (auto split: nat.splits)

lemma unlink_node_slots:
  "unlink_node i ix = Some (ix', p) \<Longrightarrow> live_slots ix' < live_slots ix"
proof -
  assume un: "unlink_node i ix = Some (ix', p)"
  then obtain n pn where n: "node_at ix i = Some n"
    and pn: "node_at (put_node i None ix) p = Some pn"
    and ix': "nodes ix' = (nodes ix)[i := None, p := Some (pn\<lparr>children := AList.delete (block n) (children pn)\<rparr>)]"
    by (auto simp: unlink_node_def Let_def put_node_def bind_eq_Some_conv split: if_splits)
  have i: "i < length (nodes ix)" "nodes ix ! i \<noteq> None"
    using n by (auto simp: node_at_def get_def split: if_splits)
  have p: "p < length (nodes ix)" "(nodes ix)[i := None] ! p \<noteq> None"
    using pn by (auto simp: node_at_def get_def put_node_def split: if_splits)
  have "length (filter (\<lambda>n. n \<noteq> None) (nodes ix')) =
      length (filter (\<lambda>n. n \<noteq> None) ((nodes ix)[i := None]))"
    unfolding ix' using p by (intro live_slots_update_Some) auto
  with live_slots_update_None [OF i] show ?thesis by simp
qed

function prune_from :: "nat \<Rightarrow> exact_kv_index \<Rightarrow> exact_kv_index option" where
  "prune_from node_id ix =
    (if node_id = root_node then Some ix
     else case node_at ix node_id of
       None \<Rightarrow> None
     | Some n \<Rightarrow>
        if present n \<or> children n \<noteq> [] then Some ix
        else case unlink_node node_id ix of
          None \<Rightarrow> None
        | Some (ix', parent_id) \<Rightarrow> prune_from parent_id ix')"
  by pat_completeness auto
termination
  by (relation "measure (\<lambda>(i, ix). live_slots ix)") (auto dest: unlink_node_slots)

declare prune_from.simps [simp del]

fun remove_hashes ::
  "external_block_hash list \<Rightarrow> nat \<Rightarrow> exact_kv_index \<Rightarrow> (exact_kv_index \<times> nat) option" where
  "remove_hashes [] removed ix = Some (ix, removed)"
| "remove_hashes (h # hs) removed ix =
    (case map_of (by_external_hash ix) h of
       None \<Rightarrow> remove_hashes hs removed ix
     | Some node_id \<Rightarrow>
        let ix1 = ix\<lparr>by_external_hash := AList.delete h (by_external_hash ix)\<rparr> in
        Option.bind (node_at ix1 node_id) (\<lambda>n.
          if \<not> present n \<or> external_hash n \<noteq> Some h then remove_hashes hs removed ix1
          else
            Option.bind (prune_from node_id (put_node node_id (Some (n\<lparr>present := False\<rparr>)) ix1))
              (\<lambda>ix2. remove_hashes hs (Suc removed) ix2)))"

definition index_remove :: "block_removed \<Rightarrow> exact_kv_index \<Rightarrow> (exact_kv_index \<times> nat) option" where
  "index_remove event ix = remove_hashes (rm_block_hashes event) 0 ix"

text \<open>One pass over the child lengths of the popped node: the new step count and stack.\<close>

fun expand ::
  "exact_kv_index \<Rightarrow> token_id list \<Rightarrow> node \<Rightarrow> nat \<Rightarrow> nat \<Rightarrow> nat list \<Rightarrow> nat \<Rightarrow> (nat \<times> nat \<times> nat) list
    \<Rightarrow> (exact_index_error + nat \<times> (nat \<times> nat \<times> nat) list) option" where
  "expand ix toks n offset blocks [] steps stack = Some (Inr (steps, stack))"
| "expand ix toks n offset blocks (l # ls) steps stack =
    (let steps' = sat_add steps 1 in
     if max_lookup_steps (limits ix) < steps' then Some (Inl LookupBudgetExceeded)
     else if usize_max < offset + l \<or> length toks < offset + l
     then expand ix toks n offset blocks ls steps' stack
     else case map_of (children n) (take l (drop offset toks)) of
       None \<Rightarrow> expand ix toks n offset blocks ls steps' stack
     | Some child_id \<Rightarrow>
        Option.bind (node_at ix child_id) (\<lambda>c.
          expand ix toks n offset blocks ls steps'
            (if present c then stack @ [(child_id, offset + l, blocks + 1)] else stack)))"

definition better :: "exact_match \<Rightarrow> nat \<Rightarrow> nat \<Rightarrow> exact_match" where
  "better best offset blocks =
     (if em_token_ids best < offset \<or> (offset = em_token_ids best \<and> em_blocks best < blocks)
      then \<lparr>em_blocks = blocks, em_token_ids = offset\<rparr> else best)"

text \<open>The work-list loop; \<open>None\<close> is a panic or a loop that does not end.\<close>

partial_function (option) lookup_loop ::
  "exact_kv_index \<Rightarrow> token_id list \<Rightarrow> (nat \<times> nat \<times> nat) list \<Rightarrow> nat \<Rightarrow> exact_match
    \<Rightarrow> (exact_index_error + exact_match) option" where
  "lookup_loop ix toks stack steps best =
    (if stack = [] then Some (Inr best)
     else
       let (node_id, offset, blocks) = last stack;
           best' = better best offset blocks
       in Option.bind (node_at ix node_id) (\<lambda>n.
          Option.bind (expand ix toks n offset blocks (child_lengths n) steps (butlast stack)) (\<lambda>r.
            case r of Inl e \<Rightarrow> Some (Inl e)
            | Inr (steps', stack') \<Rightarrow> lookup_loop ix toks stack' steps' best')))"

definition index_find_longest ::
  "token_id list \<Rightarrow> exact_kv_index \<Rightarrow> (exact_index_error + exact_match) option" where
  "index_find_longest toks ix =
     lookup_loop ix toks [(root_node, 0, 0)] 0 \<lparr>em_blocks = 0, em_token_ids = 0\<rparr>"

end
