(* ===== verification/Exact_Trie.thy ===== *)
theory Exact_Trie
  imports Exact_Index
begin

text \<open>
  The trie inside the arena of \<open>ExactKvIndex\<close>, seen as a partial map from node identifiers to
  nodes and a partial map from block hashes to node identifiers. This theory states the structural
  invariant, the paths it defines, the abstract contents (which hash names which path) and how the
  four elementary arena updates change them. \<^verbatim>\<open>Exact_Index_Proofs\<close> lifts them to the operations.
\<close>

type_synonym arena = "nat \<Rightarrow> node option"
type_synonym hash_map = "external_block_hash \<Rightarrow> nat option"

section \<open>Paths and the invariant\<close>

inductive reach :: "arena \<Rightarrow> nat \<Rightarrow> token_id list list \<Rightarrow> bool" for N :: arena where
  reach_root: "reach N root_node []"
| reach_child: "reach N p ps \<Longrightarrow> N p = Some pn \<Longrightarrow> map_of (children pn) c = Some i
    \<Longrightarrow> reach N i (ps @ [c])"

inductive_cases reach_snocE: "reach N i (ps @ [c])"
inductive_cases reach_NilE: "reach N i []"

definition trie_root :: "arena \<Rightarrow> bool" where
  "trie_root N \<longleftrightarrow> (\<exists>r. N root_node = Some r \<and> parent r = None \<and> block r = [] \<and> present r \<and>
     external_hash r = None)"

definition trie_up :: "arena \<Rightarrow> bool" where
  "trie_up N \<longleftrightarrow> (\<forall>i n. i \<noteq> root_node \<and> N i = Some n \<longrightarrow>
     block n \<noteq> [] \<and> external_hash n \<noteq> None \<and>
     (\<exists>p pn. parent n = Some p \<and> N p = Some pn \<and> map_of (children pn) (block n) = Some i))"

definition trie_down :: "arena \<Rightarrow> bool" where
  "trie_down N \<longleftrightarrow> (\<forall>p pn c i. N p = Some pn \<and> map_of (children pn) c = Some i \<longrightarrow>
     i \<noteq> root_node \<and> length c \<in> set (child_lengths pn) \<and>
     (\<exists>n. N i = Some n \<and> parent n = Some p \<and> block n = c))"

definition trie_hash :: "arena \<Rightarrow> hash_map \<Rightarrow> bool" where
  "trie_hash N B \<longleftrightarrow>
     (\<forall>h i. B h = Some i \<longrightarrow> i \<noteq> root_node \<and>
        (\<exists>n. N i = Some n \<and> present n \<and> external_hash n = Some h)) \<and>
     (\<forall>i n h. i \<noteq> root_node \<and> N i = Some n \<and> present n \<and> external_hash n = Some h
        \<longrightarrow> B h = Some i)"

definition trie_reach :: "arena \<Rightarrow> bool" where
  "trie_reach N \<longleftrightarrow> (\<forall>i n. N i = Some n \<longrightarrow> (\<exists>ps. reach N i ps))"

text \<open>Every absent node outside \<open>X\<close> still carries children: nothing dead is retained.\<close>

definition trie_tight :: "nat set \<Rightarrow> arena \<Rightarrow> bool" where
  "trie_tight X N \<longleftrightarrow> (\<forall>i n. i \<noteq> root_node \<and> i \<notin> X \<and> N i = Some n \<and> \<not> present n
     \<longrightarrow> children n \<noteq> [])"

definition trie_wf :: "nat set \<Rightarrow> arena \<Rightarrow> hash_map \<Rightarrow> bool" where
  "trie_wf X N B \<longleftrightarrow> trie_root N \<and> trie_up N \<and> trie_down N \<and> trie_hash N B \<and> trie_reach N \<and>
     trie_tight X N"

lemmas trie_defs = trie_wf_def trie_root_def trie_up_def trie_down_def trie_hash_def
  trie_reach_def trie_tight_def

text \<open>The abstract contents: each resident hash with the chunk path it names.\<close>

definition contents :: "arena \<Rightarrow> hash_map \<Rightarrow> (external_block_hash \<times> token_id list list) set" where
  "contents N B = {(h, ps). \<exists>i. B h = Some i \<and> reach N i ps}"

text \<open>The invariant, clause by clause.\<close>

lemma trie_upD:
  assumes "trie_wf X N B" and "N i = Some n" and "i \<noteq> root_node"
  obtains p pn h where "parent n = Some p" "N p = Some pn" "map_of (children pn) (block n) = Some i"
    "block n \<noteq> []" "external_hash n = Some h"
  using assms unfolding trie_wf_def trie_up_def by blast

lemma trie_downD:
  assumes "trie_wf X N B" and "N p = Some pn" and "map_of (children pn) c = Some i"
  obtains n where "N i = Some n" "parent n = Some p" "block n = c" "i \<noteq> root_node"
    "length c \<in> set (child_lengths pn)"
  using assms unfolding trie_wf_def trie_down_def by blast

lemma trie_hashD:
  assumes "trie_wf X N B" and "B h = Some i"
  obtains n where "N i = Some n" "present n" "external_hash n = Some h" "i \<noteq> root_node"
  using assms unfolding trie_wf_def trie_hash_def by blast

lemma trie_presentD:
  "trie_wf X N B \<Longrightarrow> N i = Some n \<Longrightarrow> i \<noteq> root_node \<Longrightarrow> present n \<Longrightarrow> external_hash n = Some h
    \<Longrightarrow> B h = Some i"
  unfolding trie_wf_def trie_hash_def by blast

lemma trie_rootD:
  assumes "trie_wf X N B"
  obtains r where "N root_node = Some r" "parent r = None" "block r = []" "present r"
    "external_hash r = None"
  using assms unfolding trie_wf_def trie_root_def by blast

lemma trie_reachD:
  assumes "trie_wf X N B" and "N i = Some n"
  obtains ps where "reach N i ps"
  using assms unfolding trie_wf_def trie_reach_def by blast

lemma trie_tightD:
  "trie_wf X N B \<Longrightarrow> N i = Some n \<Longrightarrow> i \<noteq> root_node \<Longrightarrow> i \<notin> X \<Longrightarrow> \<not> present n \<Longrightarrow> children n \<noteq> []"
  unfolding trie_wf_def trie_tight_def by blast

section \<open>Paths are unique\<close>

lemma reach_live:
  assumes "trie_wf X N B" and "reach N i ps"
  shows "N i \<noteq> None"
  using assms(2)
proof (cases rule: reach.cases)
  case reach_root
  then show ?thesis using trie_rootD [OF assms(1)] by (metis option.distinct(1))
next
  case (reach_child p ps pn c)
  then show ?thesis using trie_downD [OF assms(1)] by (metis option.distinct(1))
qed

lemma reach_same_node: "reach N i ps \<Longrightarrow> reach N j ps \<Longrightarrow> i = j"
proof (induction arbitrary: j rule: reach.induct)
  case reach_root
  then show ?case by (auto elim: reach.cases)
next
  case (reach_child p ps pn c i)
  from reach_child.prems obtain p' pn' where "reach N p' ps" "N p' = Some pn'"
    "map_of (children pn') c = Some j" by (auto elim: reach_snocE)
  with reach_child.IH [of p'] reach_child.hyps show ?case by simp
qed

lemma reach_same_path:
  assumes wf: "trie_wf X N B"
  shows "reach N i ps \<Longrightarrow> reach N i qs \<Longrightarrow> ps = qs"
proof (induction arbitrary: qs rule: reach.induct)
  case reach_root
  from reach_root show ?case
    by (cases rule: reach.cases) (auto elim: trie_downD [OF wf])
next
  case (reach_child p ps pn c i)
  have i: "i \<noteq> root_node" and n: "\<exists>n. N i = Some n \<and> parent n = Some p \<and> block n = c"
    using trie_downD [OF wf reach_child.hyps(2,3)] by metis+
  from reach_child.prems show ?case
  proof (cases rule: reach.cases)
    case reach_root
    with i show ?thesis by simp
  next
    case (reach_child p' ps' pn' c')
    then have "\<exists>n. N i = Some n \<and> parent n = Some p' \<and> block n = c'"
      using trie_downD [OF wf] by metis
    with n have "p' = p" "c' = c" by auto
    with reach_child reach_child.IH [of ps'] show ?thesis by simp
  qed
qed

lemma reach_blocks_nonempty:
  assumes wf: "trie_wf X N B"
  shows "reach N i ps \<Longrightarrow> c \<in> set ps \<Longrightarrow> c \<noteq> []"
proof (induction rule: reach.induct)
  case (reach_child p ps pn d i)
  obtain n where n: "N i = Some n" "block n = d" "i \<noteq> root_node"
    using wf reach_child.hyps(2,3) by (rule trie_downD)
  from wf n(1,3) have "d \<noteq> []" by (rule trie_upD) (simp add: n(2))
  with reach_child show ?case by auto
qed simp

text \<open>Updates that keep every child map keep every path.\<close>

lemma reach_mono:
  assumes "\<And>p pn c j. N p = Some pn \<Longrightarrow> map_of (children pn) c = Some j
      \<Longrightarrow> \<exists>pn'. N' p = Some pn' \<and> map_of (children pn') c = Some j"
  shows "reach N i ps \<Longrightarrow> reach N' i ps"
  by (induction rule: reach.induct) (use assms in \<open>blast intro: reach.intros\<close>)+

lemma reach_same_children:
  assumes "N i = Some n" and "children n' = children n"
  shows "reach (N(i \<mapsto> n')) j ps \<longleftrightarrow> reach N j ps"
proof
  show "reach (N(i \<mapsto> n')) j ps \<Longrightarrow> reach N j ps"
    by (erule reach_mono [rotated]) (use assms in \<open>auto split: if_splits\<close>)
  show "reach N j ps \<Longrightarrow> reach (N(i \<mapsto> n')) j ps"
    by (erule reach_mono [rotated]) (use assms in auto)
qed

lemma contents_functional:
  assumes "trie_wf X N B" and "(h, ps) \<in> contents N B" and "(h, qs) \<in> contents N B"
  shows "ps = qs"
  using assms(2,3) reach_same_path [OF assms(1)] by (auto simp: contents_def)

lemma contents_injective:
  assumes wf: "trie_wf X N B" and "(h, ps) \<in> contents N B" and "(k, ps) \<in> contents N B"
  shows "h = k"
proof -
  obtain i j where i: "B h = Some i" "reach N i ps" and j: "B k = Some j" "reach N j ps"
    using assms(2,3) by (auto simp: contents_def)
  then have "i = j" using reach_same_node by blast
  obtain n where "N i = Some n" "external_hash n = Some h" using wf i(1) by (rule trie_hashD)
  moreover obtain m where "N j = Some m" "external_hash m = Some k" using wf j(1) by (rule trie_hashD)
  ultimately show ?thesis using \<open>i = j\<close> by simp
qed

end
