(* ===== verification/Exact_Trie_Updates.thy ===== *)
theory Exact_Trie_Updates
  imports Exact_Trie
begin

text \<open>
  The four elementary updates of the trie: reviving or re-marking an existing node, hanging a new
  leaf below a node, marking a node absent, and unlinking an absent leaf. Each lemma says that the
  structural invariant is kept and how the abstract contents change.
\<close>

section \<open>Marking an existing node present\<close>

text \<open>
  An update of one node that keeps its parent, block, children and hash keeps every clause that
  does not speak of presence.
\<close>

lemma relabel_structure:
  assumes wf: "trie_wf X N B" and i: "N i = Some n" "i \<noteq> root_node"
    and same: "block n' = block n" "parent n' = parent n" "external_hash n' = external_hash n"
      "children n' = children n" "child_lengths n' = child_lengths n"
  shows "trie_root (N(i \<mapsto> n'))" "trie_reach (N(i \<mapsto> n'))" "trie_up (N(i \<mapsto> n'))"
    "trie_down (N(i \<mapsto> n'))"
proof -
  let ?N = "N(i \<mapsto> n')"
  have older: "\<exists>m'. N j = Some m' \<and> block m = block m' \<and> parent m = parent m' \<and>
      external_hash m = external_hash m' \<and> children m = children m' \<and>
      child_lengths m = child_lengths m'" if "?N j = Some m" for j m
    using that i(1) same by (auto split: if_splits)
  have newer: "\<exists>m. ?N j = Some m \<and> block m = block m' \<and> parent m = parent m' \<and>
      children m = children m'" if "N j = Some m'" for j m'
    using that i(1) same by auto
  show "trie_root ?N" using wf i(2) by (simp add: trie_wf_def trie_root_def)
  show "trie_reach ?N" using wf i(1) same(4)
    by (auto simp: trie_wf_def trie_reach_def reach_same_children [of N i n n'] split: if_splits)
  show "trie_up ?N"
    unfolding trie_up_def
  proof (intro allI impI)
    fix j m assume j: "j \<noteq> root_node \<and> ?N j = Some m"
    then obtain m' where m': "N j = Some m'" "block m = block m'" "parent m = parent m'"
        "external_hash m = external_hash m'"
      using older by blast
    from wf m'(1) j obtain p pn k where p: "parent m' = Some p" "N p = Some pn"
      "map_of (children pn) (block m') = Some j" "block m' \<noteq> []" "external_hash m' = Some k"
      by (blast elim: trie_upD)
    with newer [OF p(2)] m' show "block m \<noteq> [] \<and> external_hash m \<noteq> None \<and>
        (\<exists>p pn. parent m = Some p \<and> ?N p = Some pn \<and> map_of (children pn) (block m) = Some j)"
      by fastforce
  qed
  show "trie_down ?N"
    unfolding trie_down_def
  proof (intro allI impI)
    fix p pn c j assume p: "?N p = Some pn \<and> map_of (children pn) c = Some j"
    then obtain pn' where pn': "N p = Some pn'" "children pn = children pn'"
        "child_lengths pn = child_lengths pn'"
      using older by blast
    have c: "map_of (children pn') c = Some j" using p pn'(2) by simp
    obtain m where m: "N j = Some m" "parent m = Some p" "block m = c" "j \<noteq> root_node"
      "length c \<in> set (child_lengths pn')"
      using wf pn'(1) c by (rule trie_downD)
    with newer [OF m(1)] pn' show "j \<noteq> root_node \<and> length c \<in> set (child_lengths pn) \<and>
        (\<exists>m. ?N j = Some m \<and> parent m = Some p \<and> block m = c)" by auto
  qed
qed

lemma revive_wf:
  assumes wf: "trie_wf {} N B" and i: "N i = Some n" "i \<noteq> root_node"
    and h: "external_hash n = Some h" "B h = None \<or> B h = Some i"
  shows "trie_wf {} (N(i \<mapsto> n\<lparr>present := True\<rparr>)) (B(h \<mapsto> i))"
  unfolding trie_wf_def
proof (intro conjI)
  let ?n = "n\<lparr>present := True\<rparr>"
  let ?N = "N(i \<mapsto> ?n)"
  have same: "block ?n = block n" "parent ?n = parent n" "external_hash ?n = external_hash n"
    "children ?n = children n" "child_lengths ?n = child_lengths n" by simp_all
  show "trie_root ?N" "trie_reach ?N" "trie_up ?N" "trie_down ?N"
    using relabel_structure [OF wf i same] by auto
  show "trie_tight {} ?N" using wf by (auto simp: trie_wf_def trie_tight_def)
  show "trie_hash ?N (B(h \<mapsto> i))"
    unfolding trie_hash_def
  proof (intro conjI allI impI)
    fix k j assume kj: "(B(h \<mapsto> i)) k = Some j"
    show "j \<noteq> root_node"
      using kj i(2) wf by (cases "k = h") (auto elim: trie_hashD)
    show "\<exists>m. ?N j = Some m \<and> present m \<and> external_hash m = Some k"
    proof (cases "k = h")
      case True
      with kj h(1) show ?thesis by auto
    next
      case False
      with kj have "B k = Some j" by simp
      with wf obtain m where "N j = Some m" "present m" "external_hash m = Some k"
        by (rule trie_hashD)
      with i(1) show ?thesis by auto
    qed
  next
    fix j m k assume jm: "j \<noteq> root_node \<and> ?N j = Some m \<and> present m \<and> external_hash m = Some k"
    show "(B(h \<mapsto> i)) k = Some j"
    proof (cases "j = i")
      case True
      with jm h(1) show ?thesis by auto
    next
      case False
      with jm have "B k = Some j" using trie_presentD [OF wf] by simp
      with False h(2) show ?thesis by auto
    qed
  qed
qed

lemma revive_contents:
  assumes wf: "trie_wf {} N B" and i: "N i = Some n" and r: "reach N i ps"
    and h: "B h = None \<or> B h = Some i"
  shows "contents (N(i \<mapsto> n\<lparr>present := True\<rparr>)) (B(h \<mapsto> i)) = insert (h, ps) (contents N B)"
proof -
  have "reach (N(i \<mapsto> n\<lparr>present := True\<rparr>)) j qs \<longleftrightarrow> reach N j qs" for j qs
    by (rule reach_same_children) (simp_all add: i)
  moreover have "reach N i qs \<longleftrightarrow> qs = ps" for qs
    using r reach_same_path [OF wf r] by blast
  ultimately show ?thesis using h by (auto simp: contents_def split: if_splits)
qed

section \<open>Hanging a new leaf\<close>

abbreviation leaf :: "nat \<Rightarrow> token_id list \<Rightarrow> external_block_hash \<Rightarrow> node" where
  "leaf p c h \<equiv> \<lparr>parent = Some p, block = c, children = [], child_lengths = [],
     external_hash = Some h, present = True\<rparr>"

abbreviation adopt :: "node \<Rightarrow> token_id list \<Rightarrow> nat \<Rightarrow> node" where
  "adopt pn c i \<equiv> pn\<lparr>children := AList.update c i (children pn),
     child_lengths := add_length (length c) (child_lengths pn)\<rparr>"

lemma set_add_length [simp]: "set (add_length l ls) = insert l (set ls)"
  by (auto simp: add_length_def)

text \<open>A free slot \<open>i\<close> and a node \<open>p\<close> without a child for the chunk \<open>c\<close>.\<close>

definition hangable :: "arena \<Rightarrow> hash_map \<Rightarrow> nat \<Rightarrow> node \<Rightarrow> token_id list \<Rightarrow> nat \<Rightarrow> bool" where
  "hangable N B p pn c i \<longleftrightarrow> trie_wf {} N B \<and> N p = Some pn \<and> map_of (children pn) c = None \<and>
     N i = None"

abbreviation hang :: "arena \<Rightarrow> nat \<Rightarrow> node \<Rightarrow> token_id list \<Rightarrow> external_block_hash \<Rightarrow> nat \<Rightarrow> arena" where
  "hang N p pn c h i \<equiv> N(p \<mapsto> adopt pn c i, i \<mapsto> leaf p c h)"

lemma hangableD:
  assumes "hangable N B p pn c i"
  shows "trie_wf {} N B" "N p = Some pn" "map_of (children pn) c = None" "N i = None" "p \<noteq> i"
    "i \<noteq> root_node" "\<And>j m. N j = Some m \<Longrightarrow> j \<noteq> i"
proof -
  show wf: "trie_wf {} N B" and "N p = Some pn" "map_of (children pn) c = None"
    and i: "N i = None" and "p \<noteq> i" and "\<And>j m. N j = Some m \<Longrightarrow> j \<noteq> i"
    using assms by (auto simp: hangable_def)
  show "i \<noteq> root_node" using trie_rootD [OF wf] i by (metis option.distinct(1))
qed

lemma hang_children:
  assumes "hangable N B p pn c i"
  shows "hang N p pn c h i q = Some qn \<and> map_of (children qn) d = Some j \<longleftrightarrow>
    (q = p \<and> d = c \<and> j = i \<and> qn = adopt pn c i) \<or>
    (\<exists>qn'. N q = Some qn' \<and> map_of (children qn') d = Some j \<and>
       qn = (if q = p then adopt pn c i else qn'))"
proof -
  note hD = hangableD(2-5) [OF assms]
  consider "q = i" | "q = p" "q \<noteq> i" | "q \<noteq> i" "q \<noteq> p" by blast
  then show ?thesis
  proof cases
    case 1
    with hD show ?thesis by auto
  next
    case 2
    with hD show ?thesis by (cases "d = c") (auto simp: update_conv')
  next
    case 3
    then show ?thesis by auto
  qed
qed

lemma hang_reach_old:
  assumes "hangable N B p pn c i" and "reach N j ps"
  shows "reach (hang N p pn c h i) j ps"
  using assms(2)
proof (rule reach_mono [rotated])
  fix q qn d k
  assume "N q = Some qn" "map_of (children qn) d = Some k"
  with hang_children [OF assms(1)] show
    "\<exists>qn'. hang N p pn c h i q = Some qn' \<and> map_of (children qn') d = Some k" by blast
qed

lemma hang_reach_new:
  assumes "hangable N B p pn c i" and "reach N p ps"
  shows "reach (hang N p pn c h i) i (ps @ [c])"
proof (rule reach_child [OF hang_reach_old [OF assms]])
  show "hang N p pn c h i p = Some (adopt pn c i)" using hangableD(5) [OF assms(1)] by simp
  show "map_of (children (adopt pn c i)) c = Some i" by (simp add: update_conv')
qed

lemma hang_reach_inv:
  assumes hg: "hangable N B p pn c i" and "reach (hang N p pn c h i) j qs"
  shows "reach N j qs \<or> (j = i \<and> (\<exists>ps. reach N p ps \<and> qs = ps @ [c]))"
  using assms(2)
proof (induction rule: reach.induct)
  case reach_root
  then show ?case by (simp add: reach.reach_root)
next
  case (reach_child q ps qn d j)
  then have step: "hang N p pn c h i q = Some qn \<and> map_of (children qn) d = Some j" by blast
  then have "q \<noteq> i" by (auto split: if_splits)
  with reach_child.IH have r: "reach N q ps" by blast
  from step [unfolded hang_children [OF hg]] r show ?case
    by (blast intro: reach.reach_child)
qed

lemma hang_contents:
  assumes hg: "hangable N B p pn c i" and r: "reach N p ps" and h: "B h = None"
  shows "contents (hang N p pn c h i) (B(h \<mapsto> i)) = insert (h, ps @ [c]) (contents N B)"
proof -
  note hD = hangableD [OF hg]
  have new: "reach (hang N p pn c h i) i qs \<longleftrightarrow> qs = ps @ [c]" for qs
    using hang_reach_new [OF hg r] hang_reach_inv [OF hg, of h i qs] reach_live [OF hD(1), of i qs]
      reach_same_path [OF hD(1) r] hD(4) by blast
  have old: "reach (hang N p pn c h i) j qs \<longleftrightarrow> reach N j qs" if "j \<noteq> i" for j qs
    using hang_reach_old [OF hg] hang_reach_inv [OF hg] that by blast
  have "j \<noteq> i" if "B k = Some j" for k j
    using trie_hashD [OF hD(1) that] hD(4) by (metis option.distinct(1))
  with new old h show ?thesis by (auto simp: contents_def split: if_splits)
qed

lemma hang_wf:
  assumes hg: "hangable N B p pn c i" and c: "c \<noteq> []" and h: "B h = None"
  shows "trie_wf {} (hang N p pn c h i) (B(h \<mapsto> i))"
  unfolding trie_wf_def
proof (intro conjI)
  note hD = hangableD [OF hg]
  let ?N = "hang N p pn c h i"
  obtain r where "N root_node = Some r" "parent r = None" "block r = []" "present r"
    "external_hash r = None" using hD(1) by (rule trie_rootD)
  with hD(2,6) show "trie_root ?N" by (cases "p = root_node") (auto simp: trie_root_def)
  show "trie_reach ?N"
    unfolding trie_reach_def
  proof (intro allI impI)
    fix j m assume j: "?N j = Some m"
    obtain ps where ps: "reach N p ps" using hD(1,2) by (rule trie_reachD)
    show "\<exists>ps. reach ?N j ps"
    proof (cases "j = i")
      case True
      with hang_reach_new [OF hg ps] show ?thesis by blast
    next
      case False
      with j hD(2) obtain m' where "N j = Some m'" by (auto split: if_splits)
      with hD(1) obtain qs where "reach N j qs" by (rule trie_reachD)
      with hang_reach_old [OF hg] show ?thesis by blast
    qed
  qed
  show "trie_tight {} ?N"
    using hD trie_tightD [OF hD(1)] by (auto simp: trie_tight_def split: if_splits)
  show "trie_up ?N"
    unfolding trie_up_def
  proof (intro allI impI)
    fix j m assume j: "j \<noteq> root_node \<and> ?N j = Some m"
    show "block m \<noteq> [] \<and> external_hash m \<noteq> None \<and>
        (\<exists>q qn. parent m = Some q \<and> ?N q = Some qn \<and> map_of (children qn) (block m) = Some j)"
    proof (cases "j = i")
      case True
      with j c hD show ?thesis by (auto simp: update_conv')
    next
      case False
      then obtain m' where m': "N j = Some m'" "block m = block m'" "parent m = parent m'"
          "external_hash m = external_hash m'"
        using j hD(2) by (auto split: if_splits)
      from hD(1) m'(1) j obtain q qn k where q: "parent m' = Some q" "N q = Some qn"
        "map_of (children qn) (block m') = Some j" "block m' \<noteq> []" "external_hash m' = Some k"
        by (blast elim: trie_upD)
      with hang_children [OF hg, of h q _ "block m'" j] m' show ?thesis by fastforce
    qed
  qed
  show "trie_down ?N"
    unfolding trie_down_def
  proof (intro allI impI)
    fix q qn d j assume "?N q = Some qn \<and> map_of (children qn) d = Some j"
    from this [unfolded hang_children [OF hg]]
    show "j \<noteq> root_node \<and> length d \<in> set (child_lengths qn) \<and>
        (\<exists>m. ?N j = Some m \<and> parent m = Some q \<and> block m = d)"
    proof (elim disjE exE conjE)
      assume "q = p" "d = c" "j = i" "qn = adopt pn c i"
      with hD(6) show ?thesis by simp
    next
      fix qn' assume q: "N q = Some qn'" "map_of (children qn') d = Some j"
        "qn = (if q = p then adopt pn c i else qn')"
      from hD(1) q(1,2) obtain m where "N j = Some m" "parent m = Some q" "block m = d"
        "j \<noteq> root_node" "length d \<in> set (child_lengths qn')" by (rule trie_downD)
      with q hD show ?thesis by (auto split: if_splits)
    qed
  qed
  show "trie_hash ?N (B(h \<mapsto> i))"
    unfolding trie_hash_def
  proof (intro conjI allI impI)
    fix k j assume kj: "(B(h \<mapsto> i)) k = Some j"
    have "j \<noteq> root_node \<and> (\<exists>m. ?N j = Some m \<and> present m \<and> external_hash m = Some k)"
    proof (cases "k = h")
      case True
      with kj hD(6) show ?thesis by auto
    next
      case False
      with kj have "B k = Some j" by simp
      with hD(1) obtain m where "N j = Some m" "present m" "external_hash m = Some k"
        "j \<noteq> root_node" by (rule trie_hashD)
      with hD show ?thesis by auto
    qed
    then show "j \<noteq> root_node" and "\<exists>m. ?N j = Some m \<and> present m \<and> external_hash m = Some k"
      by auto
  next
    fix j m k assume jm: "j \<noteq> root_node \<and> ?N j = Some m \<and> present m \<and> external_hash m = Some k"
    show "(B(h \<mapsto> i)) k = Some j"
    proof (cases "j = i")
      case True
      with jm show ?thesis by auto
    next
      case False
      then obtain m' where "N j = Some m'" "present m'" "external_hash m' = Some k"
        using jm hD(2) by (auto split: if_splits)
      with jm have "B k = Some j" using trie_presentD [OF hD(1)] by blast
      with h show ?thesis by auto
    qed
  qed
qed

section \<open>Marking a node absent\<close>

lemma mark_absent_wf:
  assumes wf: "trie_wf {} N B" and b: "B h = Some i" and i: "N i = Some n"
  shows "trie_wf {i} (N(i \<mapsto> n\<lparr>present := False\<rparr>)) (B(h := None))"
  unfolding trie_wf_def
proof (intro conjI)
  let ?n = "n\<lparr>present := False\<rparr>"
  let ?N = "N(i \<mapsto> ?n)"
  obtain n0 where "N i = Some n0" "present n0" "external_hash n0 = Some h" "i \<noteq> root_node"
    using wf b by (rule trie_hashD)
  then have ne: "i \<noteq> root_node" and eh: "external_hash n = Some h" using i by auto
  have same: "block ?n = block n" "parent ?n = parent n" "external_hash ?n = external_hash n"
    "children ?n = children n" "child_lengths ?n = child_lengths n" by simp_all
  show "trie_root ?N" "trie_reach ?N" "trie_up ?N" "trie_down ?N"
    using relabel_structure [OF wf i ne same] by auto
  show "trie_tight {i} ?N" using wf by (auto simp: trie_wf_def trie_tight_def)
  show "trie_hash ?N (B(h := None))"
    unfolding trie_hash_def
  proof (intro conjI allI impI)
    fix k j assume kj: "(B(h := None)) k = Some j"
    then have "B k = Some j" and "k \<noteq> h" by (auto split: if_splits)
    with wf obtain m where m: "N j = Some m" "present m" "external_hash m = Some k" "j \<noteq> root_node"
      using trie_hashD by metis
    with eh i \<open>k \<noteq> h\<close> show "j \<noteq> root_node"
      and "\<exists>m. ?N j = Some m \<and> present m \<and> external_hash m = Some k" by auto
  next
    fix j m k assume jm: "j \<noteq> root_node \<and> ?N j = Some m \<and> present m \<and> external_hash m = Some k"
    then have "j \<noteq> i" by auto
    with jm have k: "B k = Some j" using trie_presentD [OF wf] by simp
    with \<open>j \<noteq> i\<close> b have "k \<noteq> h" by auto
    with k show "(B(h := None)) k = Some j" by simp
  qed
qed

lemma mark_absent_contents:
  assumes i: "N i = Some n"
  shows "contents (N(i \<mapsto> n\<lparr>present := False\<rparr>)) (B(h := None))
    = {(k, ps). (k, ps) \<in> contents N B \<and> k \<noteq> h}"
proof -
  have "reach (N(i \<mapsto> n\<lparr>present := False\<rparr>)) j qs \<longleftrightarrow> reach N j qs" for j qs
    by (rule reach_same_children) (simp_all add: i)
  then show ?thesis by (auto simp: contents_def split: if_splits)
qed

section \<open>Unlinking an absent leaf\<close>

abbreviation orphan :: "node \<Rightarrow> token_id list \<Rightarrow> node" where
  "orphan pn c \<equiv> pn\<lparr>children := AList.delete c (children pn)\<rparr>"

abbreviation unlink :: "arena \<Rightarrow> nat \<Rightarrow> token_id list \<Rightarrow> nat \<Rightarrow> node \<Rightarrow> arena" where
  "unlink N i c p pn \<equiv> (N(i := None))(p \<mapsto> orphan pn c)"

text \<open>An absent leaf \<open>i\<close>, the only node that may be dead weight, below the node \<open>p\<close>.\<close>

definition dead_leaf :: "arena \<Rightarrow> hash_map \<Rightarrow> nat \<Rightarrow> node \<Rightarrow> nat \<Rightarrow> node \<Rightarrow> bool" where
  "dead_leaf N B i n p pn \<longleftrightarrow> trie_wf {i} N B \<and> N i = Some n \<and> i \<noteq> root_node \<and> \<not> present n \<and>
     children n = [] \<and> parent n = Some p \<and> N p = Some pn"

lemma dead_leafD:
  assumes "dead_leaf N B i n p pn"
  shows "trie_wf {i} N B" "N i = Some n" "i \<noteq> root_node" "\<not> present n" "children n = []"
    "parent n = Some p" "N p = Some pn" "map_of (children pn) (block n) = Some i" "p \<noteq> i"
proof -
  show wf: "trie_wf {i} N B" and i: "N i = Some n" "i \<noteq> root_node" "\<not> present n" "children n = []"
    "parent n = Some p" "N p = Some pn"
    using assms by (auto simp: dead_leaf_def)
  show m: "map_of (children pn) (block n) = Some i"
    using wf i(1,2) by (rule trie_upD) (use i in auto)
  then show "p \<noteq> i" using i by auto
qed

lemma unlink_children:
  assumes "dead_leaf N B i n p pn"
  shows "unlink N i (block n) p pn q = Some qn \<and> map_of (children qn) d = Some j \<longleftrightarrow>
    j \<noteq> i \<and> (\<exists>qn'. N q = Some qn' \<and> map_of (children qn') d = Some j \<and>
       qn = (if q = p then orphan pn (block n) else qn'))"
proof -
  note D = dead_leafD [OF assms]
  have only: "map_of (children qn') d \<noteq> Some i" if "N q = Some qn'" "q \<noteq> p \<or> d \<noteq> block n" for qn'
  proof
    assume "map_of (children qn') d = Some i"
    with D(1) that(1) show False by (rule trie_downD) (use D that in auto)
  qed
  consider "q = p" "d = block n" | "q = p" "d \<noteq> block n" | "q = i" "q \<noteq> p" | "q \<noteq> i" "q \<noteq> p" by blast
  then show ?thesis
  proof cases
    case 1
    with D(7,8) show ?thesis by (auto simp: delete_conv')
  next
    case 2
    with D(7) only [of pn] show ?thesis by (auto simp: delete_conv')
  next
    case 3
    with D(2,5) show ?thesis by auto
  next
    case 4
    with only [of qn] show ?thesis by auto
  qed
qed

lemma unlink_reach:
  assumes dl: "dead_leaf N B i n p pn"
  shows "reach (unlink N i (block n) p pn) j ps \<longleftrightarrow> j \<noteq> i \<and> reach N j ps"
proof
  note D = dead_leafD [OF dl]
  show "j \<noteq> i \<and> reach N j ps" if "reach (unlink N i (block n) p pn) j ps"
    using that
  proof (induction rule: reach.induct)
    case reach_root
    with D show ?case by (auto intro: reach.reach_root)
  next
    case (reach_child q ps qn d j)
    then have "unlink N i (block n) p pn q = Some qn \<and> map_of (children qn) d = Some j" by blast
    from this [unfolded unlink_children [OF dl]] reach_child.IH show ?case
      by (blast intro: reach.reach_child)
  qed
  have "reach N j ps \<Longrightarrow> j \<noteq> i \<longrightarrow> reach (unlink N i (block n) p pn) j ps"
  proof (induction rule: reach.induct)
    case reach_root
    then show ?case by (simp add: reach.reach_root)
  next
    case (reach_child q ps qn d j)
    show ?case
    proof
      assume "j \<noteq> i"
      have "q \<noteq> i" using reach_child.hyps(2,3) D by auto
      moreover from \<open>j \<noteq> i\<close> obtain qn' where
        "unlink N i (block n) p pn q = Some qn'" "map_of (children qn') d = Some j"
        using unlink_children [OF dl] reach_child.hyps(2,3) by blast
      ultimately show "reach (unlink N i (block n) p pn) j (ps @ [d])"
        using reach_child.IH by (blast intro: reach.reach_child)
    qed
  qed
  then show "j \<noteq> i \<and> reach N j ps \<Longrightarrow> reach (unlink N i (block n) p pn) j ps" by blast
qed

lemma unlink_contents:
  assumes dl: "dead_leaf N B i n p pn"
  shows "contents (unlink N i (block n) p pn) B = contents N B"
proof -
  note D = dead_leafD [OF dl]
  have "j \<noteq> i" if "B k = Some j" for k j
    using D(1) that by (rule trie_hashD) (use D in auto)
  then show ?thesis by (auto simp: contents_def unlink_reach [OF dl])
qed

lemma unlink_wf:
  assumes dl: "dead_leaf N B i n p pn"
  shows "trie_wf {p} (unlink N i (block n) p pn) B"
  unfolding trie_wf_def
proof (intro conjI)
  note D = dead_leafD [OF dl]
  let ?N = "unlink N i (block n) p pn"
  have older: "j \<noteq> i \<and> (\<exists>m'. N j = Some m' \<and> block m = block m' \<and> parent m = parent m' \<and>
      external_hash m = external_hash m' \<and> present m = present m' \<and>
      child_lengths m = child_lengths m' \<and> (j \<noteq> p \<longrightarrow> m = m'))" if "?N j = Some m" for j m
    using that D(7,9) by (auto split: if_splits)
  have newer: "\<exists>m. ?N j = Some m \<and> block m = block m' \<and> parent m = parent m' \<and>
      external_hash m = external_hash m' \<and> present m = present m' \<and>
      child_lengths m = child_lengths m'" if "N j = Some m'" "j \<noteq> i" for j m'
    using that D(7) by auto
  obtain r where "N root_node = Some r" "parent r = None" "block r = []" "present r"
    "external_hash r = None" using D(1) by (rule trie_rootD)
  with D(3,7) show "trie_root ?N" by (cases "p = root_node") (auto simp: trie_root_def)
  show "trie_reach ?N"
    unfolding trie_reach_def unlink_reach [OF dl]
  proof (intro allI impI)
    fix j m assume "?N j = Some m"
    then obtain m' where "j \<noteq> i" "N j = Some m'" using older by blast
    with D(1) show "\<exists>ps. j \<noteq> i \<and> reach N j ps" by (blast elim: trie_reachD)
  qed
  show "trie_tight {p} ?N"
    unfolding trie_tight_def
  proof (intro allI impI)
    fix j m assume j: "j \<noteq> root_node \<and> j \<notin> {p} \<and> ?N j = Some m \<and> \<not> present m"
    then have "N j = Some m" "j \<noteq> i" using older [of j m] by auto
    with j show "children m \<noteq> []" using trie_tightD [OF D(1)] by blast
  qed
  show "trie_up ?N"
    unfolding trie_up_def
  proof (intro allI impI)
    fix j m assume j: "j \<noteq> root_node \<and> ?N j = Some m"
    then obtain m' where m': "j \<noteq> i" "N j = Some m'" "block m = block m'" "parent m = parent m'"
        "external_hash m = external_hash m'"
      using older by blast
    from D(1) m'(2) j obtain q qn k where q: "parent m' = Some q" "N q = Some qn"
      "map_of (children qn) (block m') = Some j" "block m' \<noteq> []" "external_hash m' = Some k"
      by (blast elim: trie_upD)
    with unlink_children [OF dl, of q _ "block m'" j] m'
    show "block m \<noteq> [] \<and> external_hash m \<noteq> None \<and>
        (\<exists>q qn. parent m = Some q \<and> ?N q = Some qn \<and> map_of (children qn) (block m) = Some j)"
      by fastforce
  qed
  show "trie_down ?N"
    unfolding trie_down_def
  proof (intro allI impI)
    fix q qn d j assume q: "?N q = Some qn \<and> map_of (children qn) d = Some j"
    from this [unfolded unlink_children [OF dl]] obtain qn' where
      qn': "j \<noteq> i" "N q = Some qn'" "map_of (children qn') d = Some j" by blast
    have cl: "child_lengths qn = child_lengths qn'" using q older [of q qn] qn'(2) by auto
    obtain m where m: "N j = Some m" "parent m = Some q" "block m = d" "j \<noteq> root_node"
      "length d \<in> set (child_lengths qn')" using D(1) qn'(2,3) by (rule trie_downD)
    with newer [OF m(1) qn'(1)] cl qn'(1) show "j \<noteq> root_node \<and> length d \<in> set (child_lengths qn) \<and>
        (\<exists>m. ?N j = Some m \<and> parent m = Some q \<and> block m = d)" by auto
  qed
  show "trie_hash ?N B"
    unfolding trie_hash_def
  proof (intro conjI allI impI)
    fix k j assume kj: "B k = Some j"
    with D(1) obtain m where m: "N j = Some m" "present m" "external_hash m = Some k"
      "j \<noteq> root_node" by (rule trie_hashD)
    then have "j \<noteq> i" using D(2,4) by auto
    with newer [OF m(1)] m show "j \<noteq> root_node"
      and "\<exists>m. ?N j = Some m \<and> present m \<and> external_hash m = Some k" by auto
  next
    fix j m k assume jm: "j \<noteq> root_node \<and> ?N j = Some m \<and> present m \<and> external_hash m = Some k"
    then obtain m' where "N j = Some m'" "present m'" "external_hash m' = Some k"
      using older [of j m] by auto
    with jm show "B k = Some j" using trie_presentD [OF D(1)] by blast
  qed
qed

text \<open>Where the parent is not dead weight itself, the exception disappears.\<close>

lemma trie_wf_settled:
  assumes "trie_wf {p} N B" and "p = root_node \<or> (\<exists>pn. N p = Some pn \<and> (present pn \<or> children pn \<noteq> []))"
  shows "trie_wf {} N B"
proof -
  have "children n \<noteq> []" if "i \<noteq> root_node" "N i = Some n" "\<not> present n" for i n
    using that assms trie_tightD [OF assms(1)] by (cases "i = p") auto
  with assms(1) show ?thesis by (auto simp: trie_wf_def trie_tight_def)
qed

end
