(* ===== verification/Exact_Index_Proofs.thy ===== *)
theory Exact_Index_Proofs
  imports Exact_Trie_Updates
begin

text \<open>
  Correctness of \<open>ExactKvIndex\<close>: every operation is total on well-formed indexes (no panic), keeps
  them well-formed and within capacity, and acts on the abstract contents as its specification
  says.
\<close>

section \<open>Well-formed indexes\<close>

abbreviation hmap :: "exact_kv_index \<Rightarrow> hash_map" where
  "hmap ix \<equiv> map_of (by_external_hash ix)"

definition slots_ok :: "exact_kv_index \<Rightarrow> bool" where
  "slots_ok ix \<longleftrightarrow> distinct (free_nodes ix) \<and>
     set (free_nodes ix) = {i. i < length (nodes ix) \<and> nodes ix ! i = None}"

definition weight :: "arena \<Rightarrow> nat" where
  "weight N = (\<Sum>i \<in> dom N - {root_node}. length (block (the (N i))))"

definition counts_ok :: "exact_kv_index \<Rightarrow> bool" where
  "counts_ok ix \<longleftrightarrow> live_nodes ix = card (dom (node_at ix) - {root_node}) \<and>
     resident_token_ids ix = weight (node_at ix)"

definition index_shape :: "nat set \<Rightarrow> exact_kv_index \<Rightarrow> bool" where
  "index_shape X ix \<longleftrightarrow> trie_wf X (node_at ix) (hmap ix) \<and> slots_ok ix \<and> counts_ok ix"

text \<open>Configured capacities below the largest \<open>usize\<close>, where saturation cannot hide an excess.\<close>

definition limits_ok :: "exact_index_limits \<Rightarrow> bool" where
  "limits_ok l \<longleftrightarrow> max_nodes l < usize_max \<and> max_token_ids l < usize_max"

definition index_wf :: "exact_kv_index \<Rightarrow> bool" where
  "index_wf ix \<longleftrightarrow> index_shape {} ix \<and> limits_ok (limits ix) \<and>
     live_nodes ix \<le> max_nodes (limits ix) \<and> resident_token_ids ix \<le> max_token_ids (limits ix)"

definition index_contents :: "exact_kv_index \<Rightarrow> (external_block_hash \<times> token_id list list) set" where
  "index_contents ix = contents (node_at ix) (hmap ix)"

section \<open>The arena\<close>

lemma node_at_Some: "node_at ix i = Some n \<longleftrightarrow> i < length (nodes ix) \<and> nodes ix ! i = Some n"
  by (auto simp: node_at_def get_def)

lemma dom_node_at: "dom (node_at ix) = {i. i < length (nodes ix) \<and> nodes ix ! i \<noteq> None}"
  by (auto simp: node_at_Some dom_def)

lemma finite_dom_node_at [simp]: "finite (dom (node_at ix))"
  by (rule finite_subset [of _ "{..<length (nodes ix)}"]) (auto simp: dom_node_at)

lemma node_at_put [simp]:
  "i < length (nodes ix) \<Longrightarrow> node_at (put_node i n ix) = (node_at ix)(i := n)"
  by (auto simp: node_at_def get_def put_node_def fun_eq_iff nth_list_update)

lemma put_node_fields [simp]:
  "limits (put_node i n ix) = limits ix" "free_nodes (put_node i n ix) = free_nodes ix"
  "by_external_hash (put_node i n ix) = by_external_hash ix"
  "live_nodes (put_node i n ix) = live_nodes ix"
  "resident_token_ids (put_node i n ix) = resident_token_ids ix"
  "length (nodes (put_node i n ix)) = length (nodes ix)"
  by (simp_all add: put_node_def)

lemma node_at_update_fields [simp]:
  "node_at (ix\<lparr>free_nodes := f\<rparr>) = node_at ix" "node_at (ix\<lparr>by_external_hash := b\<rparr>) = node_at ix"
  "node_at (ix\<lparr>live_nodes := l\<rparr>) = node_at ix" "node_at (ix\<lparr>resident_token_ids := r\<rparr>) = node_at ix"
  by (simp_all add: node_at_def fun_eq_iff)

lemma slots_ok_put_Some:
  assumes "slots_ok ix" and "node_at ix i = Some n"
  shows "slots_ok (put_node i (Some m) ix)"
proof -
  have "(nodes ix)[i := Some m] ! j = None \<longleftrightarrow> nodes ix ! j = None" if "j < length (nodes ix)" for j
    using that assms(2) by (cases "j = i") (auto simp: node_at_Some)
  then have "{j. j < length (nodes ix) \<and> (nodes ix)[i := Some m] ! j = None} =
      {j. j < length (nodes ix) \<and> nodes ix ! j = None}" by blast
  with assms(1) show ?thesis by (simp add: slots_ok_def put_node_def)
qed

lemma slots_ok_update_fields [simp]:
  "slots_ok (ix\<lparr>by_external_hash := b\<rparr>) = slots_ok ix" "slots_ok (ix\<lparr>live_nodes := l\<rparr>) = slots_ok ix"
  "slots_ok (ix\<lparr>resident_token_ids := r\<rparr>) = slots_ok ix"
  by (simp_all add: slots_ok_def)

lemma allocate_node_ok:
  assumes "slots_ok ix"
  obtains ix' i where "allocate_node n ix = Some (ix', i)" "node_at ix i = None"
    "node_at ix' = (node_at ix)(i \<mapsto> n)" "slots_ok ix'" "limits ix' = limits ix"
    "by_external_hash ix' = by_external_hash ix" "live_nodes ix' = live_nodes ix"
    "resident_token_ids ix' = resident_token_ids ix"
proof (cases "free_nodes ix = []")
  case True
  let ?ix = "ix\<lparr>nodes := nodes ix @ [Some n]\<rparr>"
  have "allocate_node n ix = Some (?ix, length (nodes ix))"
    using True by (simp add: allocate_node_def)
  moreover have "node_at ?ix = (node_at ix)(length (nodes ix) \<mapsto> n)"
    by (auto simp: node_at_def get_def fun_eq_iff nth_append)
  moreover have "slots_ok ?ix"
    using assms True by (auto simp: slots_ok_def nth_append)
  moreover have "node_at ix (length (nodes ix)) = None" by (simp add: node_at_def get_def)
  ultimately show ?thesis by (intro that [of ?ix "length (nodes ix)"]) simp_all
next
  case False
  then obtain bs i where fs: "free_nodes ix = bs @ [i]" by (metis rev_exhaust)
  let ?ix = "put_node i (Some n) (ix\<lparr>free_nodes := bs\<rparr>)"
  have d: "distinct bs" "i \<notin> set bs"
    and slots: "insert i (set bs) = {j. j < length (nodes ix) \<and> nodes ix ! j = None}"
    using assms by (auto simp: slots_ok_def fs)
  then have i: "i < length (nodes ix)" "nodes ix ! i = None" by auto
  have "allocate_node n ix = Some (?ix, i)"
    using i(1) by (simp add: allocate_node_def fs Let_def)
  moreover have "node_at ?ix = (node_at ix)(i \<mapsto> n)" using i(1) by simp
  moreover have "slots_ok ?ix"
  proof -
    have "j \<in> set bs \<longleftrightarrow> j < length (nodes ix) \<and> (nodes ix)[i := Some n] ! j = None" for j
    proof (cases "j = i")
      case True
      with d(2) i(1) show ?thesis by simp
    next
      case False
      have "j \<in> insert i (set bs) \<longleftrightarrow> j < length (nodes ix) \<and> nodes ix ! j = None"
        by (simp only: slots mem_Collect_eq)
      with False show ?thesis by simp
    qed
    then have "set bs = {j. j < length (nodes ix) \<and> (nodes ix)[i := Some n] ! j = None}" by blast
    with d show ?thesis by (simp add: slots_ok_def put_node_def)
  qed
  moreover have "node_at ix i = None" using i by (simp add: node_at_def get_def)
  ultimately show ?thesis by (intro that [of ?ix i]) simp_all
qed

section \<open>Counters\<close>

lemma weight_same_block:
  assumes "N i = Some n" and "block m = block n"
  shows "weight (N(i \<mapsto> m)) = weight N"
proof -
  have "dom (N(i \<mapsto> m)) = dom N" using assms(1) by auto
  then show ?thesis unfolding weight_def using assms by (intro sum.cong) auto
qed

lemma weight_insert:
  assumes "finite (dom N)" and "N i = None" and "i \<noteq> root_node"
  shows "weight (N(i \<mapsto> n)) = weight N + length (block n)"
proof -
  have "dom (N(i \<mapsto> n)) - {root_node} = insert i (dom N - {root_node})" using assms(3) by auto
  moreover have "i \<notin> dom N - {root_node}" using assms(2) by auto
  moreover have "(\<Sum>j \<in> dom N - {root_node}. length (block (the ((N(i \<mapsto> n)) j)))) = weight N"
    unfolding weight_def using assms(2) by (intro sum.cong) auto
  ultimately show ?thesis using assms(1) by (simp add: weight_def)
qed

lemma weight_remove:
  assumes "finite (dom N)" and "N i = Some n" and "i \<noteq> root_node"
  shows "weight N = weight (N(i := None)) + length (block n)"
  using weight_insert [of "N(i := None)" i n] assms by (simp add: fun_upd_idem)

lemma card_insert_slot:
  assumes "finite (dom N)" and "N i = None" and "i \<noteq> root_node"
  shows "card (dom (N(i \<mapsto> n)) - {root_node}) = Suc (card (dom N - {root_node}))"
proof -
  have "dom (N(i \<mapsto> n)) - {root_node} = insert i (dom N - {root_node})" using assms(3) by auto
  moreover have "i \<notin> dom N - {root_node}" using assms(2) by auto
  ultimately show ?thesis using assms(1) by simp
qed

lemma card_remove_slot:
  assumes "finite (dom N)" and "N i = Some n" and "i \<noteq> root_node"
  shows "card (dom N - {root_node}) = Suc (card (dom (N(i := None)) - {root_node}))"
  using card_insert_slot [of "N(i := None)" i n] assms by (simp add: fun_upd_idem)

section \<open>Attaching one block\<close>

lemma index_shapeD:
  assumes "index_shape X ix"
  shows "trie_wf X (node_at ix) (hmap ix)" "slots_ok ix"
    "live_nodes ix = card (dom (node_at ix) - {root_node})"
    "resident_token_ids ix = weight (node_at ix)"
  using assms by (auto simp: index_shape_def counts_ok_def)

lemma index_shapeI:
  "trie_wf X (node_at ix) (hmap ix) \<Longrightarrow> slots_ok ix \<Longrightarrow>
    live_nodes ix = card (dom (node_at ix) - {root_node}) \<Longrightarrow>
    resident_token_ids ix = weight (node_at ix) \<Longrightarrow> index_shape X ix"
  by (simp add: index_shape_def counts_ok_def)

lemma attach_one_existing:
  assumes shape: "index_shape {} ix" and cur: "node_at ix cursor = Some n"
    and ch: "map_of (children n) c = Some i" and i: "node_at ix i = Some child"
    and h: "external_hash child = Some h" "hmap ix h = None \<or> hmap ix h = Some i"
    and r: "reach (node_at ix) cursor ps"
  obtains ix' where "attach_one cursor c h ix = Some (ix', i)" "index_shape {} ix'"
    "node_at ix' = (node_at ix)(i \<mapsto> child\<lparr>present := True\<rparr>)" "hmap ix' = (hmap ix)(h \<mapsto> i)"
    "limits ix' = limits ix" "live_nodes ix' = live_nodes ix"
    "resident_token_ids ix' = resident_token_ids ix"
    "index_contents ix' = insert (h, ps @ [c]) (index_contents ix)"
proof -
  note sD = index_shapeD [OF shape]
  define ix2 where "ix2 = put_node i (Some (child\<lparr>present := True\<rparr>)) ix"
  define ix' where "ix' = ix2\<lparr>by_external_hash := AList.update h i (by_external_hash ix2)\<rparr>"
  have il: "i < length (nodes ix)" using i by (simp add: node_at_Some)
  have root: "i \<noteq> root_node" using sD(1) cur ch by (rule trie_downD)
  have same: "child\<lparr>present := True, external_hash := Some h\<rparr> = child\<lparr>present := True\<rparr>"
    using h(1) by simp
  have N': "node_at ix' = (node_at ix)(i \<mapsto> child\<lparr>present := True\<rparr>)"
    using il by (simp add: ix'_def ix2_def)
  have B': "hmap ix' = (hmap ix)(h \<mapsto> i)" by (simp add: ix'_def ix2_def update_conv')
  have at: "attach_one cursor c h ix = Some (ix', i)"
    using cur ch i by (simp add: attach_one_def same ix'_def ix2_def Let_def)
  have ri: "reach (node_at ix) i (ps @ [c])" using r cur ch by (rule reach_child)
  have "dom (node_at ix') = dom (node_at ix)" using N' i by auto
  moreover have "weight (node_at ix') = weight (node_at ix)"
    unfolding N' by (rule weight_same_block) (simp_all add: i)
  moreover have "trie_wf {} (node_at ix') (hmap ix')"
    unfolding N' B' using sD(1) i root h by (rule revive_wf)
  moreover have "slots_ok ix'" using slots_ok_put_Some [OF sD(2) i] by (simp add: ix'_def ix2_def)
  ultimately have shape': "index_shape {} ix'" using sD(3,4)
    by (intro index_shapeI) (simp_all add: ix'_def ix2_def)
  have "index_contents ix' = insert (h, ps @ [c]) (index_contents ix)"
    unfolding index_contents_def N' B' using sD(1) i ri h(2) by (rule revive_contents)
  with at shape' N' B' show ?thesis by (intro that [of ix']) (simp_all add: ix'_def ix2_def)
qed

lemma attach_one_new:
  assumes shape: "index_shape {} ix" and cur: "node_at ix cursor = Some n"
    and ch: "map_of (children n) c = None" and c: "c \<noteq> []" and h: "hmap ix h = None"
    and r: "reach (node_at ix) cursor ps"
  obtains ix' i where "attach_one cursor c h ix = Some (ix', i)" "index_shape {} ix'"
    "node_at ix i = None" "node_at ix' = hang (node_at ix) cursor n c h i"
    "hmap ix' = (hmap ix)(h \<mapsto> i)" "limits ix' = limits ix"
    "live_nodes ix' = Suc (live_nodes ix)"
    "resident_token_ids ix' = resident_token_ids ix + length c"
    "index_contents ix' = insert (h, ps @ [c]) (index_contents ix)"
proof -
  note sD = index_shapeD [OF shape]
  obtain ix1 i where al: "allocate_node (leaf cursor c h) ix = Some (ix1, i)"
    and i: "node_at ix i = None" and N1: "node_at ix1 = (node_at ix)(i \<mapsto> leaf cursor c h)"
    and so: "slots_ok ix1" and fields: "limits ix1 = limits ix"
      "by_external_hash ix1 = by_external_hash ix" "live_nodes ix1 = live_nodes ix"
      "resident_token_ids ix1 = resident_token_ids ix"
    using sD(2) by (rule allocate_node_ok)
  have hg: "hangable (node_at ix) (hmap ix) cursor n c i"
    using sD(1) cur ch i by (simp add: hangable_def)
  note hD = hangableD [OF hg]
  define ixp where "ixp = (put_node cursor (Some (adopt n c i)) ix1)
      \<lparr>live_nodes := live_nodes ix1 + 1, resident_token_ids := resident_token_ids ix1 + length c\<rparr>"
  define ix' where "ix' = (put_node i (Some (leaf cursor c h)) ixp)
      \<lparr>by_external_hash := AList.update h i (by_external_hash ix)\<rparr>"
  have N1c: "node_at ix1 cursor = Some n" using N1 cur hD(5) by simp
  have Np: "node_at ixp = hang (node_at ix) cursor n c h i"
  proof -
    have "cursor < length (nodes ix1)" using N1c by (simp add: node_at_Some)
    then show ?thesis using N1 hD(5) by (simp add: ixp_def fun_upd_twist)
  qed
  have il: "i < length (nodes ixp)"
    using Np by (metis (no_types, lifting) fun_upd_same node_at_Some)
  have N': "node_at ix' = hang (node_at ix) cursor n c h i"
    using il Np by (simp add: ix'_def fun_upd_idem)
  have B': "hmap ix' = (hmap ix)(h \<mapsto> i)" by (simp add: ix'_def update_conv')
  have ins: "insert_child cursor c h ix = Some (ixp, i)"
    using al N1c by (simp add: insert_child_def ixp_def)
  have "node_at ixp i = Some (leaf cursor c h)" using Np by simp
  then have at: "attach_one cursor c h ix = Some (ix', i)"
    using cur ch ins by (simp add: attach_one_def ix'_def Let_def ixp_def fields)
  have "slots_ok ixp" using slots_ok_put_Some [OF so N1c] by (simp add: ixp_def)
  then have so': "slots_ok ix'"
    using slots_ok_put_Some [of ixp i] \<open>node_at ixp i = Some (leaf cursor c h)\<close>
    by (simp add: ix'_def)
  have fin: "finite (dom (node_at ix))" by simp
  have Nq: "hang (node_at ix) cursor n c h i =
      ((node_at ix)(i \<mapsto> leaf cursor c h))(cursor \<mapsto> adopt n c i)"
    using hD(5) by (simp add: fun_upd_twist)
  have "card (dom (node_at ix') - {root_node}) = Suc (live_nodes ix)"
  proof -
    have "dom (node_at ix') = dom ((node_at ix)(i \<mapsto> leaf cursor c h))"
      unfolding N' Nq using cur by auto
    then show ?thesis using card_insert_slot [OF fin i hD(6)] sD(3) by simp
  qed
  moreover have "weight (node_at ix') = resident_token_ids ix + length c"
  proof -
    have "weight (node_at ix') = weight ((node_at ix)(i \<mapsto> leaf cursor c h))"
      unfolding N' Nq using hD(5) cur by (intro weight_same_block [of _ _ n]) auto
    then show ?thesis using weight_insert [OF fin i hD(6)] sD(4) by simp
  qed
  moreover have "trie_wf {} (node_at ix') (hmap ix')"
    unfolding N' B' using hg c h by (rule hang_wf)
  ultimately have "index_shape {} ix'" using so'
    by (intro index_shapeI) (simp_all add: ix'_def ixp_def fields)
  moreover have "index_contents ix' = insert (h, ps @ [c]) (index_contents ix)"
    unfolding index_contents_def N' B' using hg r h by (rule hang_contents)
  ultimately show ?thesis using at N' B' i
    by (intro that [of ix' i]) (simp_all add: ix'_def ixp_def fields)
qed

section \<open>Attaching a path\<close>

text \<open>The entries a stored path adds below the path \<open>ps\<close> of its parent.\<close>

fun path_entries ::
  "token_id list list \<Rightarrow> (token_id list \<times> external_block_hash) list
    \<Rightarrow> (external_block_hash \<times> token_id list list) set" where
  "path_entries ps [] = {}"
| "path_entries ps ((c, h) # rest) = insert (h, ps @ [c]) (path_entries (ps @ [c]) rest)"

text \<open>The blocks of a path that have no node yet.\<close>

fun missing ::
  "exact_kv_index \<Rightarrow> nat \<Rightarrow> (token_id list \<times> external_block_hash) list \<Rightarrow> token_id list list" where
  "missing ix cursor [] = []"
| "missing ix cursor ((c, h) # rest) = (case node_at ix cursor of None \<Rightarrow> []
     | Some n \<Rightarrow> (case map_of (children n) c of
          None \<Rightarrow> c # map fst rest
        | Some i \<Rightarrow> missing ix i rest))"

text \<open>The checks of \<open>store\<close> passed: existing blocks carry their hash, new hashes are unknown.\<close>

fun attachable ::
  "exact_kv_index \<Rightarrow> nat \<Rightarrow> (token_id list \<times> external_block_hash) list \<Rightarrow> bool" where
  "attachable ix cursor [] = True"
| "attachable ix cursor ((c, h) # rest) = (case node_at ix cursor of None \<Rightarrow> False
     | Some n \<Rightarrow> (case map_of (children n) c of
          None \<Rightarrow> \<forall>k \<in> insert h (snd ` set rest). hmap ix k = None
        | Some i \<Rightarrow> (\<exists>child. node_at ix i = Some child \<and> external_hash child = Some h) \<and>
            (hmap ix h = None \<or> hmap ix h = Some i) \<and> attachable ix i rest))"

abbreviation skeleton :: "exact_kv_index \<Rightarrow> nat \<Rightarrow> ((token_id list \<times> nat) list \<times> external_block_hash option) option"
where
  "skeleton ix j \<equiv> map_option (\<lambda>n. (children n, external_hash n)) (node_at ix j)"

lemma attachable_cong:
  assumes "\<And>j. skeleton ix' j = skeleton ix j" and "\<forall>k \<in> snd ` set items. hmap ix' k = hmap ix k"
  shows "attachable ix' cursor items = attachable ix cursor items \<and>
    missing ix' cursor items = missing ix cursor items"
  using assms(2)
proof (induction items arbitrary: cursor)
  case (Cons x rest)
  obtain c h where x: "x = (c, h)" by force
  have IH: "attachable ix' i rest = attachable ix i rest \<and> missing ix' i rest = missing ix i rest" for i
    using Cons by simp
  have H: "(\<exists>child. node_at ix' i = Some child \<and> external_hash child = Some h) \<longleftrightarrow>
      (\<exists>child. node_at ix i = Some child \<and> external_hash child = Some h)" for i
    using assms(1) [of i] by (cases "node_at ix i"; cases "node_at ix' i") auto
  have K: "hmap ix' h = hmap ix h" "(\<forall>k \<in> snd ` set rest. hmap ix' k = None) \<longleftrightarrow>
      (\<forall>k \<in> snd ` set rest. hmap ix k = None)"
    using Cons.prems x by auto
  show ?case
  proof (cases "node_at ix cursor")
    case None
    then have "node_at ix' cursor = None" using assms(1) [of cursor] by simp
    with None x show ?thesis by simp
  next
    case (Some n)
    then obtain n' where n': "node_at ix' cursor = Some n'" "children n' = children n"
      using assms(1) [of cursor] by auto
    show ?thesis
    proof (cases "map_of (children n) c")
      case None
      with Some n' K x show ?thesis by simp
    next
      case s2: (Some i)
      with Some n' K(1) H [of i] IH [of i] x show ?thesis by simp
    qed
  qed
qed simp

lemma attach_path_ok:
  assumes "index_shape {} ix" and "attachable ix cursor items" and "reach (node_at ix) cursor ps"
    and "\<forall>c \<in> fst ` set items. c \<noteq> []" and "distinct (map snd items)"
  shows "\<exists>ix'. attach_path cursor items ix = Some ix' \<and> index_shape {} ix' \<and>
    limits ix' = limits ix \<and>
    live_nodes ix' = live_nodes ix + length (missing ix cursor items) \<and>
    resident_token_ids ix' = resident_token_ids ix + length (concat (missing ix cursor items)) \<and>
    index_contents ix' = index_contents ix \<union> path_entries ps items"
  using assms
proof (induction items arbitrary: ix cursor ps)
  case Nil
  then show ?case by simp
next
  case (Cons x rest)
  obtain c h where x: "x = (c, h)" by force
  have c: "c \<noteq> []" and h: "h \<notin> snd ` set rest" using Cons.prems(4,5) x by auto
  have rest: "\<forall>c \<in> fst ` set rest. c \<noteq> []" "distinct (map snd rest)" using Cons.prems(4,5) by auto
  obtain n where n: "node_at ix cursor = Some n"
    using Cons.prems(2) x by (auto split: option.splits)
  show ?case
  proof (cases "map_of (children n) c")
    case (Some i)
    obtain child where child: "node_at ix i = Some child" "external_hash child = Some h"
      and hm: "hmap ix h = None \<or> hmap ix h = Some i" and att: "attachable ix i rest"
      using Cons.prems(2) x n Some by auto
    obtain ix' where one: "attach_one cursor c h ix = Some (ix', i)" "index_shape {} ix'"
      "node_at ix' = (node_at ix)(i \<mapsto> child\<lparr>present := True\<rparr>)" "hmap ix' = (hmap ix)(h \<mapsto> i)"
      "limits ix' = limits ix" "live_nodes ix' = live_nodes ix"
      "resident_token_ids ix' = resident_token_ids ix"
      "index_contents ix' = insert (h, ps @ [c]) (index_contents ix)"
      using attach_one_existing [OF Cons.prems(1) n Some child hm Cons.prems(3)] by blast
    have sk: "skeleton ix' j = skeleton ix j" for j using one(3) child by auto
    have "\<forall>k \<in> snd ` set rest. hmap ix' k = hmap ix k" using one(4) h by auto
    with attachable_cong [of ix' ix rest i, OF sk] have
      att': "attachable ix' i rest" and mi: "missing ix' i rest = missing ix i rest"
      using att by simp_all
    have "reach (node_at ix) i (ps @ [c])" using Cons.prems(3) n Some by (rule reach_child)
    then have r: "reach (node_at ix') i (ps @ [c])"
      unfolding one(3) by (subst reach_same_children [of _ i child]) (simp_all add: child)
    from Cons.IH [OF one(2) att' r rest] show ?thesis
      using x n Some one(1,5-8) mi by auto
  next
    case None
    then have hm: "hmap ix h = None" and hr: "\<forall>k \<in> snd ` set rest. hmap ix k = None"
      using Cons.prems(2) x n by auto
    obtain ix' i where one: "attach_one cursor c h ix = Some (ix', i)" "index_shape {} ix'"
      "node_at ix i = None" "node_at ix' = hang (node_at ix) cursor n c h i"
      "hmap ix' = (hmap ix)(h \<mapsto> i)" "limits ix' = limits ix"
      "live_nodes ix' = Suc (live_nodes ix)"
      "resident_token_ids ix' = resident_token_ids ix + length c"
      "index_contents ix' = insert (h, ps @ [c]) (index_contents ix)"
      using attach_one_new [OF Cons.prems(1) n None c hm Cons.prems(3)] by blast
    have leafi: "node_at ix' i = Some (leaf cursor c h)" using one(4) by simp
    have "\<forall>k \<in> snd ` set rest. hmap ix' k = None" using one(5) hr h by auto
    then have att': "attachable ix' i rest" and mi: "missing ix' i rest = map fst rest"
      using leafi by (cases rest; auto)+
    have hg: "hangable (node_at ix) (hmap ix) cursor n c i"
      using index_shapeD(1) [OF Cons.prems(1)] n None one(3) by (simp add: hangable_def)
    have r: "reach (node_at ix') i (ps @ [c])"
      unfolding one(4) using hg Cons.prems(3) by (rule hang_reach_new)
    from Cons.IH [OF one(2) att' r rest] show ?thesis
      using x n None one(1,6-9) mi by auto
  qed
qed

section \<open>Storing\<close>

lemma scan_path_total:
  assumes "index_shape X ix" and "node_at ix cursor \<noteq> None"
  shows "\<exists>r. scan_path ix fn pos items cursor path = Some r"
  using assms(2)
proof (induction items arbitrary: pos cursor path)
  case (Cons x rest)
  obtain c h where x: "x = (c, h)" by force
  from Cons.prems obtain n where n: "node_at ix cursor = Some n" by auto
  show ?case
  proof (cases "map_of (children n) c")
    case None
    with n x show ?thesis by simp
  next
    case (Some i)
    obtain child where child: "node_at ix i = Some child"
      using trie_downD [OF index_shapeD(1) [OF assms(1)] n Some] by blast
    with Cons.IH [of i "Suc pos" "path @ [i]"] n x Some show ?thesis by auto
  qed
qed simp

lemma hash_conflict_beyond:
  "\<not> hash_conflict ix path pos hs \<Longrightarrow> length path \<le> pos \<Longrightarrow> \<forall>h \<in> set hs. hmap ix h = None"
  by (induction hs arbitrary: pos) (auto simp: get_def split: option.splits)

lemma scan_path_attachable:
  assumes "scan_path ix (pos + length items) pos items cursor path = Some (Inr (first_new, path'))"
    and "length path = pos" and "\<not> hash_conflict ix path' pos (map snd items)"
  shows "attachable ix cursor items \<and> pos \<le> first_new \<and>
    missing ix cursor items = drop (first_new - pos) (map fst items)"
  using assms
proof (induction items arbitrary: pos cursor path)
  case (Cons x rest)
  obtain c h where x: "x = (c, h)" by force
  from Cons.prems(1) x obtain n where n: "node_at ix cursor = Some n"
    by (auto simp: bind_eq_Some_conv)
  show ?case
  proof (cases "map_of (children n) c")
    case None
    with Cons.prems(1) x n have e: "first_new = pos" "path' = path" by auto
    from hash_conflict_beyond [OF Cons.prems(3)] e Cons.prems(2)
    have "\<forall>k \<in> set (map snd (x # rest)). hmap ix k = None" by simp
    with n None x e show ?thesis by simp
  next
    case (Some i)
    with Cons.prems(1) x n obtain child where child: "node_at ix i = Some child"
      "external_hash child = Some h" "hmap ix h = None \<or> hmap ix h = Some i"
      and more: "scan_path ix (Suc pos + length rest) (Suc pos) rest i (path @ [i]) = Some (Inr (first_new, path'))"
      by (auto simp: bind_eq_Some_conv split: if_splits option.splits)
    have "\<not> hash_conflict ix path' (Suc pos) (map snd rest)" using Cons.prems(3) by simp
    from Cons.IH [OF more _ this] Cons.prems(2)
    have IH: "attachable ix i rest" "Suc pos \<le> first_new"
      "missing ix i rest = drop (first_new - Suc pos) (map fst rest)" by simp_all
    have "first_new - pos = Suc (first_new - Suc pos)" using IH(2) by simp
    with IH n Some child x show ?thesis by simp
  qed
qed simp

lemma checked_sum_eq:
  "acc \<le> usize_max \<Longrightarrow>
    checked_sum acc xs = (if acc + sum_list xs \<le> usize_max then Some (acc + sum_list xs) else None)"
  by (induction xs arbitrary: acc) (auto simp: add.assoc)

lemma length_concat_chunks: "length (concat xss) = sum_list (map length xss)"
  by (rule length_concat)

text \<open>The path of the parent an event names.\<close>

definition parent_path :: "exact_kv_index \<Rightarrow> block_stored \<Rightarrow> token_id list list \<Rightarrow> bool" where
  "parent_path ix event ps \<longleftrightarrow> (case parent_block_hash event of
      None \<Rightarrow> ps = [] | Some p \<Rightarrow> (p, ps) \<in> index_contents ix)"

lemma store_parent_reach:
  assumes "index_shape {} ix" and "store_parent ix event = Some i"
  obtains ps where "reach (node_at ix) i ps" "parent_path ix event ps"
proof (cases "parent_block_hash event")
  case None
  with assms(2) have "i = root_node" by (simp add: store_parent_def)
  then show ?thesis using that [of "[]"] None reach_root by (simp add: parent_path_def)
next
  case (Some p)
  with assms(2) have h: "hmap ix p = Some i" by (simp add: store_parent_def)
  obtain n where n: "node_at ix i = Some n"
    using trie_hashD [OF index_shapeD(1) [OF assms(1)] h] by blast
  obtain ps where "reach (node_at ix) i ps"
    using trie_reachD [OF index_shapeD(1) [OF assms(1)] n] by blast
  with that [of ps] h Some show ?thesis
    by (auto simp: parent_path_def index_contents_def contents_def)
qed

definition event_items :: "block_stored \<Rightarrow> (token_id list \<times> external_block_hash) list" where
  "event_items event = zip (chunks (block_size event) (token_ids event)) (block_hashes event)"

lemma index_store_cases:
  obtains (refused) e where "index_store event ix = Some (Inl e)"
  | (stuck) i where "store_parent ix event = Some i"
      "scan_path ix (length (event_items event)) 0 (event_items event) i [] = None"
  | (attached) i first_new path where "store_parent ix event = Some i"
      "length (chunks (block_size event) (token_ids event)) = length (block_hashes event)"
      "block_size event \<noteq> 0" "distinct (block_hashes event)"
      "scan_path ix (length (event_items event)) 0 (event_items event) i [] =
         Some (Inr (first_new, path))"
      "\<not> hash_conflict ix path 0 (block_hashes event)"
      "sat_add (live_nodes ix) (length (event_items event) - first_new) \<le> max_nodes (limits ix)"
      "length (concat (drop first_new (map fst (event_items event)))) \<le> usize_max"
      "sat_add (resident_token_ids ix) (length (concat (drop first_new (map fst (event_items event)))))
         \<le> max_token_ids (limits ix)"
      "index_store event ix = map_option (\<lambda>ix'. Inr (ix', length (block_hashes event)))
         (attach_path i (event_items event) ix)"
proof -
  let ?cs = "chunks (block_size event) (token_ids event)"
  let ?shape = "block_size event = 0 \<or> token_ids event = [] \<or> block_hashes event = [] \<or>
        div_ceil (length (token_ids event)) (block_size event) \<noteq> length (block_hashes event)"
  let ?dup = "\<not> distinct ((case parent_block_hash event of None \<Rightarrow> [] | Some p \<Rightarrow> [p]) @ block_hashes event)"
  show thesis
  proof (cases "?shape \<or> store_parent ix event = None \<or> ?dup")
    case True
    then have "\<exists>e. index_store event ix = Some (Inl e)" by (auto simp: index_store_def split: option.split)
    then show thesis using refused by blast
  next
    case False
    then obtain i where i: "store_parent ix event = Some i" by (cases "store_parent ix event") auto
    from False have ns: "\<not> ?shape" and nd: "\<not> ?dup" by auto
    have len: "length ?cs = length (block_hashes event)" using ns by (simp add: length_chunks)
    then have li: "length (event_items event) = length ?cs" "map fst (event_items event) = ?cs"
      by (simp_all add: event_items_def)
    show thesis
    proof (cases "scan_path ix (length (event_items event)) 0 (event_items event) i []")
      case None
      with i show thesis by (rule stuck)
    next
      case (Some r)
      show thesis
      proof (cases r)
        case (Inl e)
        with Some i ns nd have "index_store event ix = Some (Inl e)"
          by (simp add: index_store_def Let_def flip: event_items_def li(1))
        then show thesis by (rule refused)
      next
        case (Inr p)
        obtain fn path where p: "p = (fn, path)" by force
        let ?w = "sum_list (map length (drop fn ?cs))"
        have eq: "index_store event ix =
          (if hash_conflict ix path 0 (block_hashes event) then Some (Inl ConflictingPath)
           else if usize_max < ?w then Some (Inl CapacityExceeded)
           else if max_nodes (limits ix) < sat_add (live_nodes ix) (length ?cs - fn)
                  \<or> max_token_ids (limits ix) < sat_add (resident_token_ids ix) ?w
           then Some (Inl CapacityExceeded)
           else map_option (\<lambda>ix'. Inr (ix', length (block_hashes event)))
                  (attach_path i (event_items event) ix))"
          using Some Inr p i ns nd
          by (simp add: index_store_def Let_def checked_sum_eq not_le flip: event_items_def li(1))
        show thesis
        proof (cases "hash_conflict ix path 0 (block_hashes event) \<or> usize_max < ?w \<or>
            max_nodes (limits ix) < sat_add (live_nodes ix) (length ?cs - fn) \<or>
            max_token_ids (limits ix) < sat_add (resident_token_ids ix) ?w")
          case True
          then have "\<exists>e. index_store event ix = Some (Inl e)" unfolding eq by auto
          then show thesis using refused by blast
        next
          case False
          show thesis
            by (rule attached [of i fn path])
               (use False i len ns nd Some Inr p eq li in \<open>simp_all add: length_concat\<close>)
        qed
      qed
    qed
  qed
qed

theorem index_store_ok:
  assumes "index_wf ix"
  shows "\<exists>r. index_store event ix = Some r \<and> (\<forall>ix' n. r = Inr (ix', n) \<longrightarrow>
    index_wf ix' \<and> limits ix' = limits ix \<and> n = length (block_hashes event) \<and>
    (\<exists>ps. parent_path ix event ps \<and>
      index_contents ix' = index_contents ix \<union> path_entries ps (event_items event)))"
proof (cases event ix rule: index_store_cases)
  case (refused e)
  then show ?thesis by simp
next
  case (stuck i)
  have sh: "index_shape {} ix" using assms by (simp add: index_wf_def)
  obtain ps where "reach (node_at ix) i ps" using sh stuck(1) by (rule store_parent_reach)
  then have "node_at ix i \<noteq> None" by (rule reach_live [OF index_shapeD(1) [OF sh]])
  with scan_path_total [OF sh] stuck(2) show ?thesis by (metis option.distinct(1))
next
  case (attached i fn path)
  have sh: "index_shape {} ix" using assms by (simp add: index_wf_def)
  obtain ps where ps: "reach (node_at ix) i ps" "parent_path ix event ps"
    using sh attached(1) by (rule store_parent_reach)
  have snds: "map snd (event_items event) = block_hashes event"
    using attached(2) by (simp add: event_items_def)
  have att: "attachable ix i (event_items event)"
    and mi: "missing ix i (event_items event) = drop fn (map fst (event_items event))"
    using scan_path_attachable [of ix 0 "event_items event" i "[]" fn path] attached(5,6) snds by simp_all
  have ne: "\<forall>c \<in> fst ` set (event_items event). c \<noteq> []"
    by (auto simp: event_items_def dest!: set_zip_leftD chunks_nonempty)
  have di: "distinct (map snd (event_items event))" using attached(4) snds by simp
  obtain ix' where ix': "attach_path i (event_items event) ix = Some ix'" "index_shape {} ix'"
    "limits ix' = limits ix" "live_nodes ix' = live_nodes ix + length (missing ix i (event_items event))"
    "resident_token_ids ix' = resident_token_ids ix + length (concat (missing ix i (event_items event)))"
    "index_contents ix' = index_contents ix \<union> path_entries ps (event_items event)"
    using attach_path_ok [OF sh att ps(1) ne di] by blast
  have "index_wf ix'"
    using assms ix'(2-5) attached(7,9) mi by (auto simp: index_wf_def limits_ok_def sat_add_def)
  with ix' attached(10) ps(2) show ?thesis by auto
qed

section \<open>Removing\<close>

lemma unlink_node_ok:
  assumes shape: "index_shape {i} ix" and i: "node_at ix i = Some n" "i \<noteq> root_node"
    and dead: "\<not> present n" "children n = []"
  obtains ix' p where "unlink_node i ix = Some (ix', p)" "index_shape {p} ix'"
    "node_at ix' p \<noteq> None" "limits ix' = limits ix" "by_external_hash ix' = by_external_hash ix"
    "live_nodes ix' \<le> live_nodes ix" "resident_token_ids ix' \<le> resident_token_ids ix"
    "index_contents ix' = index_contents ix"
proof -
  note sD = index_shapeD [OF shape]
  obtain p pn where p: "parent n = Some p" "node_at ix p = Some pn"
    using sD(1) i by (rule trie_upD)
  have dl: "dead_leaf (node_at ix) (hmap ix) i n p pn"
    using sD(1) i dead p by (simp add: dead_leaf_def)
  have pi: "p \<noteq> i" using dead_leafD(9) [OF dl] .
  have il: "i < length (nodes ix)" "p < length (nodes ix)" using i p by (simp_all add: node_at_Some)
  define ixq where "ixq = put_node p (Some (orphan pn (block n))) (put_node i None ix)"
  define ix' where "ix' = ixq\<lparr>live_nodes := live_nodes ix - 1,
     resident_token_ids := resident_token_ids ix - length (block n),
     free_nodes := free_nodes ix @ [i]\<rparr>"
  have N': "node_at ix' = unlink (node_at ix) i (block n) p pn"
    using il by (simp add: ix'_def ixq_def)
  have fin: "finite (dom (node_at ix))" by simp
  have card: "live_nodes ix = Suc (card (dom ((node_at ix)(i := None)) - {root_node}))"
    using card_remove_slot [OF fin i] sD(3) by simp
  have wt: "resident_token_ids ix = weight ((node_at ix)(i := None)) + length (block n)"
    using weight_remove [OF fin i] sD(4) by simp
  have un: "unlink_node i ix = Some (ix', p)"
    using i p card wt pi il by (simp add: unlink_node_def ix'_def ixq_def Let_def)
  have "dom (node_at ix') = dom ((node_at ix)(i := None))" unfolding N' using p pi by auto
  moreover have "weight (node_at ix') = weight ((node_at ix)(i := None))"
    unfolding N' using p pi by (intro weight_same_block [of _ _ pn]) auto
  moreover have "slots_ok ix'"
  proof -
    have "i \<notin> set (free_nodes ix)" using sD(2) i by (auto simp: slots_ok_def node_at_Some)
    moreover have "j < length (nodes ix) \<and>
        (nodes ix)[i := None, p := Some (orphan pn (block n))] ! j = None \<longleftrightarrow>
        j = i \<or> j < length (nodes ix) \<and> nodes ix ! j = None" for j
      using il pi p(2) by (cases "j = p"; cases "j = i") (auto simp: node_at_Some)
    ultimately show ?thesis
      using sD(2) by (auto simp: slots_ok_def ix'_def ixq_def put_node_def)
  qed
  moreover have "trie_wf {p} (node_at ix') (hmap ix')"
    unfolding N' using unlink_wf [OF dl] by (simp add: ix'_def ixq_def)
  ultimately have "index_shape {p} ix'" using card wt
    by (intro index_shapeI) (simp_all add: ix'_def ixq_def)
  moreover have "index_contents ix' = index_contents ix"
    unfolding index_contents_def N' using unlink_contents [OF dl] by (simp add: ix'_def ixq_def)
  moreover have "node_at ix' p \<noteq> None" unfolding N' by simp
  ultimately show ?thesis using un by (intro that [of ix' p]) (simp_all add: ix'_def ixq_def)
qed

lemma prune_from_ok:
  assumes "index_shape {i} ix" and "node_at ix i \<noteq> None"
  shows "\<exists>ix'. prune_from i ix = Some ix' \<and> index_shape {} ix' \<and> limits ix' = limits ix \<and>
    by_external_hash ix' = by_external_hash ix \<and> live_nodes ix' \<le> live_nodes ix \<and>
    resident_token_ids ix' \<le> resident_token_ids ix \<and> index_contents ix' = index_contents ix"
  using assms
proof (induction i ix rule: prune_from.induct)
  case (1 i ix)
  obtain n where n: "node_at ix i = Some n" using 1(3) by auto
  show ?case
  proof (cases "i = root_node \<or> present n \<or> children n \<noteq> []")
    case True
    with n have "prune_from i ix = Some ix" by (auto simp: prune_from.simps [of i ix])
    moreover have "index_shape {} ix"
      using 1(2) True n trie_wf_settled [of i "node_at ix" "hmap ix"]
      by (auto simp: index_shape_def)
    ultimately show ?thesis by simp
  next
    case False
    then have ne: "i \<noteq> root_node" "\<not> present n" "children n = []" by auto
    obtain ix' p where u: "unlink_node i ix = Some (ix', p)" "index_shape {p} ix'"
      "node_at ix' p \<noteq> None" "limits ix' = limits ix" "by_external_hash ix' = by_external_hash ix"
      "live_nodes ix' \<le> live_nodes ix" "resident_token_ids ix' \<le> resident_token_ids ix"
      "index_contents ix' = index_contents ix"
      using 1(2) n ne by (rule unlink_node_ok)
    have "prune_from i ix = prune_from p ix'"
      using n ne u(1) by (simp add: prune_from.simps [of i ix])
    moreover have "\<exists>ix''. prune_from p ix' = Some ix'' \<and> index_shape {} ix'' \<and> limits ix'' = limits ix' \<and>
      by_external_hash ix'' = by_external_hash ix' \<and> live_nodes ix'' \<le> live_nodes ix' \<and>
      resident_token_ids ix'' \<le> resident_token_ids ix' \<and> index_contents ix'' = index_contents ix'"
      using 1(1) [OF ne(1) n _ u(1) _ u(2,3)] ne by simp
    ultimately show ?thesis using u(4-8) by (auto intro: order_trans)
  qed
qed

text \<open>The specification of \<open>remove\<close>: the named hashes leave, and the resident ones are counted.\<close>

definition without :: "external_block_hash set \<Rightarrow> (external_block_hash \<times> 'b) set
    \<Rightarrow> (external_block_hash \<times> 'b) set" where
  "without H C = {(k, v) \<in> C. k \<notin> H}"

lemma without_simps [simp]:
  "without {} C = C" "without H (without G C) = without (G \<union> H) C"
  "(k, v) \<in> without H C \<longleftrightarrow> (k, v) \<in> C \<and> k \<notin> H"
  by (auto simp: without_def)

lemma hmap_contents:
  assumes "index_shape {} ix"
  shows "fst ` index_contents ix = dom (hmap ix)"
proof -
  have "\<exists>ps. reach (node_at ix) i ps" if "hmap ix h = Some i" for h i
    using trie_hashD [OF index_shapeD(1) [OF assms] that] trie_reachD [OF index_shapeD(1) [OF assms]]
    by metis
  then show ?thesis unfolding index_contents_def contents_def by force
qed

lemma remove_one_ok:
  assumes "index_shape {} ix" and "hmap ix h = Some i"
  obtains n ix2 where "node_at ix i = Some n" "present n" "external_hash n = Some h"
    "prune_from i (put_node i (Some (n\<lparr>present := False\<rparr>))
       (ix\<lparr>by_external_hash := AList.delete h (by_external_hash ix)\<rparr>)) = Some ix2"
    "index_shape {} ix2" "limits ix2 = limits ix" "live_nodes ix2 \<le> live_nodes ix"
    "resident_token_ids ix2 \<le> resident_token_ids ix"
    "index_contents ix2 = without {h} (index_contents ix)"
proof -
  note sD = index_shapeD [OF assms(1)]
  obtain n where n: "node_at ix i = Some n" "present n" "external_hash n = Some h" "i \<noteq> root_node"
    using sD(1) assms(2) by (rule trie_hashD)
  define ix1 where "ix1 = put_node i (Some (n\<lparr>present := False\<rparr>))
       (ix\<lparr>by_external_hash := AList.delete h (by_external_hash ix)\<rparr>)"
  have il: "i < length (nodes ix)" using n by (simp add: node_at_Some)
  have N1: "node_at ix1 = (node_at ix)(i \<mapsto> n\<lparr>present := False\<rparr>)" using il by (simp add: ix1_def)
  have B1: "hmap ix1 = (hmap ix)(h := None)" by (simp add: ix1_def delete_conv')
  have "dom (node_at ix1) = dom (node_at ix)" unfolding N1 using n by auto
  moreover have "weight (node_at ix1) = weight (node_at ix)"
    unfolding N1 by (rule weight_same_block) (simp_all add: n)
  moreover have "slots_ok ix1" using sD(2) n
    by (simp add: ix1_def slots_ok_put_Some [of _ i n])
  moreover have "trie_wf {i} (node_at ix1) (hmap ix1)"
    unfolding N1 B1 using sD(1) assms(2) n(1) by (rule mark_absent_wf)
  ultimately have "index_shape {i} ix1" using sD(3,4)
    by (intro index_shapeI) (simp_all add: ix1_def)
  moreover have "node_at ix1 i \<noteq> None" unfolding N1 by simp
  ultimately obtain ix2 where ix2: "prune_from i ix1 = Some ix2" "index_shape {} ix2"
    "limits ix2 = limits ix1" "live_nodes ix2 \<le> live_nodes ix1"
    "resident_token_ids ix2 \<le> resident_token_ids ix1" "index_contents ix2 = index_contents ix1"
    using prune_from_ok by blast
  have "index_contents ix1 = without {h} (index_contents ix)"
    unfolding index_contents_def N1 B1 using mark_absent_contents [of "node_at ix" i n "hmap ix" h] n(1)
    by (auto simp: without_def)
  with n ix2 show ?thesis by (intro that [of n ix2]) (simp_all add: ix1_def)
qed

lemma remove_hashes_ok:
  assumes "index_shape {} ix"
  shows "\<exists>ix'. remove_hashes hs k ix =
      Some (ix', k + card (set hs \<inter> fst ` index_contents ix)) \<and> index_shape {} ix' \<and>
    limits ix' = limits ix \<and> live_nodes ix' \<le> live_nodes ix \<and>
    resident_token_ids ix' \<le> resident_token_ids ix \<and>
    index_contents ix' = without (set hs) (index_contents ix)"
  using assms
proof (induction hs arbitrary: ix k)
  case (Cons h hs)
  show ?case
  proof (cases "hmap ix h")
    case None
    then have "h \<notin> fst ` index_contents ix" using hmap_contents [OF Cons.prems] by auto
    moreover from this have "without (insert h (set hs)) (index_contents ix) =
        without (set hs) (index_contents ix)" by (force simp: without_def)
    ultimately show ?thesis using Cons.IH [OF Cons.prems, of k] None by simp
  next
    case (Some i)
    obtain n ix2 where n: "node_at ix i = Some n" "present n" "external_hash n = Some h"
      and p: "prune_from i (put_node i (Some (n\<lparr>present := False\<rparr>))
        (ix\<lparr>by_external_hash := AList.delete h (by_external_hash ix)\<rparr>)) = Some ix2"
      and ix2: "index_shape {} ix2" "limits ix2 = limits ix" "live_nodes ix2 \<le> live_nodes ix"
      "resident_token_ids ix2 \<le> resident_token_ids ix"
      "index_contents ix2 = without {h} (index_contents ix)"
      using Cons.prems Some by (rule remove_one_ok)
    have mem: "h \<in> fst ` index_contents ix" using hmap_contents [OF Cons.prems] Some by auto
    have "set (h # hs) \<inter> fst ` index_contents ix =
        insert h (set hs \<inter> fst ` index_contents ix2)" and "h \<notin> fst ` index_contents ix2"
      using mem unfolding ix2(5) by (force simp: without_def)+
    then have "card (set (h # hs) \<inter> fst ` index_contents ix) =
        Suc (card (set hs \<inter> fst ` index_contents ix2))" by simp
    then show ?thesis using Cons.IH [OF ix2(1), of "Suc k"] Some n p ix2(2-5)
      by (auto simp: Let_def intro: order_trans)
  qed
qed simp

lemma index_remove_ok:
  assumes "index_wf ix"
  obtains ix' where "index_remove event ix =
      Some (ix', card (set (rm_block_hashes event) \<inter> fst ` index_contents ix))"
    "index_wf ix'" "limits ix' = limits ix"
    "index_contents ix' = without (set (rm_block_hashes event)) (index_contents ix)"
  using remove_hashes_ok [of ix "rm_block_hashes event" 0] assms that
  by (auto simp: index_remove_def index_wf_def)

end
