(* ===== verification/Exact_Lookup.thy ===== *)
theory Exact_Lookup
  imports Exact_Index_Proofs "HOL-Library.Multiset_Order" "HOL-Library.Sublist"
begin

text \<open>
  Correctness of \<open>ExactKvIndex::find_longest\<close>: on a well-formed index the work-list loop always
  ends, its only error is the step budget, and its answer is the longest chain of resident blocks
  that spells a prefix of the prompt.
\<close>

section \<open>Specification\<close>

text \<open>A chain of blocks, each of them resident, whose tokens are a prefix of the prompt.\<close>

definition resident_chain ::
  "(external_block_hash \<times> token_id list list) set \<Rightarrow> token_id list \<Rightarrow> token_id list list \<Rightarrow> bool"
where
  "resident_chain C toks ps \<longleftrightarrow> prefix (concat ps) toks \<and>
     (\<forall>qs. qs \<noteq> [] \<and> prefix qs ps \<longrightarrow> qs \<in> snd ` C)"

text \<open>The order of answers: by tokens covered, then by blocks.\<close>

definition chain_le :: "token_id list list \<Rightarrow> exact_match \<Rightarrow> bool" where
  "chain_le ps m \<longleftrightarrow> length (concat ps) < em_token_ids m \<or>
     length (concat ps) = em_token_ids m \<and> length ps \<le> em_blocks m"

definition chain_match :: "token_id list list \<Rightarrow> exact_match" where
  "chain_match ps = \<lparr>em_blocks = length ps, em_token_ids = length (concat ps)\<rparr>"

lemma resident_chain_prefix:
  "resident_chain C toks ps \<Longrightarrow> prefix qs ps \<Longrightarrow> resident_chain C toks qs"
  unfolding resident_chain_def
  by (metis (no_types, lifting) concat_append prefixE prefix_order.trans prefix_prefix prefixI)

lemma resident_chain_Nil [simp]: "resident_chain C toks []"
  by (simp add: resident_chain_def)

lemma path_entries_hashes: "fst ` path_entries ps items = snd ` set items"
  by (induction ps items rule: path_entries.induct) auto

lemma path_entries_prefix:
  "qs \<noteq> [] \<Longrightarrow> prefix qs (map fst items) \<Longrightarrow> ps @ qs \<in> snd ` path_entries ps items"
proof (induction ps items arbitrary: qs rule: path_entries.induct)
  case (2 ps c h rest)
  then obtain qs' where qs: "qs = c # qs'" "prefix qs' (map fst rest)" by (cases qs) auto
  with 2(1) [of qs'] show ?case by (cases "qs' = []") (auto simp: image_iff)
qed simp

section \<open>One expansion\<close>

definition hit :: "exact_kv_index \<Rightarrow> token_id list \<Rightarrow> node \<Rightarrow> nat \<Rightarrow> nat \<Rightarrow> nat \<Rightarrow> bool" where
  "hit ix toks n off l i \<longleftrightarrow> off + l \<le> length toks \<and>
     map_of (children n) (take l (drop off toks)) = Some i \<and>
     (\<exists>c. node_at ix i = Some c \<and> present c)"

lemma expand_ok:
  assumes len: "length toks \<le> usize_max"
    and live: "\<forall>c i. map_of (children n) c = Some i \<longrightarrow> node_at ix i \<noteq> None"
  shows "(\<exists>s' new. expand ix toks n off b ls s st = Some (Inr (s', st @ new)) \<and>
      set new = {(j, off + m, b + 1) | m j. m \<in> set ls \<and> hit ix toks n off m j}) \<or>
    expand ix toks n off b ls s st = Some (Inl LookupBudgetExceeded)"
proof (induction ls arbitrary: s st)
  case (Cons l ls)
  let ?s = "sat_add s 1"
  consider "max_lookup_steps (limits ix) < ?s" | "\<not> max_lookup_steps (limits ix) < ?s" by blast
  then show ?case
  proof cases
    case 2
    show ?thesis
    proof (cases "\<exists>i. hit ix toks n off l i")
      case True
      then obtain i c where i: "off + l \<le> length toks"
        "map_of (children n) (take l (drop off toks)) = Some i" "node_at ix i = Some c" "present c"
        by (auto simp: hit_def)
      then have e: "expand ix toks n off b (l # ls) s st =
          expand ix toks n off b ls ?s (st @ [(i, off + l, b + 1)])"
        using 2 len by simp
      have h: "hit ix toks n off l j \<longleftrightarrow> j = i" for j using i by (auto simp: hit_def)
      from Cons.IH [of ?s "st @ [(i, off + l, b + 1)]"] show ?thesis
      proof (elim disjE exE conjE)
        fix s' new assume n: "expand ix toks n off b ls ?s (st @ [(i, off + l, b + 1)]) =
            Some (Inr (s', (st @ [(i, off + l, b + 1)]) @ new))"
          "set new = {(j, off + m, b + 1) | m j. m \<in> set ls \<and> hit ix toks n off m j}"
        let ?new = "(i, off + l, b + 1) # new"
        have "set ?new = {(j, off + m, b + 1) | m j. m \<in> set (l # ls) \<and> hit ix toks n off m j}"
          using n(2) h by auto
        moreover have "expand ix toks n off b (l # ls) s st = Some (Inr (s', st @ ?new))"
          using n(1) e by simp
        ultimately show ?thesis by blast
      qed (unfold e, simp)
    next
      case False
      have e: "expand ix toks n off b (l # ls) s st = expand ix toks n off b ls ?s st"
        using 2 False live [THEN spec, of "take l (drop off toks)"]
        by (cases "off + l \<le> length toks"; cases "map_of (children n) (take l (drop off toks))")
           (auto simp: hit_def Let_def)
      have "{(j, off + m, b + 1) | m j. m \<in> set (l # ls) \<and> hit ix toks n off m j} =
          {(j, off + m, b + 1) | m j. m \<in> set ls \<and> hit ix toks n off m j}" using False by auto
      with Cons.IH [of ?s st] show ?thesis unfolding e by simp
    qed
  qed simp
qed simp

section \<open>The loop\<close>

text \<open>A work item stands for a resident chain of the prompt.\<close>

definition item_chain ::
  "exact_kv_index \<Rightarrow> token_id list \<Rightarrow> nat \<times> nat \<times> nat \<Rightarrow> token_id list list \<Rightarrow> bool" where
  "item_chain ix toks it ps \<longleftrightarrow> (case it of (i, off, b) \<Rightarrow>
     resident_chain (index_contents ix) toks ps \<and> reach (node_at ix) i ps \<and> off = length (concat ps) \<and> b = length ps)"

definition loop_inv ::
  "exact_kv_index \<Rightarrow> token_id list \<Rightarrow> (nat \<times> nat \<times> nat) list \<Rightarrow> exact_match \<Rightarrow> bool" where
  "loop_inv ix toks stack best \<longleftrightarrow>
     (\<forall>it \<in> set stack. \<exists>ps. item_chain ix toks it ps) \<and>
     (\<exists>ps. resident_chain (index_contents ix) toks ps \<and> best = chain_match ps) \<and>
     (\<forall>ps. resident_chain (index_contents ix) toks ps \<longrightarrow> chain_le ps best \<or>
        (\<exists>it \<in> set stack. \<exists>qs. item_chain ix toks it qs \<and> prefix qs ps))"

lemma better_cases:
  "better best (length (concat ps)) (length ps) = best \<and> chain_le ps best \<or>
   better best (length (concat ps)) (length ps) = chain_match ps"
  by (auto simp: better_def chain_le_def chain_match_def)

lemma better_keeps: "chain_le qs best \<Longrightarrow> chain_le qs (better best off b)"
  by (auto simp: better_def chain_le_def)

lemma better_covers: "chain_le ps (better best (length (concat ps)) (length ps))"
  by (auto simp: better_def chain_le_def)

lemma present_contents:
  assumes "index_shape {} ix" and "reach (node_at ix) i ps" and "ps \<noteq> []"
    and "node_at ix i = Some n"
  shows "present n \<longleftrightarrow> ps \<in> snd ` index_contents ix"
proof -
  note wf = index_shapeD(1) [OF assms(1)]
  have ne: "i \<noteq> root_node"
    using reach_same_path [OF wf assms(2), of "[]"] assms(3) reach_root by metis
  obtain h where h: "external_hash n = Some h" using wf assms(4) ne by (rule trie_upD)
  show ?thesis
  proof
    assume "present n"
    then have "hmap ix h = Some i" using trie_presentD [OF wf assms(4) ne] h by blast
    with assms(2) show "ps \<in> snd ` index_contents ix" by (force simp: index_contents_def contents_def)
  next
    assume "ps \<in> snd ` index_contents ix"
    then obtain k j where k: "hmap ix k = Some j" "reach (node_at ix) j ps"
      by (auto simp: index_contents_def contents_def)
    then have "j = i" using assms(2) reach_same_node by metis
    with k(1) wf assms(4) show "present n" using trie_hashD by (metis option.inject)
  qed
qed

lemma item_chain_hit:
  assumes shape: "index_shape {} ix" and it: "item_chain ix toks (p, off, b) ps"
    and p: "node_at ix p = Some n" and h: "hit ix toks n off l i"
  shows "item_chain ix toks (i, off + l, b + 1) (ps @ [take l (drop off toks)])"
    and "l > 0"
proof -
  let ?c = "take l (drop off toks)"
  have it': "resident_chain (index_contents ix) toks ps" "reach (node_at ix) p ps" "off = length (concat ps)" "b = length ps"
    using it by (simp_all add: item_chain_def)
  obtain m where h': "off + l \<le> length toks" "map_of (children n) ?c = Some i"
    "node_at ix i = Some m" "present m" using h by (auto simp: hit_def)
  have r: "reach (node_at ix) i (ps @ [?c])" using it'(2) p h'(2) by (rule reach_child)
  then have "?c \<noteq> []" using reach_blocks_nonempty [OF index_shapeD(1) [OF shape] r, of ?c] by simp
  then show "l > 0" by auto
  have in_c: "ps @ [?c] \<in> snd ` index_contents ix"
    using present_contents [OF shape r _ h'(3)] h'(4) by simp
  have "concat ps = take off toks" using it'(1,3) by (auto simp: resident_chain_def prefix_def)
  then have "concat (ps @ [?c]) = take (off + l) toks" by (simp add: take_add)
  then have "prefix (concat (ps @ [?c])) toks" by (simp add: take_is_prefix)
  then have "resident_chain (index_contents ix) toks (ps @ [?c])"
    using it'(1) in_c by (auto simp: resident_chain_def)
  with r it'(3,4) h'(1) show "item_chain ix toks (i, off + l, b + 1) (ps @ [?c])"
    by (simp add: item_chain_def)
qed

lemma chain_hit:
  assumes shape: "index_shape {} ix" and it: "item_chain ix toks (p, off, b) ps"
    and p: "node_at ix p = Some n" and ch: "resident_chain (index_contents ix) toks (ps @ [c])"
  obtains i where "hit ix toks n off (length c) i" "length c \<in> set (child_lengths n)"
    "item_chain ix toks (i, off + length c, b + 1) (ps @ [c])"
proof -
  have it': "reach (node_at ix) p ps" "off = length (concat ps)" "b = length ps"
    using it by (simp_all add: item_chain_def)
  have pre: "prefix (concat ps @ c) toks" and inc: "ps @ [c] \<in> snd ` index_contents ix"
    using ch by (auto simp: resident_chain_def)
  have c: "take (length c) (drop off toks) = c" "off + length c \<le> length toks"
    using pre it'(2) by (auto simp: prefix_def)
  obtain k i where k: "hmap ix k = Some i" "reach (node_at ix) i (ps @ [c])"
    using inc by (auto simp: index_contents_def contents_def)
  from k(2) obtain p' pn where p': "reach (node_at ix) p' ps" "node_at ix p' = Some pn"
    "map_of (children pn) c = Some i" by (rule reach_snocE) auto
  have "p' = p" using p'(1) it'(1) by (rule reach_same_node)
  with p' p have m: "map_of (children n) c = Some i" by simp
  obtain nc where nc: "node_at ix i = Some nc" "length c \<in> set (child_lengths n)"
    using index_shapeD(1) [OF shape] p m by (rule trie_downD)
  have "present nc" using present_contents [OF shape k(2) _ nc(1)] inc by simp
  then have "hit ix toks n off (length c) i" using c m nc by (simp add: hit_def)
  moreover have "item_chain ix toks (i, off + length c, b + 1) (ps @ [c])"
    using ch k(2) it' by (simp add: item_chain_def)
  ultimately show ?thesis using nc(2) by (intro that)
qed

lemma loop_inv_step:
  assumes shape: "index_shape {} ix" and inv: "loop_inv ix toks (st @ [(p, off, b)]) best"
    and p: "node_at ix p = Some n"
    and new: "set new = {(j, off + m, b + 1) | m j. m \<in> set (child_lengths n) \<and> hit ix toks n off m j}"
  shows "loop_inv ix toks (st @ new) (better best off b)"
proof -
  obtain ps where ps: "item_chain ix toks (p, off, b) ps" using inv by (auto simp: loop_inv_def)
  then have res: "resident_chain (index_contents ix) toks ps" and ob: "off = length (concat ps)" "b = length ps"
    by (simp_all add: item_chain_def)
  have "\<exists>qs. item_chain ix toks it qs" if "it \<in> set (st @ new)" for it
    using that inv new item_chain_hit(1) [OF shape ps p] by (fastforce simp: loop_inv_def)
  moreover have "\<exists>qs. resident_chain (index_contents ix) toks qs \<and> better best off b = chain_match qs"
    using better_cases [of best ps] res inv ob by (auto simp: loop_inv_def)
  moreover have "chain_le qs (better best off b) \<or>
      (\<exists>it \<in> set (st @ new). \<exists>rs. item_chain ix toks it rs \<and> prefix rs qs)"
    if qs: "resident_chain (index_contents ix) toks qs" for qs
  proof -
    have "chain_le qs best \<or> (\<exists>it \<in> set (st @ [(p, off, b)]). \<exists>rs. item_chain ix toks it rs \<and> prefix rs qs)"
      using inv qs unfolding loop_inv_def by blast
    then consider "chain_le qs best"
      | it rs where "it \<in> set st" "item_chain ix toks it rs" "prefix rs qs"
      | rs where "item_chain ix toks (p, off, b) rs" "prefix rs qs" by auto
    then show ?thesis
    proof cases
      case 1
      then show ?thesis using better_keeps by blast
    next
      case 2
      then show ?thesis by auto
    next
      case (3 rs)
      from \<open>prefix rs qs\<close> consider "qs = rs" | c ts where "qs = rs @ c # ts"
        unfolding prefix_def by (metis append_Nil2 list.exhaust)
      then show ?thesis
      proof cases
        case 1
        have "chain_le rs (better best off b)"
          using 3(1) better_covers [of rs best] by (simp add: item_chain_def)
        with 1 show ?thesis by simp
      next
        case (2 c ts)
        have "resident_chain (index_contents ix) toks (rs @ [c])"
          using resident_chain_prefix [OF qs, of "rs @ [c]"] 2 by (simp add: prefix_def)
        then obtain i where "hit ix toks n off (length c) i" "length c \<in> set (child_lengths n)"
          "item_chain ix toks (i, off + length c, b + 1) (rs @ [c])"
          using shape 3(1) p by (metis chain_hit)
        moreover from this new have "(i, off + length c, b + 1) \<in> set new" by blast
        moreover have "prefix (rs @ [c]) qs" using 2 by (simp add: prefix_def)
        ultimately show ?thesis by fastforce
      qed
    qed
  qed
  ultimately show ?thesis by (auto simp: loop_inv_def)
qed

text \<open>What remains to be read below each work item; every iteration makes this multiset smaller.\<close>

definition work :: "token_id list \<Rightarrow> (nat \<times> nat \<times> nat) list \<Rightarrow> nat multiset" where
  "work toks st = mset (map (\<lambda>(i, off, b). length toks - off) st)"

lemma work_step:
  assumes shape: "index_shape {} ix" and it: "item_chain ix toks (p, off, b) ps"
    and p: "node_at ix p = Some n"
    and new: "set new = {(j, off + m, b + 1) | m j. m \<in> set (child_lengths n) \<and> hit ix toks n off m j}"
  shows "work toks (st @ new) < work toks (st @ [(p, off, b)])"
proof -
  have "k < length toks - off" if "k \<in># work toks new" for k
  proof -
    from that obtain i o' b' where x: "(i, o', b') \<in> set new" "k = length toks - o'"
      by (auto simp: work_def)
    then obtain m where m: "o' = off + m" "hit ix toks n off m i" unfolding new by auto
    have "m > 0" using item_chain_hit(2) [OF shape it p m(2)] .
    moreover have "off + m \<le> length toks" using m(2) by (simp add: hit_def)
    ultimately show ?thesis using x m by simp
  qed
  then have "work toks new < {#length toks - off#}"
    by (intro ex_gt_imp_less_multiset) auto
  then show ?thesis by (simp add: work_def)
qed

lemma lookup_loop_ok:
  assumes "index_shape {} ix" and "length toks \<le> usize_max" and "loop_inv ix toks st best"
  shows "(\<exists>m. lookup_loop ix toks st s best = Some (Inr m) \<and> loop_inv ix toks [] m) \<or>
    lookup_loop ix toks st s best = Some (Inl LookupBudgetExceeded)"
  using assms(3)
proof (induction "work toks st" arbitrary: st s best rule: wf_induct_rule [OF wf_less_multiset])
  case (1 st)
  show ?case
  proof (cases st rule: rev_cases)
    case Nil
    with 1 show ?thesis by (simp add: lookup_loop.simps)
  next
    case (snoc st0 it)
    obtain p off b where it: "it = (p, off, b)" by (cases it)
    obtain ps where ps: "item_chain ix toks (p, off, b) ps"
      using 1(2) snoc it by (auto simp: loop_inv_def)
    note wf = index_shapeD(1) [OF assms(1)]
    obtain n where n: "node_at ix p = Some n"
      using ps reach_live [OF wf] by (auto simp: item_chain_def)
    have live: "\<forall>c i. map_of (children n) c = Some i \<longrightarrow> node_at ix i \<noteq> None"
      using trie_downD [OF wf n] by blast
    have step: "lookup_loop ix toks st s best =
        Option.bind (expand ix toks n off b (child_lengths n) s st0) (\<lambda>r.
          case r of Inl e \<Rightarrow> Some (Inl e)
          | Inr (s', st') \<Rightarrow> lookup_loop ix toks st' s' (better best off b))"
      using n snoc it by (subst lookup_loop.simps) simp
    from expand_ok [OF assms(2) live, where ls = "child_lengths n" and off = off and b = b and s = s and st = st0]
    show ?thesis
    proof (elim disjE exE conjE)
      fix s' new
      assume e: "expand ix toks n off b (child_lengths n) s st0 = Some (Inr (s', st0 @ new))"
        and new: "set new = {(j, off + m, b + 1) | m j. m \<in> set (child_lengths n) \<and> hit ix toks n off m j}"
      have "loop_inv ix toks (st0 @ new) (better best off b)"
        using assms(1) 1(2) n new unfolding snoc it by (rule loop_inv_step)
      moreover have "work toks (st0 @ new) < work toks st"
        using work_step [OF assms(1) ps n new] snoc it by simp
      ultimately show ?thesis using 1(1) [of "st0 @ new" "better best off b" s'] step e by simp
    qed (simp add: step)
  qed
qed

lemma index_find_longest_ok:
  assumes "index_wf ix" and "length toks \<le> usize_max"
  shows "(\<exists>ps. index_find_longest toks ix = Some (Inr (chain_match ps)) \<and>
      resident_chain (index_contents ix) toks ps \<and> (\<forall>qs. resident_chain (index_contents ix) toks qs \<longrightarrow> chain_le qs (chain_match ps))) \<or>
    index_find_longest toks ix = Some (Inl LookupBudgetExceeded)"
proof -
  have sh: "index_shape {} ix" using assms(1) by (simp add: index_wf_def)
  have "loop_inv ix toks [(root_node, 0, 0)] \<lparr>em_blocks = 0, em_token_ids = 0\<rparr>"
    using reach_root by (auto simp: loop_inv_def item_chain_def chain_match_def intro: exI [of _ "[]"])
  from lookup_loop_ok [OF sh assms(2) this, of 0] show ?thesis
    by (auto simp: index_find_longest_def loop_inv_def)
qed

section \<open>Empty indexes\<close>

lemma node_at_empty [simp]:
  "node_at (index_new l) = [root_node \<mapsto> node_root]"
  "node_at (index_clear ix) = [root_node \<mapsto> node_root]"
  by (auto simp: node_at_def index_new_def index_clear_def get_def root_node_def fun_eq_iff)

lemma reach_empty: "reach [root_node \<mapsto> node_root] i ps \<longleftrightarrow> i = root_node \<and> ps = []"
proof
  show "reach [root_node \<mapsto> node_root] i ps \<Longrightarrow> i = root_node \<and> ps = []"
    by (induction rule: reach.induct) (auto simp: node_root_def split: if_splits)
qed (simp add: reach_root)

lemma trie_wf_empty: "trie_wf {} [root_node \<mapsto> node_root] Map.empty"
  using reach_root [of "[root_node \<mapsto> node_root]"] by (auto simp: trie_defs) (auto simp: node_root_def)

lemma index_new_wf: "limits_ok l \<Longrightarrow> index_wf (index_new l)"
  using trie_wf_empty
  by (auto simp: index_wf_def index_shape_def counts_ok_def slots_ok_def weight_def)
     (auto simp: index_new_def less_Suc_eq)

lemma index_new_contents [simp]: "index_contents (index_new l) = {}"
  by (simp add: index_contents_def contents_def) (simp add: index_new_def)

lemma index_clear_new: "index_clear ix = index_new (limits ix)"
  by (simp add: index_clear_def index_new_def)

lemma index_clear_contents [simp]: "index_contents (index_clear ix) = {}"
  by (simp add: index_clear_new)

lemma index_clear_wf: "index_wf ix \<Longrightarrow> index_wf (index_clear ix)"
  using index_new_wf [of "limits ix"] by (simp add: index_clear_new index_wf_def)

section \<open>The contract\<close>

text \<open>
  What the owner of an index relies on. The view of an index is the set of its resident hashes, each
  with the chain of blocks it ends.
\<close>

locale prefix_index =
  fixes wf_index :: "'ix \<Rightarrow> bool"
    and view :: "'ix \<Rightarrow> (external_block_hash \<times> token_id list list) set"
    and empty_index :: "'ix \<Rightarrow> 'ix"
    and store :: "block_stored \<Rightarrow> 'ix \<Rightarrow> (exact_index_error + 'ix \<times> nat) option"
    and remove :: "block_removed \<Rightarrow> 'ix \<Rightarrow> ('ix \<times> nat) option"
    and find :: "token_id list \<Rightarrow> 'ix \<Rightarrow> (exact_index_error + exact_match) option"
  assumes empty_law: "wf_index ix \<Longrightarrow> wf_index (empty_index ix) \<and> view (empty_index ix) = {}"
    and functional_law: "wf_index ix \<Longrightarrow> (h, ps) \<in> view ix \<Longrightarrow> (h, qs) \<in> view ix \<Longrightarrow> ps = qs"
    and store_total: "wf_index ix \<Longrightarrow> store event ix \<noteq> None"
    and store_law: "wf_index ix \<Longrightarrow> store event ix = Some (Inr (ix', k)) \<Longrightarrow>
      wf_index ix' \<and> k = length (block_hashes event) \<and>
      (\<exists>ps. (case parent_block_hash event of None \<Rightarrow> ps = [] | Some p \<Rightarrow> (p, ps) \<in> view ix) \<and>
        view ix' = view ix \<union> path_entries ps (event_items event))"
    and store_shape: "store event ix = Some (Inr (ix', k)) \<Longrightarrow>
      block_size event \<noteq> 0 \<and>
      length (chunks (block_size event) (token_ids event)) = length (block_hashes event)"
    and remove_law: "wf_index ix \<Longrightarrow> \<exists>ix'. wf_index ix' \<and>
      remove rm ix = Some (ix', card (set (rm_block_hashes rm) \<inter> fst ` view ix)) \<and>
      view ix' = without (set (rm_block_hashes rm)) (view ix)"
    and find_law: "wf_index ix \<Longrightarrow> length toks \<le> usize_max \<Longrightarrow>
      find toks ix = Some (Inl LookupBudgetExceeded) \<or>
      (\<exists>ps. find toks ix = Some (Inr (chain_match ps)) \<and> resident_chain (view ix) toks ps \<and>
        (\<forall>qs. resident_chain (view ix) toks qs \<longrightarrow> chain_le qs (chain_match ps)))"
begin

lemma find_sound:
  assumes "wf_index ix" and "length toks \<le> usize_max" and "find toks ix = Some (Inr m)"
  obtains ps where "resident_chain (view ix) toks ps" "m = chain_match ps"
  using find_law [OF assms(1,2)] assms(3) that by auto

lemma find_max:
  assumes "wf_index ix" and "length toks \<le> usize_max" and "find toks ix = Some (Inr m)"
    and "resident_chain (view ix) toks qs"
  shows "chain_le qs m"
  using find_law [OF assms(1,2)] assms(3,4) by auto

lemma find_mono:
  assumes "wf_index ix" and "wf_index ix'" and "snd ` view ix \<subseteq> snd ` view ix'"
    and "length toks \<le> usize_max"
    and "find toks ix = Some (Inr m)" and "find toks ix' = Some (Inr m')"
  shows "em_token_ids m \<le> em_token_ids m'"
proof -
  obtain ps where ps: "resident_chain (view ix) toks ps" "m = chain_match ps"
    using assms(1,4,5) by (rule find_sound)
  then have "resident_chain (view ix') toks ps" using assms(3) by (auto simp: resident_chain_def)
  with assms(2,4,6) have "chain_le ps m'" by (rule find_max)
  then show ?thesis using ps(2) by (auto simp: chain_le_def chain_match_def)
qed

lemma find_after_store:
  assumes "wf_index ix" and "store event ix = Some (Inr (ix', k))"
    and "parent_block_hash event = None"
    and "length (token_ids event @ rest) \<le> usize_max"
    and "find (token_ids event @ rest) ix' = Some (Inr m)"
  shows "length (token_ids event) \<le> em_token_ids m"
proof -
  have wf': "wf_index ix'" and v: "view ix' = view ix \<union> path_entries [] (event_items event)"
    using store_law [OF assms(1,2)] assms(3) by auto
  let ?cs = "chunks (block_size event) (token_ids event)"
  have cs: "map fst (event_items event) = ?cs" and cc: "concat ?cs = token_ids event"
    using store_shape [OF assms(2)] by (simp_all add: event_items_def concat_chunks)
  have "resident_chain (view ix') (token_ids event @ rest) ?cs"
    unfolding resident_chain_def
  proof (intro conjI allI impI)
    show "prefix (concat ?cs) (token_ids event @ rest)" by (simp add: cc)
    fix qs assume "qs \<noteq> [] \<and> prefix qs ?cs"
    then show "qs \<in> snd ` view ix'"
      using path_entries_prefix [of qs "event_items event" "[]"] by (auto simp: v cs)
  qed
  with wf' assms(4,5) have "chain_le ?cs m" by (rule find_max)
  then show ?thesis by (auto simp: chain_le_def cc)
qed

lemma remove_after_store:
  assumes "wf_index ix" and "store event ix = Some (Inr (ix', k))"
    and "set (block_hashes event) \<inter> fst ` view ix = {}" and "set (rm_block_hashes rm) = set (block_hashes event)"
    and "remove rm ix' = Some (ix'', j)"
  shows "view ix'' = view ix"
proof -
  obtain ps where wf': "wf_index ix'" and v: "view ix' = view ix \<union> path_entries ps (event_items event)"
    using store_law [OF assms(1,2)] by auto
  have "fst ` path_entries ps (event_items event) \<subseteq> set (block_hashes event)"
    using path_entries_hashes [of ps "event_items event"]
    by (auto simp: event_items_def dest: set_zip_rightD)
  then show ?thesis using remove_law [OF wf', of rm] assms(3-5) unfolding v without_def by force
qed

end

lemma index_store_shape:
  assumes "index_store event ix = Some (Inr (ix', k))"
  shows "block_size event \<noteq> 0 \<and>
    length (chunks (block_size event) (token_ids event)) = length (block_hashes event)"
proof (cases event ix rule: index_store_cases)
  case (stuck i)
  then show ?thesis using assms
    by (auto simp: index_store_def Let_def event_items_def length_chunks split: if_splits option.splits)
qed (use assms in auto)

interpretation exact_index: prefix_index index_wf index_contents index_clear index_store index_remove
  index_find_longest
proof (unfold_locales, goal_cases)
  case (1 ix)
  then show ?case using index_clear_wf by simp
next
  case (2 ix h ps qs)
  then show ?case unfolding index_contents_def
    using contents_functional [of "{}" "node_at ix" "hmap ix"]
    by (simp add: index_wf_def index_shape_def)
next
  case (3 ix event)
  then show ?case using index_store_ok by fastforce
next
  case (4 ix event ix' k)
  then show ?case using index_store_ok [OF 4(1), of event] by (auto simp: parent_path_def)
next
  case (5 event ix ix' k)
  then show ?case by (rule index_store_shape)
next
  case (6 ix rm)
  then show ?case by (metis index_remove_ok)
next
  case (7 ix toks)
  then show ?case using index_find_longest_ok by blast
qed

section \<open>A concrete index\<close>

definition sample_limits :: exact_index_limits where
  "sample_limits = \<lparr>max_nodes = 8, max_token_ids = 32, max_lookup_steps = 16\<rparr>"

definition sample_store :: block_stored where
  "sample_store = \<lparr>block_hashes = [Unsigned 1, Unsigned 2], parent_block_hash = None,
     token_ids = [10, 11, 12], block_size = 2, group_idx = None, kv_cache_spec_kind = None,
     kv_cache_spec_sliding_window = None, medium = None, locality = None, lora_name = None,
     cache_namespace = None, has_extra_keys = False\<rparr>"

definition sample_remove :: block_removed where
  "sample_remove = \<lparr>rm_block_hashes = [Unsigned 2, Unsigned 1], rm_group_idx = None,
     rm_medium = None, rm_locality = None\<rparr>"

definition sample_index :: exact_kv_index where
  "sample_index = fst (projr (the (index_store sample_store (index_new sample_limits))))"

lemmas index_eval = index_store_def div_ceil_def store_parent_def chunks.simps Let_def index_new_def
  node_at_def get_def root_node_def node_root_def sat_add_def usize_max_def attach_one_def
  insert_child_def allocate_node_def put_node_def add_length_def
lemmas lookup_eval = index_find_longest_def lookup_loop.simps [of _ _ "[]"]
  lookup_loop.simps [of _ _ "_ # _"] better_def
lemmas sample_event_eval = sample_limits_def sample_store_def

lemma sample_limits_ok: "limits_ok sample_limits"
  by (simp add: limits_ok_def sample_limits_def usize_max_def)

lemma sample_new_wf: "index_wf (index_new sample_limits)"
  using sample_limits_ok by (rule index_new_wf)

lemma sample_store_run:
  "index_store sample_store (index_new sample_limits) = Some (Inr (sample_index, 2))"
proof -
  have "\<exists>ix. index_store sample_store (index_new sample_limits) = Some (Inr (ix, 2))"
    by (simp add: sample_event_eval index_eval)
  then show ?thesis by (auto simp: sample_index_def)
qed

lemma sample_index_wf: "index_wf sample_index"
  using exact_index.store_law [OF sample_new_wf sample_store_run] by blast

lemma sample_index_find: "index_find_longest [10, 11, 12, 13] sample_index =
    Some (Inr \<lparr>em_blocks = 2, em_token_ids = 3\<rparr>)"
  by (simp add: sample_index_def sample_event_eval index_eval lookup_eval)

section \<open>Properties\<close>

text \<open>
  C13. Storing refines its specification: on a well-formed index \<open>store\<close> never panics; a refusal
  changes nothing, and success adds exactly the event's hashes, each with the chain of blocks that
  ends at it below the parent's chain, keeps the index well-formed and within its capacity and
  reports the number of hashes.
\<close>

theorem index_store_refines:
  assumes "index_wf ix"
  shows "(\<exists>e. index_store event ix = Some (Inl e)) \<or>
    (\<exists>ix' ps. index_store event ix = Some (Inr (ix', length (block_hashes event))) \<and>
      index_wf ix' \<and> parent_path ix event ps \<and>
      index_contents ix' = index_contents ix \<union> path_entries ps (event_items event))"
proof -
  obtain r where r: "index_store event ix = Some r"
    using exact_index.store_total [OF assms] by blast
  show ?thesis
  proof (cases r)
    case (Inr p)
    then obtain ix' k where "index_store event ix = Some (Inr (ix', k))" using r by (cases p) simp
    with exact_index.store_law [OF assms this] show ?thesis by (auto simp: parent_path_def)
  qed (use r in simp)
qed

theorem index_store_refines_witness:
  "index_wf (index_new sample_limits) \<and> (\<exists>ix' ps.
     index_store sample_store (index_new sample_limits) =
       Some (Inr (ix', length (block_hashes sample_store))) \<and>
     parent_path (index_new sample_limits) sample_store ps \<and>
     index_contents ix' = index_contents (index_new sample_limits) \<union> path_entries ps (event_items sample_store))"
  using index_store_refines [OF sample_new_wf, of sample_store] sample_new_wf sample_store_run by auto

text \<open>
  C14. Removing refines its specification: \<open>remove\<close> never panics, takes exactly the named hashes out
  of the contents (pruning the nodes that become dead), keeps the index well-formed, and reports how
  many of the named hashes were resident, counting a repeated hash once.
\<close>

theorem index_remove_refines:
  assumes "index_wf ix"
  shows "\<exists>ix'. index_remove rm ix =
      Some (ix', card (set (rm_block_hashes rm) \<inter> fst ` index_contents ix)) \<and> index_wf ix' \<and>
    index_contents ix' = without (set (rm_block_hashes rm)) (index_contents ix)"
  using exact_index.remove_law [OF assms, of rm] by blast

theorem index_remove_refines_witness:
  "index_wf sample_index \<and> (\<exists>ix'. index_remove sample_remove sample_index =
      Some (ix', card (set (rm_block_hashes sample_remove) \<inter> fst ` index_contents sample_index)) \<and>
      index_contents ix' = without (set (rm_block_hashes sample_remove)) (index_contents sample_index))"
  using index_remove_refines [OF sample_index_wf, of sample_remove] sample_index_wf by blast

text \<open>
  C15. Round trip of store and lookup: after a root event is stored, a lookup of any prompt that
  starts with its tokens covers at least those tokens, unless it exhausts its step budget.
\<close>

theorem stored_prefix_found:
  assumes "index_wf ix" and "index_store event ix = Some (Inr (ix', k))"
    and "parent_block_hash event = None" and "length (token_ids event @ rest) \<le> usize_max"
  shows "index_find_longest (token_ids event @ rest) ix' = Some (Inl LookupBudgetExceeded) \<or>
    (\<exists>m. index_find_longest (token_ids event @ rest) ix' = Some (Inr m) \<and>
      length (token_ids event) \<le> em_token_ids m)"
proof -
  have "index_wf ix'" using exact_index.store_law [OF assms(1,2)] by simp
  from exact_index.find_law [OF this assms(4)] show ?thesis
    using exact_index.find_after_store [OF assms] by blast
qed

theorem stored_prefix_found_witness:
  "\<exists>m. index_find_longest (token_ids sample_store @ [13]) sample_index = Some (Inr m) \<and>
     length (token_ids sample_store) \<le> em_token_ids m"
proof -
  have f: "token_ids sample_store @ [13] = [10, 11, 12, 13]" by (simp add: sample_store_def)
  show ?thesis
    using stored_prefix_found [OF sample_new_wf sample_store_run, of "[13]"] sample_index_find
    unfolding f by (simp add: sample_store_def usize_max_def)
qed

text \<open>
  Removing what a store added restores the contents: if none of the event's hashes was resident
  before, storing the event and then removing its hashes gives back the contents before both.
\<close>

theorem remove_undoes_store:
  assumes "index_wf ix" and "index_store event ix = Some (Inr (ix', k))"
    and "set (block_hashes event) \<inter> fst ` index_contents ix = {}"
    and "set (rm_block_hashes rm) = set (block_hashes event)"
  shows "\<exists>ix'' j. index_remove rm ix' = Some (ix'', j) \<and> index_contents ix'' = index_contents ix"
proof -
  have "index_wf ix'" using exact_index.store_law [OF assms(1,2)] by simp
  then obtain ix'' j where "index_remove rm ix' = Some (ix'', j)"
    using exact_index.remove_law [of ix' rm] by blast
  with exact_index.remove_after_store [OF assms this] show ?thesis by blast
qed

theorem remove_undoes_store_witness:
  "\<exists>ix'' j. index_remove sample_remove sample_index = Some (ix'', j) \<and>
     index_contents ix'' = index_contents (index_new sample_limits)"
  by (rule remove_undoes_store [OF sample_new_wf sample_store_run])
     (auto simp: sample_remove_def sample_store_def)

end
