(* ===== verification/Kv_Fence.thy ===== *)
theory Kv_Fence
  imports Ramjet_Prelude
begin

text \<open>
  The sequence fence of \<^verbatim>\<open>src/kv_fence.rs\<close>: it decides for every live KV-event batch and every
  replay response whether the exact index may be updated and whether it may be trusted. Sequence
  numbers, generations and the replay limit are 64-bit words, so the saturating arithmetic of the
  source is the arithmetic of the model.
\<close>

section \<open>Data\<close>

datatype ingest_action =
    Apply
  | ResetAndApply
  | Duplicate
  | ObserveOnly
  | Replay (replay_from: u64) (replay_through: u64)
  | UnrecoverableGap

datatype replay_action = Recovered | RecoveredObserveOnly | Invalid

record pending_replay =
  pr_from :: u64
  pr_through :: u64
  restore_trust :: bool

record kv_event_fence =
  next_sequence :: "u64 option"
  trusted_flag :: bool
  generation :: u64
  replay_limit :: u64
  pending :: "pending_replay option"

section \<open>Operations\<close>

definition fence_new :: "u64 \<Rightarrow> kv_event_fence" where
  "fence_new limit = \<lparr>next_sequence = None, trusted_flag = False, generation = 0,
     replay_limit = limit, pending = None\<rparr>"

definition fence_trusted :: "kv_event_fence \<Rightarrow> bool" where
  "fence_trusted f \<longleftrightarrow> trusted_flag f \<and> pending f = None"

definition fence_after :: "u64 \<Rightarrow> kv_event_fence \<Rightarrow> kv_event_fence" where
  "fence_after sequence f = f\<lparr>generation := u64_sat_add (generation f) 1,
     next_sequence := Some (u64_sat_add sequence 1), pending := None, trusted_flag := False\<rparr>"

definition fence_ingest :: "u64 \<Rightarrow> bool \<Rightarrow> kv_event_fence \<Rightarrow> kv_event_fence \<times> ingest_action" where
  "fence_ingest sequence clears_all f =
    (if clears_all then
       (f\<lparr>generation := u64_sat_add (generation f) 1,
          next_sequence := Some (u64_sat_add sequence 1), pending := None, trusted_flag := True\<rparr>,
        ResetAndApply)
     else case pending f of
       Some p \<Rightarrow>
         if sequence \<le> pr_through p then (f, Duplicate)
         else if u64_sat_add (u64_sat_sub sequence (pr_from p)) 1 > replay_limit f
         then (fence_after sequence f, UnrecoverableGap)
         else (f\<lparr>pending := Some (p\<lparr>pr_through := sequence\<rparr>),
                 next_sequence := Some (u64_sat_add sequence 1)\<rparr>,
               Replay (pr_from p) sequence)
     | None \<Rightarrow>
        (case next_sequence f of
           None \<Rightarrow>
             let f' = f\<lparr>next_sequence := Some (u64_sat_add sequence 1)\<rparr> in
             if sequence = 0 then (f'\<lparr>trusted_flag := True\<rparr>, Apply)
             else if u64_sat_add sequence 1 \<le> replay_limit f
             then (f'\<lparr>pending := Some \<lparr>pr_from = 0, pr_through = sequence, restore_trust = True\<rparr>\<rparr>,
                   Replay 0 sequence)
             else (f', ObserveOnly)
         | Some expected \<Rightarrow>
             if sequence < expected then (f, Duplicate)
             else if sequence = expected
             then (f\<lparr>next_sequence := Some (u64_sat_add sequence 1)\<rparr>,
                   if trusted_flag f then Apply else ObserveOnly)
             else if u64_sat_add (u64_sat_sub sequence expected) 1 > replay_limit f
             then (fence_after sequence f, UnrecoverableGap)
             else (f\<lparr>trusted_flag := False,
                     pending := Some \<lparr>pr_from = expected, pr_through = sequence,
                                      restore_trust = trusted_flag f\<rparr>,
                     next_sequence := Some (u64_sat_add sequence 1)\<rparr>,
                   Replay expected sequence)))"

definition valid_bounds :: "pending_replay \<Rightarrow> u64 list \<Rightarrow> bool" where
  "valid_bounds p sequences \<longleftrightarrow>
     (case sequences of [] \<Rightarrow> False
      | s # _ \<Rightarrow> pr_from p \<le> s \<and> last sequences = pr_through p)"

definition fence_accept_replay ::
  "u64 list \<Rightarrow> bool \<Rightarrow> kv_event_fence \<Rightarrow> kv_event_fence \<times> replay_action" where
  "fence_accept_replay sequences establishes_boundary f =
    (case pending f of
       None \<Rightarrow> (f, Invalid)
     | Some p \<Rightarrow>
        if \<not> valid_bounds p sequences \<or> \<not> successively (<) sequences
        then (f\<lparr>pending := None, generation := u64_sat_add (generation f) 1,
                trusted_flag := False\<rparr>, Invalid)
        else
          let f' = f\<lparr>pending := None,
                     generation := (if establishes_boundary then u64_sat_add (generation f) 1
                                    else generation f),
                     trusted_flag := restore_trust p \<or> establishes_boundary\<rparr>
          in (f', if trusted_flag f' then Recovered else RecoveredObserveOnly))"

definition fence_generation_changed :: "kv_event_fence \<Rightarrow> kv_event_fence" where
  "fence_generation_changed f = f\<lparr>generation := u64_sat_add (generation f) 1,
     next_sequence := None, pending := None, trusted_flag := False\<rparr>"

definition can_prepare_full_replay :: "u64 \<Rightarrow> kv_event_fence \<Rightarrow> bool" where
  "can_prepare_full_replay through f =
     (case u64_checked_add through 1 of Some n \<Rightarrow> n \<le> replay_limit f | None \<Rightarrow> False)"

definition prepare_full_replay :: "u64 \<Rightarrow> kv_event_fence \<Rightarrow> kv_event_fence \<times> bool" where
  "prepare_full_replay through f =
     (if \<not> can_prepare_full_replay through f then (f, False)
      else (f\<lparr>next_sequence := Some (through + 1),
              pending := Some \<lparr>pr_from = 0, pr_through = through, restore_trust = True\<rparr>,
              trusted_flag := False\<rparr>, True))"

lemmas fence_op_defs = fence_new_def fence_after_def fence_ingest_def fence_accept_replay_def
  fence_generation_changed_def prepare_full_replay_def Let_def

section \<open>The branches of the two decisions\<close>

text \<open>
  One case per early return of \<open>ingest\<close>, in the order of the source. The proofs below split on
  these cases instead of unfolding the nested conditionals.
\<close>

lemma fence_ingest_cases:
  obtains
    (clear) "c" "fence_ingest s c f =
        (f\<lparr>generation := u64_sat_add (generation f) 1,
           next_sequence := Some (u64_sat_add s 1), pending := None, trusted_flag := True\<rparr>,
         ResetAndApply)"
  | (covered) p where "\<not> c" "pending f = Some p" "s \<le> pr_through p"
        "fence_ingest s c f = (f, Duplicate)"
  | (overrun) p where "\<not> c" "pending f = Some p" "pr_through p < s"
        "replay_limit f < u64_sat_add (u64_sat_sub s (pr_from p)) 1"
        "fence_ingest s c f = (fence_after s f, UnrecoverableGap)"
  | (extend) p where "\<not> c" "pending f = Some p" "pr_through p < s"
        "u64_sat_add (u64_sat_sub s (pr_from p)) 1 \<le> replay_limit f"
        "fence_ingest s c f =
          (f\<lparr>pending := Some (p\<lparr>pr_through := s\<rparr>),
             next_sequence := Some (u64_sat_add s 1)\<rparr>, Replay (pr_from p) s)"
  | (first) "\<not> c" "pending f = None" "next_sequence f = None" "s = 0"
        "fence_ingest s c f =
          (f\<lparr>next_sequence := Some (u64_sat_add s 1), trusted_flag := True\<rparr>, Apply)"
  | (late) "\<not> c" "pending f = None" "next_sequence f = None" "s \<noteq> 0"
        "u64_sat_add s 1 \<le> replay_limit f"
        "fence_ingest s c f =
          (f\<lparr>next_sequence := Some (u64_sat_add s 1),
             pending := Some \<lparr>pr_from = 0, pr_through = s, restore_trust = True\<rparr>\<rparr>, Replay 0 s)"
  | (blind) "\<not> c" "pending f = None" "next_sequence f = None" "s \<noteq> 0"
        "replay_limit f < u64_sat_add s 1"
        "fence_ingest s c f = (f\<lparr>next_sequence := Some (u64_sat_add s 1)\<rparr>, ObserveOnly)"
  | (stale) e where "\<not> c" "pending f = None" "next_sequence f = Some e" "s < e"
        "fence_ingest s c f = (f, Duplicate)"
  | (expected) e where "\<not> c" "pending f = None" "next_sequence f = Some e" "s = e"
        "fence_ingest s c f =
          (f\<lparr>next_sequence := Some (u64_sat_add s 1)\<rparr>,
           if trusted_flag f then Apply else ObserveOnly)"
  | (lost) e where "\<not> c" "pending f = None" "next_sequence f = Some e" "e < s"
        "replay_limit f < u64_sat_add (u64_sat_sub s e) 1"
        "fence_ingest s c f = (fence_after s f, UnrecoverableGap)"
  | (gap) e where "\<not> c" "pending f = None" "next_sequence f = Some e" "e < s"
        "u64_sat_add (u64_sat_sub s e) 1 \<le> replay_limit f"
        "fence_ingest s c f =
          (f\<lparr>trusted_flag := False,
             pending := Some \<lparr>pr_from = e, pr_through = s, restore_trust = trusted_flag f\<rparr>,
             next_sequence := Some (u64_sat_add s 1)\<rparr>, Replay e s)"
proof (cases c)
  case True
  then show ?thesis by (intro clear) (simp_all add: fence_ingest_def)
next
  case c: False
  show ?thesis
  proof (cases "pending f")
    case (Some p)
    consider "s \<le> pr_through p"
      | "pr_through p < s" "replay_limit f < u64_sat_add (u64_sat_sub s (pr_from p)) 1"
      | "pr_through p < s" "u64_sat_add (u64_sat_sub s (pr_from p)) 1 \<le> replay_limit f"
      by fastforce
    then show ?thesis
      by cases (use c Some in \<open>auto simp: fence_ingest_def not_le not_less
          intro: covered overrun extend\<close>)
  next
    case None
    show ?thesis
    proof (cases "next_sequence f")
      case start: None
      consider "s = 0" | "s \<noteq> 0" "u64_sat_add s 1 \<le> replay_limit f"
        | "s \<noteq> 0" "replay_limit f < u64_sat_add s 1" by fastforce
      then show ?thesis
        by cases (use c None start in \<open>auto simp: fence_ingest_def Let_def not_le
            intro: first late blind\<close>)
    next
      case (Some e)
      consider "s < e" | "s = e"
        | "e < s" "\<not> s < e" "replay_limit f < u64_sat_add (u64_sat_sub s e) 1"
        | "e < s" "\<not> s < e" "u64_sat_add (u64_sat_sub s e) 1 \<le> replay_limit f" by fastforce
      then show ?thesis
        by cases (use c None Some in \<open>auto simp: fence_ingest_def not_less
            intro: stale expected lost gap\<close>)
    qed
  qed
qed

lemma fence_accept_replay_cases:
  obtains
    (idle) "pending f = None" "fence_accept_replay ss b f = (f, Invalid)"
  | (refused) p where "pending f = Some p" "\<not> (valid_bounds p ss \<and> successively (<) ss)"
      "fence_accept_replay ss b f =
        (f\<lparr>pending := None, generation := u64_sat_add (generation f) 1, trusted_flag := False\<rparr>,
         Invalid)"
  | (observe) p where "pending f = Some p" "valid_bounds p ss" "successively (<) ss"
      "\<not> restore_trust p" "\<not> b"
      "fence_accept_replay ss b f =
        (f\<lparr>pending := None, trusted_flag := False\<rparr>, RecoveredObserveOnly)"
  | (recovered) p where "pending f = Some p" "valid_bounds p ss" "successively (<) ss"
      "restore_trust p \<or> b"
      "fence_accept_replay ss b f =
        (f\<lparr>pending := None,
           generation := (if b then u64_sat_add (generation f) 1 else generation f),
           trusted_flag := True\<rparr>, Recovered)"
proof (cases "pending f")
  case None
  then show ?thesis by (intro idle) (simp_all add: fence_accept_replay_def)
next
  case (Some p)
  consider "\<not> (valid_bounds p ss \<and> successively (<) ss)"
    | "valid_bounds p ss" "successively (<) ss" "\<not> restore_trust p" "\<not> b"
    | "valid_bounds p ss" "successively (<) ss" "restore_trust p \<or> b" by blast
  then show ?thesis
  proof cases
    case 1
    with Some show ?thesis by (intro refused) (auto simp: fence_accept_replay_def)
  next
    case 2
    with Some show ?thesis by (intro observe) (auto simp: fence_accept_replay_def Let_def)
  next
    case 3
    with Some show ?thesis by (intro recovered) (auto simp: fence_accept_replay_def Let_def)
  qed
qed

section \<open>Well-formed fences\<close>

text \<open>
  What the code keeps true between its fields: a fence that has seen nothing is neither trusted
  nor waiting; a waiting fence is not trusted, waits for a non-empty interval that fits the replay
  limit and that ends just before the next live sequence.
\<close>

definition fence_wf :: "kv_event_fence \<Rightarrow> bool" where
  "fence_wf f \<longleftrightarrow>
     (next_sequence f = None \<longrightarrow> \<not> trusted_flag f \<and> pending f = None) \<and>
     (case pending f of None \<Rightarrow> True
      | Some p \<Rightarrow> \<not> trusted_flag f \<and> pr_from p \<le> pr_through p \<and>
          u64_sat_add (u64_sat_sub (pr_through p) (pr_from p)) 1 \<le> replay_limit f \<and>
          next_sequence f = Some (u64_sat_add (pr_through p) 1))"

lemma fence_wf_new [simp]: "fence_wf (fence_new n)"
  by (simp add: fence_wf_def fence_new_def)

lemma fence_wf_ingest:
  assumes "fence_wf f"
  shows "fence_wf (fst (fence_ingest s c f))"
proof (cases rule: fence_ingest_cases [of c s f])
  case (extend p)
  then have "pr_from p \<le> pr_through p" using assms by (simp add: fence_wf_def)
  with extend(3) have "pr_from p \<le> s" by simp
  with extend assms show ?thesis by (simp add: fence_wf_def)
next
  case late
  with assms show ?thesis by (simp add: fence_wf_def u64_sat_sub_def)
qed (use assms in \<open>simp_all add: fence_wf_def fence_after_def\<close>)

lemma fence_wf_accept_replay: "fence_wf f \<Longrightarrow> fence_wf (fst (fence_accept_replay ss b f))"
  by (cases rule: fence_accept_replay_cases [of f ss b]) (simp_all add: fence_wf_def)

lemma fence_wf_generation_changed: "fence_wf (fence_generation_changed f)"
  by (simp add: fence_wf_def fence_generation_changed_def)

lemma fence_wf_prepare_full_replay: "fence_wf f \<Longrightarrow> fence_wf (fst (prepare_full_replay t f))"
  by (auto simp: fence_wf_def prepare_full_replay_def can_prepare_full_replay_def
      u64_checked_add_Some u64_sat_add_def u64_sat_sub_def split: option.splits if_splits)

lemmas fence_wf_ops = fence_wf_new fence_wf_ingest fence_wf_accept_replay
  fence_wf_generation_changed fence_wf_prepare_full_replay

section \<open>Properties\<close>

text \<open>
  A requested replay is bounded: every interval the fence asks to replay is non-empty, ends at
  the batch just received, and holds at most \<open>replay_limit\<close> sequences. (At the largest limit the
  saturating count cannot express the full range, so the limit is assumed smaller.)
\<close>

theorem requested_replay_bounded:
  assumes "fence_wf f" and "replay_limit f \<noteq> - 1"
    and "fence_ingest s c f = (f', Replay from through)"
  shows "through = s \<and> from \<le> through \<and>
    unat through - unat from + 1 \<le> unat (replay_limit f)"
proof -
  have count: "unat s - unat e + 1 \<le> unat (replay_limit f)"
    if "u64_sat_add (u64_sat_sub s e) 1 \<le> replay_limit f" for e
  proof -
    have "unat (replay_limit f) \<noteq> unat (- 1 :: u64)" using assms(2) unsigned_word_eqI by blast
    then have "unat (replay_limit f) \<noteq> 2 ^ 64 - 1"
      by (simp add: unsigned_minus_1_eq_mask mask_eq_exp_minus_1)
    moreover have "unat (replay_limit f) < 2 ^ 64" using unsigned_less [of "replay_limit f"] by simp
    ultimately have "unat (replay_limit f) < 2 ^ 64 - 1" by linarith
    moreover have "unat (u64_sat_add (u64_sat_sub s e) 1) \<le> unat (replay_limit f)"
      using that by (simp add: word_le_nat_alt)
    ultimately show ?thesis by (simp add: word_sat min_def split: if_splits)
  qed
  show ?thesis
  proof (cases rule: fence_ingest_cases [of c s f])
    case (extend p)
    then show ?thesis using assms(1,3) count by (auto simp: fence_wf_def)
  next
    case late
    then show ?thesis using assms(3) count [of 0] by (auto simp: u64_sat_sub_def)
  next
    case (gap e)
    then show ?thesis using assms(3) count by auto
  qed (use assms(3) in \<open>auto split: if_splits\<close>)
qed

theorem requested_replay_bounded_witness:
  "\<exists>f'. fence_ingest 3 False (fence_new 8) = (f', Replay 0 3) \<and>
     unat (3 :: u64) - unat (0 :: u64) + 1 \<le> unat (8 :: u64)"
proof -
  obtain f' where f: "fence_ingest 3 False (fence_new 8) = (f', Replay 0 3)"
    by (simp add: fence_ingest_def fence_new_def u64_sat_add_def)
  have "replay_limit (fence_new 8) = 8" by (simp add: fence_new_def)
  with requested_replay_bounded [OF fence_wf_new _ f] f show ?thesis by simp
qed

text \<open>
  C28. A fence that reports trust after a live batch got there in one of three ways: the batch
  cleared the cache, it was the first batch of a generation or the expected successor under trust,
  or it was a duplicate that changed nothing. In particular no gap is ever passed over.
\<close>

theorem live_trust_justified:
  assumes "fence_wf f" and "fence_ingest s c f = (f', act)" and "fence_trusted f'"
  shows "c \<and> act = ResetAndApply \<or>
    act = Apply \<and> (s = 0 \<and> next_sequence f = None \<or> next_sequence f = Some s \<and> fence_trusted f) \<or>
    act = Duplicate \<and> f' = f"
  using assms
  by (cases rule: fence_ingest_cases [of c s f])
     (auto simp: fence_trusted_def fence_wf_def fence_after_def)

theorem live_trust_justified_witness:
  "\<exists>f'. fence_ingest 0 False (fence_new 8) = (f', Apply) \<and> fence_trusted f' \<and>
     next_sequence (fence_new 8) = None"
proof -
  obtain f' where f: "fence_ingest 0 False (fence_new 8) = (f', Apply)" "fence_trusted f'"
    by (simp add: fence_ingest_def fence_new_def fence_trusted_def)
  with live_trust_justified [OF fence_wf_new f] show ?thesis by (auto simp: fence_new_def)
qed

text \<open>
  Redelivery is harmless: a batch that does not clear the cache, delivered a second time
  directly after the first, is reported as a duplicate and changes nothing, at every sequence below
  the largest \<open>u64\<close>.
\<close>

lemma redelivery_is_duplicate:
  assumes "s \<noteq> - 1"
  shows "fence_ingest s False (fst (fence_ingest s False f)) = (fst (fence_ingest s False f), Duplicate)"
proof -
  have "s < u64_sat_add s 1"
  proof -
    have "unat s \<noteq> unat (- 1 :: u64)" using assms unsigned_word_eqI by blast
    moreover have "unat (- 1 :: u64) = 2 ^ 64 - 1"
      by (simp add: unsigned_minus_1_eq_mask mask_eq_exp_minus_1)
    moreover have "unat s < 2 ^ 64" using unsigned_less [of s] by simp
    ultimately have "unat s + 1 \<le> 2 ^ 64 - 1" by linarith
    then show ?thesis by (simp add: word_less_nat_alt unat_u64_sat_add)
  qed
  then show ?thesis
    by (cases rule: fence_ingest_cases [of False s f])
       (auto simp: fence_after_def fence_ingest_def [of _ False])
qed

end
