(* ===== verification/Exact_Inventory.thy ===== *)
theory Exact_Inventory
  imports Exact_Lookup Kv_Fence
begin

text \<open>
  The rest of \<^verbatim>\<open>src/exact_index.rs\<close>: \<open>ExactKvInventory\<close> (the index behind the cache-tier and
  attention-group filters), \<open>FullReplayStage\<close> and \<open>FencedExactKvInventory\<close>, which couples the
  inventory to the sequence fence. An operation returns the new state together with its
  \<open>Result\<close>, so that what an error leaves behind is part of the model; the outer \<open>option\<close> is a
  panic of the index. \<open>SharedExactKvInventory\<close> is the inventory behind a lock, its methods are
  those of the inventory.
\<close>

section \<open>Data\<close>

record exact_cache_group_coverage =
  main_groups :: nat
  non_main_groups :: nat
  unknown_groups :: nat
  cov_unlearned_groups :: nat

definition placement_ready :: "exact_cache_group_coverage \<Rightarrow> bool" where
  "placement_ready c =
    (let tagged_groups = sat_add (sat_add (sat_add (main_groups c) (non_main_groups c))
                           (unknown_groups c)) (cov_unlearned_groups c)
     in tagged_groups = 0 \<or>
        0 < main_groups c \<and> unknown_groups c = 0 \<and> cov_unlearned_groups c = 0)"

datatype filter_reason =
    NonLocal
  | UnsupportedMedium
  | Namespaced
  | NonMainAttention
  | UnknownAttentionKind
  | UnlearnedAttentionGroup
  | UnsupportedPartialBlock
  | OrphanedParent

fun filter_index :: "filter_reason \<Rightarrow> nat" where
  "filter_index NonLocal = 0"
| "filter_index UnsupportedMedium = 1"
| "filter_index Namespaced = 2"
| "filter_index NonMainAttention = 3"
| "filter_index UnknownAttentionKind = 4"
| "filter_index UnlearnedAttentionGroup = 5"
| "filter_index UnsupportedPartialBlock = 6"
| "filter_index OrphanedParent = 7"

type_synonym filter_counts = "nat list"

definition counts_increment :: "filter_reason \<Rightarrow> filter_counts \<Rightarrow> filter_counts" where
  "counts_increment r cs = cs[filter_index r := sat_add (cs ! filter_index r) 1]"

definition counts_merge :: "filter_counts \<Rightarrow> filter_counts \<Rightarrow> filter_counts" where
  "counts_merge tot other = map2 sat_add tot other"

record batch_apply_summary =
  stored_blocks :: nat
  removed_blocks :: nat
  filtered_events :: nat
  clear_events :: nat
  filtered_reasons :: filter_counts

definition summary_default :: batch_apply_summary where
  "summary_default = \<lparr>stored_blocks = 0, removed_blocks = 0, filtered_events = 0,
     clear_events = 0, filtered_reasons = replicate 8 0\<rparr>"

definition merge_summary :: "batch_apply_summary \<Rightarrow> batch_apply_summary \<Rightarrow> batch_apply_summary" where
  "merge_summary tot nxt = \<lparr>stored_blocks = stored_blocks tot + stored_blocks nxt,
     removed_blocks = removed_blocks tot + removed_blocks nxt,
     filtered_events = filtered_events tot + filtered_events nxt,
     clear_events = clear_events tot + clear_events nxt,
     filtered_reasons = counts_merge (filtered_reasons tot) (filtered_reasons nxt)\<rparr>"

datatype apply_outcome = Stored nat | Removed nat | Cleared | Filtered filter_reason

datatype live_batch_outcome =
    LiveApplied batch_apply_summary
  | LiveObserveOnly
  | LiveDuplicate
  | LiveReplay u64 u64
  | Fenced

datatype replay_batch_outcome =
    ReplayApplied batch_apply_summary
  | ReplayObserveOnly
  | ReplayInvalid

datatype attention_kind = Main_Attention | NonMain | Unknown

definition from_wire :: "string \<Rightarrow> attention_kind" where
  "from_wire v =
    (if v \<in> {''full_attention'', ''mla_attention'', ''sink_full_attention''} then Main_Attention
     else if v \<in> {''sliding_window'', ''sliding_window_mla'', ''mamba'',
        ''chunked_local_attention'', ''encoder_only_attention'', ''cross_attention''} then NonMain
     else Unknown)"

type_synonym group_key = "u32 \<times> u32"

record exact_kv_inventory =
  inv_index :: exact_kv_index
  group_kinds :: "(group_key \<times> attention_kind) list"
  unlearned_groups :: "group_key list"
  group_block_sizes :: "(group_key \<times> nat) list"

section \<open>Filters\<close>

definition common_filter ::
  "string option \<Rightarrow> string option \<Rightarrow> u32 option \<Rightarrow> string option \<Rightarrow> u32
    \<Rightarrow> (group_key \<times> attention_kind) list \<Rightarrow> filter_reason option" where
  "common_filter med loc grp explicit_kind rank groups =
    (if loc \<noteq> None \<and> loc \<noteq> Some ''LOCAL'' then Some NonLocal
     else if med \<noteq> None \<and> med \<noteq> Some ''GPU'' then Some UnsupportedMedium
     else
       let kind = (case explicit_kind of
              Some k \<Rightarrow> Some (from_wire k)
            | None \<Rightarrow> Option.bind grp (\<lambda>g. map_of groups (rank, g)))
       in case kind of
            Some Main_Attention \<Rightarrow> None
          | Some NonMain \<Rightarrow> Some NonMainAttention
          | Some Unknown \<Rightarrow> Some UnknownAttentionKind
          | None \<Rightarrow> if grp = None \<or> grp = Some 0 then None else Some UnlearnedAttentionGroup)"

definition filter_store ::
  "block_stored \<Rightarrow> u32 \<Rightarrow> (group_key \<times> attention_kind) list \<Rightarrow> filter_reason option" where
  "filter_store event rank groups =
    (case common_filter (medium event) (locality event) (group_idx event) (kv_cache_spec_kind event)
            rank groups of
       Some r \<Rightarrow> Some r
     | None \<Rightarrow> if lora_name event \<noteq> None \<or> cache_namespace event \<noteq> None \<or> has_extra_keys event
               then Some Namespaced else None)"

definition filter_remove ::
  "block_removed \<Rightarrow> u32 \<Rightarrow> (group_key \<times> attention_kind) list \<Rightarrow> filter_reason option" where
  "filter_remove event rank groups =
     common_filter (rm_medium event) (rm_locality event) (rm_group_idx event) None rank groups"

section \<open>The inventory\<close>

definition inventory_new :: "exact_index_limits \<Rightarrow> exact_kv_inventory" where
  "inventory_new l = \<lparr>inv_index = index_new l, group_kinds = [], unlearned_groups = [],
     group_block_sizes = []\<rparr>"

definition inventory_clear :: "exact_kv_inventory \<Rightarrow> exact_kv_inventory" where
  "inventory_clear iv = iv\<lparr>inv_index := index_clear (inv_index iv)\<rparr>"

definition reset_generation :: "exact_kv_inventory \<Rightarrow> exact_kv_inventory" where
  "reset_generation iv = iv\<lparr>inv_index := index_clear (inv_index iv), group_kinds := [],
     unlearned_groups := [], group_block_sizes := []\<rparr>"

definition count_kind :: "attention_kind \<Rightarrow> (group_key \<times> attention_kind) list \<Rightarrow> nat" where
  "count_kind k groups = fold (\<lambda>(_, k') n. if k' = k then sat_add n 1 else n) groups 0"

definition group_coverage :: "exact_kv_inventory \<Rightarrow> exact_cache_group_coverage" where
  "group_coverage iv = \<lparr>main_groups = count_kind Main_Attention (group_kinds iv),
     non_main_groups = count_kind NonMain (group_kinds iv),
     unknown_groups = count_kind Unknown (group_kinds iv),
     cov_unlearned_groups = length (unlearned_groups iv)\<rparr>"

definition has_key :: "'a \<Rightarrow> ('a \<times> 'b) list \<Rightarrow> bool" where
  "has_key k xs \<longleftrightarrow> map_of xs k \<noteq> None"

definition ensure_group_capacity :: "group_key \<Rightarrow> exact_kv_inventory \<Rightarrow> exact_index_error + unit" where
  "ensure_group_capacity key iv =
    (if \<not> has_key key (group_kinds iv) \<and> key \<notin> set (unlearned_groups iv) \<and>
        max_nodes (limits (inv_index iv))
          \<le> sat_add (length (group_kinds iv)) (length (unlearned_groups iv))
     then Inl CapacityExceeded else Inr ())"

definition observe_unlearned_group ::
  "u32 \<Rightarrow> u32 option \<Rightarrow> exact_kv_inventory \<Rightarrow> exact_kv_inventory \<times> (exact_index_error + unit)" where
  "observe_unlearned_group rank grp iv =
    (case grp of None \<Rightarrow> (iv, Inr ())
     | Some g \<Rightarrow>
        let key = (rank, g) in
        if has_key key (group_kinds iv) \<or> key \<in> set (unlearned_groups iv) then (iv, Inr ())
        else case ensure_group_capacity key iv of
          Inl e \<Rightarrow> (iv, Inl e)
        | Inr _ \<Rightarrow> (iv\<lparr>unlearned_groups := key # unlearned_groups iv\<rparr>, Inr ()))"

definition learn_size :: "group_key \<Rightarrow> block_stored \<Rightarrow> (group_key \<times> nat) list \<Rightarrow> (group_key \<times> nat) list"
where
  "learn_size key stored sizes =
    (if parent_block_hash stored = None then
       AList.update key (case map_of sizes key of None \<Rightarrow> block_size stored
          | Some n \<Rightarrow> max n (block_size stored)) sizes
     else sizes)"

definition learn_group ::
  "u32 \<Rightarrow> block_stored \<Rightarrow> exact_kv_inventory \<Rightarrow> exact_kv_inventory \<times> (exact_index_error + unit)" where
  "learn_group rank stored iv =
    (case group_idx stored of None \<Rightarrow> (iv, Inr ())
     | Some g \<Rightarrow>
        let key = (rank, g) in
        (case kv_cache_spec_kind stored of
           None \<Rightarrow> observe_unlearned_group rank (Some g) iv
         | Some kind \<Rightarrow>
            let observed = from_wire kind;
                checked = (case map_of (group_kinds iv) key of
                    Some existing \<Rightarrow> if existing \<noteq> observed then Inl ConflictingGroupKind else Inr ()
                  | None \<Rightarrow> ensure_group_capacity key iv)
            in case checked of
                 Inl e \<Rightarrow> (iv, Inl e)
               | Inr _ \<Rightarrow>
                   (iv\<lparr>group_kinds := AList.update key observed (group_kinds iv),
                        unlearned_groups := removeAll key (unlearned_groups iv),
                        group_block_sizes := learn_size key stored (group_block_sizes iv)\<rparr>,
                    Inr ())))"

definition is_unsupported_partial :: "u32 \<Rightarrow> block_stored \<Rightarrow> exact_kv_inventory \<Rightarrow> bool" where
  "is_unsupported_partial rank stored iv =
    (case group_idx stored of None \<Rightarrow> False
     | Some g \<Rightarrow> (case map_of (group_block_sizes iv) (rank, g) of None \<Rightarrow> False
         | Some canonical \<Rightarrow> block_size stored < canonical))"

definition apply_event ::
  "u32 \<Rightarrow> kv_event \<Rightarrow> exact_kv_inventory
    \<Rightarrow> (exact_kv_inventory \<times> (exact_index_error + apply_outcome)) option" where
  "apply_event rank event iv = (case event of
      BlockStored stored \<Rightarrow>
        (case learn_group rank stored iv of
           (iv1, Inl e) \<Rightarrow> Some (iv1, Inl e)
         | (iv1, Inr _) \<Rightarrow>
            (case filter_store stored rank (group_kinds iv1) of
               Some reason \<Rightarrow> Some (iv1, Inr (Filtered reason))
             | None \<Rightarrow>
                map_option (\<lambda>r. case r of
                    Inr (ix, blocks) \<Rightarrow> (iv1\<lparr>inv_index := ix\<rparr>, Inr (Stored blocks))
                  | Inl e \<Rightarrow> if e = ParentNotFound
                      then (iv1, Inr (Filtered (if is_unsupported_partial rank stored iv1
                                                 then UnsupportedPartialBlock else OrphanedParent)))
                      else (iv1, Inl e))
                  (index_store stored (inv_index iv1))))
    | BlockRemoved removed \<Rightarrow>
        (case observe_unlearned_group rank (rm_group_idx removed) iv of
           (iv1, Inl e) \<Rightarrow> Some (iv1, Inl e)
         | (iv1, Inr _) \<Rightarrow>
            (case filter_remove removed rank (group_kinds iv1) of
               Some reason \<Rightarrow> Some (iv1, Inr (Filtered reason))
             | None \<Rightarrow> map_option (\<lambda>(ix, blocks). (iv1\<lparr>inv_index := ix\<rparr>, Inr (Removed blocks)))
                         (index_remove removed (inv_index iv1))))
    | AllBlocksCleared \<Rightarrow> Some (inventory_clear iv, Inr Cleared))"

fun add_outcome :: "apply_outcome \<Rightarrow> batch_apply_summary \<Rightarrow> batch_apply_summary" where
  "add_outcome (Stored n) s = s\<lparr>stored_blocks := stored_blocks s + n\<rparr>"
| "add_outcome (Removed n) s = s\<lparr>removed_blocks := removed_blocks s + n\<rparr>"
| "add_outcome Cleared s = s\<lparr>clear_events := clear_events s + 1\<rparr>"
| "add_outcome (Filtered r) s = s\<lparr>filtered_events := filtered_events s + 1,
     filtered_reasons := counts_increment r (filtered_reasons s)\<rparr>"

fun apply_loop ::
  "u32 \<Rightarrow> kv_event list \<Rightarrow> batch_apply_summary \<Rightarrow> exact_kv_inventory
    \<Rightarrow> (exact_kv_inventory \<times> (exact_index_error + batch_apply_summary)) option" where
  "apply_loop rank [] s iv = Some (iv, Inr s)"
| "apply_loop rank (e # es) s iv = Option.bind (apply_event rank e iv) (\<lambda>(iv', r).
     case r of Inl err \<Rightarrow> Some (iv', Inl err)
     | Inr out \<Rightarrow> apply_loop rank es (add_outcome out s) iv')"

definition batch_rank :: "kv_event_batch \<Rightarrow> u32" where
  "batch_rank batch = (case data_parallel_rank batch of None \<Rightarrow> 0 | Some r \<Rightarrow> r)"

definition apply_batch ::
  "kv_event_batch \<Rightarrow> exact_kv_inventory
    \<Rightarrow> (exact_kv_inventory \<times> (exact_index_error + batch_apply_summary)) option" where
  "apply_batch batch iv = apply_loop (batch_rank batch) (events batch) summary_default iv"

definition inventory_find_longest ::
  "token_id list \<Rightarrow> exact_kv_inventory \<Rightarrow> (exact_index_error + exact_match) option" where
  "inventory_find_longest toks iv = index_find_longest toks (inv_index iv)"

section \<open>Staging a full replay\<close>

record full_replay_stage =
  stage_inventory :: exact_kv_inventory
  stage_sequences :: "u64 list"
  stage_summary :: batch_apply_summary
  stage_boundary :: bool
  stage_error :: "exact_index_error option"

definition stage_new :: "exact_index_limits \<Rightarrow> full_replay_stage" where
  "stage_new l = \<lparr>stage_inventory = inventory_new l, stage_sequences = [],
     stage_summary = summary_default, stage_boundary = False, stage_error = None\<rparr>"

definition stage_ingest ::
  "u64 \<Rightarrow> kv_event_batch \<Rightarrow> full_replay_stage \<Rightarrow> full_replay_stage option" where
  "stage_ingest sequence batch st =
    (let st1 = st\<lparr>stage_sequences := stage_sequences st @ [sequence],
                  stage_boundary := stage_boundary st \<or> clears_all batch\<rparr>
     in if stage_error st1 \<noteq> None then Some st1
        else map_option (\<lambda>(iv, r). case r of
            Inr applied \<Rightarrow> st1\<lparr>stage_inventory := iv,
              stage_summary := merge_summary (stage_summary st1) applied\<rparr>
          | Inl e \<Rightarrow> st1\<lparr>stage_inventory := iv, stage_error := Some e\<rparr>)
          (apply_batch batch (stage_inventory st1)))"

section \<open>The fenced inventory\<close>

record fenced_inventory =
  fe_fence :: kv_event_fence
  fe_inventory :: exact_kv_inventory
  fe_revision :: u64

definition fenced_new :: "u64 \<Rightarrow> exact_index_limits \<Rightarrow> fenced_inventory" where
  "fenced_new limit l = \<lparr>fe_fence = fence_new limit, fe_inventory = inventory_new l,
     fe_revision = 0\<rparr>"

definition begin_full_replay :: "fenced_inventory \<Rightarrow> full_replay_stage" where
  "begin_full_replay fi = stage_new (limits (inv_index (fe_inventory fi)))"

definition bump_revision :: "fenced_inventory \<Rightarrow> fenced_inventory" where
  "bump_revision fi = fi\<lparr>fe_revision := fe_revision fi + 1\<rparr>"

definition discard_generation :: "fenced_inventory \<Rightarrow> fenced_inventory" where
  "discard_generation fi = fi\<lparr>fe_fence := fence_generation_changed (fe_fence fi),
     fe_inventory := reset_generation (fe_inventory fi)\<rparr>"

definition apply_authoritative ::
  "kv_event_batch \<Rightarrow> fenced_inventory
    \<Rightarrow> (fenced_inventory \<times> (exact_index_error + batch_apply_summary)) option" where
  "apply_authoritative batch fi =
    map_option (\<lambda>(iv, r). let fi1 = fi\<lparr>fe_inventory := iv\<rparr> in
        case r of Inr s \<Rightarrow> (fi1, Inr s) | Inl e \<Rightarrow> (discard_generation fi1, Inl e))
      (apply_batch batch (fe_inventory fi))"

definition live_applied ::
  "(fenced_inventory \<times> (exact_index_error + batch_apply_summary)) option
    \<Rightarrow> (fenced_inventory \<times> (exact_index_error + live_batch_outcome)) option" where
  "live_applied r = map_option (\<lambda>(fi, r). (bump_revision fi, map_sum id LiveApplied r)) r"

definition ingest_live ::
  "u64 \<Rightarrow> kv_event_batch \<Rightarrow> fenced_inventory
    \<Rightarrow> (fenced_inventory \<times> (exact_index_error + live_batch_outcome)) option" where
  "ingest_live sequence batch fi =
    (let (f, action) = fence_ingest sequence (clears_all batch) (fe_fence fi);
         fi1 = fi\<lparr>fe_fence := f\<rparr>
     in case action of
          Apply \<Rightarrow> live_applied (apply_authoritative batch fi1)
        | ResetAndApply \<Rightarrow> live_applied (apply_authoritative batch
              (fi1\<lparr>fe_inventory := inventory_clear (fe_inventory fi1)\<rparr>))
        | Duplicate \<Rightarrow> Some (fi1, Inr LiveDuplicate)
        | ObserveOnly \<Rightarrow> Some (fi1, Inr LiveObserveOnly)
        | Replay from through \<Rightarrow> Some (fi1, Inr (LiveReplay from through))
        | UnrecoverableGap \<Rightarrow>
            Some (bump_revision (fi1\<lparr>fe_inventory := reset_generation (fe_inventory fi1)\<rparr>), Inr Fenced))"

fun replay_loop ::
  "(u64 \<times> kv_event_batch) list \<Rightarrow> batch_apply_summary \<Rightarrow> fenced_inventory
    \<Rightarrow> (fenced_inventory \<times> (exact_index_error + batch_apply_summary)) option" where
  "replay_loop [] s fi = Some (fi, Inr s)"
| "replay_loop ((q, batch) # bs) s fi =
    Option.bind (apply_batch batch (fe_inventory fi)) (\<lambda>(iv, r).
      let fi1 = fi\<lparr>fe_inventory := iv\<rparr> in
      case r of Inr applied \<Rightarrow> replay_loop bs (merge_summary s applied) fi1
      | Inl e \<Rightarrow> Some (discard_generation fi1, Inl e))"

definition ingest_replay ::
  "(u64 \<times> kv_event_batch) list \<Rightarrow> fenced_inventory
    \<Rightarrow> (fenced_inventory \<times> (exact_index_error + replay_batch_outcome)) option" where
  "ingest_replay batches fi =
    (let (f, action) = fence_accept_replay (map fst batches)
                         (list_ex (\<lambda>(_, b). clears_all b) batches) (fe_fence fi);
         fi1 = fi\<lparr>fe_fence := f\<rparr>
     in case action of
          Invalid \<Rightarrow> Some (bump_revision (fi1\<lparr>fe_inventory := reset_generation (fe_inventory fi1)\<rparr>),
                       Inr ReplayInvalid)
        | RecoveredObserveOnly \<Rightarrow> Some (fi1, Inr ReplayObserveOnly)
        | Recovered \<Rightarrow> map_option (\<lambda>(fi2, r). (bump_revision fi2, map_sum id ReplayApplied r))
                         (replay_loop batches summary_default fi1))"

definition commit_full_replay ::
  "full_replay_stage \<Rightarrow> fenced_inventory
    \<Rightarrow> fenced_inventory \<times> (exact_index_error + replay_batch_outcome)" where
  "commit_full_replay st fi =
    (case stage_error st of
       Some e \<Rightarrow> (bump_revision (discard_generation fi), Inl e)
     | None \<Rightarrow>
        (let (f, action) = fence_accept_replay (stage_sequences st) (stage_boundary st) (fe_fence fi);
             fi1 = fi\<lparr>fe_fence := f\<rparr>
         in case action of
              Invalid \<Rightarrow> (bump_revision (fi1\<lparr>fe_inventory := reset_generation (fe_inventory fi1)\<rparr>),
                           Inr ReplayInvalid)
            | RecoveredObserveOnly \<Rightarrow> (fi1, Inr ReplayObserveOnly)
            | Recovered \<Rightarrow> (bump_revision (fi1\<lparr>fe_inventory := stage_inventory st\<rparr>),
                             Inr (ReplayApplied (stage_summary st)))))"

definition generation_changed :: "fenced_inventory \<Rightarrow> fenced_inventory" where
  "generation_changed fi = bump_revision (discard_generation fi)"

definition prepare_full_replay_retry :: "u64 \<Rightarrow> fenced_inventory \<Rightarrow> fenced_inventory \<times> bool" where
  "prepare_full_replay_retry through fi =
    (let fi1 = generation_changed fi;
         (f, ok) = prepare_full_replay through (fe_fence fi1)
     in (fi1\<lparr>fe_fence := f\<rparr>, ok))"

definition fenced_find_longest ::
  "token_id list \<Rightarrow> fenced_inventory \<Rightarrow> (exact_index_error + exact_match option) option" where
  "fenced_find_longest toks fi =
    (if \<not> fence_trusted (fe_fence fi) then Some (Inr None)
     else map_option (map_sum id Some) (inventory_find_longest toks (fe_inventory fi)))"

end
