(* ===== verification/Exact_Inventory_Proofs.thy ===== *)
theory Exact_Inventory_Proofs
  imports Exact_Inventory
begin

text \<open>
  Correctness of the inventory: no event makes it panic, every event keeps it well-formed and
  bounded, and its effect on the abstract contents is the one its outcome reports.
\<close>

section \<open>Well-formed inventories\<close>

definition groups_wf :: "exact_kv_inventory \<Rightarrow> bool" where
  "groups_wf iv \<longleftrightarrow> distinct (map fst (group_kinds iv)) \<and> distinct (unlearned_groups iv) \<and>
     (\<forall>k \<in> set (unlearned_groups iv). \<not> has_key k (group_kinds iv)) \<and>
     (\<forall>k. has_key k (group_block_sizes iv) \<longrightarrow> has_key k (group_kinds iv)) \<and>
     distinct (map fst (group_block_sizes iv)) \<and>
     length (group_kinds iv) + length (unlearned_groups iv) \<le> max_nodes (limits (inv_index iv))"

definition inventory_wf :: "exact_kv_inventory \<Rightarrow> bool" where
  "inventory_wf iv \<longleftrightarrow> index_wf (inv_index iv) \<and> groups_wf iv"

abbreviation inventory_contents ::
  "exact_kv_inventory \<Rightarrow> (external_block_hash \<times> token_id list list) set" where
  "inventory_contents iv \<equiv> index_contents (inv_index iv)"

abbreviation inventory_limits :: "exact_kv_inventory \<Rightarrow> exact_index_limits" where
  "inventory_limits iv \<equiv> limits (inv_index iv)"

lemma has_key_update [simp]: "has_key k (AList.update j v xs) \<longleftrightarrow> k = j \<or> has_key k xs"
  by (simp add: has_key_def update_conv')

lemma has_key_Nil [simp]: "\<not> has_key k []"
  by (simp add: has_key_def)

lemma length_update_has_key:
  "length (AList.update k v xs) = (if has_key k xs then length xs else Suc (length xs))"
  by (induction xs) (auto simp: has_key_def)

lemma length_removeAll_present:
  "distinct xs \<Longrightarrow> k \<in> set xs \<Longrightarrow> Suc (length (removeAll k xs)) = length xs"
  by (induction xs) (auto simp: removeAll_id)

lemma groups_wf_index: "groups_wf iv \<Longrightarrow> limits ix = inventory_limits iv \<Longrightarrow> groups_wf (iv\<lparr>inv_index := ix\<rparr>)"
  by (simp add: groups_wf_def)

lemma ensure_group_capacity_room:
  assumes "inventory_wf iv" and "ensure_group_capacity key iv = Inr u"
    and "\<not> has_key key (group_kinds iv)" and "key \<notin> set (unlearned_groups iv)"
  shows "length (group_kinds iv) + length (unlearned_groups iv) < max_nodes (inventory_limits iv)"
  using assms
  by (auto simp: ensure_group_capacity_def inventory_wf_def index_wf_def limits_ok_def groups_wf_def
      sat_add_def split: if_splits)

lemma observe_unlearned_group_ok:
  assumes "inventory_wf iv" and "observe_unlearned_group rank grp iv = (iv', r)"
  shows "inventory_wf iv' \<and> inv_index iv' = inv_index iv"
proof (cases "iv' = iv")
  case False
  then obtain g where g: "\<not> has_key (rank, g) (group_kinds iv)" "(rank, g) \<notin> set (unlearned_groups iv)"
    "ensure_group_capacity (rank, g) iv = Inr ()"
    "iv' = iv\<lparr>unlearned_groups := (rank, g) # unlearned_groups iv\<rparr>"
    using assms(2) by (auto simp: observe_unlearned_group_def Let_def split: option.splits sum.splits if_splits)
  from ensure_group_capacity_room [OF assms(1) g(3,1,2)] assms(1) g(1,2,4) show ?thesis
    by (simp add: inventory_wf_def groups_wf_def)
qed (use assms in simp)

lemma learn_group_ok:
  assumes wf: "inventory_wf iv" and run: "learn_group rank stored iv = (iv', r)"
  shows "inventory_wf iv' \<and> inv_index iv' = inv_index iv"
proof (cases "group_idx stored = None \<or> kv_cache_spec_kind stored = None")
  case True
  then consider "iv' = iv" | g where "observe_unlearned_group rank (Some g) iv = (iv', r)"
    using run by (auto simp: learn_group_def Let_def split: option.splits)
  then show ?thesis using wf observe_unlearned_group_ok [OF wf] by cases auto
next
  case False
  then obtain g kind where g: "group_idx stored = Some g" "kv_cache_spec_kind stored = Some kind" by auto
  let ?key = "(rank, g)"
  let ?new = "iv\<lparr>group_kinds := AList.update ?key (from_wire kind) (group_kinds iv),
        unlearned_groups := removeAll ?key (unlearned_groups iv),
        group_block_sizes := learn_size ?key stored (group_block_sizes iv)\<rparr>"
  have cases: "iv' = iv \<or> iv' = ?new \<and>
      (has_key ?key (group_kinds iv) \<or> ensure_group_capacity ?key iv = Inr ())"
    using run g
    by (cases "map_of (group_kinds iv) ?key")
       (auto simp: learn_group_def Let_def has_key_def split: sum.splits if_splits)
  show ?thesis
  proof (cases "iv' = iv")
    case neq: False
    with cases have new: "iv' = ?new"
      and room: "has_key ?key (group_kinds iv) \<or> ensure_group_capacity ?key iv = Inr ()" by auto
    have "length (AList.update ?key (from_wire kind) (group_kinds iv))
        + length (removeAll ?key (unlearned_groups iv)) \<le> max_nodes (inventory_limits iv)"
    proof (cases "?key \<in> set (unlearned_groups iv)")
      case True
      then show ?thesis using wf length_removeAll_present [of "unlearned_groups iv" ?key]
        by (auto simp: inventory_wf_def groups_wf_def length_update_has_key)
    next
      case absent: False
      show ?thesis
      proof (cases "has_key ?key (group_kinds iv)")
        case True
        with absent wf show ?thesis
          by (simp add: inventory_wf_def groups_wf_def length_update_has_key)
      next
        case no: False
        with room have e: "ensure_group_capacity ?key iv = Inr ()" by simp
        from ensure_group_capacity_room [OF wf e no absent] no absent show ?thesis
          by (simp add: length_update_has_key)
      qed
    qed
    then show ?thesis using wf new
      by (auto simp: inventory_wf_def groups_wf_def learn_size_def distinct_update distinct_removeAll)
  qed (use wf in simp)
qed

section \<open>The effect of an event\<close>

text \<open>What the reported outcome of an event says about the contents before and after it.\<close>

definition event_effect ::
  "kv_event \<Rightarrow> apply_outcome \<Rightarrow> (external_block_hash \<times> token_id list list) set
    \<Rightarrow> (external_block_hash \<times> token_id list list) set \<Rightarrow> bool" where
  "event_effect event out C C' = (case out of
      Stored n \<Rightarrow> (\<exists>st ps. event = BlockStored st \<and> n = length (block_hashes st) \<and>
        (case parent_block_hash st of None \<Rightarrow> ps = [] | Some p \<Rightarrow> (p, ps) \<in> C) \<and>
        C' = C \<union> path_entries ps (event_items st))
    | Removed n \<Rightarrow> (\<exists>rm. event = BlockRemoved rm \<and>
        n = card (set (rm_block_hashes rm) \<inter> fst ` C) \<and> C' = without (set (rm_block_hashes rm)) C)
    | Cleared \<Rightarrow> event = AllBlocksCleared \<and> C' = {}
    | Filtered _ \<Rightarrow> event \<noteq> AllBlocksCleared \<and> C' = C)"

lemma inventory_wf_with_index:
  "inventory_wf iv \<Longrightarrow> index_wf ix \<Longrightarrow> limits ix = inventory_limits iv \<Longrightarrow>
    inventory_wf (iv\<lparr>inv_index := ix\<rparr>)"
  by (simp add: inventory_wf_def groups_wf_def)

lemma inventory_clear_ok:
  assumes "inventory_wf iv"
  shows "inventory_wf (inventory_clear iv)" "inventory_contents (inventory_clear iv) = {}"
    "inventory_limits (inventory_clear iv) = inventory_limits iv"
  using assms index_clear_wf [of "inv_index iv"]
  by (auto simp: inventory_clear_def inventory_wf_def groups_wf_def)
     (simp_all add: index_clear_def)

lemma apply_event_unchanged:
  assumes "\<exists>r. apply_event rank event iv = Some (iv1, r) \<and>
      (\<forall>out. r = Inr out \<longrightarrow> (\<exists>x. out = Filtered x))"
    and "inventory_wf iv1" and "inv_index iv1 = inv_index iv" and "event \<noteq> AllBlocksCleared"
  shows "\<exists>iv' r. apply_event rank event iv = Some (iv', r) \<and> inventory_wf iv' \<and>
    inventory_limits iv' = inventory_limits iv \<and>
    (case r of Inl _ \<Rightarrow> inventory_contents iv' = inventory_contents iv
     | Inr out \<Rightarrow> event_effect event out (inventory_contents iv) (inventory_contents iv'))"
proof -
  obtain r where r: "apply_event rank event iv = Some (iv1, r)"
    "\<forall>out. r = Inr out \<longrightarrow> (\<exists>x. out = Filtered x)" using assms(1) by blast
  then have "case r of Inl _ \<Rightarrow> inventory_contents iv1 = inventory_contents iv
     | Inr out \<Rightarrow> event_effect event out (inventory_contents iv) (inventory_contents iv1)"
    using assms(3,4) by (cases r) (auto simp: event_effect_def)
  with r(1) assms(2,3) show ?thesis by auto
qed

lemma apply_event_stored:
  assumes wf: "inventory_wf iv"
  shows "\<exists>iv' r. apply_event rank (BlockStored st) iv = Some (iv', r) \<and> inventory_wf iv' \<and>
    inventory_limits iv' = inventory_limits iv \<and>
    (case r of Inl _ \<Rightarrow> inventory_contents iv' = inventory_contents iv
     | Inr out \<Rightarrow> event_effect (BlockStored st) out (inventory_contents iv) (inventory_contents iv'))"
proof -
  obtain iv1 r1 where l: "learn_group rank st iv = (iv1, r1)" by force
  note lg = learn_group_ok [OF wf l]
  then have wf1: "inventory_wf iv1" and ix1: "inv_index iv1 = inv_index iv" by auto
  show ?thesis
  proof (cases "isl r1 \<or> filter_store st rank (group_kinds iv1) \<noteq> None")
    case True
    then have "\<exists>r. apply_event rank (BlockStored st) iv = Some (iv1, r) \<and> (\<forall>out. r = Inr out \<longrightarrow>
        (\<exists>x. out = Filtered x))"
      using l by (cases r1) (auto simp: apply_event_def)
    then show ?thesis using wf1 ix1 by (rule apply_event_unchanged) simp
  next
    case False
    then obtain u where ok: "r1 = Inr u" "filter_store st rank (group_kinds iv1) = None"
      by (cases r1) auto
    have wfi: "index_wf (inv_index iv1)" using wf1 by (simp add: inventory_wf_def)
    obtain r where r: "index_store st (inv_index iv1) = Some r" using index_store_ok [OF wfi] by blast
    show ?thesis
    proof (cases r)
      case (Inl e)
      then have "\<exists>r'. apply_event rank (BlockStored st) iv = Some (iv1, r') \<and> (\<forall>out. r' = Inr out \<longrightarrow>
          (\<exists>x. out = Filtered x))"
        using l ok r by (auto simp: apply_event_def)
      then show ?thesis using wf1 ix1 by (rule apply_event_unchanged) simp
    next
      case (Inr p)
      obtain ix n where p: "p = (ix, n)" by force
      have ap: "apply_event rank (BlockStored st) iv = Some (iv1\<lparr>inv_index := ix\<rparr>, Inr (Stored n))"
        using l ok r Inr p by (simp add: apply_event_def)
      have st: "index_wf ix" "limits ix = limits (inv_index iv1)" "n = length (block_hashes st)"
        "\<exists>ps. parent_path (inv_index iv1) st ps \<and>
          index_contents ix = inventory_contents iv1 \<union> path_entries ps (event_items st)"
        using index_store_ok [OF wfi, of st] r Inr p by auto
      then show ?thesis using ap inventory_wf_with_index [OF wf1 st(1,2)] ix1
        by (auto simp: event_effect_def parent_path_def)
    qed
  qed
qed

lemma apply_event_removed:
  assumes wf: "inventory_wf iv"
  shows "\<exists>iv' r. apply_event rank (BlockRemoved rm) iv = Some (iv', r) \<and> inventory_wf iv' \<and>
    inventory_limits iv' = inventory_limits iv \<and>
    (case r of Inl _ \<Rightarrow> inventory_contents iv' = inventory_contents iv
     | Inr out \<Rightarrow> event_effect (BlockRemoved rm) out (inventory_contents iv) (inventory_contents iv'))"
proof -
  obtain iv1 r1 where l: "observe_unlearned_group rank (rm_group_idx rm) iv = (iv1, r1)" by force
  note og = observe_unlearned_group_ok [OF wf l]
  then have wf1: "inventory_wf iv1" and ix1: "inv_index iv1 = inv_index iv" by auto
  show ?thesis
  proof (cases "isl r1 \<or> filter_remove rm rank (group_kinds iv1) \<noteq> None")
    case True
    then have "\<exists>r. apply_event rank (BlockRemoved rm) iv = Some (iv1, r) \<and> (\<forall>out. r = Inr out \<longrightarrow>
        (\<exists>x. out = Filtered x))"
      using l by (cases r1) (auto simp: apply_event_def)
    then show ?thesis using wf1 ix1 by (rule apply_event_unchanged) simp
  next
    case False
    then obtain u where ok: "r1 = Inr u" "filter_remove rm rank (group_kinds iv1) = None"
      by (cases r1) auto
    have wfi: "index_wf (inv_index iv1)" using wf1 by (simp add: inventory_wf_def)
    obtain ix where ix: "index_remove rm (inv_index iv1) =
        Some (ix, card (set (rm_block_hashes rm) \<inter> fst ` inventory_contents iv1))"
      "index_wf ix" "limits ix = inventory_limits iv1"
      "index_contents ix = without (set (rm_block_hashes rm)) (inventory_contents iv1)"
      using wfi by (rule index_remove_ok)
    then show ?thesis using l ok ix1 inventory_wf_with_index [OF wf1 ix(2,3)]
      by (auto simp: apply_event_def event_effect_def)
  qed
qed

lemma apply_event_ok:
  assumes wf: "inventory_wf iv"
  obtains iv' r where "apply_event rank event iv = Some (iv', r)" "inventory_wf iv'"
    "inventory_limits iv' = inventory_limits iv"
    "case r of Inl _ \<Rightarrow> inventory_contents iv' = inventory_contents iv
     | Inr out \<Rightarrow> event_effect event out (inventory_contents iv) (inventory_contents iv')"
proof (cases event)
  case (BlockStored st)
  then show ?thesis using apply_event_stored [OF wf, of rank st] that by blast
next
  case (BlockRemoved rm)
  then show ?thesis using apply_event_removed [OF wf, of rank rm] that by blast
next
  case AllBlocksCleared
  then show ?thesis using inventory_clear_ok [OF wf] that [of "inventory_clear iv" "Inr Cleared"]
    by (simp add: apply_event_def event_effect_def)
qed

section \<open>Batches\<close>

text \<open>A sequence of events, each of them accepted.\<close>

fun apply_events :: "(u32 \<times> kv_event) list \<Rightarrow> exact_kv_inventory \<Rightarrow> exact_kv_inventory option" where
  "apply_events [] iv = Some iv"
| "apply_events ((rank, e) # es) iv = (case apply_event rank e iv of
      Some (iv', Inr out) \<Rightarrow> apply_events es iv' | _ \<Rightarrow> None)"

definition batch_events :: "kv_event_batch \<Rightarrow> (u32 \<times> kv_event) list" where
  "batch_events b = map (Pair (batch_rank b)) (events b)"

lemma apply_events_append:
  "apply_events (xs @ ys) iv = Option.bind (apply_events xs iv) (apply_events ys)"
  by (induction xs iv rule: apply_events.induct) (auto split: option.splits sum.splits)

lemma apply_loop_ok:
  assumes "inventory_wf iv"
  shows "\<exists>iv' r. apply_loop rank es s iv = Some (iv', r) \<and> inventory_wf iv' \<and>
    inventory_limits iv' = inventory_limits iv \<and>
    (\<forall>s'. r = Inr s' \<longrightarrow> apply_events (map (Pair rank) es) iv = Some iv')"
  using assms
proof (induction es arbitrary: s iv)
  case (Cons e es)
  obtain iv1 r1 where e: "apply_event rank e iv = Some (iv1, r1)" "inventory_wf iv1"
    "inventory_limits iv1 = inventory_limits iv"
    using Cons.prems by (rule apply_event_ok)
  show ?case
  proof (cases r1)
    case (Inl err)
    with e show ?thesis by simp
  next
    case (Inr out)
    with e Cons.IH [OF e(2), of "add_outcome out s"] show ?thesis by auto
  qed
qed simp

lemma apply_batch_ok:
  assumes "inventory_wf iv"
  obtains iv' r where "apply_batch b iv = Some (iv', r)" "inventory_wf iv'"
    "inventory_limits iv' = inventory_limits iv"
    "\<And>s. r = Inr s \<Longrightarrow> apply_events (batch_events b) iv = Some iv'"
  using apply_loop_ok [OF assms, of "batch_rank b" "events b" summary_default] that
  by (auto simp: apply_batch_def batch_events_def)

lemma clears_all_event: "clears_all b \<longleftrightarrow> AllBlocksCleared \<in> snd ` set (batch_events b)"
proof -
  have "(case e of AllBlocksCleared \<Rightarrow> True | _ \<Rightarrow> False) \<longleftrightarrow> e = AllBlocksCleared" for e
    by (cases e) auto
  then show ?thesis by (auto simp: clears_all_def batch_events_def list_ex_iff image_iff)
qed

end
