(* ===== verification/Exact_Trust.thy ===== *)
theory Exact_Trust
  imports Exact_Inventory_Proofs
begin

text \<open>
  What trust means. The engine publishes a log: at each sequence number a batch of KV events, or
  nothing where the scheduler step emitted none. The consumer (\<^verbatim>\<open>src/kv_consumer.rs\<close>) feeds a
  \<open>FencedExactKvInventory\<close> with live batches in any order, with replay responses while a replay
  is pending, and with disconnections. The main result: whenever the fence reports trust, the
  inventory is the outcome of applying every event of the log since its beginning or since a
  clear, up to the next expected sequence.
\<close>

section \<open>The publisher's log\<close>

type_synonym publisher_log = "nat \<Rightarrow> kv_event_batch option"

definition log_events :: "publisher_log \<Rightarrow> nat \<Rightarrow> nat \<Rightarrow> (u32 \<times> kv_event) list" where
  "log_events L lo hi =
     concat (map (\<lambda>q. case L q of None \<Rightarrow> [] | Some b \<Rightarrow> batch_events b) [lo..<hi])"

text \<open>The answer of a publisher that retains every batch it emitted.\<close>

definition retained :: "publisher_log \<Rightarrow> u64 \<Rightarrow> u64 \<Rightarrow> (u64 \<times> kv_event_batch) list" where
  "retained L from through =
     concat (map (\<lambda>q. case L q of None \<Rightarrow> [] | Some b \<Rightarrow> [(of_nat q, b)])
       [unat from..<Suc (unat through)])"

text \<open>
  Documented publisher behaviour (the comment in \<open>accept_replay\<close>): missing sequence numbers are
  steps that emitted nothing, so a response whose bounds and order pass the fence is complete.
\<close>

definition publisher_complete ::
  "publisher_log \<Rightarrow> pending_replay \<Rightarrow> (u64 \<times> kv_event_batch) list \<Rightarrow> bool" where
  "publisher_complete L p batches \<longleftrightarrow>
     (valid_bounds p (map fst batches) \<and> successively (<) (map fst batches) \<longrightarrow>
      batches = retained L (pr_from p) (pr_through p))"

text \<open>The inventory holds exactly the log's events since a boundary, up to the sequence \<open>e\<close>.\<close>

definition complete_upto :: "publisher_log \<Rightarrow> exact_kv_inventory \<Rightarrow> nat \<Rightarrow> bool" where
  "complete_upto L iv e \<longleftrightarrow> (\<exists>lo pre post iv0. lo \<le> e \<and> log_events L lo e = pre @ post \<and>
     (lo = 0 \<and> pre = [] \<or> pre \<noteq> [] \<and> snd (last pre) = AllBlocksCleared) \<and>
     inventory_wf iv0 \<and> inventory_contents iv0 = {} \<and> apply_events post iv0 = Some iv)"

section \<open>The consumer\<close>

fun stage_all :: "(u64 \<times> kv_event_batch) list \<Rightarrow> full_replay_stage \<Rightarrow> full_replay_stage option" where
  "stage_all [] st = Some st"
| "stage_all ((q, b) # bs) st = Option.bind (stage_ingest q b st) (stage_all bs)"

inductive consumer_step ::
  "publisher_log \<times> fenced_inventory \<Rightarrow> publisher_log \<times> fenced_inventory \<Rightarrow> bool" where
  live: "L (unat s) = Some b \<Longrightarrow> s \<noteq> - 1 \<Longrightarrow> ingest_live s b fi = Some (fi', r) \<Longrightarrow>
    consumer_step (L, fi) (L, fi')"
| replay: "pending (fe_fence fi) = Some p \<Longrightarrow> publisher_complete L p batches \<Longrightarrow>
    ingest_replay batches fi = Some (fi', r) \<Longrightarrow> consumer_step (L, fi) (L, fi')"
| full_replay: "pending (fe_fence fi) = Some p \<Longrightarrow> pr_from p = 0 \<Longrightarrow>
    publisher_complete L p batches \<Longrightarrow> stage_all batches (begin_full_replay fi) = Some st \<Longrightarrow>
    commit_full_replay st fi = (fi', r) \<Longrightarrow> consumer_step (L, fi) (L, fi')"
| restart: "consumer_step (L, fi) (L', generation_changed fi)"
| retry: "prepare_full_replay_retry through fi = (fi', r) \<Longrightarrow> consumer_step (L, fi) (L', fi')"

section \<open>The log, split and joined\<close>

lemma log_events_split:
  "lo \<le> m \<Longrightarrow> m \<le> hi \<Longrightarrow> log_events L lo hi = log_events L lo m @ log_events L m hi"
  using upt_add_eq_append [of lo m "hi - m"] by (simp add: log_events_def)

lemma log_events_empty [simp]: "log_events L e e = []"
  by (simp add: log_events_def)

lemma log_events_one: "L q = Some b \<Longrightarrow> log_events L q (Suc q) = batch_events b"
  by (simp add: log_events_def)

fun reply_events :: "(u64 \<times> kv_event_batch) list \<Rightarrow> (u32 \<times> kv_event) list" where
  "reply_events [] = []"
| "reply_events ((q, b) # bs) = batch_events b @ reply_events bs"

lemma reply_events_append: "reply_events (xs @ ys) = reply_events xs @ reply_events ys"
  by (induction xs rule: reply_events.induct) auto

lemma retained_events:
  "reply_events (retained L from through) = log_events L (unat from) (Suc (unat through))"
proof -
  have "reply_events (concat (map (\<lambda>q. case L q of None \<Rightarrow> [] | Some b \<Rightarrow> [(of_nat q :: u64, b)]) qs)) =
    concat (map (\<lambda>q. case L q of None \<Rightarrow> [] | Some b \<Rightarrow> batch_events b) qs)" for qs
    by (induction qs) (auto simp: reply_events_append split: option.splits)
  then show ?thesis by (simp only: retained_def log_events_def)
qed

lemma clears_any:
  "list_ex (\<lambda>(_, b). clears_all b) bs \<longleftrightarrow> AllBlocksCleared \<in> snd ` set (reply_events bs)"
  by (induction bs rule: reply_events.induct) (simp_all add: clears_all_event image_Un)

lemma complete_start:
  "inventory_wf iv \<Longrightarrow> inventory_contents iv = {} \<Longrightarrow> complete_upto L iv 0"
  unfolding complete_upto_def
  by (rule exI [of _ 0], rule exI [of _ "[]"], rule exI [of _ "[]"], rule exI [of _ iv]) simp

lemma complete_extend:
  assumes "complete_upto L iv e" and "e \<le> e'" and "apply_events (log_events L e e') iv = Some iv'"
  shows "complete_upto L iv' e'"
proof -
  obtain lo pre post iv0 where c: "lo \<le> e" "log_events L lo e = pre @ post"
    "lo = 0 \<and> pre = [] \<or> pre \<noteq> [] \<and> snd (last pre) = AllBlocksCleared"
    "inventory_wf iv0" "inventory_contents iv0 = {}" "apply_events post iv0 = Some iv"
    using assms(1) unfolding complete_upto_def by blast
  let ?post = "post @ log_events L e e'"
  have "log_events L lo e' = pre @ ?post" using log_events_split [OF c(1) assms(2)] c(2) by simp
  moreover have "apply_events ?post iv0 = Some iv'" using c(6) assms(3) by (simp add: apply_events_append)
  moreover have "lo \<le> e'" using c(1) assms(2) by simp
  ultimately show ?thesis using c(3-5) unfolding complete_upto_def by blast
qed

lemma apply_events_wf: "apply_events es iv = Some iv' \<Longrightarrow> inventory_wf iv \<Longrightarrow>
    inventory_wf iv' \<and> inventory_limits iv' = inventory_limits iv"
proof (induction es arbitrary: iv)
  case (Cons x es)
  obtain rank e where x: "x = (rank, e)" by force
  obtain iv1 r where r: "apply_event rank e iv = Some (iv1, r)" "inventory_wf iv1"
    "inventory_limits iv1 = inventory_limits iv"
    using Cons.prems(2) by (rule apply_event_ok)
  with Cons x show ?case by (auto split: sum.splits)
qed simp

lemma complete_boundary:
  assumes "AllBlocksCleared \<in> snd ` set (log_events L lo e)" and "lo \<le> e" and "inventory_wf iv"
    and "apply_events (log_events L lo e) iv = Some iv'"
  shows "complete_upto L iv' e"
proof -
  obtain rank where "(rank, AllBlocksCleared) \<in> set (log_events L lo e)" using assms(1) by auto
  then obtain xs ys where s: "log_events L lo e = xs @ (rank, AllBlocksCleared) # ys"
    by (metis split_list)
  then obtain iv1 where iv1: "apply_events xs iv = Some iv1"
    "apply_events ((rank, AllBlocksCleared) # ys) iv1 = Some iv'"
    using assms(4) by (auto simp: apply_events_append bind_eq_Some_conv)
  have wf1: "inventory_wf iv1" using apply_events_wf [OF iv1(1) assms(3)] by simp
  let ?pre = "xs @ [(rank, AllBlocksCleared)]"
  have "apply_events ys (inventory_clear iv1) = Some iv'"
    using iv1(2) by (simp add: apply_event_def)
  moreover have "log_events L lo e = ?pre @ ys" using s by simp
  moreover have "snd (last ?pre) = AllBlocksCleared" "?pre \<noteq> []" by simp_all
  ultimately show ?thesis
    using assms(2) inventory_clear_ok(1,2) [OF wf1] unfolding complete_upto_def by blast
qed

section \<open>The invariant\<close>

definition trust_state :: "publisher_log \<Rightarrow> kv_event_fence \<Rightarrow> exact_kv_inventory \<Rightarrow> bool" where
  "trust_state L f iv \<longleftrightarrow> fence_wf f \<and> inventory_wf iv \<and>
     (case pending f of
        None \<Rightarrow>
          (if trusted_flag f then \<exists>e. next_sequence f = Some e \<and> complete_upto L iv (unat e)
           else inventory_contents iv = {})
      | Some p \<Rightarrow> pr_through p \<noteq> - 1 \<and>
          (if restore_trust p then complete_upto L iv (unat (pr_from p))
           else inventory_contents iv = {}))"

abbreviation trust_inv :: "publisher_log \<Rightarrow> fenced_inventory \<Rightarrow> bool" where
  "trust_inv L fi \<equiv> trust_state L (fe_fence fi) (fe_inventory fi)"

lemma reset_generation_ok:
  assumes "inventory_wf iv"
  shows "inventory_wf (reset_generation iv)" "inventory_contents (reset_generation iv) = {}"
    "inventory_limits (reset_generation iv) = inventory_limits iv"
  using assms index_clear_wf [of "inv_index iv"]
  by (auto simp: reset_generation_def inventory_wf_def groups_wf_def) (simp_all add: index_clear_def)

text \<open>Every path that gives up leaves an untrusted fence and an empty inventory.\<close>

lemma trust_state_fenced:
  assumes "fence_wf f" and "inventory_wf iv" and "inventory_contents iv = {}"
    and "pending f = None" and "\<not> trusted_flag f"
  shows "trust_state L f iv"
  using assms by (simp add: trust_state_def)

lemma bump_revision_fields [simp]:
  "fe_fence (bump_revision fi) = fe_fence fi" "fe_inventory (bump_revision fi) = fe_inventory fi"
  by (simp_all add: bump_revision_def)

lemma trust_inv_discard:
  assumes "inventory_wf (fe_inventory fi)"
  shows "trust_inv L (discard_generation fi)"
  using reset_generation_ok [OF assms] fence_wf_generation_changed [of "fe_fence fi"]
  by (intro trust_state_fenced) (simp_all add: discard_generation_def fence_generation_changed_def)

lemma u64_sat_add_one: "s \<noteq> - 1 \<Longrightarrow> unat (u64_sat_add s 1) = Suc (unat (s :: u64))"
proof -
  assume "s \<noteq> - 1"
  then have "unat s \<noteq> unat (- 1 :: u64)" using unsigned_word_eqI [of s "- 1"] by blast
  moreover have "unat s < 2 ^ 64" using unsigned_less [of s] by simp
  moreover have "unat (- 1 :: u64) = 2 ^ 64 - 1" by (simp add: unsigned_minus_1_eq_mask mask_eq_exp_minus_1)
  ultimately have "unat s + 1 \<le> 2 ^ 64 - 1" by linarith
  then show ?thesis by (simp add: unat_u64_sat_add)
qed

lemma live_apply_trust:
  assumes wf: "inventory_wf (fe_inventory fi)" and f: "fence_wf (fe_fence fi)"
      "pending (fe_fence fi) = None" "trusted_flag (fe_fence fi)" "next_sequence (fe_fence fi) = Some e"
    and good: "\<And>iv'. apply_events (batch_events b) (fe_inventory fi) = Some iv' \<Longrightarrow>
      complete_upto L iv' (unat e)"
  shows "\<exists>fi' r. live_applied (apply_authoritative b fi) = Some (fi', r) \<and> trust_inv L fi'"
proof -
  obtain iv' r where r: "apply_batch b (fe_inventory fi) = Some (iv', r)" "inventory_wf iv'"
    "\<And>s. r = Inr s \<Longrightarrow> apply_events (batch_events b) (fe_inventory fi) = Some iv'"
    using apply_batch_ok [OF wf, of b] by metis
  show ?thesis
  proof (cases r)
    case (Inl e)
    with r(1) trust_inv_discard [of "fi\<lparr>fe_inventory := iv'\<rparr>" L] r(2) show ?thesis
      by (simp add: live_applied_def apply_authoritative_def)
  next
    case (Inr s)
    have "trust_state L (fe_fence fi) iv'" using good [OF r(3) [OF Inr]] f r(2)
      by (simp add: trust_state_def)
    with r(1) Inr show ?thesis by (simp add: live_applied_def apply_authoritative_def)
  qed
qed

lemma fence_ingest_apply:
  assumes "fence_wf f" and "fence_ingest s c f = (f', Apply)"
  shows "pending f = None" "pending f' = None" "trusted_flag f'" "next_sequence f' = Some (u64_sat_add s 1)"
    "s = 0 \<and> \<not> trusted_flag f \<or> next_sequence f = Some s \<and> trusted_flag f"
  using assms(2) assms(1)
  by (cases rule: fence_ingest_cases [of c s f]; auto simp: fence_wf_def split: if_splits)+

text \<open>The steps of \<open>ingest_live\<close> that do not touch the inventory.\<close>

lemma ingest_live_idle:
  assumes inv: "trust_inv L fi" and "\<not> clears_all b" and "s \<noteq> - 1"
    and act: "snd (fence_ingest s (clears_all b) (fe_fence fi)) \<notin> {Apply, ResetAndApply, UnrecoverableGap}"
  shows "trust_state L (fst (fence_ingest s (clears_all b) (fe_fence fi))) (fe_inventory fi)"
proof -
  let ?f = "fe_fence fi" and ?iv = "fe_inventory fi"
  have fwf: "fence_wf ?f" and wf: "inventory_wf ?iv" using inv by (simp_all add: trust_state_def)
  note fwf' = fence_wf_ingest [OF fwf, of s "clears_all b"]
  show ?thesis
  proof (cases rule: fence_ingest_cases [of "clears_all b" s ?f])
    case (extend p)
    then show ?thesis using inv fwf' assms(3) by (simp add: trust_state_def)
  next
    case late
    then have "\<not> trusted_flag ?f" using fwf by (simp add: fence_wf_def)
    then have "complete_upto L ?iv 0" using inv late complete_start [OF wf] by (simp add: trust_state_def)
    then show ?thesis using late wf fwf' assms(3) by (simp add: trust_state_def)
  next
    case blind
    then have "\<not> trusted_flag ?f" using fwf by (simp add: fence_wf_def)
    then show ?thesis using blind inv fwf' by (simp add: trust_state_def)
  next
    case (expected e)
    then have "\<not> trusted_flag ?f" using act by (auto split: if_splits)
    then show ?thesis using expected inv fwf' by (simp add: trust_state_def)
  next
    case (gap e)
    then show ?thesis using inv fwf' assms(3) by (auto simp: trust_state_def)
  qed (use assms in simp_all)
qed

lemma ingest_live_trust:
  assumes inv: "trust_inv L fi" and log: "L (unat s) = Some b" "s \<noteq> - 1"
  shows "\<exists>fi' r. ingest_live s b fi = Some (fi', r) \<and> trust_inv L fi'"
proof -
  let ?f = "fe_fence fi" and ?iv = "fe_inventory fi"
  have fwf: "fence_wf ?f" and wf: "inventory_wf ?iv" using inv by (simp_all add: trust_state_def)
  obtain f' act where fi: "fence_ingest s (clears_all b) ?f = (f', act)" by force
  have fwf': "fence_wf f'" using fence_wf_ingest [OF fwf, of s "clears_all b"] fi by simp
  have sn: "unat (u64_sat_add s 1) = Suc (unat s)" using log(2) by (rule u64_sat_add_one)
  have one: "log_events L (unat s) (Suc (unat s)) = batch_events b" using log(1) by (rule log_events_one)
  consider (reset) "act = ResetAndApply" | (applied) "act = Apply" | (fenced) "act = UnrecoverableGap"
    | (idle) "act \<notin> {Apply, ResetAndApply, UnrecoverableGap}" by blast
  then show ?thesis
  proof cases
    case reset
    then have c: "clears_all b" "pending f' = None" "trusted_flag f'" "next_sequence f' = Some (u64_sat_add s 1)"
      using fi by (auto simp: fence_ingest_def Let_def split: if_splits option.splits)
    let ?fi = "fi\<lparr>fe_fence := f', fe_inventory := inventory_clear ?iv\<rparr>"
    have "complete_upto L iv' (unat (u64_sat_add s 1))"
      if "apply_events (batch_events b) (inventory_clear ?iv) = Some iv'" for iv'
      using that c(1) inventory_clear_ok(1) [OF wf] complete_boundary [of L "unat s" "Suc (unat s)"]
      by (simp add: one clears_all_event sn)
    then show ?thesis
      using live_apply_trust [of ?fi "u64_sat_add s 1" b L] inventory_clear_ok(1) [OF wf] fwf' c fi reset
      by (simp add: ingest_live_def)
  next
    case applied
    then have "fence_ingest s (clears_all b) ?f = (f', Apply)" using fi by simp
    note fa = fence_ingest_apply [OF fwf this]
    have "complete_upto L ?iv (unat s)"
      using fa(5) inv fa(1) complete_start [OF wf, of L] by (auto simp: trust_state_def)
    with fa have c: "pending f' = None" "trusted_flag f'" "next_sequence f' = Some (u64_sat_add s 1)"
      "complete_upto L ?iv (unat s)" by auto
    have "complete_upto L iv' (unat (u64_sat_add s 1))"
      if "apply_events (batch_events b) ?iv = Some iv'" for iv'
      using complete_extend [OF c(4), of "Suc (unat s)" iv'] that one sn by simp
    then show ?thesis
      using live_apply_trust [of "fi\<lparr>fe_fence := f'\<rparr>" "u64_sat_add s 1" b L] wf fwf' c fi applied
      by (simp add: ingest_live_def)
  next
    case fenced
    then have "pending f' = None" "\<not> trusted_flag f'"
      using fi by (auto simp: fence_ingest_def fence_after_def Let_def split: if_splits option.splits)
    then show ?thesis using fi fenced fwf' reset_generation_ok [OF wf]
      by (auto simp: ingest_live_def intro: trust_state_fenced)
  next
    case idle
    then have "\<not> clears_all b" using fi by (auto simp: fence_ingest_def split: if_splits)
    then have "trust_state L f' ?iv" using ingest_live_idle [OF inv _ log(2)] fi idle by simp
    then show ?thesis using fi idle by (cases act) (auto simp: ingest_live_def)
  qed
qed

section \<open>Replays\<close>

lemma replay_loop_ok:
  assumes "inventory_wf (fe_inventory fi)"
  shows "(\<exists>iv' s'. replay_loop bs s fi = Some (fi\<lparr>fe_inventory := iv'\<rparr>, Inr s') \<and> inventory_wf iv' \<and>
      apply_events (reply_events bs) (fe_inventory fi) = Some iv') \<or>
    (\<exists>iv' e. replay_loop bs s fi = Some (discard_generation (fi\<lparr>fe_inventory := iv'\<rparr>), Inl e) \<and>
      inventory_wf iv')"
  using assms
proof (induction bs arbitrary: s fi rule: reply_events.induct)
  case (2 q b bs)
  obtain iv1 r where r: "apply_batch b (fe_inventory fi) = Some (iv1, r)" "inventory_wf iv1"
    "\<And>s. r = Inr s \<Longrightarrow> apply_events (batch_events b) (fe_inventory fi) = Some iv1"
    using apply_batch_ok [OF 2(2), of b] by metis
  show ?case
  proof (cases r)
    case (Inl e)
    with r(1,2) show ?thesis by auto
  next
    case (Inr s1)
    from 2(1) [of "fi\<lparr>fe_inventory := iv1\<rparr>" "merge_summary s s1"] r(1,2) r(3) [OF Inr] Inr
    show ?thesis by (auto simp: apply_events_append)
  qed
qed auto

lemma stage_all_ok:
  assumes "inventory_wf (stage_inventory st)"
  shows "\<exists>st'. stage_all bs st = Some st' \<and> inventory_wf (stage_inventory st') \<and>
    stage_sequences st' = stage_sequences st @ map fst bs \<and>
    (stage_boundary st' \<longleftrightarrow> stage_boundary st \<or> list_ex (\<lambda>(_, b). clears_all b) bs) \<and>
    (stage_error st' = None \<longrightarrow> stage_error st = None \<and>
       apply_events (reply_events bs) (stage_inventory st) = Some (stage_inventory st'))"
  using assms
proof (induction bs arbitrary: st rule: reply_events.induct)
  case (2 q b bs)
  let ?st1 = "st\<lparr>stage_sequences := stage_sequences st @ [q],
      stage_boundary := stage_boundary st \<or> clears_all b\<rparr>"
  obtain iv1 r where r: "apply_batch b (stage_inventory st) = Some (iv1, r)" "inventory_wf iv1"
    "\<And>s. r = Inr s \<Longrightarrow> apply_events (batch_events b) (stage_inventory st) = Some iv1"
    using apply_batch_ok [OF 2(2), of b] by metis
  consider "stage_error st \<noteq> None" | e where "stage_error st = None" "r = Inl e"
    | s1 where "stage_error st = None" "r = Inr s1" by (cases r) auto
  then show ?case
  proof cases
    case 1
    then have "stage_ingest q b st = Some ?st1" by (simp add: stage_ingest_def)
    with 2(1) [of ?st1] 2(2) 1 show ?thesis by auto
  next
    case (2 e)
    let ?st2 = "?st1\<lparr>stage_inventory := iv1, stage_error := Some e\<rparr>"
    have "stage_ingest q b st = Some ?st2" using 2 r(1) by (simp add: stage_ingest_def)
    with "2.IH" [of ?st2] r(2) show ?thesis by auto
  next
    case (3 s1)
    let ?st2 = "?st1\<lparr>stage_inventory := iv1, stage_summary := merge_summary (stage_summary st) s1\<rparr>"
    have "stage_ingest q b st = Some ?st2" using 3 r(1) by (simp add: stage_ingest_def)
    with "2.IH" [of ?st2] r(2) r(3) [OF 3(2)] 3(1) show ?thesis
      by (auto simp: apply_events_append)
  qed
qed simp

text \<open>What an accepted and complete response adds.\<close>

lemma replay_completes:
  assumes inv: "trust_inv L fi" and p: "pending (fe_fence fi) = Some p"
    and honest: "publisher_complete L p bs" and ok: "valid_bounds p (map fst bs)" "successively (<) (map fst bs)"
    and trust: "restore_trust p \<or> list_ex (\<lambda>(_, b). clears_all b) bs"
    and ap: "apply_events (reply_events bs) iv = Some iv'"
    and iv: "iv = fe_inventory fi \<or> pr_from p = 0 \<and> inventory_wf iv \<and> inventory_contents iv = {}"
  shows "complete_upto L iv' (Suc (unat (pr_through p)))"
proof -
  have f: "fence_wf (fe_fence fi)" and wf: "inventory_wf iv"
    using inv iv by (auto simp: trust_state_def)
  have le: "unat (pr_from p) \<le> Suc (unat (pr_through p))"
    using f p by (simp add: fence_wf_def word_le_nat_alt)
  have bs: "bs = retained L (pr_from p) (pr_through p)" using honest ok by (simp add: publisher_complete_def)
  have ev: "reply_events bs = log_events L (unat (pr_from p)) (Suc (unat (pr_through p)))"
    unfolding bs by (rule retained_events)
  show ?thesis
  proof (cases "list_ex (\<lambda>(_, b). clears_all b) bs")
    case True
    then have "AllBlocksCleared \<in> snd ` set (log_events L (unat (pr_from p)) (Suc (unat (pr_through p))))"
      unfolding clears_any ev .
    then show ?thesis using le wf ap unfolding ev by (rule complete_boundary)
  next
    case False
    with trust inv p have "complete_upto L (fe_inventory fi) (unat (pr_from p))"
      by (simp add: trust_state_def)
    moreover have "complete_upto L iv (unat (pr_from p))" if "pr_from p = 0" "inventory_contents iv = {}"
      using complete_start [OF wf that(2)] that(1) by simp
    ultimately have "complete_upto L iv (unat (pr_from p))" using iv by auto
    then show ?thesis using le ap unfolding ev by (rule complete_extend)
  qed
qed

lemma next_after_replay:
  assumes "trust_inv L fi" and "pending (fe_fence fi) = Some p"
  shows "\<exists>e. next_sequence (fe_fence fi) = Some e \<and> unat e = Suc (unat (pr_through p))"
  using assms u64_sat_add_one [of "pr_through p"] by (auto simp: trust_state_def fence_wf_def)

lemma ingest_replay_trust:
  assumes inv: "trust_inv L fi" and p: "pending (fe_fence fi) = Some p"
    and honest: "publisher_complete L p bs"
  shows "\<exists>fi' r. ingest_replay bs fi = Some (fi', r) \<and> trust_inv L fi'"
proof -
  let ?f = "fe_fence fi" and ?b = "list_ex (\<lambda>(_, b). clears_all b) bs"
  have fwf: "fence_wf ?f" and wf: "inventory_wf (fe_inventory fi)"
    using inv by (simp_all add: trust_state_def)
  have fwf': "fence_wf (fst (fence_accept_replay (map fst bs) ?b ?f))"
    using fwf by (rule fence_wf_accept_replay)
  show ?thesis
  proof (cases rule: fence_accept_replay_cases [of ?f "map fst bs" ?b])
    case idle
    with p show ?thesis by simp
  next
    case (refused q)
    then show ?thesis using fwf' reset_generation_ok [OF wf]
      by (auto simp: ingest_replay_def intro!: trust_state_fenced)
  next
    case (observe q)
    then show ?thesis using inv fwf' by (simp add: ingest_replay_def trust_state_def)
  next
    case (recovered q)
    let ?f' = "fst (fence_accept_replay (map fst bs) ?b ?f)"
    let ?fi = "fi\<lparr>fe_fence := ?f'\<rparr>"
    have q: "q = p" using recovered(1) p by simp
    have eq: "ingest_replay bs fi = map_option (\<lambda>(fi2, r). (bump_revision fi2, map_sum id ReplayApplied r))
        (replay_loop bs summary_default ?fi)"
      unfolding ingest_replay_def recovered(5) by simp
    from replay_loop_ok [of ?fi bs summary_default] wf consider
      iv' s' where "replay_loop bs summary_default ?fi = Some (?fi\<lparr>fe_inventory := iv'\<rparr>, Inr s')"
        "inventory_wf iv'" "apply_events (reply_events bs) (fe_inventory fi) = Some iv'"
      | iv' e where "replay_loop bs summary_default ?fi =
          Some (discard_generation (?fi\<lparr>fe_inventory := iv'\<rparr>), Inl e)" "inventory_wf iv'"
      by auto
    then show ?thesis
    proof cases
      case (1 iv' s')
      have "complete_upto L iv' (Suc (unat (pr_through p)))"
        using replay_completes [OF inv p honest _ _ _ 1(3)] recovered(2-4) q by simp
      moreover obtain e where "next_sequence ?f = Some e" "unat e = Suc (unat (pr_through p))"
        using next_after_replay [OF inv p] by blast
      ultimately have "trust_state L ?f' iv'"
        using fwf' 1(2) unfolding recovered(5) by (simp add: trust_state_def)
      with eq 1(1) show ?thesis by simp
    next
      case (2 iv' e)
      with eq trust_inv_discard [of "?fi\<lparr>fe_inventory := iv'\<rparr>" L] show ?thesis by simp
    qed
  qed
qed

lemma inventory_new_ok:
  "limits_ok l \<Longrightarrow> inventory_wf (inventory_new l)" "inventory_contents (inventory_new l) = {}"
  using index_new_wf [of l] by (simp_all add: inventory_new_def inventory_wf_def groups_wf_def)

lemma full_replay_trust:
  assumes inv: "trust_inv L fi" and p: "pending (fe_fence fi) = Some p" "pr_from p = 0"
    and honest: "publisher_complete L p bs"
  shows "\<exists>st. stage_all bs (begin_full_replay fi) = Some st \<and>
    trust_inv L (fst (commit_full_replay st fi))"
proof -
  let ?f = "fe_fence fi" and ?b = "list_ex (\<lambda>(_, b). clears_all b) bs"
  have fwf: "fence_wf ?f" and wf: "inventory_wf (fe_inventory fi)"
    using inv by (simp_all add: trust_state_def)
  let ?iv = "inventory_new (inventory_limits (fe_inventory fi))"
  have new: "inventory_wf ?iv" "inventory_contents ?iv = {}"
    using inventory_new_ok wf by (simp_all add: inventory_wf_def index_wf_def)
  obtain st where st: "stage_all bs (begin_full_replay fi) = Some st" "inventory_wf (stage_inventory st)"
    "stage_sequences st = map fst bs" "stage_boundary st \<longleftrightarrow> ?b"
    "stage_error st = None \<longrightarrow> apply_events (reply_events bs) ?iv = Some (stage_inventory st)"
    using stage_all_ok [of "begin_full_replay fi" bs] new(1)
    by (auto simp: begin_full_replay_def stage_new_def)
  have fwf': "fence_wf (fst (fence_accept_replay (map fst bs) ?b ?f))"
    using fwf by (rule fence_wf_accept_replay)
  have "trust_inv L (fst (commit_full_replay st fi))"
  proof (cases "stage_error st")
    case (Some e)
    then show ?thesis using trust_inv_discard [OF wf] by (simp add: commit_full_replay_def)
  next
    case None
    note cf = commit_full_replay_def None st(3,4)
    show ?thesis
    proof (cases rule: fence_accept_replay_cases [of ?f "map fst bs" ?b])
      case idle
      with p show ?thesis by simp
    next
      case (refused q)
      then show ?thesis using fwf' reset_generation_ok [OF wf]
        by (auto simp: cf intro!: trust_state_fenced)
    next
      case (observe q)
      then show ?thesis using inv fwf' by (simp add: cf trust_state_def)
    next
      case (recovered q)
      have q: "q = p" using recovered(1) p by simp
      have "apply_events (reply_events bs) ?iv = Some (stage_inventory st)" using st(5) None by simp
      then have "complete_upto L (stage_inventory st) (Suc (unat (pr_through p)))"
        using replay_completes [OF inv p(1) honest] recovered(2-4) q new p(2) by blast
      moreover obtain e where "next_sequence ?f = Some e" "unat e = Suc (unat (pr_through p))"
        using next_after_replay [OF inv p(1)] by blast
      ultimately have "trust_state L (fst (fence_accept_replay (map fst bs) ?b ?f)) (stage_inventory st)"
        using fwf' st(2) unfolding recovered(5) by (simp add: trust_state_def)
      then show ?thesis using recovered(5) by (simp add: cf)
    qed
  qed
  with st(1) show ?thesis by blast
qed

section \<open>Reachable states\<close>

lemma trust_inv_new: "limits_ok l \<Longrightarrow> trust_inv L (fenced_new n l)"
  using inventory_new_ok [of l] fence_wf_new [of n]
  by (intro trust_state_fenced) (simp_all add: fenced_new_def, simp_all add: fence_new_def)

lemma trust_inv_restart: "trust_inv L fi \<Longrightarrow> trust_inv L' (generation_changed fi)"
  using trust_inv_discard [of fi L'] by (simp add: generation_changed_def trust_state_def)

lemma can_prepare_not_max: "can_prepare_full_replay t f \<Longrightarrow> t \<noteq> - 1"
  by (auto simp: can_prepare_full_replay_def u64_checked_add_def unsigned_minus_1_eq_mask
      mask_eq_exp_minus_1)

lemma trust_inv_retry:
  assumes "trust_inv L fi" and "prepare_full_replay_retry through fi = (fi', r)"
  shows "trust_inv L' fi'"
proof -
  have inv: "trust_inv L' (generation_changed fi)" using assms(1) by (rule trust_inv_restart)
  let ?f = "fe_fence (generation_changed fi)" and ?iv = "fe_inventory (generation_changed fi)"
  have wf: "fence_wf ?f" "inventory_wf ?iv" using inv by (simp_all add: trust_state_def)
  have e: "inventory_contents ?iv = {}"
    using inv by (simp add: trust_state_def generation_changed_def discard_generation_def
        fence_generation_changed_def)
  have fi': "fe_fence fi' = fst (prepare_full_replay through ?f)" "fe_inventory fi' = ?iv"
    using assms(2) by (auto simp: prepare_full_replay_retry_def Let_def split: prod.splits)
  have "fence_wf (fst (prepare_full_replay through ?f))" using wf(1) by (rule fence_wf_prepare_full_replay)
  then show ?thesis
    using inv wf(2) complete_start [OF wf(2) e, of L'] can_prepare_not_max [of through ?f]
    unfolding fi'
    by (cases "can_prepare_full_replay through ?f") (simp_all add: prepare_full_replay_def trust_state_def)
qed

lemma consumer_step_trust:
  "consumer_step c c' \<Longrightarrow> trust_inv (fst c) (snd c) \<Longrightarrow> trust_inv (fst c') (snd c')"
proof (induction rule: consumer_step.induct)
  case (live L s b fi fi' r)
  then show ?case using ingest_live_trust [of L fi s b] by auto
next
  case (replay fi p L bs fi' r)
  then show ?case using ingest_replay_trust [of L fi p bs] by auto
next
  case (full_replay fi p L bs st fi' r)
  then show ?case using full_replay_trust [of L fi p bs] by auto
next
  case (restart L fi L')
  then show ?case using trust_inv_restart by auto
next
  case (retry through fi fi' r L L')
  then show ?case using trust_inv_retry [of L fi through fi' r L'] by auto
qed

lemma reachable_trust:
  assumes "limits_ok l" and "consumer_step\<^sup>*\<^sup>* (L0, fenced_new n l) (L, fi)"
  shows "trust_inv L fi"
proof -
  have "trust_inv (fst c) (snd c)" if "consumer_step\<^sup>*\<^sup>* (L0, fenced_new n l) c" for c
    using that trust_inv_new [OF assms(1), of L0 n]
    by (induction rule: rtranclp_induct) (auto dest: consumer_step_trust)
  from this [OF assms(2)] show ?thesis by simp
qed

section \<open>Totality without assumptions on the publisher\<close>

lemma apply_authoritative_wf:
  assumes "inventory_wf (fe_inventory fi)"
  shows "\<exists>fi' r. live_applied (apply_authoritative b fi) = Some (fi', r) \<and> inventory_wf (fe_inventory fi')"
proof -
  obtain iv' r where r: "apply_batch b (fe_inventory fi) = Some (iv', r)" "inventory_wf iv'"
    using assms by (rule apply_batch_ok)
  then show ?thesis using reset_generation_ok(1) [OF r(2)]
    by (cases r) (simp_all add: live_applied_def apply_authoritative_def discard_generation_def)
qed

lemma ingest_live_wf:
  assumes "inventory_wf (fe_inventory fi)"
  shows "\<exists>fi' r. ingest_live s b fi = Some (fi', r) \<and> inventory_wf (fe_inventory fi')"
proof -
  obtain f' act where f: "fence_ingest s (clears_all b) (fe_fence fi) = (f', act)" by force
  show ?thesis
    using f assms inventory_clear_ok(1) [OF assms] reset_generation_ok(1) [OF assms]
      apply_authoritative_wf [of "fi\<lparr>fe_fence := f'\<rparr>" b]
      apply_authoritative_wf [of "fi\<lparr>fe_fence := f', fe_inventory := inventory_clear (fe_inventory fi)\<rparr>" b]
    by (cases act) (simp_all add: ingest_live_def)
qed

section \<open>A concrete run\<close>

definition sample_batch :: kv_event_batch where
  "sample_batch = \<lparr>timestamp = Finite 0, events = [BlockStored sample_store],
     data_parallel_rank = None\<rparr>"

definition sample_log :: publisher_log where
  "sample_log q = (if q = 0 then Some sample_batch else None)"

definition sample_state :: fenced_inventory where
  "sample_state = fst (the (ingest_live 0 sample_batch (fenced_new 8 sample_limits)))"

lemmas fence_eval = fence_ingest_def fence_new_def fence_trusted_def fence_accept_replay_def
lemmas inventory_eval = clears_all_def live_applied_def apply_authoritative_def apply_batch_def
  apply_event_def learn_group_def filter_store_def common_filter_def inventory_new_def
  bump_revision_def ingest_live_def fenced_new_def
lemmas fenced_lookup_eval = fenced_find_longest_def inventory_find_longest_def lookup_eval
lemmas sample_eval = sample_event_eval sample_batch_def

lemma sample_live:
  "ingest_live 0 sample_batch (fenced_new 8 sample_limits) =
     Some (sample_state, snd (the (ingest_live 0 sample_batch (fenced_new 8 sample_limits))))"
proof -
  have "ingest_live 0 sample_batch (fenced_new 8 sample_limits) \<noteq> None"
    by (simp add: sample_eval inventory_eval fence_eval index_eval)
  then show ?thesis by (auto simp: sample_state_def)
qed

lemma sample_reachable: "consumer_step\<^sup>*\<^sup>* (sample_log, fenced_new 8 sample_limits) (sample_log, sample_state)"
  by (rule r_into_rtranclp, rule consumer_step.live [of _ 0 sample_batch, OF _ _ sample_live])
     (simp_all add: sample_log_def)

lemma sample_trusted: "fence_trusted (fe_fence sample_state)"
  by (simp add: sample_state_def sample_eval inventory_eval fence_eval index_eval)

lemma sample_find: "fenced_find_longest [10, 11, 12, 13] sample_state =
    Some (Inr (Some \<lparr>em_blocks = 2, em_token_ids = 3\<rparr>))"
  by (simp add: sample_state_def sample_eval inventory_eval fence_eval index_eval fenced_lookup_eval)

section \<open>Properties\<close>



text \<open>
  C2. An answer of the fenced inventory is exact: in every reachable state a lookup that returns a
  match was made under trust, and the match counts the blocks and tokens of a chain of resident
  blocks that spells a prefix of the prompt, at least as long as every other such chain.
\<close>

theorem fenced_lookup_exact:
  assumes "limits_ok l" and "consumer_step\<^sup>*\<^sup>* (L0, fenced_new n l) (L, fi)"
    and "length toks \<le> usize_max" and "fenced_find_longest toks fi = Some (Inr (Some m))"
  shows "fence_trusted (fe_fence fi) \<and>
    (\<exists>ps. resident_chain (inventory_contents (fe_inventory fi)) toks ps \<and> m = chain_match ps) \<and>
    (\<forall>qs. resident_chain (inventory_contents (fe_inventory fi)) toks qs \<longrightarrow> chain_le qs m)"
proof -
  have wf: "index_wf (inv_index (fe_inventory fi))"
    using reachable_trust [OF assms(1,2)] by (simp add: trust_state_def inventory_wf_def)
  have t: "fence_trusted (fe_fence fi)"
    using assms(4) by (auto simp: fenced_find_longest_def split: if_splits)
  then have f: "index_find_longest toks (inv_index (fe_inventory fi)) = Some (Inr m)"
    using assms(4)
    by (cases "index_find_longest toks (inv_index (fe_inventory fi))";
        cases "the (index_find_longest toks (inv_index (fe_inventory fi)))")
       (auto simp: fenced_find_longest_def inventory_find_longest_def)
  show ?thesis
    using t exact_index.find_sound [OF wf assms(3) f] exact_index.find_max [OF wf assms(3) f] by metis
qed

theorem fenced_lookup_exact_witness:
  "fence_trusted (fe_fence sample_state) \<and>
   (\<exists>ps. resident_chain (inventory_contents (fe_inventory sample_state)) [10, 11, 12, 13] ps \<and>
      \<lparr>em_blocks = 2, em_token_ids = 3\<rparr> = chain_match ps)"
  using fenced_lookup_exact [OF sample_limits_ok sample_reachable _ sample_find]
  by (simp add: usize_max_def)

text \<open>
  C3. The live path never panics and stays bounded: on any inventory that satisfies the invariant,
  every batch at every sequence is processed, and the index keeps at most the configured nodes,
  tokens and cache groups.
\<close>

theorem ingest_live_total:
  assumes "inventory_wf (fe_inventory fi)"
  shows "\<exists>fi' r. ingest_live s b fi = Some (fi', r) \<and> inventory_wf (fe_inventory fi') \<and>
    (let ix = inv_index (fe_inventory fi') in
     live_nodes ix \<le> max_nodes (limits ix) \<and> resident_token_ids ix \<le> max_token_ids (limits ix) \<and>
     length (group_kinds (fe_inventory fi')) + length (unlearned_groups (fe_inventory fi'))
       \<le> max_nodes (limits ix))"
proof -
  obtain fi' r where "ingest_live s b fi = Some (fi', r)" "inventory_wf (fe_inventory fi')"
    using ingest_live_wf [OF assms] by blast
  then show ?thesis by (auto simp: Let_def inventory_wf_def index_wf_def groups_wf_def)
qed

theorem ingest_live_total_witness:
  "inventory_wf (fe_inventory (fenced_new 8 sample_limits)) \<and>
   (\<exists>fi' r. ingest_live 7 sample_batch (fenced_new 8 sample_limits) = Some (fi', r))"
proof -
  have wf: "inventory_wf (fe_inventory (fenced_new 8 sample_limits))"
    using inventory_new_ok(1) [OF sample_limits_ok] by (simp add: fenced_new_def)
  with ingest_live_total [OF wf, of 7 sample_batch] show ?thesis by blast
qed

end
