(* ===== verification/Router_Decision.thy ===== *)
theory Router_Decision
  imports Ramjet_Prelude
begin

text \<open>
  The routing decision of \<^verbatim>\<open>src/router.rs\<close> as data: \<open>RequestLoadEstimator\<close>, \<open>CandidateState\<close>,
  \<open>Outcome\<close> and \<open>Decision\<close> with the methods that later policies apply to it (model restriction,
  state and session affinity, decode reservations).
\<close>

section \<open>Load estimates\<close>

record request_load_estimator =
  est_chunk_bytes :: nat
  load_unit_bytes :: nat
  max_load_units :: nat

text \<open>\<open>None\<close> is the panic of an assertion.\<close>

definition estimator_new :: "nat \<Rightarrow> nat \<Rightarrow> nat \<Rightarrow> request_load_estimator option" where
  "estimator_new chunk unit_bytes mx =
    (if chunk = 0 \<or> unit_bytes = 0 \<or> mx = 0 then None
     else Some \<lparr>est_chunk_bytes = chunk, load_unit_bytes = unit_bytes, max_load_units = mx\<rparr>)"

definition estimate_reusable_bytes :: "request_load_estimator \<Rightarrow> nat \<Rightarrow> nat \<Rightarrow> nat" where
  "estimate_reusable_bytes e body_bytes reusable_bytes =
     min (max (div_ceil (body_bytes - reusable_bytes) (load_unit_bytes e)) 1) (max_load_units e)"

definition estimate_blocks :: "request_load_estimator \<Rightarrow> nat \<Rightarrow> nat \<Rightarrow> nat" where
  "estimate_blocks e body_bytes overlap_blocks =
     estimate_reusable_bytes e body_bytes (sat_mul overlap_blocks (est_chunk_bytes e))"

definition estimate_exact_tokens :: "request_load_estimator \<Rightarrow> nat \<Rightarrow> nat \<Rightarrow> nat \<Rightarrow> nat option" where
  "estimate_exact_tokens e body_bytes overlap_tokens prompt_tokens =
    (if prompt_tokens = 0 \<or> prompt_tokens < overlap_tokens then None
     else
       let reusable = min (body_bytes * overlap_tokens) (2 ^ 128 - 1) div prompt_tokens
       in Some (estimate_reusable_bytes e body_bytes (min reusable usize_max)))"

section \<open>Decisions\<close>

datatype outcome = Overlap | Load | RoundRobin | Single | Exact | StateAffinity

record candidate_state =
  cs_index :: nat
  cs_rank :: nat
  cs_overlap_blocks :: nat
  cs_affinity_blocks :: nat
  cs_load_units :: nat
  cs_request_load_units :: nat
  cs_healthy :: bool
  cs_stale_blocks :: nat
  cs_horizon_ms :: "nat option"
  cs_overlap_ages_ms :: "(nat \<times> nat) list"

record decision =
  candidates :: "nat list"
  candidate_states :: "candidate_state list"
  d_overlap_blocks :: nat
  d_total_blocks :: nat
  d_affinity_blocks :: nat
  d_load_units :: nat
  d_rotation :: nat
  d_outcome :: outcome

definition renumber :: "candidate_state list \<Rightarrow> candidate_state list" where
  "renumber cs = map (\<lambda>(rank, c). c\<lparr>cs_rank := rank\<rparr>) (zip [0..<length cs] cs)"

definition eligible_at :: "bool list \<Rightarrow> nat \<Rightarrow> bool" where
  "eligible_at eligible i = (case get eligible i of None \<Rightarrow> False | Some b \<Rightarrow> b)"

definition restrict_states :: "bool list \<Rightarrow> candidate_state list \<Rightarrow> candidate_state list" where
  "restrict_states eligible cs =
     renumber (sort_by (\<lambda>a b. \<not> eligible_at eligible (cs_index a) \<and> eligible_at eligible (cs_index b))
       (map (\<lambda>c. c\<lparr>cs_healthy := cs_healthy c \<and> eligible_at eligible (cs_index c)\<rparr>) cs))"

definition take_winner :: "candidate_state \<Rightarrow> decision \<Rightarrow> decision" where
  "take_winner w d = d\<lparr>d_overlap_blocks := cs_overlap_blocks w,
     d_affinity_blocks := cs_affinity_blocks w, d_load_units := cs_request_load_units w\<rparr>"

text \<open>
  The new decision and the returned flag; the outer \<open>None\<close> is the panic of the lookup of the
  winner's state.
\<close>

definition restrict_to :: "bool list \<Rightarrow> decision \<Rightarrow> (decision \<times> bool) option" where
  "restrict_to eligible d =
    (if length eligible \<noteq> length (candidate_states d) \<or>
        list_ex (\<lambda>c. length eligible \<le> cs_index c) (candidate_states d)
     then Some (d, False)
     else
       let d1 = d\<lparr>candidates := filter (eligible_at eligible) (candidates d)\<rparr> in
       if candidates d1 = [] then Some (d1, False)
       else
         let d2 = d1\<lparr>candidate_states := restrict_states eligible (candidate_states d1)\<rparr> in
         case List.find (\<lambda>c. cs_index c = hd (candidates d2)) (candidate_states d2) of
           None \<Rightarrow> None
         | Some winner \<Rightarrow>
             let d3 = take_winner winner d2 in
             Some (if length (candidates d3) = 1 then d3\<lparr>d_outcome := Single\<rparr> else d3, True))"

definition promote :: "nat \<Rightarrow> decision \<Rightarrow> decision \<times> bool" where
  "promote upstream d =
    (case position (\<lambda>c. c = upstream) (candidates d) of None \<Rightarrow> (d, False)
     | Some cp \<Rightarrow>
    (case position (\<lambda>s. cs_index s = upstream \<and> cs_healthy s) (candidate_states d) of
       None \<Rightarrow> (d, False)
     | Some sp \<Rightarrow>
        let d1 = d\<lparr>candidates := swap (candidates d) 0 cp,
                   candidate_states := renumber (swap (candidate_states d) 0 sp)\<rparr>
        in (take_winner (candidate_states d1 ! 0) d1, True)))"

definition prefer_upstream :: "nat \<Rightarrow> decision \<Rightarrow> decision \<times> bool" where
  "prefer_upstream upstream d = (case promote upstream d of
      (d1, False) \<Rightarrow> (d1, False)
    | (d1, True) \<Rightarrow> (d1\<lparr>d_outcome := StateAffinity\<rparr>, True))"

definition apply_request_load_floor :: "nat \<Rightarrow> decision \<Rightarrow> decision" where
  "apply_request_load_floor load_floor d =
    (let d1 = d\<lparr>candidate_states := map (\<lambda>c. c\<lparr>cs_request_load_units :=
                 max (cs_request_load_units c) (max load_floor 1)\<rparr>) (candidate_states d)\<rparr>
     in case candidates d1 of [] \<Rightarrow> d1
        | selected # _ \<Rightarrow>
           (case List.find (\<lambda>c. cs_index c = selected) (candidate_states d1) of None \<Rightarrow> d1
            | Some c \<Rightarrow> d1\<lparr>d_load_units := cs_request_load_units c\<rparr>))"

section \<open>Well-formed decisions\<close>

text \<open>
  The dispatch order is an initial part of the candidate states, in the same order; every upstream
  appears once, ranks are positions, and the summary fields are those of the selected candidate.
\<close>

definition decision_wf :: "decision \<Rightarrow> bool" where
  "decision_wf d \<longleftrightarrow> candidates d \<noteq> [] \<and>
     (\<exists>rest. map cs_index (candidate_states d) = candidates d @ rest) \<and>
     distinct (map cs_index (candidate_states d)) \<and>
     map cs_rank (candidate_states d) = [0..<length (candidate_states d)] \<and>
     d_overlap_blocks d = cs_overlap_blocks (hd (candidate_states d)) \<and>
     d_affinity_blocks d = cs_affinity_blocks (hd (candidate_states d)) \<and>
     d_load_units d = cs_request_load_units (hd (candidate_states d))"

lemma length_renumber [simp]: "length (renumber cs) = length cs"
  by (simp add: renumber_def)

lemma renumber_nth: "i < length cs \<Longrightarrow> renumber cs ! i = (cs ! i)\<lparr>cs_rank := i\<rparr>"
  by (simp add: renumber_def)

lemma renumber_map:
  "(\<And>c r. f (c\<lparr>cs_rank := r\<rparr>) = f c) \<Longrightarrow> map f (renumber cs) = map f cs"
  by (rule nth_equalityI) (simp_all add: renumber_nth)

lemma renumber_ranks: "map cs_rank (renumber cs) = [0..<length cs]"
  by (rule nth_equalityI) (simp_all add: renumber_nth)

lemma renumber_hd: "cs \<noteq> [] \<Longrightarrow> hd (renumber cs) = (hd cs)\<lparr>cs_rank := 0\<rparr>"
proof -
  assume ne: "cs \<noteq> []"
  then have "renumber cs \<noteq> []" by (metis length_0_conv length_renumber)
  with ne renumber_nth [of 0 cs] show ?thesis by (simp add: hd_conv_nth)
qed

lemma insert_by_after: "\<forall>y \<in> set ys. gt x y \<Longrightarrow> insert_by gt x (ys @ zs) = ys @ insert_by gt x zs"
  by (induction ys) simp_all

lemma insert_by_before: "\<forall>z \<in> set zs. \<not> gt x z \<Longrightarrow> insert_by gt x zs = x # zs"
  by (cases zs) simp_all

lemma sort_by_partition:
  "sort_by (\<lambda>a b. \<not> p a \<and> p b) xs = filter p xs @ filter (\<lambda>x. \<not> p x) xs"
proof (induction xs)
  case (Cons x xs)
  let ?gt = "\<lambda>a b. \<not> p a \<and> p b"
  show ?case
  proof (cases "p x")
    case True
    then have "insert_by ?gt x (sort_by ?gt xs) = x # sort_by ?gt xs"
      by (intro insert_by_before) simp
    with Cons.IH True show ?thesis by (simp only: sort_by.simps filter.simps if_True append_Cons simp_thms if_False)
  next
    case False
    have "insert_by ?gt x (filter p xs @ filter (\<lambda>x. \<not> p x) xs) =
        filter p xs @ insert_by ?gt x (filter (\<lambda>x. \<not> p x) xs)"
      using False by (intro insert_by_after) simp
    also have "insert_by ?gt x (filter (\<lambda>x. \<not> p x) xs) = x # filter (\<lambda>x. \<not> p x) xs"
      by (intro insert_by_before) simp
    finally show ?thesis using Cons.IH False by (simp only: sort_by.simps filter.simps if_True simp_thms if_False)
  qed
qed simp

lemma find_first:
  assumes "distinct (map f xs)" and "xs \<noteq> []"
  shows "List.find (\<lambda>x. f x = f (hd xs)) xs = Some (hd xs)"
  using assms by (cases xs) auto

lemma map_swap: "i < length xs \<Longrightarrow> j < length xs \<Longrightarrow> map f (swap xs i j) = swap (map f xs) i j"
  by (simp add: swap_def map_update)

lemma hd_swap: "j < length xs \<Longrightarrow> hd (swap xs 0 j) = xs ! j"
  by (cases xs; cases j) (auto simp: swap_def)

lemma swap_append: "i < length xs \<Longrightarrow> j < length xs \<Longrightarrow> swap (xs @ ys) i j = swap xs i j @ ys"
  by (simp add: swap_def nth_append list_update_append)

lemma decision_wfD:
  assumes "decision_wf d"
  obtains rest where "candidates d \<noteq> []" "map cs_index (candidate_states d) = candidates d @ rest"
    "distinct (map cs_index (candidate_states d))" "candidate_states d \<noteq> []"
    "cs_index (hd (candidate_states d)) = hd (candidates d)"
proof -
  obtain rest where r: "candidates d \<noteq> []" "map cs_index (candidate_states d) = candidates d @ rest"
    "distinct (map cs_index (candidate_states d))" using assms by (auto simp: decision_wf_def)
  then have ne: "candidate_states d \<noteq> []" by auto
  then have "cs_index (hd (candidate_states d)) = hd (map cs_index (candidate_states d))"
    by (simp add: hd_map)
  with r have "cs_index (hd (candidate_states d)) = hd (candidates d)" by simp
  with r ne that show ?thesis by blast
qed

section \<open>The operations keep decisions well-formed\<close>

lemma renumber_index: "map cs_index (renumber cs) = map cs_index cs"
  by (rule renumber_map) simp

lemma filter_states_index:
  "map cs_index (filter (\<lambda>c. p (cs_index c)) (map (\<lambda>c. c\<lparr>cs_healthy := h c\<rparr>) cs)) =
     filter p (map cs_index cs)"
  by (simp add: filter_map o_def)

lemma restrict_states_index:
  "map cs_index (restrict_states el cs) =
     filter (eligible_at el) (map cs_index cs) @ filter (\<lambda>i. \<not> eligible_at el i) (map cs_index cs)"
  unfolding restrict_states_def renumber_index
    sort_by_partition [where p = "\<lambda>c. eligible_at el (cs_index c)"] map_append
    filter_states_index [where p = "eligible_at el"]
    filter_states_index [where p = "\<lambda>i. \<not> eligible_at el i"] by (rule refl)

lemma mset_filter_split: "mset (filter p xs) + mset (filter (\<lambda>x. \<not> p x) xs) = mset xs"
  by (induction xs) auto

lemma restrict_to_wf:
  assumes wf: "decision_wf d" and all: "\<And>rest. map cs_index (candidate_states d) = candidates d @ rest \<Longrightarrow>
      \<forall>i \<in> set rest. \<not> eligible_at el i"
    and run: "restrict_to el d = Some (d', True)"
  shows "decision_wf d' \<and> candidates d' = filter (eligible_at el) (candidates d)"
proof -
  obtain rest where D: "map cs_index (candidate_states d) = candidates d @ rest"
    "distinct (map cs_index (candidate_states d))"
    using wf by (rule decision_wfD)
  let ?cs = "restrict_states el (candidate_states d)"
  let ?c = "filter (eligible_at el) (candidates d)"
  have none: "filter (eligible_at el) rest = []" using all [OF D(1)] by (auto simp: filter_empty_conv)
  have idx: "map cs_index ?cs = ?c @ filter (\<lambda>i. \<not> eligible_at el i) (candidates d @ rest)"
    unfolding restrict_states_index D(1) using none by simp
  have ne: "?c \<noteq> []" using run by (auto simp: restrict_to_def Let_def split: if_splits option.splits)
  then have cne: "?cs \<noteq> []" using idx by auto
  have "hd (map cs_index ?cs) = hd ?c" unfolding idx using ne by simp
  then have hd: "cs_index (hd ?cs) = hd ?c" using cne by (simp add: hd_map)
  have "mset (map cs_index ?cs) = mset (map cs_index (candidate_states d))"
    unfolding restrict_states_index mset_append by (rule mset_filter_split)
  then have dist: "distinct (map cs_index ?cs)" using D(2) by (metis mset_eq_imp_distinct_iff)
  have find: "List.find (\<lambda>c. cs_index c = hd ?c) ?cs = Some (hd ?cs)"
    using find_first [OF dist cne] unfolding hd .
  have ranks: "map cs_rank ?cs = [0..<length ?cs]" by (simp add: restrict_states_def renumber_ranks)
  have guard: "\<not> (length el \<noteq> length (candidate_states d) \<or>
      list_ex (\<lambda>c. length el \<le> cs_index c) (candidate_states d))"
    using run by (auto simp: restrict_to_def split: if_splits)
  let ?d3 = "take_winner (hd ?cs) (d\<lparr>candidates := ?c, candidate_states := ?cs\<rparr>)"
  have "restrict_to el d = Some (if length ?c = 1 then ?d3\<lparr>d_outcome := Single\<rparr> else ?d3, True)"
    unfolding restrict_to_def if_not_P [OF guard] using ne find by (simp add: take_winner_def)
  then have "d' = (if length ?c = 1 then ?d3\<lparr>d_outcome := Single\<rparr> else ?d3)" using run by simp
  then show ?thesis using ne idx dist ranks by (simp add: decision_wf_def take_winner_def)
qed

lemma promote_cases:
  assumes "decision_wf d" and "promote u d = (d', ok)"
  obtains (refused) "d' = d" "\<not> ok"
  | (moved) i where "ok" "i < length (candidates d)" "candidates d ! i = u"
      "i < length (candidate_states d)" "cs_index (candidate_states d ! i) = u"
      "cs_healthy (candidate_states d ! i)"
      "d' = take_winner (hd (renumber (swap (candidate_states d) 0 i)))
         (d\<lparr>candidates := swap (candidates d) 0 i,
            candidate_states := renumber (swap (candidate_states d) 0 i)\<rparr>)"
proof (cases "position (\<lambda>c. c = u) (candidates d) = None \<or>
    position (\<lambda>s. cs_index s = u \<and> cs_healthy s) (candidate_states d) = None")
  case True
  then show ?thesis using assms(2) refused by (auto simp: promote_def split: option.splits)
next
  case False
  then obtain cp sp where p: "position (\<lambda>c. c = u) (candidates d) = Some cp"
    "position (\<lambda>s. cs_index s = u \<and> cs_healthy s) (candidate_states d) = Some sp" by auto
  obtain rest where D: "map cs_index (candidate_states d) = candidates d @ rest"
    "distinct (map cs_index (candidate_states d))"
    using assms(1) by (rule decision_wfD)
  note cp = position_Some [OF p(1)] and sp = position_Some [OF p(2)]
  have "length (candidates d) \<le> length (candidate_states d)"
    using arg_cong [OF D(1), of length] by simp
  then have lt: "cp < length (candidate_states d)" using cp by simp
  have "map cs_index (candidate_states d) ! cp = u" using cp unfolding D(1) by (simp add: nth_append)
  moreover have "map cs_index (candidate_states d) ! sp = u" using sp by simp
  ultimately have eq: "cp = sp"
    using nth_eq_iff_index_eq [OF D(2), of cp sp] lt sp by simp
  have "candidate_states d \<noteq> []" using lt by auto
  then have "renumber (swap (candidate_states d) 0 sp) \<noteq> []"
    by (metis length_0_conv length_renumber length_swap)
  then have "promote u d = (take_winner (hd (renumber (swap (candidate_states d) 0 sp)))
         (d\<lparr>candidates := swap (candidates d) 0 cp,
            candidate_states := renumber (swap (candidate_states d) 0 sp)\<rparr>), True)"
    using p by (simp add: promote_def Let_def hd_conv_nth)
  then show ?thesis using moved [of cp] assms(2) cp sp lt eq by simp
qed

lemma promote_wf:
  assumes wf: "decision_wf d" and run: "promote u d = (d', ok)"
  shows "decision_wf d' \<and> mset (candidates d') = mset (candidates d) \<and>
    (ok \<longrightarrow> hd (candidates d') = u \<and> cs_healthy (hd (candidate_states d')))"
  using wf run
proof (cases rule: promote_cases)
  case refused
  with wf show ?thesis by simp
next
  case (moved i)
  obtain rest where D: "candidates d \<noteq> []" "map cs_index (candidate_states d) = candidates d @ rest"
    "distinct (map cs_index (candidate_states d))" "candidate_states d \<noteq> []"
    using wf by (rule decision_wfD)
  let ?c = "swap (candidates d) 0 i" and ?cs = "swap (candidate_states d) 0 i"
  have zero: "0 < length (candidates d)" "0 < length (candidate_states d)" using D by simp_all
  have idx: "map cs_index (renumber ?cs) = ?c @ rest"
    unfolding renumber_index map_swap [OF zero(2) moved(4)] D(2)
    using zero(1) moved(2) by (rule swap_append)
  have "mset (map cs_index ?cs) = mset (map cs_index (candidate_states d))"
    using mset_swap_at [OF zero(2) moved(4)] by simp
  then have dist: "distinct (map cs_index (renumber ?cs))"
    unfolding renumber_index using D(3) by (metis mset_eq_imp_distinct_iff)
  have hd_cs: "hd (renumber ?cs) = (candidate_states d ! i)\<lparr>cs_rank := 0\<rparr>"
    using renumber_hd [of ?cs] hd_swap [OF moved(4)] zero(2) by (metis length_greater_0_conv length_swap)
  have hd_c: "hd ?c = u" using hd_swap [OF moved(2)] moved(3) by simp
  have ne: "?c \<noteq> []" using zero(1) by (metis length_greater_0_conv length_swap)
  have "decision_wf d'"
    unfolding moved(7) decision_wf_def take_winner_def
    using ne idx dist renumber_ranks [of ?cs] by simp
  then show ?thesis unfolding moved(7)
    using mset_swap_at [OF zero(1) moved(2)] hd_c hd_cs moved(6) by (simp add: take_winner_def)
qed

lemma promote_serving:
  assumes "u \<in> set (candidates d)" "\<exists>s \<in> set (candidate_states d). cs_index s = u \<and> cs_healthy s"
  shows "\<exists>d'. promote u d = (d', True)"
proof -
  obtain i where "position (\<lambda>c. c = u) (candidates d) = Some i" using position_ex [OF assms(1)] by metis
  moreover obtain j where "position (\<lambda>s. cs_index s = u \<and> cs_healthy s) (candidate_states d) = Some j"
    using position_ex [of _ "candidate_states d" "\<lambda>s. cs_index s = u \<and> cs_healthy s"] assms(2) by metis
  ultimately show ?thesis by (simp add: promote_def Let_def)
qed

lemma prefer_upstream_promote:
  "prefer_upstream u d = (d', ok) \<Longrightarrow>
    \<exists>d1. promote u d = (d1, ok) \<and> d' = (if ok then d1\<lparr>d_outcome := StateAffinity\<rparr> else d1)"
  by (auto simp: prefer_upstream_def split: prod.splits bool.splits)

lemma decision_wf_outcome [simp]: "decision_wf (d\<lparr>d_outcome := x\<rparr>) = decision_wf d"
  by (simp add: decision_wf_def)

lemma load_floor_wf:
  assumes wf: "decision_wf d"
  shows "decision_wf (apply_request_load_floor n d) \<and>
    candidates (apply_request_load_floor n d) = candidates d \<and>
    (\<forall>c \<in> set (candidate_states (apply_request_load_floor n d)). max n 1 \<le> cs_request_load_units c)"
proof -
  obtain rest where D: "candidates d \<noteq> []" "map cs_index (candidate_states d) = candidates d @ rest"
    "distinct (map cs_index (candidate_states d))" "candidate_states d \<noteq> []"
    "cs_index (hd (candidate_states d)) = hd (candidates d)"
    using wf by (rule decision_wfD)
  let ?f = "\<lambda>c. c\<lparr>cs_request_load_units := max (cs_request_load_units c) (max n 1)\<rparr>"
  let ?cs = "map ?f (candidate_states d)"
  have idx: "map cs_index ?cs = map cs_index (candidate_states d)" by simp
  have ne: "?cs \<noteq> []" using D(4) by simp
  have "cs_index (hd ?cs) = hd (candidates d)" using D(4,5) by (simp add: hd_map)
  then have "List.find (\<lambda>c. cs_index c = hd (candidates d)) ?cs = Some (hd ?cs)"
    using find_first [of cs_index ?cs] ne D(3) idx by metis
  then have "apply_request_load_floor n d =
      d\<lparr>candidate_states := ?cs, d_load_units := cs_request_load_units (hd ?cs)\<rparr>"
    using D(1) by (cases "candidates d") (simp_all add: apply_request_load_floor_def)
  moreover have rank: "map cs_rank ?cs = map cs_rank (candidate_states d)" by simp
  moreover have "cs_overlap_blocks (hd ?cs) = cs_overlap_blocks (hd (candidate_states d))"
    "cs_affinity_blocks (hd ?cs) = cs_affinity_blocks (hd (candidate_states d))"
    using D(4) by (simp_all add: hd_map)
  ultimately have "decision_wf (apply_request_load_floor n d)"
    using wf idx unfolding decision_wf_def by (simp del: map_map)
  then show ?thesis using \<open>apply_request_load_floor n d = _\<close> by auto
qed

lemma restrict_to_total:
  assumes wf: "decision_wf d"
  shows "restrict_to el d \<noteq> None"
proof (cases "filter (eligible_at el) (candidates d) = []")
  case True
  then show ?thesis by (simp add: restrict_to_def Let_def del: not_None_eq)
next
  case False
  obtain rest where D: "map cs_index (candidate_states d) = candidates d @ rest"
    using wf by (rule decision_wfD)
  let ?w = "hd (filter (eligible_at el) (candidates d))"
  have "?w \<in> set (filter (eligible_at el) (candidates d))" using False by (rule hd_in_set)
  then have "?w \<in> set (map cs_index (restrict_states el (candidate_states d)))"
    unfolding restrict_states_index D by simp
  then have "List.find (\<lambda>c. cs_index c = ?w) (restrict_states el (candidate_states d)) \<noteq> None"
    by (auto simp: find_None_iff)
  then show ?thesis using False by (auto simp: restrict_to_def Let_def simp del: find_None_iff find_None_iff2)
qed

lemma restrict_to_eligible:
  assumes "restrict_to el d = Some (d', True)"
  shows "candidates d' = filter (eligible_at el) (candidates d)"
    "candidate_states d' = restrict_states el (candidate_states d)"
  using assms by (auto simp: restrict_to_def Let_def take_winner_def split: if_splits option.splits)

lemma restrict_states_healthy:
  assumes "c \<in> set (restrict_states el cs)" and "cs_healthy c"
  shows "eligible_at el (cs_index c)"
proof -
  have "map (\<lambda>c. (cs_index c, cs_healthy c)) (restrict_states el cs) =
      map (\<lambda>c. (cs_index c, cs_healthy c)) (sort_by (\<lambda>a b. \<not> eligible_at el (cs_index a) \<and> eligible_at el (cs_index b))
       (map (\<lambda>c. c\<lparr>cs_healthy := cs_healthy c \<and> eligible_at el (cs_index c)\<rparr>) cs))"
    unfolding restrict_states_def by (rule renumber_map) simp
  then have "(cs_index c, cs_healthy c) \<in> (\<lambda>c. (cs_index c, cs_healthy c)) `
      set (sort_by (\<lambda>a b. \<not> eligible_at el (cs_index a) \<and> eligible_at el (cs_index b))
       (map (\<lambda>c. c\<lparr>cs_healthy := cs_healthy c \<and> eligible_at el (cs_index c)\<rparr>) cs))"
    using assms(1) by (metis (mono_tags, lifting) image_eqI list.set_map)
  then show ?thesis using assms(2) unfolding set_sort_by by auto
qed

section \<open>Policies after the model restriction\<close>

text \<open>What the policies that follow the model restriction may do to a decision.\<close>

datatype policy_op = Promote nat | Prefer nat | LoadFloor nat

fun run_op :: "policy_op \<Rightarrow> decision \<Rightarrow> decision" where
  "run_op (Promote u) d = fst (promote u d)"
| "run_op (Prefer u) d = fst (prefer_upstream u d)"
| "run_op (LoadFloor n) d = apply_request_load_floor n d"

lemma run_op_wf:
  assumes "decision_wf d"
  shows "decision_wf (run_op p d) \<and> mset (candidates (run_op p d)) = mset (candidates d)"
proof (cases p)
  case (Promote u)
  then show ?thesis using promote_wf [OF assms, of u] by (cases "promote u d") simp
next
  case (Prefer u)
  obtain d' ok where r: "prefer_upstream u d = (d', ok)" by fastforce
  from prefer_upstream_promote [OF r] obtain d1 where
    "promote u d = (d1, ok)" "d' = (if ok then d1\<lparr>d_outcome := StateAffinity\<rparr> else d1)" by blast
  then show ?thesis using promote_wf [OF assms, of u d1 ok] r Prefer by simp
next
  case (LoadFloor n)
  then show ?thesis using load_floor_wf [OF assms, of n] by simp
qed

lemma run_ops_wf:
  "decision_wf d \<Longrightarrow> decision_wf (fold run_op ps d) \<and> mset (candidates (fold run_op ps d)) = mset (candidates d)"
proof (induction ps arbitrary: d)
  case (Cons p ps)
  then show ?case using run_op_wf [of d p] by simp
qed simp

lemma estimate_reusable_bounds:
  "0 < max_load_units e \<Longrightarrow> 1 \<le> estimate_reusable_bytes e b r \<and> estimate_reusable_bytes e b r \<le> max_load_units e"
  by (simp add: estimate_reusable_bytes_def)

text \<open>
  C33. The model restriction is a boundary no later policy crosses. On a fresh decision (every
  upstream is a candidate) \<^const>\<open>restrict_to\<close> never panics; it refuses exactly when the mask does
  not fit or leaves nobody; and when it accepts, then after any sequence of promotions, state-affinity
  preferences and load floors the decision is well-formed and its candidates are, up to order, the
  eligible ones of the original, so the upstream dispatched to is eligible.
\<close>

theorem model_restriction_is_boundary:
  assumes "decision_wf d" and "length (candidates d) = length (candidate_states d)"
  shows "\<exists>d' ok. restrict_to el d = Some (d', ok) \<and>
    (ok \<longleftrightarrow> length el = length (candidate_states d) \<and>
       (\<forall>c \<in> set (candidate_states d). cs_index c < length el) \<and>
       (\<exists>i \<in> set (candidates d). eligible_at el i)) \<and>
    (ok \<longrightarrow> decision_wf (fold run_op ps d') \<and>
       mset (candidates (fold run_op ps d')) = mset (filter (eligible_at el) (candidates d)) \<and>
       eligible_at el (hd (candidates (fold run_op ps d'))))"
proof -
  obtain d' ok where r: "restrict_to el d = Some (d', ok)" using restrict_to_total [OF assms(1), of el] by auto
  have ok: "ok \<longleftrightarrow> length el = length (candidate_states d) \<and>
       (\<forall>c \<in> set (candidate_states d). cs_index c < length el) \<and>
       (\<exists>i \<in> set (candidates d). eligible_at el i)"
    using r by (auto simp: restrict_to_def Let_def filter_empty_conv list_ex_iff not_le
        split: if_splits option.splits) (meson leD)
  have "decision_wf (fold run_op ps d') \<and>
       mset (candidates (fold run_op ps d')) = mset (filter (eligible_at el) (candidates d)) \<and>
       eligible_at el (hd (candidates (fold run_op ps d')))" if ok
  proof -
    have rest: "rest = []" if "map cs_index (candidate_states d) = candidates d @ rest" for rest
      using arg_cong [OF that, of length] assms(2) by simp
    then have "decision_wf d' \<and> candidates d' = filter (eligible_at el) (candidates d)"
      using restrict_to_wf [of d el d'] assms(1) r that by fastforce
    then have fin: "decision_wf (fold run_op ps d')"
      "mset (candidates (fold run_op ps d')) = mset (filter (eligible_at el) (candidates d))"
      using run_ops_wf [of d' ps] by simp_all
    then have "hd (candidates (fold run_op ps d')) \<in> set (candidates (fold run_op ps d'))"
      by (simp add: decision_wf_def)
    also have "\<dots> = set (filter (eligible_at el) (candidates d))" by (rule mset_eq_setD [OF fin(2)])
    finally show ?thesis using fin by simp
  qed
  with r ok show ?thesis by blast
qed

definition sample_candidate :: "nat \<Rightarrow> bool \<Rightarrow> candidate_state" where
  "sample_candidate i healthy = \<lparr>cs_index = i, cs_rank = i, cs_overlap_blocks = i, cs_affinity_blocks = i,
     cs_load_units = 0, cs_request_load_units = 1, cs_healthy = healthy, cs_stale_blocks = 0,
     cs_horizon_ms = None, cs_overlap_ages_ms = []\<rparr>"

definition sample_decision :: decision where
  "sample_decision = \<lparr>candidates = [0, 1, 2],
     candidate_states = [sample_candidate 0 True, sample_candidate 1 True, sample_candidate 2 True],
     d_overlap_blocks = 0, d_total_blocks = 4, d_affinity_blocks = 0, d_load_units = 1,
     d_rotation = 0, d_outcome = Load\<rparr>"

theorem model_restriction_is_boundary_witness:
  "decision_wf sample_decision \<and>
   (\<exists>d'. restrict_to [False, True, True] sample_decision = Some (d', True) \<and>
      eligible_at [False, True, True] (hd (candidates (fold run_op [Prefer 0, Promote 2, LoadFloor 7] d'))))"
proof -
  have wf: "decision_wf sample_decision"
    by (simp add: decision_wf_def sample_decision_def sample_candidate_def upt_rec)
  have fits: "length [False, True, True] = length (candidate_states sample_decision) \<and>
    (\<forall>c \<in> set (candidate_states sample_decision). cs_index c < length [False, True, True]) \<and>
    (\<exists>i \<in> set (candidates sample_decision). eligible_at [False, True, True] i)"
    and len: "length (candidates sample_decision) = length (candidate_states sample_decision)"
    by (simp_all add: eligible_at_def get_def sample_decision_def sample_candidate_def)
  show ?thesis
    using model_restriction_is_boundary
      [OF wf len, of "[False, True, True]" "[Prefer 0, Promote 2, LoadFloor 7]"] wf
    unfolding eqTrueI [OF fits] by auto
qed

end
