(* ===== verification/Affinity_Horizon.thy ===== *)
theory Affinity_Horizon
  imports Ramjet_Prelude "HOL-Library.Sublist"
begin

text \<open>
  The eviction-horizon estimate of \<^verbatim>\<open>src/affinity_horizon.rs\<close>. Instants and durations are natural
  numbers of nanoseconds, token counts are \<open>u64\<close> values with the saturating sum of the source. The
  fill model is compared with the cache it estimates: a block last used at time \<open>t\<close> is evicted once
  at least one capacity of newer tokens has been written.
\<close>

section \<open>Data\<close>

definition max_fill_samples :: nat where
  "max_fill_samples = 65536"

definition max_age_runs :: nat where
  "max_age_runs = 64"

datatype affinity_horizon_mode = Horizon_Off | Observe | Enforce

datatype affinity_horizon_source = Static nat | Fill "nat option list"

record affinity_horizon_config =
  horizon_mode :: affinity_horizon_mode
  horizon_source :: "affinity_horizon_source option"

record fill_horizon =
  capacity_tokens :: nat
  samples :: "(nat \<times> nat) list"
  fill_total :: nat

datatype horizon_estimator = Unbounded | Static_Horizon nat | Fill_Horizon fill_horizon

datatype affinity_horizon_outcome =
    Outcome_Off | NoOverlap | Fresh | Trimmed | Horizon_WouldMove | Horizon_Moved

record locality_walk =
  raw_overlap :: nat
  fresh_overlap :: nat
  ages :: "(nat \<times> nat) list"
  horizon_ms :: "nat option"

section \<open>Operations\<close>

fun horizon_mode_label :: "affinity_horizon_mode \<Rightarrow> string" where
  "horizon_mode_label Horizon_Off = ''off''"
| "horizon_mode_label Observe = ''observe''"
| "horizon_mode_label Enforce = ''enforce''"

fun horizon_source_label :: "affinity_horizon_source \<Rightarrow> string" where
  "horizon_source_label (Static _) = ''static''"
| "horizon_source_label (Fill _) = ''fill''"

definition source_label :: "affinity_horizon_config \<Rightarrow> string" where
  "source_label c = (case horizon_source c of None \<Rightarrow> ''none'' | Some s \<Rightarrow> horizon_source_label s)"

fun horizon_outcome_label :: "affinity_horizon_outcome \<Rightarrow> string" where
  "horizon_outcome_label Outcome_Off = ''off''"
| "horizon_outcome_label NoOverlap = ''no_overlap''"
| "horizon_outcome_label Fresh = ''fresh''"
| "horizon_outcome_label Trimmed = ''trimmed''"
| "horizon_outcome_label Horizon_WouldMove = ''would_move''"
| "horizon_outcome_label Horizon_Moved = ''moved''"

record affinity_horizon_observation =
  aho_mode :: string
  aho_source :: string
  aho_outcome :: string

definition horizon_observation_off :: affinity_horizon_observation where
  "horizon_observation_off = \<lparr>aho_mode = ''off'', aho_source = ''none'', aho_outcome = ''off''\<rparr>"

definition fill_new :: "nat \<Rightarrow> fill_horizon option" where
  "fill_new capacity = (if capacity = 0 then None
     else Some \<lparr>capacity_tokens = capacity, samples = [], fill_total = 0\<rparr>)"

fun pop_stale :: "nat \<Rightarrow> (nat \<times> nat) list \<Rightarrow> nat \<Rightarrow> (nat \<times> nat) list \<times> nat" where
  "pop_stale capacity [] tot = ([], tot)"
| "pop_stale capacity ((t, front) # ss) tot =
    (if capacity \<le> tot - front then pop_stale capacity ss (tot - front)
     else ((t, front) # ss, tot))"

fun merge_excess :: "nat \<Rightarrow> (nat \<times> nat) list \<Rightarrow> (nat \<times> nat) list" where
  "merge_excess limit [] = []"
| "merge_excess limit [s] = (if limit < 1 then [] else [s])"
| "merge_excess limit ((t1, merged) # (t2, front) # ss) =
    (if limit < length ss + 2 then merge_excess limit ((t2, sat_add front merged) # ss)
     else (t1, merged) # (t2, front) # ss)"

definition fill_record :: "nat \<Rightarrow> nat \<Rightarrow> fill_horizon \<Rightarrow> fill_horizon" where
  "fill_record tokens now h =
    (if tokens = 0 then h
     else
       let (ss, tot) = pop_stale (capacity_tokens h) (samples h @ [(now, tokens)])
                         (sat_add (fill_total h) tokens)
       in h\<lparr>samples := merge_excess max_fill_samples ss, fill_total := tot\<rparr>)"

definition fill_horizon_at :: "nat \<Rightarrow> fill_horizon \<Rightarrow> nat option" where
  "fill_horizon_at now h =
    (if fill_total h < capacity_tokens h then None
     else case samples h of [] \<Rightarrow> None | (seen, _) # _ \<Rightarrow> Some (saturating_duration_since now seen))"

fun estimator_horizon :: "nat \<Rightarrow> horizon_estimator \<Rightarrow> nat option" where
  "estimator_horizon now Unbounded = None"
| "estimator_horizon now (Static_Horizon h) = Some h"
| "estimator_horizon now (Fill_Horizon h) = fill_horizon_at now h"

fun record_fill :: "nat \<Rightarrow> nat \<Rightarrow> horizon_estimator \<Rightarrow> horizon_estimator" where
  "record_fill tokens now (Fill_Horizon h) = Fill_Horizon (fill_record tokens now h)"
| "record_fill tokens now e = e"

fun fill_estimators :: "nat option list \<Rightarrow> horizon_estimator list option" where
  "fill_estimators [] = Some []"
| "fill_estimators (c # cs) = Option.bind (case c of None \<Rightarrow> Some Unbounded
     | Some capacity \<Rightarrow> map_option Fill_Horizon (fill_new capacity)) (\<lambda>e.
     map_option (\<lambda>es. e # es) (fill_estimators cs))"

text \<open>\<open>None\<close> is a panic: a mode without a source, a wrong number of capacities, or a zero one.\<close>

definition estimators :: "affinity_horizon_config \<Rightarrow> nat \<Rightarrow> horizon_estimator list option" where
  "estimators cfg upstreams =
    (if horizon_mode cfg = Horizon_Off then Some (replicate upstreams Unbounded)
     else case horizon_source cfg of
       None \<Rightarrow> None
     | Some (Static seconds) \<Rightarrow> Some (replicate upstreams (Static_Horizon (duration_from_secs seconds)))
     | Some (Fill caps) \<Rightarrow> if length caps = upstreams then fill_estimators caps else None)"

definition millis :: "nat \<Rightarrow> nat" where
  "millis d = min (d div 1000000) usize_max"

definition add_age :: "nat \<Rightarrow> (nat \<times> nat) list \<Rightarrow> (nat \<times> nat) list" where
  "add_age age_ms runs =
    (if runs \<noteq> [] \<and> snd (last runs) = age_ms
     then butlast runs @ [(fst (last runs) + 1, age_ms)]
     else if length runs < max_age_runs then runs @ [(1, age_ms)]
     else runs)"

fun walk_loop ::
  "(u64 \<Rightarrow> nat option) \<Rightarrow> nat option \<Rightarrow> nat \<Rightarrow> u64 list \<Rightarrow> bool \<Rightarrow> locality_walk \<Rightarrow> locality_walk" where
  "walk_loop last_served horizon now [] fresh_done l = l"
| "walk_loop last_served horizon now (fp # fps) fresh_done l =
    (case last_served fp of
       None \<Rightarrow> l
     | Some seen \<Rightarrow>
        let age = saturating_duration_since now seen;
            l1 = l\<lparr>raw_overlap := raw_overlap l + 1, ages := add_age (millis age) (ages l)\<rparr>
        in if \<not> fresh_done \<and> (case horizon of None \<Rightarrow> True | Some h \<Rightarrow> age \<le> h)
           then walk_loop last_served horizon now fps fresh_done
                  (l1\<lparr>fresh_overlap := fresh_overlap l + 1\<rparr>)
           else walk_loop last_served horizon now fps True l1)"

definition locality_default :: locality_walk where
  "locality_default = \<lparr>raw_overlap = 0, fresh_overlap = 0, ages = [], horizon_ms = None\<rparr>"

definition walk :: "u64 list \<Rightarrow> (u64 \<Rightarrow> nat option) \<Rightarrow> nat option \<Rightarrow> nat \<Rightarrow> locality_walk" where
  "walk fingerprints last_served horizon now =
     walk_loop last_served horizon now fingerprints False
       (locality_default\<lparr>horizon_ms := map_option millis horizon\<rparr>)"

definition stale_blocks :: "locality_walk \<Rightarrow> nat" where
  "stale_blocks l = raw_overlap l - fresh_overlap l"

section \<open>The cache the fill model estimates\<close>

abbreviation tokens_of :: "(nat \<times> nat) list \<Rightarrow> nat" where
  "tokens_of h \<equiv> sum_list (map snd h)"

definition evicted :: "nat \<Rightarrow> (nat \<times> nat) list \<Rightarrow> nat \<Rightarrow> bool" where
  "evicted capacity history t \<longleftrightarrow> capacity \<le> tokens_of (filter (\<lambda>s. t < fst s) history)"

definition run_fill :: "nat \<Rightarrow> (nat \<times> nat) list \<Rightarrow> fill_horizon" where
  "run_fill capacity history = fold (\<lambda>(now, n) h. fill_record n now h) history
     \<lparr>capacity_tokens = capacity, samples = [], fill_total = 0\<rparr>"

text \<open>
  Retained samples are groups of consecutive fills, stamped with the newest time of the group.
\<close>

definition stamp :: "(nat \<times> nat) list \<Rightarrow> nat \<times> nat" where
  "stamp g = (fst (last g), tokens_of g)"

definition groups_of ::
  "nat \<Rightarrow> (nat \<times> nat) list \<Rightarrow> (nat \<times> nat) list \<Rightarrow> nat \<Rightarrow> (nat \<times> nat) list \<Rightarrow> (nat \<times> nat) list list \<Rightarrow> bool"
where
  "groups_of capacity history ss tot pre gs \<longleftrightarrow> history = pre @ concat gs \<and> [] \<notin> set gs \<and>
     ss = map stamp gs \<and> tot = tokens_of (concat gs) \<and> (pre = [] \<or> capacity \<le> tot) \<and>
     (length history \<le> max_fill_samples \<longrightarrow> (\<forall>g \<in> set gs. length g = 1))"

lemma tokens_of_stamps: "tokens_of (map stamp gs) = tokens_of (concat gs)"
  by (induction gs) (auto simp: stamp_def)

lemma groups_ofD:
  assumes "groups_of capacity history ss tot pre gs"
  shows "history = pre @ concat gs" "[] \<notin> set gs" "ss = map stamp gs" "tot = tokens_of (concat gs)"
    "pre = [] \<or> capacity \<le> tot" "length history \<le> max_fill_samples \<Longrightarrow> \<forall>g \<in> set gs. length g = 1"
  using assms unfolding groups_of_def by blast+

lemma groups_ofI:
  "history = pre @ concat gs \<Longrightarrow> [] \<notin> set gs \<Longrightarrow> ss = map stamp gs \<Longrightarrow> tot = tokens_of (concat gs) \<Longrightarrow>
    pre = [] \<or> capacity \<le> tot \<Longrightarrow>
    (length history \<le> max_fill_samples \<Longrightarrow> \<forall>g \<in> set gs. length g = 1) \<Longrightarrow>
    groups_of capacity history ss tot pre gs"
  unfolding groups_of_def by blast

lemma pop_stale_groups:
  assumes "groups_of capacity history ss tot pre gs" and "0 < capacity"
    and "pop_stale capacity ss tot = (ss', tot')"
  shows "\<exists>pre' gs'. groups_of capacity history ss' tot' pre' gs' \<and>
    (gs' \<noteq> [] \<longrightarrow> tokens_of (concat (tl gs')) < capacity) \<and> (gs \<noteq> [] \<longrightarrow> gs' \<noteq> []) \<and>
    length gs' \<le> length gs"
  using assms
proof (induction gs arbitrary: ss tot pre)
  case Nil
  then show ?case by (auto simp: groups_of_def)
next
  case (Cons g gs)
  have ss: "ss = stamp g # map stamp gs" and tot: "tot = tokens_of g + tokens_of (concat gs)"
    using Cons.prems(1) by (auto simp: groups_of_def)
  obtain t f where st: "stamp g = (t, f)" by force
  then have f: "tot - f = tokens_of (concat gs)" using tot by (auto simp: stamp_def)
  show ?case
  proof (cases "capacity \<le> tot - f")
    case True
    then have ne: "gs \<noteq> []" using f Cons.prems(2) by auto
    note D = groups_ofD [OF Cons.prems(1)]
    have "groups_of capacity history (map stamp gs) (tot - f) (pre @ g) gs"
    proof (rule groups_ofI)
      show "history = (pre @ g) @ concat gs" using D(1) by simp
      show "[] \<notin> set gs" using D(2) by simp
      show "tot - f = tokens_of (concat gs)" by (rule f)
      show "pre @ g = [] \<or> capacity \<le> tot - f" using True by blast
      show "\<forall>g \<in> set gs. length g = 1" if "length history \<le> max_fill_samples" using D(6) [OF that] by simp
    qed simp
    moreover have "pop_stale capacity (map stamp gs) (tot - f) = (ss', tot')"
      using Cons.prems(3) True st ss by simp
    ultimately obtain pre' gs' where "groups_of capacity history ss' tot' pre' gs'"
      "gs' \<noteq> [] \<longrightarrow> tokens_of (concat (tl gs')) < capacity" "gs \<noteq> [] \<longrightarrow> gs' \<noteq> []"
      "length gs' \<le> length gs"
      using Cons.IH Cons.prems(2) by blast
    with ne show ?thesis by (intro exI [of _ pre'] exI [of _ gs']) auto
  next
    case False
    then have "ss' = ss" "tot' = tot" using Cons.prems(3) st ss by auto
    with Cons.prems(1) False f show ?thesis by (intro exI [of _ pre] exI [of _ "g # gs"]) simp
  qed
qed

lemma merge_excess_groups:
  assumes "groups_of capacity history ss tot pre gs" and "tot \<le> usize_max"
    and "tokens_of (concat (tl gs)) < capacity" and "gs \<noteq> []"
    and "length history \<le> max_fill_samples \<longrightarrow> length gs \<le> limit" and "0 < limit"
    and "limit = max_fill_samples"
  shows "\<exists>gs'. groups_of capacity history (merge_excess limit ss) tot pre gs' \<and> gs' \<noteq> [] \<and>
    tokens_of (concat (tl gs')) < capacity"
  using assms
proof (induction gs arbitrary: ss rule: length_induct)
  case (1 gs)
  show ?case
  proof (cases "length gs \<le> limit")
    case True
    have "ss = map stamp gs" using "1.prems"(1) by (simp add: groups_of_def)
    then have "merge_excess limit ss = ss" using True "1.prems"(6)
      by (cases "(limit, ss)" rule: merge_excess.cases) auto
    with "1.prems"(1,3,4) show ?thesis by auto
  next
    case False
    then obtain g1 g2 rest where gs: "gs = g1 # g2 # rest"
      using "1.prems"(4,6) by (metis length_0_conv length_Suc_conv list.exhaust not_less_eq_eq le0 Suc_leI One_nat_def length_Cons list.size(3))
    let ?gs = "(g1 @ g2) # rest"
    have g: "g1 \<noteq> []" "g2 \<noteq> []" using "1.prems"(1) gs by (auto simp: groups_of_def)
    have ss: "ss = stamp g1 # stamp g2 # map stamp rest" using "1.prems"(1) gs by (simp add: groups_of_def)
    have le: "tokens_of g1 + tokens_of g2 \<le> usize_max"
      using "1.prems"(1,2) gs by (simp add: groups_of_def)
    have st: "stamp (g1 @ g2) = (fst (stamp g2), sat_add (snd (stamp g2)) (snd (stamp g1)))"
      using g le by (simp add: stamp_def sat_add_def)
    have big: "\<not> length history \<le> max_fill_samples" using "1.prems"(5) False by blast
    note D = groups_ofD [OF "1.prems"(1)]
    have "groups_of capacity history (map stamp ?gs) tot pre ?gs"
      by (rule groups_ofI) (use D(1,2,4,5) gs g big in simp_all)
    moreover have "tokens_of (concat (tl ?gs)) < capacity" using "1.prems"(3) gs by simp
    ultimately have "\<exists>gs'. groups_of capacity history (merge_excess limit (map stamp ?gs)) tot pre gs' \<and>
        gs' \<noteq> [] \<and> tokens_of (concat (tl gs')) < capacity"
      using "1.IH" [THEN spec, of ?gs] "1.prems"(2,6,7) big gs by simp
    moreover have "merge_excess limit ss = merge_excess limit (map stamp ?gs)"
    proof -
      obtain t1 k1 t2 k2 where "stamp g1 = (t1, k1)" "stamp g2 = (t2, k2)" by force
      with ss st False gs show ?thesis by simp
    qed
    ultimately show ?thesis by simp
  qed
qed

definition fill_inv :: "nat \<Rightarrow> (nat \<times> nat) list \<Rightarrow> fill_horizon \<Rightarrow> bool" where
  "fill_inv capacity history h \<longleftrightarrow> capacity_tokens h = capacity \<and>
     (\<exists>pre gs. groups_of capacity history (samples h) (fill_total h) pre gs \<and>
       (gs \<noteq> [] \<longrightarrow> tokens_of (concat (tl gs)) < capacity))"

lemma length_groups_le: "[] \<notin> set gs \<Longrightarrow> length gs \<le> length (concat gs)"
proof (induction gs)
  case (Cons g gs)
  then show ?case by (cases g) auto
qed simp

lemma fill_record_inv:
  assumes inv: "fill_inv capacity history h" and cap: "0 < capacity" and n: "n \<noteq> 0"
    and sum: "tokens_of history + n \<le> usize_max"
  shows "fill_inv capacity (history @ [(now, n)]) (fill_record n now h)"
proof -
  let ?H = "history @ [(now, n)]"
  obtain pre gs where g: "groups_of capacity history (samples h) (fill_total h) pre gs"
    and ct: "capacity_tokens h = capacity" using inv by (auto simp: fill_inv_def)
  note D = groups_ofD [OF g]
  have le: "fill_total h + n \<le> usize_max" using sum D(1,4) by simp
  have "groups_of capacity ?H (samples h @ [(now, n)]) (sat_add (fill_total h) n) pre (gs @ [[(now, n)]])"
  proof (rule groups_ofI)
    show "\<forall>g \<in> set (gs @ [[(now, n)]]). length g = 1" if "length ?H \<le> max_fill_samples"
      using D(6) that by simp
    show "pre = [] \<or> capacity \<le> sat_add (fill_total h) n" using D(5) le by (auto simp: sat_add_def)
  qed (use D(1-4) le in \<open>simp_all add: stamp_def sat_add_def\<close>)
  moreover obtain ss tot where p: "pop_stale capacity (samples h @ [(now, n)]) (sat_add (fill_total h) n) = (ss, tot)"
    by force
  ultimately obtain pre' gs' where g': "groups_of capacity ?H ss tot pre' gs'" "gs' \<noteq> []"
    "tokens_of (concat (tl gs')) < capacity"
    using pop_stale_groups cap by blast
  note D' = groups_ofD [OF g'(1)]
  have "length ?H \<le> max_fill_samples \<longrightarrow> length gs' \<le> max_fill_samples"
    using length_groups_le [OF D'(2)] D'(1) by (metis length_append le_add2 le_trans)
  moreover have "tot \<le> usize_max"
  proof -
    have "tokens_of ?H = tokens_of pre' + tokens_of (concat gs')"
      by (simp only: D'(1) map_append sum_list_append)
    then show ?thesis using D'(4) sum by simp
  qed
  ultimately obtain gs'' where "groups_of capacity ?H (merge_excess max_fill_samples ss) tot pre' gs''"
    "tokens_of (concat (tl gs'')) < capacity"
    using merge_excess_groups [OF g'(1) _ g'(3,2), of max_fill_samples] by (auto simp: max_fill_samples_def)
  then show ?thesis using n ct p by (auto simp: fill_inv_def fill_record_def)
qed

lemma run_fill_inv:
  assumes "0 < capacity" and "tokens_of history \<le> usize_max"
  shows "fill_inv capacity (filter (\<lambda>s. snd s \<noteq> 0) history) (run_fill capacity history)"
  using assms(2)
proof (induction history rule: rev_induct)
  case Nil
  have "groups_of capacity [] [] 0 [] []" by (rule groups_ofI) simp_all
  then show ?case by (auto simp: fill_inv_def run_fill_def)
next
  case (snoc s history)
  obtain now n where s: "s = (now, n)" by force
  have step: "run_fill capacity (history @ [s]) = fill_record n now (run_fill capacity history)"
    by (simp add: run_fill_def s)
  have le: "tokens_of (filter (\<lambda>s. snd s \<noteq> 0) history) \<le> tokens_of history"
    by (induction history) auto
  show ?case
  proof (cases "n = 0")
    case True
    then show ?thesis using snoc step s by (simp add: fill_record_def)
  next
    case False
    then show ?thesis
      using fill_record_inv [OF _ assms(1) False, of "filter (\<lambda>s. snd s \<noteq> 0) history"] snoc le step s by simp
  qed
qed

lemma tokens_of_filter_le: "tokens_of (filter P xs) \<le> tokens_of xs"
  by (induction xs) auto

lemma evicted_nonzero: "evicted capacity (filter (\<lambda>s. snd s \<noteq> 0) history) t = evicted capacity history t"
proof -
  have "tokens_of (filter P (filter (\<lambda>s. snd s \<noteq> 0) history)) = tokens_of (filter P history)" for P
    by (induction history) auto
  then show ?thesis by (simp add: evicted_def)
qed

text \<open>A served block is credited while no horizon is known or its age is within it.\<close>

definition credited :: "nat option \<Rightarrow> nat \<Rightarrow> nat \<Rightarrow> bool" where
  "credited horizon now t \<longleftrightarrow>
     (case horizon of None \<Rightarrow> True | Some h \<Rightarrow> saturating_duration_since now t \<le> h)"

lemma fill_inv_front:
  assumes inv: "fill_inv capacity history h" and cap: "0 < capacity" and "capacity \<le> fill_total h"
  obtains pre g gs where "groups_of capacity history (samples h) (fill_total h) pre (g # gs)"
    "g \<noteq> []" "tokens_of (concat gs) < capacity" "\<And>now. fill_horizon_at now h = Some (now - fst (last g))"
proof -
  obtain pre gs where g: "groups_of capacity history (samples h) (fill_total h) pre gs"
    "gs \<noteq> [] \<longrightarrow> tokens_of (concat (tl gs)) < capacity" and ct: "capacity_tokens h = capacity"
    using inv by (auto simp: fill_inv_def)
  note D = groups_ofD [OF g(1)]
  have "gs \<noteq> []" using D(4) assms(2,3) by auto
  then obtain g1 rest where gs: "gs = g1 # rest" by (cases gs) auto
  show ?thesis
  proof (rule that [of pre g1 rest])
    show "g1 \<noteq> []" using D(2) gs by auto
    show "fill_horizon_at now h = Some (now - fst (last g1))" for now
      using D(3) gs assms(3) ct by (simp add: fill_horizon_at_def stamp_def saturating_duration_since_def)
  qed (use g gs in simp_all)
qed

lemma sorted_le_last: "sorted (map fst xs) \<Longrightarrow> s \<in> set xs \<Longrightarrow> fst s \<le> fst (last xs)"
  by (induction xs rule: rev_induct) (auto simp: sorted_append)

lemma sorted_head_le: "sorted (map fst (x # xs)) \<Longrightarrow> s \<in> set (x # xs) \<Longrightarrow> fst x \<le> fst s"
  by auto

lemma credited_not_evicted:
  assumes inv: "fill_inv capacity history h" and cap: "0 < capacity"
    and sorted: "sorted (map fst history)" and past: "\<forall>s \<in> set history. fst s \<le> now"
    and cr: "credited (fill_horizon_at now h) now t"
  shows "\<not> evicted capacity history t"
proof (cases "fill_total h < capacity")
  case True
  obtain pre gs where g: "groups_of capacity history (samples h) (fill_total h) pre gs"
    using inv by (auto simp: fill_inv_def)
  note D = groups_ofD [OF g]
  have "tokens_of history < capacity" using D(1,4,5) True by auto
  then show ?thesis using tokens_of_filter_le [of "\<lambda>s. t < fst s" history] by (simp add: evicted_def)
next
  case False
  then obtain pre g gs where g: "groups_of capacity history (samples h) (fill_total h) pre (g # gs)"
    "g \<noteq> []" "tokens_of (concat gs) < capacity" "fill_horizon_at now h = Some (now - fst (last g))"
    using fill_inv_front [OF inv cap] by (metis not_less)
  note D = groups_ofD [OF g(1)]
  have H: "history = (pre @ g) @ concat gs" using D(1) by simp
  have "last g \<in> set history" using H g(2) by simp
  then have "fst (last g) \<le> now" using past by blast
  then have t: "fst (last g) \<le> t" using cr g(4) by (auto simp: credited_def saturating_duration_since_def)
  have "fst s \<le> fst (last g)" if "s \<in> set (pre @ g)" for s
  proof -
    have "sorted (map fst (pre @ g))" using sorted H by (simp add: sorted_append)
    moreover have "last (pre @ g) = last g" using g(2) by simp
    ultimately show ?thesis using that sorted_le_last by metis
  qed
  then have "\<forall>s \<in> set (pre @ g). \<not> t < fst s" using t by (metis leD le_trans)
  then have "filter (\<lambda>s. t < fst s) (pre @ g) = []" by (rule filter_False)
  then have "filter (\<lambda>s. t < fst s) history = filter (\<lambda>s. t < fst s) (concat gs)"
    unfolding H by simp
  then show ?thesis using g(3) tokens_of_filter_le [of "\<lambda>s. t < fst s" "concat gs"]
    by (simp add: evicted_def)
qed

lemma stale_evicted:
  assumes inv: "fill_inv capacity history h" and cap: "0 < capacity"
    and sorted: "sorted (map fst history)" and few: "length history \<le> max_fill_samples"
    and st: "\<not> credited (fill_horizon_at now h) now t"
  shows "evicted capacity history t"
proof -
  have "fill_horizon_at now h \<noteq> None" using st by (auto simp: credited_def split: option.splits)
  moreover have "capacity_tokens h = capacity" using inv by (simp add: fill_inv_def)
  ultimately have tot: "capacity \<le> fill_total h" by (auto simp: fill_horizon_at_def split: if_splits)
  then obtain pre g gs where g: "groups_of capacity history (samples h) (fill_total h) pre (g # gs)"
    "g \<noteq> []" "fill_horizon_at now h = Some (now - fst (last g))"
    using fill_inv_front [OF inv cap] by metis
  note D = groups_ofD [OF g(1)]
  obtain x where x: "g = [x]" using D(6) [OF few] by (auto simp: length_Suc_conv)
  have H: "history = pre @ (x # concat gs)" using D(1) x by simp
  have "t < fst x" using st g(3) x by (auto simp: credited_def saturating_duration_since_def)
  moreover have "fst x \<le> fst s" if "s \<in> set (x # concat gs)" for s
    using sorted H that sorted_head_le [of x "concat gs" s] by (simp add: sorted_append)
  ultimately have "filter (\<lambda>s. t < fst s) (x # concat gs) = x # concat gs"
    by (intro filter_True) (metis less_le_trans)
  then have "tokens_of (x # concat gs) \<le> tokens_of (filter (\<lambda>s. t < fst s) history)"
    unfolding H by simp
  then show ?thesis using tot D(4) x by (simp add: evicted_def)
qed

section \<open>The walk\<close>

definition fresh_at :: "(u64 \<Rightarrow> nat option) \<Rightarrow> nat option \<Rightarrow> nat \<Rightarrow> u64 \<Rightarrow> bool" where
  "fresh_at last_served horizon now fp \<longleftrightarrow>
     (case last_served fp of None \<Rightarrow> False | Some seen \<Rightarrow> credited horizon now seen)"

lemma walk_loop_spec:
  "raw_overlap (walk_loop served horizon now fps fd l) =
     raw_overlap l + length (takeWhile (\<lambda>fp. served fp \<noteq> None) fps) \<and>
   fresh_overlap (walk_loop served horizon now fps fd l) =
     fresh_overlap l + (if fd then 0 else length (takeWhile (fresh_at served horizon now) fps)) \<and>
   horizon_ms (walk_loop served horizon now fps fd l) = horizon_ms l"
proof (induction served horizon now fps fd l rule: walk_loop.induct)
  case (2 served horizon now fp fps fd l)
  then show ?case
    by (cases "served fp")
       (auto simp: fresh_at_def credited_def Let_def split: option.splits)
qed simp

lemma add_age_bounds:
  "length (add_age a runs) \<le> max (length runs) max_age_runs"
  "sum_list (map fst (add_age a runs)) \<le> sum_list (map fst runs) + 1"
  "length runs < max_age_runs \<Longrightarrow> sum_list (map fst (add_age a runs)) = sum_list (map fst runs) + 1"
  by (cases runs rule: rev_cases; auto simp: add_age_def max_age_runs_def)+

lemma walk_loop_ages:
  assumes "length (ages l) \<le> max_age_runs" and "sum_list (map fst (ages l)) \<le> raw_overlap l"
  shows "length (ages (walk_loop served horizon now fps fd l)) \<le> max_age_runs \<and>
    sum_list (map fst (ages (walk_loop served horizon now fps fd l)))
      \<le> raw_overlap (walk_loop served horizon now fps fd l)"
  using assms
proof (induction served horizon now fps fd l rule: walk_loop.induct)
  case (2 served horizon now fp fps fd l)
  show ?case
  proof (cases "served fp")
    case None
    with 2 show ?thesis by simp
  next
    case (Some seen)
    let ?a = "millis (saturating_duration_since now seen)"
    have "length (add_age ?a (ages l)) \<le> max_age_runs"
      "sum_list (map fst (add_age ?a (ages l))) \<le> raw_overlap l + 1"
      using add_age_bounds(1,2) [of ?a "ages l"] "2.prems" by auto
    with 2 Some show ?thesis by (auto simp: Let_def)
  qed
qed simp

section \<open>Properties\<close>

text \<open>
  C36. The fill model is safe: after any history of fills in time order whose tokens fit a \<open>u64\<close>, a
  block that the model still credits (no horizon yet, or its age within the horizon) has not been
  evicted by the cache, that is, less than one capacity of newer tokens was written. This holds
  beyond the bound on retained samples, where the oldest samples are merged.
\<close>

theorem fill_horizon_safe:
  assumes "0 < capacity" and "tokens_of history \<le> usize_max" and "sorted (map fst history)"
    and "\<forall>s \<in> set history. fst s \<le> now"
    and "credited (fill_horizon_at now (run_fill capacity history)) now t"
  shows "\<not> evicted capacity history t"
proof -
  let ?H = "filter (\<lambda>s. snd s \<noteq> 0) history"
  have "sorted (map fst ?H)" using assms(3) by (simp add: sorted_filter)
  moreover have "\<forall>s \<in> set ?H. fst s \<le> now" using assms(4) by simp
  ultimately have "\<not> evicted capacity ?H t"
    using credited_not_evicted [OF run_fill_inv [OF assms(1,2)] assms(1)] assms(5) by blast
  then show ?thesis by (simp only: evicted_nonzero not_False_eq_True)
qed

theorem fill_horizon_safe_witness:
  "credited (fill_horizon_at 40 (run_fill 10 [(10, 8), (20, 4), (30, 5)])) 40 20 \<and>
   \<not> evicted 10 [(10, 8), (20, 4), (30, 5)] 20"
proof -
  have c: "credited (fill_horizon_at 40 (run_fill 10 [(10, 8), (20, 4), (30, 5)])) 40 20"
    by (simp add: credited_def run_fill_def fill_record_def fill_horizon_at_def sat_add_def usize_max_def
        saturating_duration_since_def max_fill_samples_def)
  show ?thesis using c fill_horizon_safe [of 10 "[(10, 8), (20, 4), (30, 5)]" 40 20]
    by (simp add: usize_max_def)
qed

text \<open>
  While the samples fit the retention bound the fill model is exact: the blocks it no longer
  credits are precisely the evicted ones.
\<close>

theorem fill_horizon_exact:
  assumes "0 < capacity" and "tokens_of history \<le> usize_max" and "sorted (map fst history)"
    and "\<forall>s \<in> set history. fst s \<le> now" and "length history \<le> max_fill_samples"
  shows "credited (fill_horizon_at now (run_fill capacity history)) now t \<longleftrightarrow>
    \<not> evicted capacity history t"
proof -
  let ?H = "filter (\<lambda>s. snd s \<noteq> 0) history"
  have s: "sorted (map fst ?H)" using assms(3) by (simp add: sorted_filter)
  have p: "\<forall>s \<in> set ?H. fst s \<le> now" using assms(4) by simp
  have l: "length ?H \<le> max_fill_samples" using assms(5) length_filter_le le_trans by blast
  note inv = run_fill_inv [OF assms(1,2)]
  show ?thesis
    using credited_not_evicted [OF inv assms(1) s p] stale_evicted [OF inv assms(1) s l]
    unfolding evicted_nonzero by blast
qed

theorem fill_horizon_exact_witness:
  "credited (fill_horizon_at 40 (run_fill 10 [(10, 8), (20, 4), (30, 7)])) 40 15 \<longleftrightarrow>
    \<not> evicted 10 [(10, 8), (20, 4), (30, 7)] 15"
  using fill_horizon_exact [of 10 "[(10, 8), (20, 4), (30, 7)]" 40 15]
  by (simp add: usize_max_def max_fill_samples_def)

text \<open>
  The locality walk counts the longest leading run of served blocks, and within it the longest
  leading run of blocks still credited by the horizon; fresh blocks never exceed served ones, and the
  recorded age runs are bounded and never account for more blocks than were served.
\<close>

lemma walk_counts_leading_runs:
  "raw_overlap (walk fps served horizon now) = length (takeWhile (\<lambda>fp. served fp \<noteq> None) fps) \<and>
   fresh_overlap (walk fps served horizon now) = length (takeWhile (fresh_at served horizon now) fps) \<and>
   fresh_overlap (walk fps served horizon now) \<le> raw_overlap (walk fps served horizon now) \<and>
   length (ages (walk fps served horizon now)) \<le> max_age_runs \<and>
   sum_list (map fst (ages (walk fps served horizon now))) \<le> raw_overlap (walk fps served horizon now)"
proof -
  let ?l = "locality_default\<lparr>horizon_ms := map_option millis horizon\<rparr>"
  have "length (takeWhile (fresh_at served horizon now) fps) \<le> length (takeWhile (\<lambda>fp. served fp \<noteq> None) fps)"
    by (induction fps) (auto simp: fresh_at_def split: option.splits)
  then show ?thesis
    using walk_loop_spec [of served horizon now fps False ?l]
      walk_loop_ages [of ?l served horizon now fps False]
    by (simp add: walk_def locality_default_def max_age_runs_def)
qed

text \<open>
  The tracked tokens can exceed one capacity plus the newest sample, against the documentation of
  \<open>tracked_tokens\<close>: the bound is one capacity plus the oldest retained sample.
\<close>

lemma tracked_tokens_exceed_documented_bound:
  "fill_total (run_fill 10 [(1, 100), (2, 1)]) = 101 \<and> 10 + 1 < (101 :: nat)"
  by (simp add: run_fill_def fill_record_def sat_add_def usize_max_def max_fill_samples_def)

end
