(* ===== verification/Router_Score.thy ===== *)
theory Router_Score
  imports Router_Decision Affinity_Horizon F64
begin

text \<open>
  Scoring of \<^verbatim>\<open>src/router.rs\<close>: the router configuration and per-upstream state, peer overlaps, the
  affinity credited under each basis, the score of a candidate, the comparison that orders
  candidates, and the decision built from the ordered scores. The \<open>LruCache\<close> of the crate
  \<^verbatim>\<open>lru\<close> is a type parameter of the state; \<open>route_fingerprints\<close> only calls its \<open>peek\<close>, which is an
  argument. Indexing of \<open>speculation_profiles\<close> and \<open>scores[0]\<close> is in range because \<open>Router::new\<close>
  asserts one profile per upstream and at least one upstream (\<open>router_wf\<close> in \<open>Router_Route\<close>).
\<close>

section \<open>Configuration\<close>

datatype affinity = Affinity_Prefix | Affinity_Load

datatype affinity_basis = Absolute | Marginal | Relative

fun affinity_basis_label :: "affinity_basis \<Rightarrow> string" where
  "affinity_basis_label Absolute = ''absolute''"
| "affinity_basis_label Marginal = ''marginal''"
| "affinity_basis_label Relative = ''relative''"

datatype speculation_route_mode = Spec_Off | Spec_Shadow | Spec_Prefer

datatype speculation_profile = Profile_Standard | Profile_Mtp

datatype speculation_preference = Pref_Neutral | Pref_Standard | Pref_Mtp

fun matches :: "speculation_preference \<Rightarrow> speculation_profile \<Rightarrow> bool" where
  "matches Pref_Standard Profile_Standard = True"
| "matches Pref_Mtp Profile_Mtp = True"
| "matches _ _ = False"

datatype spec_outcome =
  Route_Off | Route_Neutral | Route_Match | Route_WouldMove | Route_Moved | Route_ScoreBlocked | Route_Unavailable

fun speculation_route_outcome_label :: "spec_outcome \<Rightarrow> string" where
  "speculation_route_outcome_label Route_Off = ''off''"
| "speculation_route_outcome_label Route_Neutral = ''neutral''"
| "speculation_route_outcome_label Route_Match = ''match''"
| "speculation_route_outcome_label Route_WouldMove = ''would_move''"
| "speculation_route_outcome_label Route_Moved = ''moved''"
| "speculation_route_outcome_label Route_ScoreBlocked = ''score_blocked''"
| "speculation_route_outcome_label Route_Unavailable = ''unavailable''"

record speculation_route_observation =
  sro_preference :: speculation_preference
  sro_outcome :: spec_outcome

record router_config =
  rc_upstreams :: "string list"
  rc_alpha :: f64
  rc_chunk_bytes :: nat
  rc_max_prefix_bytes :: nat
  rc_max_overlap_blocks :: nat
  rc_index_capacity :: nat
  rc_load_unit_bytes :: nat
  rc_max_load_units :: nat
  rc_projected_load :: bool
  rc_speculation_mode :: speculation_route_mode
  rc_speculation_profiles :: "speculation_profile list"
  rc_affinity :: affinity
  rc_affinity_horizon :: affinity_horizon_config
  rc_affinity_basis :: affinity_basis
  rc_affinity_groups :: "nat list"

definition from_router_config :: "router_config \<Rightarrow> request_load_estimator option" where
  "from_router_config c = estimator_new (rc_chunk_bytes c) (rc_load_unit_bytes c) (rc_max_load_units c)"

section \<open>State\<close>

record 'c upstream_state =
  us_lru :: 'c
  us_horizon :: horizon_estimator
  us_inflight :: nat
  us_load :: nat
  us_healthy :: bool
  us_drained :: bool

definition serving :: "'c upstream_state \<Rightarrow> bool" where
  "serving s \<longleftrightarrow> us_healthy s \<and> \<not> us_drained s"

record 'c inner =
  in_states :: "'c upstream_state list"
  in_rr :: nat

record score =
  sc_index :: nat
  sc_overlap :: nat
  sc_affinity :: nat
  sc_load :: nat
  sc_request_load :: nat
  sc_weighted :: f64
  sc_healthy :: bool
  sc_stale :: nat
  sc_horizon_ms :: "nat option"
  sc_ages :: "(nat \<times> nat) list"

section \<open>Peer overlaps and credited affinity\<close>

record peer_overlap =
  po_floor :: nat
  po_lead :: nat

definition peer_default :: peer_overlap where
  "peer_default = \<lparr>po_floor = 0, po_lead = 0\<rparr>"

definition group_of :: "nat list \<Rightarrow> nat \<Rightarrow> nat" where
  "group_of groups index = (case get groups index of None \<Rightarrow> 0 | Some g \<Rightarrow> g)"

text \<open>\<open>Vec::resize(key + 1, None)\<close> when the vector is too short.\<close>

definition resize_to :: "nat \<Rightarrow> 'a option list \<Rightarrow> 'a option list" where
  "resize_to key xs = (if length xs \<le> key then xs @ replicate (key + 1 - length xs) None else xs)"

definition widen :: "nat \<Rightarrow> peer_overlap option \<Rightarrow> peer_overlap" where
  "widen ov known = (case known of
      None \<Rightarrow> \<lparr>po_floor = ov, po_lead = ov\<rparr>
    | Some k \<Rightarrow> \<lparr>po_floor = min (po_floor k) ov, po_lead = max (po_lead k) ov\<rparr>)"

fun add_peer :: "nat list \<Rightarrow> nat \<times> 'c upstream_state \<times> nat \<Rightarrow> peer_overlap option list \<Rightarrow> peer_overlap option list" where
  "add_peer groups (index, s, ov) per_group =
    (if \<not> serving s then per_group
     else let key = group_of groups index; pg = resize_to key per_group
          in pg[key := Some (widen ov (pg ! key))])"

definition peer_overlaps :: "'c upstream_state list \<Rightarrow> nat list \<Rightarrow> nat list \<Rightarrow> peer_overlap list" where
  "peer_overlaps states overlaps groups =
    (let per_group = fold (add_peer groups) (zip [0..<length states] (zip states overlaps)) []
     in map (\<lambda>index. case get per_group (group_of groups index) of
               Some (Some p) \<Rightarrow> p | _ \<Rightarrow> peer_default) [0..<length states])"

definition credited_affinity :: "affinity_basis \<Rightarrow> nat \<Rightarrow> peer_overlap \<Rightarrow> nat \<Rightarrow> nat" where
  "credited_affinity basis ov peers cap = (case basis of
      Absolute \<Rightarrow> min ov cap
    | Marginal \<Rightarrow> min (ov - po_floor peers) cap
    | Relative \<Rightarrow> min (po_lead peers) cap - min (po_lead peers - ov) cap)"

section \<open>Ordering of candidates\<close>

definition cmp_nat :: "nat \<Rightarrow> nat \<Rightarrow> ordering" where
  "cmp_nat a b = (if a < b then Less else if a = b then Equal else Greater)"

definition cmp_bool :: "bool \<Rightarrow> bool \<Rightarrow> ordering" where
  "cmp_bool a b = cmp_nat (of_bool a) (of_bool b)"

definition then_with :: "ordering \<Rightarrow> ordering \<Rightarrow> ordering" where
  "then_with a b = (if a = Equal then b else a)"

definition compare_scores ::
  "nat \<Rightarrow> nat \<Rightarrow> speculation_preference \<Rightarrow> speculation_profile list \<Rightarrow> bool \<Rightarrow> score \<Rightarrow> score \<Rightarrow> ordering" where
  "compare_scores rotation candidate_count preference profiles profile_tie_break left right =
    then_with (cmp_bool (sc_healthy right) (sc_healthy left))
   (then_with (case f64_partial_cmp (sc_weighted right) (sc_weighted left) of
                 None \<Rightarrow> Equal | Some c \<Rightarrow> c)
   (then_with (cmp_nat (sc_overlap right) (sc_overlap left))
   (then_with (if profile_tie_break
               then cmp_bool (matches preference (profiles ! sc_index right))
                             (matches preference (profiles ! sc_index left))
               else Equal)
     (cmp_nat ((sc_index left + rotation) mod candidate_count)
              ((sc_index right + rotation) mod candidate_count)))))"

definition sort_scores ::
  "nat \<Rightarrow> nat \<Rightarrow> speculation_preference \<Rightarrow> speculation_profile list \<Rightarrow> bool \<Rightarrow> score list \<Rightarrow> score list" where
  "sort_scores rotation n preference profiles tie =
     sort_by (\<lambda>l r. compare_scores rotation n preference profiles tie l r = Greater)"

definition speculation_route_outcome ::
  "score list \<Rightarrow> speculation_route_mode \<Rightarrow> speculation_profile list \<Rightarrow> speculation_preference
     \<Rightarrow> spec_outcome" where
  "speculation_route_outcome scores mode profiles preference =
    (if mode = Spec_Off then Route_Off
     else if preference = Pref_Neutral then Route_Neutral
     else let baseline = hd scores in
       if matches preference (profiles ! sc_index baseline) then Route_Match
       else if \<not> list_ex (\<lambda>s. sc_healthy s \<and> matches preference (profiles ! sc_index s)) scores
         then Route_Unavailable
       else if \<not> list_ex (\<lambda>s. sc_healthy s \<and> matches preference (profiles ! sc_index s) \<and>
                  f64_eq (sc_weighted s) (sc_weighted baseline) \<and> sc_overlap s = sc_overlap baseline) scores
         then Route_ScoreBlocked
       else if mode = Spec_Shadow then Route_WouldMove else Route_Moved)"

definition candidate_of :: "nat \<Rightarrow> score \<Rightarrow> candidate_state" where
  "candidate_of rank s = \<lparr>cs_index = sc_index s, cs_rank = rank, cs_overlap_blocks = sc_overlap s,
     cs_affinity_blocks = sc_affinity s, cs_load_units = sc_load s,
     cs_request_load_units = sc_request_load s, cs_healthy = sc_healthy s,
     cs_stale_blocks = sc_stale s, cs_horizon_ms = sc_horizon_ms s, cs_overlap_ages_ms = sc_ages s\<rparr>"

definition decision_from_scores :: "score list \<Rightarrow> nat \<Rightarrow> nat \<Rightarrow> decision" where
  "decision_from_scores scores total_blocks rotation =
    (let winner = hd scores;
         scores_differ = list_ex (\<lambda>s. \<not> f64_eq (sc_weighted s) (sc_weighted winner)) (tl scores);
         oc = (if length scores = 1 then Single
               else if 0 < sc_overlap winner then Overlap
               else if scores_differ then Load else RoundRobin)
     in \<lparr>candidates = map sc_index scores,
         candidate_states = map (\<lambda>(rank, s). candidate_of rank s) (zip [0..<length scores] scores),
         d_overlap_blocks = sc_overlap winner, d_total_blocks = total_blocks,
         d_affinity_blocks = sc_affinity winner, d_load_units = sc_request_load winner,
         d_rotation = rotation, d_outcome = oc\<rparr>)"

end
