(* ===== verification/Router_Order.thy ===== *)
theory Router_Order
  imports Router_Score
begin

text \<open>
  Facts about the scoring of \<open>Router_Score\<close>: peer overlaps are the extreme overlaps of the serving
  members of a group, the affinity bases relate to each other as documented, scores are never
  \<open>NaN\<close>, and the comparison of scores is a total preorder that only ties a candidate with itself,
  so the order of candidates has a unique head.
\<close>

section \<open>Peer overlaps\<close>

definition group_summary :: "peer_overlap option list \<Rightarrow> nat \<Rightarrow> peer_overlap option" where
  "group_summary pg k = (case get pg k of Some (Some p) \<Rightarrow> Some p | _ \<Rightarrow> None)"

fun peer_member :: "nat list \<Rightarrow> nat \<Rightarrow> nat \<times> 'c upstream_state \<times> nat \<Rightarrow> bool" where
  "peer_member groups k (i, s, ov) \<longleftrightarrow> serving s \<and> group_of groups i = k"

lemma group_summary_resize [simp]: "group_summary (resize_to key pg) k = group_summary pg k"
  by (auto simp: group_summary_def resize_to_def get_def nth_append split: option.splits)

lemma resize_long [simp]: "key < length (resize_to key pg)"
  by (simp add: resize_to_def)

lemma nth_group_summary: "k < length pg \<Longrightarrow> pg ! k = group_summary pg k"
  by (simp add: group_summary_def get_def split: option.splits)

lemma group_summary_add_peer:
  "group_summary (add_peer groups x pg) k =
     (if peer_member groups k x then Some (widen (snd (snd x)) (group_summary pg k)) else group_summary pg k)"
proof (cases x)
  case (fields i s ov)
  let ?key = "group_of groups i"
  have upd: "group_summary ((resize_to ?key pg)[?key := Some v]) k =
      (if ?key = k then Some v else group_summary pg k)" for v
    unfolding group_summary_resize [of ?key pg k, symmetric]
    by (auto simp: group_summary_def get_def nth_list_update split: option.splits)
  show ?thesis using fields upd nth_group_summary [OF resize_long, of ?key pg]
    by (auto simp: Let_def)
qed

lemma group_summary_fold:
  "group_summary (fold (add_peer groups) xs pg) k =
     fold (\<lambda>x acc. Some (widen (snd (snd x)) acc)) (filter (peer_member groups k) xs) (group_summary pg k)"
  by (induction xs arbitrary: pg) (simp_all add: group_summary_add_peer)

lemma widen_Some:
  "widen ov (Some p) = \<lparr>po_floor = min (po_floor p) ov, po_lead = max (po_lead p) ov\<rparr>"
  by (simp add: widen_def)

lemma Min_min: "finite S \<Longrightarrow> Min (insert (min a b) S) = Min (insert a (insert b (S :: nat set)))"
  by (cases "S = {}") (simp_all add: min.assoc)

lemma Max_max: "finite S \<Longrightarrow> Max (insert (max a b) S) = Max (insert a (insert b (S :: nat set)))"
  by (cases "S = {}") (simp_all add: max.assoc)

lemma fold_widen_Some:
  "fold (\<lambda>x acc. Some (widen (snd (snd x)) acc)) xs (Some p) =
     Some \<lparr>po_floor = Min (insert (po_floor p) ((snd \<circ> snd) ` set xs)),
           po_lead = Max (insert (po_lead p) ((snd \<circ> snd) ` set xs))\<rparr>"
proof (induction xs arbitrary: p)
  case (Cons x xs)
  then show ?case unfolding fold_Cons o_apply widen_Some Cons.IH by (simp add: Min_min Max_max del: Min.insert Max.insert Min_insert Max_insert)
qed simp

lemma fold_widen_None:
  "fold (\<lambda>x acc. Some (widen (snd (snd x)) acc)) xs None =
     (let S = (snd \<circ> snd) ` set xs in if xs = [] then None else Some \<lparr>po_floor = Min S, po_lead = Max S\<rparr>)"
proof (cases xs)
  case (Cons x ys)
  have "widen (snd (snd x)) None = \<lparr>po_floor = snd (snd x), po_lead = snd (snd x)\<rparr>" by (simp add: widen_def)
  then show ?thesis using Cons fold_widen_Some [of ys] by (simp add: Let_def)
qed simp

text \<open>The overlaps of the serving members of a peer group.\<close>

definition serving_peers :: "'c upstream_state list \<Rightarrow> nat list \<Rightarrow> nat list \<Rightarrow> nat \<Rightarrow> nat set" where
  "serving_peers states overlaps groups g =
     {overlaps ! i | i. i < length states \<and> serving (states ! i) \<and> group_of groups i = g}"

lemma serving_peers_finite [simp]: "finite (serving_peers states overlaps groups g)"
  by (simp add: serving_peers_def)

lemma serving_peers_zip:
  assumes "length overlaps = length states"
  shows "(snd \<circ> snd) ` set (filter (peer_member groups g) (zip [0..<length states] (zip states overlaps))) =
     serving_peers states overlaps groups g"
  using assms by (force simp: serving_peers_def set_zip image_def)

lemma peer_overlaps_nth:
  fixes groups :: "nat list"
  assumes "length overlaps = length states" and "i < length states"
  defines "S \<equiv> serving_peers states overlaps groups (group_of groups i)"
  shows "peer_overlaps states overlaps groups ! i =
    (if S = {} then peer_default else \<lparr>po_floor = Min S, po_lead = Max S\<rparr>)"
proof -
  let ?xs = "zip [0..<length states] (zip states overlaps)"
  let ?pg = "fold (add_peer groups) ?xs []"
  have "group_summary ?pg (group_of groups i) = (if S = {} then None else Some \<lparr>po_floor = Min S, po_lead = Max S\<rparr>)"
  proof -
    define ys where "ys = filter (peer_member groups (group_of groups i)) ?xs"
    have S: "S = (snd \<circ> snd) ` set ys"
      unfolding S_def ys_def by (rule serving_peers_zip [OF assms(1), symmetric])
    have "group_summary [] (group_of groups i) = None" by (simp add: group_summary_def get_def)
    then show ?thesis
      unfolding group_summary_fold ys_def [symmetric] S by (simp add: fold_widen_None Let_def)
  qed
  moreover have "peer_overlaps states overlaps groups ! i =
      (case group_summary ?pg (group_of groups i) of None \<Rightarrow> peer_default | Some p \<Rightarrow> p)"
    using assms(2) by (simp add: peer_overlaps_def Let_def group_summary_def split: option.splits)
  ultimately show ?thesis by simp
qed

lemma length_peer_overlaps [simp]: "length (peer_overlaps states overlaps groups) = length states"
  by (simp add: peer_overlaps_def Let_def)

section \<open>Affinity bases\<close>

lemma credited_le_cap: "credited_affinity basis ov peers cap \<le> cap"
  by (auto simp: credited_affinity_def split: affinity_basis.splits)

lemma relative_is_absolute:
  "ov \<le> po_lead p \<Longrightarrow> po_lead p \<le> cap \<Longrightarrow> credited_affinity Relative ov p cap = credited_affinity Absolute ov p cap"
  by (simp add: credited_affinity_def)

lemma relative_trails_leader:
  "ov \<le> po_lead p \<Longrightarrow>
    credited_affinity Relative (po_lead p) p cap = credited_affinity Relative ov p cap + min (po_lead p - ov) cap"
  by (simp add: credited_affinity_def)

section \<open>Comparators\<close>

text \<open>
  A comparator on a set of values: antisymmetric and transitive in the sense of \<open>Ordering\<close>.
\<close>

fun reverse :: "ordering \<Rightarrow> ordering" where
  "reverse Less = Greater"
| "reverse Equal = Equal"
| "reverse Greater = Less"

definition comparator_on :: "'a set \<Rightarrow> ('a \<Rightarrow> 'a \<Rightarrow> ordering) \<Rightarrow> bool" where
  "comparator_on A c \<longleftrightarrow> (\<forall>x \<in> A. \<forall>y \<in> A. c y x = reverse (c x y)) \<and>
     (\<forall>x \<in> A. \<forall>y \<in> A. \<forall>z \<in> A. c x y \<noteq> Greater \<longrightarrow> c y z \<noteq> Greater \<longrightarrow>
        c x z = (if c x y = Equal then c y z else Less))"

lemma comparator_onD:
  assumes "comparator_on A c" and "x \<in> A" "y \<in> A"
  shows "c y x = reverse (c x y)" and "z \<in> A \<Longrightarrow> c x y \<noteq> Greater \<Longrightarrow> c y z \<noteq> Greater \<Longrightarrow>
     c x z = (if c x y = Equal then c y z else Less)"
  using assms unfolding comparator_on_def by blast+

lemma comparator_cmp_nat: "comparator_on A (\<lambda>x y. cmp_nat (f x) (f y))"
  by (auto simp: comparator_on_def cmp_nat_def)

lemma comparator_cmp_nat_desc: "comparator_on A (\<lambda>x y. cmp_nat (f y) (f x))"
  by (auto simp: comparator_on_def cmp_nat_def)

lemma comparator_cmp_bool_desc: "comparator_on A (\<lambda>x y. cmp_bool (p y) (p x))"
  unfolding cmp_bool_def by (rule comparator_cmp_nat_desc)

lemma comparator_equal: "comparator_on A (\<lambda>x y. Equal)"
  by (simp add: comparator_on_def)

lemma comparator_f64_desc:
  assumes "\<And>x. x \<in> A \<Longrightarrow> f x \<noteq> NaN"
  shows "comparator_on A (\<lambda>x y. case f64_partial_cmp (f y) (f x) of None \<Rightarrow> Equal | Some c \<Rightarrow> c)"
proof -
  have anti: "(case f64_partial_cmp a b of None \<Rightarrow> Equal | Some c \<Rightarrow> c) =
     reverse (case f64_partial_cmp b a of None \<Rightarrow> Equal | Some c \<Rightarrow> c)" for a b
    by (cases a; cases b) auto
  have trans: "(case f64_partial_cmp c a of None \<Rightarrow> Equal | Some c \<Rightarrow> c) =
      (if (case f64_partial_cmp b a of None \<Rightarrow> Equal | Some c \<Rightarrow> c) = Equal
       then (case f64_partial_cmp c b of None \<Rightarrow> Equal | Some c \<Rightarrow> c) else Less)"
    if "a \<noteq> NaN" "b \<noteq> NaN" "c \<noteq> NaN"
      "(case f64_partial_cmp b a of None \<Rightarrow> Equal | Some c \<Rightarrow> c) \<noteq> Greater"
      "(case f64_partial_cmp c b of None \<Rightarrow> Equal | Some c \<Rightarrow> c) \<noteq> Greater" for a b c
    using that by (cases a; cases b; cases c) (auto split: if_splits)
  show ?thesis unfolding comparator_on_def
    using anti trans assms by (metis (no_types, lifting))
qed

lemma comparator_then_with:
  assumes "comparator_on A c" and "comparator_on A d"
  shows "comparator_on A (\<lambda>x y. then_with (c x y) (d x y))"
proof -
  have anti: "then_with (c y x) (d y x) = reverse (then_with (c x y) (d x y))" if "x \<in> A" "y \<in> A" for x y
    using comparator_onD(1) [OF assms(1) that] comparator_onD(1) [OF assms(2) that]
    by (cases "c x y") (auto simp: then_with_def)
  have trans: "then_with (c x z) (d x z) =
      (if then_with (c x y) (d x y) = Equal then then_with (c y z) (d y z) else Less)"
    if A: "x \<in> A" "y \<in> A" "z \<in> A" and le: "then_with (c x y) (d x y) \<noteq> Greater" "then_with (c y z) (d y z) \<noteq> Greater"
    for x y z
  proof -
    have "c x y \<noteq> Greater" "c y z \<noteq> Greater" using le by (auto simp: then_with_def split: if_splits)
    then have "c x z = (if c x y = Equal then c y z else Less)" by (rule comparator_onD(2) [OF assms(1) A])
    moreover have "d x z = (if d x y = Equal then d y z else Less)" if "d x y \<noteq> Greater" "d y z \<noteq> Greater"
      using that by (rule comparator_onD(2) [OF assms(2) A])
    ultimately show ?thesis using le
      by (cases "c x y"; cases "c y z"; cases "d x y"; cases "d y z") (auto simp: then_with_def)
  qed
  show ?thesis unfolding comparator_on_def using anti trans by blast
qed

lemma sorted_comparator:
  assumes "comparator_on A c" and "set xs \<subseteq> A"
  shows "sorted_wrt (\<lambda>x y. c x y \<noteq> Greater) (sort_by (\<lambda>x y. c x y = Greater) xs)"
  using assms(2)
proof (induction xs)
  case (Cons x xs)
  have ins: "sorted_wrt (\<lambda>x y. c x y \<noteq> Greater) (insert_by (\<lambda>x y. c x y = Greater) x ys)"
    if "sorted_wrt (\<lambda>x y. c x y \<noteq> Greater) ys" "x \<in> A" "set ys \<subseteq> A" for ys
    using that
  proof (induction ys)
    case (Cons y ys)
    have rev: "c y x = reverse (c x y)" using comparator_onD(1) [OF assms(1), of x y] Cons.prems by simp
    have later: "c x z \<noteq> Greater" if le: "c x y \<noteq> Greater" and z: "z \<in> set ys" for z
    proof -
      have "x \<in> A" "y \<in> A" "z \<in> A" "c y z \<noteq> Greater" using Cons.prems z by auto
      with comparator_onD(2) [OF assms(1) this(1-3) le] show ?thesis by simp
    qed
    show ?case
    proof (cases "c x y = Greater")
      case True
      with rev have "c y x \<noteq> Greater" by simp
      with True Cons show ?thesis by (auto simp: set_insert_by)
    next
      case False
      with later Cons.prems show ?thesis by auto
    qed
  qed simp
  show ?case using Cons ins by simp
qed simp

lemma sorted_head:
  assumes "comparator_on A c" and "set xs \<subseteq> A" and "xs \<noteq> []"
  defines "w \<equiv> hd (sort_by (\<lambda>x y. c x y = Greater) xs)"
  shows "w \<in> set xs" and "x \<in> set xs \<Longrightarrow> c w x \<noteq> Greater"
proof -
  define ys where "ys = sort_by (\<lambda>x y. c x y = Greater) xs"
  have ys: "set ys = set xs" "length ys = length xs" by (simp_all add: ys_def)
  have sorted: "sorted_wrt (\<lambda>x y. c x y \<noteq> Greater) ys"
    unfolding ys_def by (rule sorted_comparator [OF assms(1,2)])
  obtain v rest where split: "ys = v # rest" using ys(2) assms(3) by (cases ys) auto
  have v: "w = v" unfolding w_def ys_def [symmetric] split by simp
  show w: "w \<in> set xs" using ys(1) split v by auto
  then have self: "c w w \<noteq> Greater"
    using comparator_onD(1) [OF assms(1), of w w] assms(2) by (cases "c w w") auto
  show "c w x \<noteq> Greater" if "x \<in> set xs"
    using that self sorted unfolding ys(1) [symmetric] split v by auto
qed

lemma sorted_head_eqI:
  assumes "comparator_on A c" and "set xs \<subseteq> A" and "w \<in> set xs"
    and "\<And>x. x \<in> set xs \<Longrightarrow> x \<noteq> w \<Longrightarrow> c w x = Less"
  shows "hd (sort_by (\<lambda>x y. c x y = Greater) xs) = w"
proof (rule ccontr)
  let ?h = "hd (sort_by (\<lambda>x y. c x y = Greater) xs)"
  assume ne: "?h \<noteq> w"
  have "xs \<noteq> []" using assms(3) by auto
  note h = sorted_head [OF assms(1,2) this]
  have "c w ?h = Less" using assms(4) h(1) ne by blast
  then have "c ?h w = Greater" using comparator_onD(1) [OF assms(1), of w ?h] assms(2,3) h(1) by auto
  with h(2) [OF assms(3)] show False by simp
qed

section \<open>The order of scores\<close>

lemma compare_scores_comparator:
  assumes "\<And>s. s \<in> A \<Longrightarrow> sc_weighted s \<noteq> NaN"
  shows "comparator_on A (compare_scores rotation n preference profiles tie)"
proof -
  have tie: "comparator_on A (\<lambda>l r. if tie then cmp_bool (matches preference (profiles ! sc_index r))
      (matches preference (profiles ! sc_index l)) else Equal)"
    by (cases tie) (simp_all add: comparator_cmp_bool_desc comparator_equal)
  show ?thesis unfolding compare_scores_def
    by (intro comparator_then_with comparator_cmp_bool_desc comparator_f64_desc comparator_cmp_nat_desc
        comparator_cmp_nat tie assms)
qed

lemma rotation_inj:
  assumes "i < n" and "j < n" and "(i + r) mod n = (j + r) mod n"
  shows "i = (j :: nat)"
proof -
  have red: "(k + r) mod n = (if k + r mod n < n then k + r mod n else k + r mod n - n)" if "k < n" for k
  proof -
    have "(k + r) mod n = (k + r mod n) mod n" by (simp add: mod_add_right_eq)
    moreover have "k + r mod n - n < n" using that mod_less_divisor [of n r] by linarith
    ultimately show ?thesis by (simp add: mod_if [of "k + r mod n"])
  qed
  show ?thesis using assms(3) assms(1,2) unfolding red [OF assms(1)] red [OF assms(2)]
    by (auto split: if_splits)
qed

lemma cmp_bool_cases: "cmp_bool a b = (if a = b then Equal else if b then Less else Greater)"
  by (simp add: cmp_bool_def cmp_nat_def)

lemma compare_scores_Equal:
  assumes "compare_scores rotation n preference profiles tie l r = Equal" and "sc_index l < n" "sc_index r < n"
  shows "sc_index l = sc_index r"
  using assms(1) rotation_inj [OF assms(2,3), of rotation]
  by (auto simp: compare_scores_def then_with_def cmp_nat_def split: if_splits)

text \<open>What it means to be ranked no later: serving first, then the weighted score, then overlap.\<close>

definition ranked_before :: "score \<Rightarrow> score \<Rightarrow> bool" where
  "ranked_before w x \<longleftrightarrow> (sc_healthy x \<longrightarrow> sc_healthy w) \<and>
     (sc_healthy x = sc_healthy w \<longrightarrow> f64_le (sc_weighted x) (sc_weighted w) \<and>
        (sc_weighted x = sc_weighted w \<longrightarrow> sc_overlap x \<le> sc_overlap w))"

lemma f64_cmp_le:
  "a \<noteq> NaN \<Longrightarrow> b \<noteq> NaN \<Longrightarrow> f64_partial_cmp a b = Some (if f64_less a b then Less else if a = b then Equal else Greater)"
  by (cases a; cases b) auto

lemma compare_scores_ranked:
  assumes "compare_scores rotation n preference profiles tie w x \<noteq> Greater"
    and "sc_weighted w \<noteq> NaN" "sc_weighted x \<noteq> NaN"
  shows "ranked_before w x"
  using assms(1) unfolding ranked_before_def compare_scores_def f64_cmp_le [OF assms(3,2)]
  using f64_not_less [OF assms(2,3)] f64_less_le [of "sc_weighted x" "sc_weighted w"] f64_le_refl [OF assms(3)]
  by (auto simp: then_with_def cmp_bool_cases cmp_nat_def split: if_splits)

text \<open>
  Improving the weighted score of a candidate that is ahead, everything else unchanged, keeps it
  ahead.
\<close>

lemma compare_scores_improve:
  assumes "compare_scores rotation n preference profiles tie w x = Less"
    and "sc_index v = sc_index w" "sc_healthy v = sc_healthy w" "sc_overlap v = sc_overlap w"
    and "f64_le (sc_weighted w) (sc_weighted v)" and "sc_weighted x \<noteq> NaN"
  shows "compare_scores rotation n preference profiles tie v x = Less"
proof -
  have nan: "sc_weighted w \<noteq> NaN" "sc_weighted v \<noteq> NaN" using assms(5) by auto
  have less: "f64_less (sc_weighted x) (sc_weighted w) \<Longrightarrow> f64_less (sc_weighted x) (sc_weighted v)"
    using assms(5) by (auto simp: f64_less_le intro: f64_le_trans)
  have eq: "sc_weighted x = sc_weighted w \<Longrightarrow> f64_less (sc_weighted x) (sc_weighted v) \<or> sc_weighted x = sc_weighted v"
    using assms(5) by (auto simp: f64_less_le intro: f64_le_antisym)
  show ?thesis
    using assms(1) less eq
    unfolding compare_scores_def f64_cmp_le [OF assms(6) nan(1)] f64_cmp_le [OF assms(6) nan(2)] assms(2-4)
    by (auto simp: then_with_def split: if_splits)
qed

section \<open>Properties of the affinity bases\<close>

lemma peer_bounds:
  fixes groups :: "nat list"
  assumes "length overlaps = length states" and "i < length states" and "serving (states ! i)"
  defines "p \<equiv> peer_overlaps states overlaps groups ! i"
  shows "po_floor p \<le> overlaps ! i" "overlaps ! i \<le> po_lead p"
    "\<exists>j < length states. serving (states ! j) \<and> group_of groups j = group_of groups i \<and> overlaps ! j = po_lead p"
proof -
  let ?S = "serving_peers states overlaps groups (group_of groups i)"
  have mem: "overlaps ! i \<in> ?S" using assms(2,3) by (auto simp: serving_peers_def)
  then have p: "p = \<lparr>po_floor = Min ?S, po_lead = Max ?S\<rparr>"
    unfolding p_def peer_overlaps_nth [OF assms(1,2)] by auto
  show "po_floor p \<le> overlaps ! i" "overlaps ! i \<le> po_lead p" using mem by (simp_all add: p)
  have "Max ?S \<in> ?S" using mem by (intro Max_in) auto
  then show "\<exists>j < length states. serving (states ! j) \<and> group_of groups j = group_of groups i \<and> overlaps ! j = po_lead p"
    unfolding p by (auto simp: serving_peers_def)
qed

text \<open>
  Relative affinity is measured from the warmest serving peer of the group. A peer with that
  overlap exists; while it does not exceed the cap, \<open>Relative\<close> credits exactly what \<open>Absolute\<close>
  does; and in general a candidate's credit trails the leader's by the overlap it lacks, capped.
\<close>

theorem relative_affinity_from_leader:
  fixes overlaps groups :: "nat list"
  assumes "length overlaps = length states" and "i < length states" and "serving (states ! i)"
  defines "p \<equiv> peer_overlaps states overlaps groups ! i"
  shows "(\<exists>j < length states. serving (states ! j) \<and> group_of groups j = group_of groups i \<and> overlaps ! j = po_lead p) \<and>
    (po_lead p \<le> cap \<longrightarrow>
      credited_affinity Relative (overlaps ! i) p cap = credited_affinity Absolute (overlaps ! i) p cap) \<and>
    credited_affinity Relative (po_lead p) p cap =
      credited_affinity Relative (overlaps ! i) p cap + min (po_lead p - overlaps ! i) cap"
  using peer_bounds [OF assms(1-3), of groups] relative_is_absolute relative_trails_leader
  unfolding p_def by blast

definition sample_state :: "bool \<Rightarrow> unit upstream_state" where
  "sample_state healthy = \<lparr>us_lru = (), us_horizon = Unbounded, us_inflight = 0, us_load = 0,
     us_healthy = healthy, us_drained = False\<rparr>"

theorem relative_affinity_from_leader_witness:
  "serving (sample_state True) \<and>
   credited_affinity Relative (po_lead (peer_overlaps [sample_state True, sample_state True] [10, 6] [] ! 1))
      (peer_overlaps [sample_state True, sample_state True] [10, 6] [] ! 1) 8 =
   credited_affinity Relative 6 (peer_overlaps [sample_state True, sample_state True] [10, 6] [] ! 1) 8 +
     min (po_lead (peer_overlaps [sample_state True, sample_state True] [10, 6] [] ! 1) - 6) 8"
proof -
  have s: "serving (sample_state True)" by (simp add: serving_def sample_state_def)
  then show ?thesis
    using relative_affinity_from_leader [of "[10, 6]" "[sample_state True, sample_state True]" 1 "[]" 8] by simp
qed

text \<open>
  For two serving replicas of one group the relative and the marginal basis make the same
  distinction: the difference of their credits is the same under both, so they decide alike.
\<close>

lemma relative_equals_marginal_for_two:
  fixes a b :: nat
  assumes "serving s" and "serving t" and "group_of groups 0 = group_of groups 1"
  defines "p \<equiv> peer_overlaps [s, t] [a, b] groups"
  shows "int (credited_affinity Relative a (p ! 0) cap) - int (credited_affinity Relative b (p ! 1) cap) =
    int (credited_affinity Marginal a (p ! 0) cap) - int (credited_affinity Marginal b (p ! 1) cap)"
proof -
  have "serving_peers [s, t] [a, b] groups (group_of groups 0) = {a, b}"
    using assms(1-3) by (auto simp: serving_peers_def less_Suc_eq nth_Cons')
  then have "p ! 0 = \<lparr>po_floor = min a b, po_lead = max a b\<rparr>" "p ! 1 = \<lparr>po_floor = min a b, po_lead = max a b\<rparr>"
    using assms(3) unfolding p_def by (simp_all add: peer_overlaps_nth)
  then show ?thesis by (auto simp: credited_affinity_def min_def max_def)
qed

text \<open>
  The documentation says the difference between any two candidates is what the lesser would
  recompute, capped. Between two candidates that both trail the leader by at least the cap the
  difference is zero.
\<close>

lemma relative_difference_not_pairwise:
  "credited_affinity Relative 6 \<lparr>po_floor = 0, po_lead = 10\<rparr> 4 -
     credited_affinity Relative 0 \<lparr>po_floor = 0, po_lead = 10\<rparr> 4 \<noteq> min (6 - 0) 4"
  by (simp add: credited_affinity_def)

end
