(* ===== verification/Lru_Cache.thy ===== *)
theory Lru_Cache
  imports Ramjet_Prelude
begin

text \<open>
  The least-recently-used cache of the crate \<^verbatim>\<open>lru\<close> as the sources call it. Its code is not part of
  the repository, so its operations are a parameter: a record of the calls \<^verbatim>\<open>src/router.rs\<close> and
  \<^verbatim>\<open>src/decision_state.rs\<close> make. \<open>lru_laws\<close> states their documented behaviour through a view of a cache as
  its entries, most recently used first. A list implementation shows the laws can hold.
\<close>

record ('c, 'k, 'v) lru_ops =
  lru_new :: "nat \<Rightarrow> 'c"
  lru_peek :: "'c \<Rightarrow> 'k \<Rightarrow> 'v option"
  lru_get :: "'k \<Rightarrow> 'c \<Rightarrow> 'v option \<times> 'c"
  lru_push :: "'k \<Rightarrow> 'v \<Rightarrow> 'c \<Rightarrow> 'c"
  lru_pop :: "'k \<Rightarrow> 'c \<Rightarrow> 'c"
  lru_len :: "'c \<Rightarrow> nat"

fun touch :: "'k \<Rightarrow> ('k \<times> 'v) list \<Rightarrow> ('k \<times> 'v) list" where
  "touch k es = (case map_of es k of None \<Rightarrow> es | Some v \<Rightarrow> (k, v) # AList.delete k es)"

definition lru_laws :: "('c, 'k, 'v) lru_ops \<Rightarrow> ('c \<Rightarrow> ('k \<times> 'v) list) \<Rightarrow> ('c \<Rightarrow> nat) \<Rightarrow> bool" where
  "lru_laws ops entries capacity \<longleftrightarrow>
     (\<forall>n > 0. entries (lru_new ops n) = [] \<and> capacity (lru_new ops n) = n) \<and>
     (\<forall>c k. lru_peek ops c k = map_of (entries c) k) \<and>
     (\<forall>c k. fst (lru_get ops k c) = map_of (entries c) k \<and>
        entries (snd (lru_get ops k c)) = touch k (entries c) \<and> capacity (snd (lru_get ops k c)) = capacity c) \<and>
     (\<forall>c k v. entries (lru_push ops k v c) = take (capacity c) ((k, v) # AList.delete k (entries c)) \<and>
        capacity (lru_push ops k v c) = capacity c) \<and>
     (\<forall>c k. entries (lru_pop ops k c) = AList.delete k (entries c) \<and> capacity (lru_pop ops k c) = capacity c) \<and>
     (\<forall>c. lru_len ops c = length (entries c))"

lemma lru_lawsD:
  assumes "lru_laws ops entries capacity"
  shows "0 < n \<Longrightarrow> entries (lru_new ops n) = []" "0 < n \<Longrightarrow> capacity (lru_new ops n) = n"
    "lru_peek ops c k = map_of (entries c) k"
    "fst (lru_get ops k c) = map_of (entries c) k"
    "entries (snd (lru_get ops k c)) = touch k (entries c)"
    "capacity (snd (lru_get ops k c)) = capacity c"
    "entries (lru_push ops k v c) = take (capacity c) ((k, v) # AList.delete k (entries c))"
    "capacity (lru_push ops k v c) = capacity c"
    "entries (lru_pop ops k c) = AList.delete k (entries c)"
    "capacity (lru_pop ops k c) = capacity c"
    "lru_len ops c = length (entries c)"
  using assms unfolding lru_laws_def by blast+

section \<open>A list implementation\<close>

definition list_lru :: "(nat \<times> ('k \<times> 'v) list, 'k, 'v) lru_ops" where
  "list_lru = \<lparr>lru_new = (\<lambda>n. (n, [])), lru_peek = (\<lambda>(n, es) k. map_of es k),
     lru_get = (\<lambda>k (n, es). (map_of es k, (n, touch k es))),
     lru_push = (\<lambda>k v (n, es). (n, take n ((k, v) # AList.delete k es))),
     lru_pop = (\<lambda>k (n, es). (n, AList.delete k es)), lru_len = (\<lambda>(n, es). length es)\<rparr>"

lemma list_lru_laws: "lru_laws list_lru snd fst"
  by (simp add: lru_laws_def list_lru_def split_def)

section \<open>Pushing a sequence of keys\<close>

definition lru_push_all :: "('c, 'k, 'v) lru_ops \<Rightarrow> 'k list \<Rightarrow> 'v \<Rightarrow> 'c \<Rightarrow> 'c" where
  "lru_push_all ops ks v c = fold (\<lambda>k. lru_push ops k v) ks c"

lemma lru_push_all_capacity:
  "lru_laws ops entries capacity \<Longrightarrow> capacity (lru_push_all ops ks v c) = capacity c"
  by (induction ks arbitrary: c) (simp_all add: lru_push_all_def lru_lawsD)

lemma lru_push_all_snoc [simp]: "lru_push_all ops (ks @ [k]) v c = lru_push ops k v (lru_push_all ops ks v c)"
  by (simp add: lru_push_all_def)

lemma delete_append: "AList.delete k (xs @ ys) = AList.delete k xs @ AList.delete k ys"
  by (simp add: AList.delete_eq)

lemma lru_push_all_entries:
  assumes "lru_laws ops entries capacity" and "distinct ks"
  shows "\<exists>rest. entries (lru_push_all ops ks v c) = take (capacity c) (rev (map (\<lambda>k. (k, v)) ks) @ rest) \<or> ks = []"
  using assms(2)
proof (induction ks rule: rev_induct)
  case (snoc k ks)
  define R where "R = rev (map (\<lambda>k. (k, v)) ks)"
  have new: "k \<notin> fst ` set R" using snoc.prems by (auto simp: R_def)
  have keep: "AList.delete k (take n R) = take n R" for n
    using new by (force simp: AList.delete_eq filter_id_conv dest: in_set_takeD)
  obtain rest where rest: "entries (lru_push_all ops ks v c) = take (capacity c) (R @ rest) \<or> ks = []"
    using snoc unfolding R_def by (metis distinct_append)
  let ?cap = "capacity c"
  have push: "entries (lru_push_all ops (ks @ [k]) v c) =
      take ?cap ((k, v) # AList.delete k (entries (lru_push_all ops ks v c)))"
    by (simp add: lru_lawsD [OF assms(1)] lru_push_all_capacity [OF assms(1)])
  have "\<exists>r. take ?cap ((k, v) # AList.delete k (entries (lru_push_all ops ks v c))) = take ?cap ((k, v) # R @ r)"
  proof (cases "ks = []")
    case True
    then show ?thesis by (auto simp: R_def)
  next
    case False
    define r where "r = AList.delete k (take (?cap - length R) rest)"
    have "entries (lru_push_all ops ks v c) = take ?cap (R @ rest)" using rest False by simp
    then have "AList.delete k (entries (lru_push_all ops ks v c)) = take ?cap R @ r"
      unfolding r_def by (simp only: take_append delete_append keep)
    moreover have "take (?cap - 1) (take ?cap R @ r) = take (?cap - 1) (R @ r)"
      by (cases "length R \<le> ?cap") simp_all
    ultimately show ?thesis by (cases ?cap) auto
  qed
  then show ?case using push by (simp add: R_def)
qed simp

lemma lru_push_all_peek:
  assumes "lru_laws ops entries capacity" and "distinct ks" and "length ks \<le> capacity c" and "k \<in> set ks"
  shows "lru_peek ops (lru_push_all ops ks v c) k = Some v"
proof -
  obtain rest where "entries (lru_push_all ops ks v c) = take (capacity c) (rev (map (\<lambda>k. (k, v)) ks) @ rest)"
    using lru_push_all_entries [OF assms(1,2), of v c] assms(4) by auto
  then have "entries (lru_push_all ops ks v c) = map (\<lambda>k. (k, v)) (rev ks) @ take (capacity c - length ks) rest"
    using assms(3) by (simp add: rev_map)
  moreover have "map_of (map (\<lambda>k. (k, v)) (rev ks)) k = Some v"
    using assms(4) by (simp add: map_of_map_restrict)
  ultimately show ?thesis by (simp add: lru_lawsD [OF assms(1)] map_add_def)
qed

lemma lru_push_all_overflow:
  assumes "lru_laws ops entries capacity" and "distinct ks" and "capacity c < length ks"
  shows "lru_peek ops (lru_push_all ops ks v c) (hd ks) = None"
proof -
  obtain k ks' where ks: "ks = k # ks'" using assms(3) by (cases ks) auto
  obtain rest where "entries (lru_push_all ops ks v c) = take (capacity c) (rev (map (\<lambda>k. (k, v)) ks) @ rest)"
    using lru_push_all_entries [OF assms(1,2), of v c] ks by auto
  then have "entries (lru_push_all ops ks v c) = take (capacity c) (rev (map (\<lambda>k. (k, v)) ks'))"
    using assms(3) by (simp add: ks)
  then have "fst ` set (entries (lru_push_all ops ks v c)) \<subseteq> set ks'"
    by (auto dest: in_set_takeD)
  then show ?thesis using assms(2) ks by (auto simp: lru_lawsD [OF assms(1)] map_of_eq_None_iff)
qed

end
