(* ===== verification/Router_Route.thy ===== *)
theory Router_Route
  imports Router_Order Lru_Cache
begin

text \<open>
  \<open>Router\<close> of \<^verbatim>\<open>src/router.rs\<close>: construction, one routing pass (\<open>route_fingerprints\<close>), the served
  index updates (\<open>observe_at\<close>, \<open>forget\<close>) and the wrappers the proxy calls. The router lock makes
  every call one step on the state, so each is a function of the router value. The LRU cache is the
  parameter of \<open>Lru_Cache\<close>. A panic is the outer \<open>None\<close>.
\<close>

section \<open>The router\<close>

record 'c router =
  r_config :: router_config
  r_load_estimator :: request_load_estimator
  r_inner :: "'c inner"

definition fresh_state :: "('c, u64, nat) lru_ops \<Rightarrow> nat \<Rightarrow> horizon_estimator \<Rightarrow> 'c upstream_state" where
  "fresh_state ops cap h = \<lparr>us_lru = lru_new ops cap, us_horizon = h, us_inflight = 0, us_load = 0,
     us_healthy = True, us_drained = False\<rparr>"

definition router_new :: "('c, u64, nat) lru_ops \<Rightarrow> router_config \<Rightarrow> 'c router option" where
  "router_new ops c =
    (if rc_upstreams c = [] \<or> length (rc_speculation_profiles c) \<noteq> length (rc_upstreams c) \<or>
        \<not> (rc_affinity_groups c = [] \<or> length (rc_affinity_groups c) = length (rc_upstreams c)) \<or>
        rc_index_capacity c = 0
     then None
     else case from_router_config c of None \<Rightarrow> None
     | Some est \<Rightarrow> (case estimators (rc_affinity_horizon c) (length (rc_upstreams c)) of None \<Rightarrow> None
     | Some hs \<Rightarrow> Some \<lparr>r_config = c, r_load_estimator = est,
         r_inner = \<lparr>in_states = map (fresh_state ops (rc_index_capacity c)) hs, in_rr = 0\<rparr>\<rparr>))"

section \<open>One routing pass\<close>

definition locality_of ::
  "('c, u64, nat) lru_ops \<Rightarrow> router_config \<Rightarrow> u64 list \<Rightarrow> nat \<Rightarrow> 'c upstream_state \<Rightarrow> locality_walk" where
  "locality_of ops c fps now s =
    (if rc_affinity c = Affinity_Prefix
     then walk fps (lru_peek ops (us_lru s)) (estimator_horizon now (us_horizon s)) now
     else locality_default)"

definition overlap_of :: "bool \<Rightarrow> locality_walk \<Rightarrow> nat" where
  "overlap_of use_fresh l = (if use_fresh then fresh_overlap l else raw_overlap l)"

definition peer_at :: "peer_overlap list \<Rightarrow> nat \<Rightarrow> peer_overlap" where
  "peer_at peers i = (case get peers i of None \<Rightarrow> peer_default | Some p \<Rightarrow> p)"

definition score_state ::
  "router_config \<Rightarrow> request_load_estimator \<Rightarrow> nat \<Rightarrow> nat \<Rightarrow> peer_overlap list \<Rightarrow> nat
     \<Rightarrow> nat \<Rightarrow> 'c upstream_state \<Rightarrow> locality_walk \<Rightarrow> score" where
  "score_state c est body_bytes load_floor peers ov index s l =
    (let aff = credited_affinity (rc_affinity_basis c) ov (peer_at peers index) (rc_max_overlap_blocks c);
         request_load = max (estimate_blocks est body_bytes ov) (clamp load_floor 1 (rc_max_load_units c));
         additional_load = (if rc_projected_load c then request_load - 1 else 0);
         projected_load = sat_add (us_load s) additional_load
     in \<lparr>sc_index = index, sc_overlap = ov, sc_affinity = aff, sc_load = us_load s,
         sc_request_load = request_load,
         sc_weighted = f64_sub (f64_of_nat aff) (f64_mul (rc_alpha c) (f64_of_nat projected_load)),
         sc_healthy = serving s, sc_stale = stale_blocks l, sc_horizon_ms = horizon_ms l, sc_ages = ages l\<rparr>)"

definition score_all ::
  "router_config \<Rightarrow> request_load_estimator \<Rightarrow> nat \<Rightarrow> nat \<Rightarrow> 'c upstream_state list \<Rightarrow> locality_walk list
     \<Rightarrow> bool \<Rightarrow> score list" where
  "score_all c est body_bytes load_floor states localities use_fresh =
    (let overlaps = map (overlap_of use_fresh) localities;
         peers = (if rc_affinity_basis c = Absolute then []
                  else peer_overlaps states overlaps (rc_affinity_groups c))
     in map (\<lambda>(index, s, l). score_state c est body_bytes load_floor peers (overlaps ! index) index s l)
          (zip [0..<length states] (zip states localities)))"

definition horizon_outcome ::
  "nat \<Rightarrow> bool \<Rightarrow> locality_walk list \<Rightarrow> score list \<Rightarrow> score list \<Rightarrow> affinity_horizon_outcome" where
  "horizon_outcome cap enforce localities scores alternative =
    (if list_all (\<lambda>l. raw_overlap l = 0) localities then NoOverlap
     else if sc_index (hd scores) \<noteq> sc_index (hd alternative)
       then (if enforce then Horizon_Moved else Horizon_WouldMove)
     else if list_ex (\<lambda>l. min (fresh_overlap l) cap < min (raw_overlap l) cap) localities then Trimmed
     else Fresh)"

definition route_fingerprints ::
  "('c, u64, nat) lru_ops \<Rightarrow> nat \<Rightarrow> u64 list \<Rightarrow> nat \<Rightarrow> speculation_preference \<Rightarrow> bool \<Rightarrow> nat \<Rightarrow> 'c router
     \<Rightarrow> ((decision \<times> speculation_route_observation \<times> affinity_horizon_observation) \<times> 'c router) option" where
  "route_fingerprints ops body_bytes fps load_floor preference advance_rotation now r =
    (let c = r_config r; states = in_states (r_inner r);
         next_rotation = wrap_add (in_rr (r_inner r)) 1;
         r1 = (if advance_rotation then r\<lparr>r_inner := (r_inner r)\<lparr>in_rr := next_rotation\<rparr>\<rparr> else r)
     in if states = [] then None
     else
       let rotation = next_rotation mod length states;
           mode = horizon_mode (rc_affinity_horizon c);
           localities = map (locality_of ops c fps now) states;
           score_with = score_all c (r_load_estimator r) body_bytes load_floor states localities;
           sort_with = sort_scores rotation (length localities) preference (rc_speculation_profiles c);
           enforce = (mode = Enforce);
           scores = sort_with False (score_with enforce);
           observation =
             (if mode = Horizon_Off then horizon_observation_off
              else let alternative = sort_with False (score_with (\<not> enforce))
                   in \<lparr>aho_mode = horizon_mode_label mode, aho_source = source_label (rc_affinity_horizon c),
                       aho_outcome = horizon_outcome_label
                         (horizon_outcome (rc_max_overlap_blocks c) enforce localities scores alternative)\<rparr>);
           profile_outcome = speculation_route_outcome scores (rc_speculation_mode c)
             (rc_speculation_profiles c) preference;
           final = (if rc_speculation_mode c = Spec_Prefer \<and> profile_outcome = Route_Moved
                    then sort_with True scores else scores)
       in Some ((decision_from_scores final (length fps) rotation,
                 \<lparr>sro_preference = preference, sro_outcome = profile_outcome\<rparr>, observation), r1))"

definition route_prepared_at ::
  "('c, u64, nat) lru_ops \<Rightarrow> nat \<Rightarrow> u64 list \<Rightarrow> nat \<Rightarrow> 'c router \<Rightarrow> (decision \<times> 'c router) option" where
  "route_prepared_at ops body_bytes fps now r =
     map_option (\<lambda>((d, _), r'). (d, r')) (route_fingerprints ops body_bytes fps 1 Pref_Neutral True now r)"

definition route_prepared_profiled_with_load_floor ::
  "('c, u64, nat) lru_ops \<Rightarrow> nat \<Rightarrow> u64 list \<Rightarrow> nat \<Rightarrow> speculation_preference \<Rightarrow> nat \<Rightarrow> 'c router
     \<Rightarrow> ((decision \<times> speculation_route_observation \<times> affinity_horizon_observation) \<times> 'c router) option" where
  "route_prepared_profiled_with_load_floor ops body_bytes fps load_floor preference now r =
     route_fingerprints ops body_bytes fps load_floor preference True now r"

section \<open>The served index\<close>

definition update_state :: "nat \<Rightarrow> ('c upstream_state \<Rightarrow> 'c upstream_state) \<Rightarrow> 'c router \<Rightarrow> 'c router" where
  "update_state upstream f r =
    (case get (in_states (r_inner r)) upstream of None \<Rightarrow> r
     | Some s \<Rightarrow> r\<lparr>r_inner := (r_inner r)\<lparr>in_states := (in_states (r_inner r))[upstream := f s]\<rparr>\<rparr>)"

definition observe_at ::
  "('c, u64, nat) lru_ops \<Rightarrow> nat \<Rightarrow> u64 list \<Rightarrow> nat option \<Rightarrow> nat \<Rightarrow> 'c router \<Rightarrow> 'c router" where
  "observe_at ops upstream fps new_kv_tokens now = update_state upstream (\<lambda>s.
     let s1 = (case new_kv_tokens of None \<Rightarrow> s
               | Some tokens \<Rightarrow> s\<lparr>us_horizon := record_fill tokens now (us_horizon s)\<rparr>)
     in s1\<lparr>us_lru := lru_push_all ops fps now (us_lru s1)\<rparr>)"

definition observe :: "('c, u64, nat) lru_ops \<Rightarrow> nat \<Rightarrow> u64 list \<Rightarrow> nat \<Rightarrow> 'c router \<Rightarrow> 'c router" where
  "observe ops upstream fps now = observe_at ops upstream fps None now"

definition observe_served ::
  "('c, u64, nat) lru_ops \<Rightarrow> nat \<Rightarrow> u64 list \<Rightarrow> nat option \<Rightarrow> nat \<Rightarrow> 'c router \<Rightarrow> 'c router" where
  "observe_served ops upstream fps new_kv_tokens now = observe_at ops upstream fps new_kv_tokens now"

definition forget_one :: "('c, u64, nat) lru_ops \<Rightarrow> nat option \<Rightarrow> u64 \<Rightarrow> 'c \<Rightarrow> 'c" where
  "forget_one ops served_before fp cache =
    (let evict = (case (lru_peek ops cache fp, served_before) of
        (Some _, None) \<Rightarrow> True
      | (Some seen, Some before) \<Rightarrow> seen \<le> before
      | (None, _) \<Rightarrow> False)
     in if evict then lru_pop ops fp cache else cache)"

definition forget :: "('c, u64, nat) lru_ops \<Rightarrow> nat \<Rightarrow> u64 list \<Rightarrow> nat option \<Rightarrow> 'c router \<Rightarrow> 'c router" where
  "forget ops upstream fps served_before = update_state upstream
     (\<lambda>s. s\<lparr>us_lru := fold (forget_one ops served_before) fps (us_lru s)\<rparr>)"

definition affinity_horizons :: "nat \<Rightarrow> 'c router \<Rightarrow> nat option list" where
  "affinity_horizons now r = map (\<lambda>s. estimator_horizon now (us_horizon s)) (in_states (r_inner r))"

end
