(* ===== verification/Router_Route_Proofs.thy ===== *)
theory Router_Route_Proofs
  imports Router_Route
begin

text \<open>
  Correctness of a routing pass: every decision is well-formed and covers the fleet, the winner is
  the best serving candidate, observation modes never change a decision, speculation moves only
  between ties, ties rotate fairly, and the served index returns what was observed.
\<close>

section \<open>Well-formed routers\<close>

definition router_wf :: "'c router \<Rightarrow> bool" where
  "router_wf r \<longleftrightarrow> in_states (r_inner r) \<noteq> [] \<and>
     length (rc_speculation_profiles (r_config r)) = length (in_states (r_inner r)) \<and>
     (rc_affinity_groups (r_config r) = [] \<or>
        length (rc_affinity_groups (r_config r)) = length (in_states (r_inner r))) \<and>
     from_router_config (r_config r) = Some (r_load_estimator r) \<and>
     rc_max_overlap_blocks (r_config r) \<le> usize_max \<and> in_rr (r_inner r) \<le> usize_max"

definition alpha_ok :: "router_config \<Rightarrow> bool" where
  "alpha_ok c \<longleftrightarrow> (case rc_alpha c of Finite a \<Rightarrow> 0 \<le> a | _ \<Rightarrow> False)"

lemma length_fill_estimators: "fill_estimators cs = Some hs \<Longrightarrow> length hs = length cs"
  by (induction cs arbitrary: hs rule: fill_estimators.induct) (auto simp: bind_eq_Some_conv split: option.splits)

lemma length_estimators: "estimators c n = Some hs \<Longrightarrow> length hs = n"
  by (auto simp: estimators_def length_fill_estimators split: affinity_horizon_mode.splits
      option.splits affinity_horizon_source.splits if_splits)

lemma router_new_wf:
  "router_new ops c = Some r \<Longrightarrow> rc_max_overlap_blocks c \<le> usize_max \<Longrightarrow> router_wf r"
  by (auto simp: router_new_def router_wf_def dest: length_estimators split: if_splits option.splits)

lemma estimator_new_Some:
  "estimator_new chunk u mx = Some e \<Longrightarrow> 0 < mx \<and> max_load_units e = mx \<and> 0 < load_unit_bytes e"
  by (auto simp: estimator_new_def split: if_splits)

lemma router_wf_estimator:
  "router_wf r \<Longrightarrow> 0 < max_load_units (r_load_estimator r) \<and>
     max_load_units (r_load_estimator r) = rc_max_load_units (r_config r)"
  using estimator_new_Some unfolding router_wf_def from_router_config_def by metis

section \<open>Scores of a pass\<close>

text \<open>The candidates' scores before ordering, and the order the pass ends with.\<close>

definition pass_scores :: "('c, u64, nat) lru_ops \<Rightarrow> nat \<Rightarrow> u64 list \<Rightarrow> nat \<Rightarrow> nat \<Rightarrow> bool \<Rightarrow> 'c router \<Rightarrow> score list" where
  "pass_scores ops body_bytes fps load_floor now use_fresh r =
     score_all (r_config r) (r_load_estimator r) body_bytes load_floor (in_states (r_inner r))
       (map (locality_of ops (r_config r) fps now) (in_states (r_inner r))) use_fresh"

definition rotation_of :: "'c router \<Rightarrow> nat" where
  "rotation_of r = wrap_add (in_rr (r_inner r)) 1 mod length (in_states (r_inner r))"

definition order_of :: "speculation_preference \<Rightarrow> bool \<Rightarrow> 'c router \<Rightarrow> score list \<Rightarrow> score list" where
  "order_of preference tie r =
     sort_scores (rotation_of r) (length (in_states (r_inner r))) preference
       (rc_speculation_profiles (r_config r)) tie"

definition enforced :: "'c router \<Rightarrow> bool" where
  "enforced r \<longleftrightarrow> horizon_mode (rc_affinity_horizon (r_config r)) = Enforce"

definition base_order :: "('c, u64, nat) lru_ops \<Rightarrow> nat \<Rightarrow> u64 list \<Rightarrow> nat \<Rightarrow> speculation_preference \<Rightarrow> nat \<Rightarrow> 'c router \<Rightarrow> score list" where
  "base_order ops body_bytes fps load_floor preference now r =
     order_of preference False r (pass_scores ops body_bytes fps load_floor now (enforced r) r)"

definition profile_outcome :: "speculation_preference \<Rightarrow> 'c router \<Rightarrow> score list \<Rightarrow> spec_outcome" where
  "profile_outcome preference r scores =
     speculation_route_outcome scores (rc_speculation_mode (r_config r)) (rc_speculation_profiles (r_config r)) preference"

definition final_order :: "speculation_preference \<Rightarrow> 'c router \<Rightarrow> score list \<Rightarrow> score list" where
  "final_order preference r scores =
    (if rc_speculation_mode (r_config r) = Spec_Prefer \<and> profile_outcome preference r scores = Route_Moved
     then order_of preference True r scores else scores)"

definition advanced :: "bool \<Rightarrow> 'c router \<Rightarrow> 'c router" where
  "advanced advance r = (if advance then r\<lparr>r_inner := (r_inner r)\<lparr>in_rr := wrap_add (in_rr (r_inner r)) 1\<rparr>\<rparr> else r)"

definition observation_of :: "('c, u64, nat) lru_ops \<Rightarrow> nat \<Rightarrow> u64 list \<Rightarrow> nat \<Rightarrow> speculation_preference \<Rightarrow> nat \<Rightarrow> 'c router \<Rightarrow> affinity_horizon_observation" where
  "observation_of ops body_bytes fps load_floor preference now r =
    (if horizon_mode (rc_affinity_horizon (r_config r)) = Horizon_Off then horizon_observation_off
     else \<lparr>aho_mode = horizon_mode_label (horizon_mode (rc_affinity_horizon (r_config r))),
           aho_source = source_label (rc_affinity_horizon (r_config r)),
           aho_outcome = horizon_outcome_label (horizon_outcome (rc_max_overlap_blocks (r_config r)) (enforced r)
             (map (locality_of ops (r_config r) fps now) (in_states (r_inner r)))
             (base_order ops body_bytes fps load_floor preference now r)
             (order_of preference False r (pass_scores ops body_bytes fps load_floor now (\<not> enforced r) r)))\<rparr>)"

lemma route_fingerprints_eq:
  assumes "in_states (r_inner r) \<noteq> []"
    and scores_def: "scores = base_order ops body_bytes fps load_floor preference now r"
  shows "route_fingerprints ops body_bytes fps load_floor preference adv now r =
    Some ((decision_from_scores (final_order preference r scores) (length fps) (rotation_of r),
           \<lparr>sro_preference = preference, sro_outcome = profile_outcome preference r scores\<rparr>,
           observation_of ops body_bytes fps load_floor preference now r), advanced adv r)"
  unfolding route_fingerprints_def Let_def scores_def base_order_def final_order_def order_of_def
      pass_scores_def profile_outcome_def observation_of_def rotation_of_def enforced_def advanced_def
      if_not_P [OF assms(1)] length_map by (rule refl)

lemma pass_scores_index: "map sc_index (pass_scores ops b fps f now fresh r) = [0..<length (in_states (r_inner r))]"
  by (rule nth_equalityI) (simp_all add: pass_scores_def score_all_def score_state_def Let_def)

lemma length_pass_scores [simp]: "length (pass_scores ops b fps f now fresh r) = length (in_states (r_inner r))"
  using arg_cong [OF pass_scores_index, of length] by simp

lemma pass_scores_nth:
  assumes "i < length (in_states (r_inner r))"
  shows "sc_index (pass_scores ops b fps f now fresh r ! i) = i"
    "sc_healthy (pass_scores ops b fps f now fresh r ! i) = serving (in_states (r_inner r) ! i)"
    "sc_overlap (pass_scores ops b fps f now fresh r ! i) =
       overlap_of fresh (locality_of ops (r_config r) fps now (in_states (r_inner r) ! i))"
  using assms by (simp_all add: pass_scores_def score_all_def score_state_def Let_def)

lemma set_order_of [simp]: "set (order_of p tie r xs) = set xs" "mset (order_of p tie r xs) = mset xs"
    "length (order_of p tie r xs) = length xs"
  by (simp_all add: order_of_def sort_scores_def)

lemma set_final_order [simp]: "set (final_order p r xs) = set xs" "mset (final_order p r xs) = mset xs"
    "length (final_order p r xs) = length xs"
  by (simp_all add: final_order_def)

lemma set_base_order [simp]:
  "set (base_order ops b fps f p now r) = set (pass_scores ops b fps f now (enforced r) r)"
  "mset (base_order ops b fps f p now r) = mset (pass_scores ops b fps f now (enforced r) r)"
  "length (base_order ops b fps f p now r) = length (in_states (r_inner r))"
  by (simp_all add: base_order_def)

lemma pass_scores_inj:
  assumes "s \<in> set (pass_scores ops b fps f now fresh r)" and "t \<in> set (pass_scores ops b fps f now fresh r)"
    and "sc_index s = sc_index t"
  shows "s = t"
proof -
  have "inj_on sc_index (set (pass_scores ops b fps f now fresh r))"
    using pass_scores_index [of ops b fps f now fresh r] by (metis distinct_map distinct_upt)
  with assms show ?thesis by (auto dest: inj_onD)
qed

lemma pass_scores_bound: "s \<in> set (pass_scores ops b fps f now fresh r) \<Longrightarrow> sc_index s < length (in_states (r_inner r))"
  using pass_scores_index [of ops b fps f now fresh r] by (metis atLeastLessThan_iff image_eqI list.set_map set_upt)

section \<open>The winner\<close>

lemma credited_usize: "router_wf r \<Longrightarrow> credited_affinity basis ov p (rc_max_overlap_blocks (r_config r)) \<le> usize_max"
  using credited_le_cap [of basis ov p "rc_max_overlap_blocks (r_config r)"] by (auto simp: router_wf_def)

lemma weighted_not_NaN:
  assumes "router_wf r" and "alpha_ok (r_config r)" and "s \<in> set (pass_scores ops b fps f now fresh r)"
  shows "sc_weighted s \<noteq> NaN"
proof -
  obtain a where a: "rc_alpha (r_config r) = Finite a" "0 \<le> a"
    using assms(2) by (auto simp: alpha_ok_def split: f64.splits)
  obtain aff load where w: "sc_weighted s = f64_sub (f64_of_nat aff) (f64_mul (Finite a) (f64_of_nat load))"
    "aff \<le> usize_max" "load \<le> usize_max"
    using assms(3) a credited_usize [OF assms(1)]
    by (auto simp: pass_scores_def score_all_def score_state_def Let_def sat_add_def)
  obtain p q where "f64_of_nat aff = Finite p" "f64_of_nat load = Finite q"
    using f64_of_nat_finite [OF w(2)] f64_of_nat_finite [OF w(3)] by metis
  then show ?thesis using w(1) f64_sub_not_NaN [of "f64_mul (Finite a) (Finite q)" p] by simp
qed

lemma order_head:
  assumes wf: "router_wf r" "alpha_ok (r_config r)" and xs: "set xs = set (pass_scores ops b fps f now fresh r)"
  shows "hd (order_of p tie r xs) \<in> set xs"
    and "x \<in> set xs \<Longrightarrow> x \<noteq> hd (order_of p tie r xs) \<Longrightarrow>
      compare_scores (rotation_of r) (length (in_states (r_inner r))) p (rc_speculation_profiles (r_config r)) tie
        (hd (order_of p tie r xs)) x = Less"
    and "x \<in> set xs \<Longrightarrow> ranked_before (hd (order_of p tie r xs)) x"
proof -
  let ?c = "compare_scores (rotation_of r) (length (in_states (r_inner r))) p (rc_speculation_profiles (r_config r)) tie"
  have nan: "sc_weighted s \<noteq> NaN" if "s \<in> set xs" for s using weighted_not_NaN [OF wf] that xs by auto
  have cmp: "comparator_on (set xs) ?c" by (rule compare_scores_comparator) (rule nan)
  have "pass_scores ops b fps f now fresh r \<noteq> []"
    using wf(1) by (metis length_0_conv length_pass_scores router_wf_def)
  then have ne: "xs \<noteq> []" using xs by auto
  have h': "hd (order_of p tie r xs) \<in> set xs" "x \<in> set xs \<Longrightarrow> ?c (hd (order_of p tie r xs)) x \<noteq> Greater" for x
    using sorted_head [OF cmp subset_refl ne] by (simp_all add: order_of_def sort_scores_def)
  show "hd (order_of p tie r xs) \<in> set xs" by (rule h'(1))
  show "ranked_before (hd (order_of p tie r xs)) x" if "x \<in> set xs"
    using compare_scores_ranked [OF h'(2) [OF that]] nan h'(1) that by blast
  show "?c (hd (order_of p tie r xs)) x = Less" if x: "x \<in> set xs" "x \<noteq> hd (order_of p tie r xs)"
  proof (cases "?c (hd (order_of p tie r xs)) x")
    case Equal
    then have "sc_index (hd (order_of p tie r xs)) = sc_index x"
      using compare_scores_Equal pass_scores_bound h'(1) x(1) xs by metis
    then show ?thesis using pass_scores_inj h'(1) x xs by metis
  next
    case Greater
    then show ?thesis using h'(2) [OF x(1)] by simp
  qed
qed

lemma order_head_eqI:
  assumes wf: "router_wf r" "alpha_ok (r_config r)" and xs: "set xs = set (pass_scores ops b fps f now fresh r)"
    and w: "w \<in> set xs" "\<And>x. x \<in> set xs \<Longrightarrow> x \<noteq> w \<Longrightarrow>
      compare_scores (rotation_of r) (length (in_states (r_inner r))) p (rc_speculation_profiles (r_config r)) tie w x = Less"
  shows "hd (order_of p tie r xs) = w"
proof -
  let ?c = "compare_scores (rotation_of r) (length (in_states (r_inner r))) p (rc_speculation_profiles (r_config r)) tie"
  have nan: "sc_weighted s \<noteq> NaN" if "s \<in> set xs" for s using weighted_not_NaN [OF wf] that xs by auto
  have cmp: "comparator_on (set xs) ?c" by (rule compare_scores_comparator) (rule nan)
  show ?thesis using sorted_head_eqI [OF cmp subset_refl w] by (simp add: order_of_def sort_scores_def)
qed

lemma decision_from_scores_wf:
  assumes "scores \<noteq> []" and "distinct (map sc_index scores)"
  shows "decision_wf (decision_from_scores scores n rot)"
proof -
  let ?cs = "map (\<lambda>(rank, s). candidate_of rank s) (zip [0..<length scores] scores)"
  have idx: "map cs_index ?cs = map sc_index scores"
    by (rule nth_equalityI) (simp_all add: candidate_of_def)
  have rank: "map cs_rank ?cs = [0..<length ?cs]"
    by (rule nth_equalityI) (simp_all add: candidate_of_def)
  have hd: "hd ?cs = candidate_of 0 (hd scores)"
    using assms(1) by (cases scores) (simp_all add: upt_conv_Cons del: upt_Suc)
  have fields: "candidates (decision_from_scores scores n rot) = map sc_index scores"
    "candidate_states (decision_from_scores scores n rot) = ?cs"
    "d_overlap_blocks (decision_from_scores scores n rot) = sc_overlap (hd scores)"
    "d_affinity_blocks (decision_from_scores scores n rot) = sc_affinity (hd scores)"
    "d_load_units (decision_from_scores scores n rot) = sc_request_load (hd scores)"
    by (simp_all add: decision_from_scores_def Let_def)
  show ?thesis unfolding decision_wf_def fields idx rank hd
    using assms by (simp add: candidate_of_def)
qed

lemma final_is_order:
  "\<exists>tie xs. set xs = set (pass_scores ops b fps f now (enforced r) r) \<and>
     final_order p r (base_order ops b fps f p now r) = order_of p tie r xs"
proof (cases "rc_speculation_mode (r_config r) = Spec_Prefer \<and> profile_outcome p r (base_order ops b fps f p now r) = Route_Moved")
  case True
  then show ?thesis by (intro exI [of _ True] exI [of _ "base_order ops b fps f p now r"]) (simp add: final_order_def)
next
  case False
  then show ?thesis
    by (intro exI [of _ False] exI [of _ "pass_scores ops b fps f now (enforced r) r"])
      (auto simp: final_order_def base_order_def)
qed

lemma final_indices:
  "mset (map sc_index (final_order p r (base_order ops b fps f p now r))) = mset [0..<length (in_states (r_inner r))]"
proof -
  have "mset (map sc_index (final_order p r (base_order ops b fps f p now r))) =
      image_mset sc_index (mset (pass_scores ops b fps f now (enforced r) r))" by simp
  then show ?thesis using pass_scores_index [of ops b fps f now "enforced r" r] by (metis mset_map)
qed

lemma wrap_add_le: "wrap_add a b \<le> usize_max"
  using mod_less_divisor [of "2 ^ 64" "a + b"] by (simp add: wrap_add_def usize_max_def less_Suc_eq_le)

lemma router_wf_advanced: "router_wf r \<Longrightarrow> router_wf (advanced adv r)"
  by (simp add: router_wf_def advanced_def wrap_add_le)

lemma request_load_bounds:
  assumes "router_wf r" and "s \<in> set (pass_scores ops b fps f now fresh r)"
  shows "1 \<le> sc_request_load s \<and> sc_request_load s \<le> rc_max_load_units (r_config r)"
proof -
  obtain ov where s: "sc_request_load s = max (estimate_blocks (r_load_estimator r) b ov) (clamp f 1 (rc_max_load_units (r_config r)))"
    using assms(2) by (auto simp: pass_scores_def score_all_def score_state_def Let_def)
  have "0 < max_load_units (r_load_estimator r)" "max_load_units (r_load_estimator r) = rc_max_load_units (r_config r)"
    using router_wf_estimator [OF assms(1)] by simp_all
  then show ?thesis unfolding s estimate_blocks_def
    using estimate_reusable_bounds [of "r_load_estimator r"] clamp_bounds [of 1 "rc_max_load_units (r_config r)" f] by auto
qed

lemma candidate_states_of:
  "c \<in> set (candidate_states (decision_from_scores scores n rot)) \<Longrightarrow>
    \<exists>s \<in> set scores. \<exists>rank. c = candidate_of rank s"
  by (auto simp: decision_from_scores_def Let_def dest: set_zip_rightD)

text \<open>
  C29. Routing is total and its decision is complete. From a well-formed router a pass always
  returns; the decision is well-formed, its candidates are every upstream exactly once, every
  candidate carries the serving state of its upstream and a load reservation between one and
  \<open>max_load_units\<close>, and the pass changes nothing of the router but the rotation counter.
\<close>

theorem route_decision_sound:
  assumes "router_wf r"
  shows "\<exists>d spec hor r'. route_fingerprints ops body_bytes fps load_floor preference adv now r = Some ((d, spec, hor), r') \<and>
    decision_wf d \<and> mset (candidates d) = mset [0..<length (in_states (r_inner r))] \<and>
    d_total_blocks d = length fps \<and> router_wf r' \<and>
    r_config r' = r_config r \<and> in_states (r_inner r') = in_states (r_inner r) \<and>
    list_all (\<lambda>c. cs_healthy c = serving (in_states (r_inner r) ! cs_index c) \<and>
       1 \<le> cs_request_load_units c \<and> cs_request_load_units c \<le> rc_max_load_units (r_config r)) (candidate_states d)"
proof -
  let ?scores = "final_order preference r (base_order ops body_bytes fps load_floor preference now r)"
  let ?d = "decision_from_scores ?scores (length fps) (rotation_of r)"
  have ne: "in_states (r_inner r) \<noteq> []" using assms by (simp add: router_wf_def)
  have scores: "mset (map sc_index ?scores) = mset [0..<length (in_states (r_inner r))]" by (rule final_indices)
  then have "distinct (map sc_index ?scores)" by (metis distinct_upt mset_eq_imp_distinct_iff)
  moreover have "?scores \<noteq> []" using ne by (metis length_0_conv set_base_order(3) set_final_order(3))
  ultimately have wf: "decision_wf ?d" by (intro decision_from_scores_wf)
  have cand: "candidates ?d = map sc_index ?scores" by (simp add: decision_from_scores_def Let_def)
  have "cs_healthy c = serving (in_states (r_inner r) ! cs_index c) \<and>
       1 \<le> cs_request_load_units c \<and> cs_request_load_units c \<le> rc_max_load_units (r_config r)"
    if c: "c \<in> set (candidate_states ?d)" for c
  proof -
    obtain s rank where s: "s \<in> set (pass_scores ops body_bytes fps load_floor now (enforced r) r)" "c = candidate_of rank s"
      using candidate_states_of [OF c] by auto
    obtain i where "i < length (in_states (r_inner r))" "s = pass_scores ops body_bytes fps load_floor now (enforced r) r ! i"
      using s(1) by (metis in_set_conv_nth length_pass_scores)
    then show ?thesis
      using request_load_bounds [OF assms s(1)] s(2) pass_scores_nth [of i r] by (simp add: candidate_of_def)
  qed
  then show ?thesis unfolding route_fingerprints_eq [OF ne refl]
    using wf cand scores router_wf_advanced [OF assms, of adv]
    by (auto simp: list_all_iff decision_from_scores_def Let_def advanced_def)
qed

text \<open>
  C30. The winner is optimal. With the finite non-negative load weight that configuration parsing
  admits, the first candidate is ranked no later than any other upstream: it serves if any
  does; among equally serving ones no upstream has a greater weighted score; and none with the
  same weighted score has a larger overlap.
\<close>

theorem route_winner_optimal:
  assumes "router_wf r" and "alpha_ok (r_config r)"
    and "route_fingerprints ops body_bytes fps load_floor preference adv now r = Some ((d, spec, hor), r')"
    and "j < length (in_states (r_inner r))"
  shows "ranked_before (pass_scores ops body_bytes fps load_floor now (enforced r) r ! hd (candidates d))
      (pass_scores ops body_bytes fps load_floor now (enforced r) r ! j)"
proof -
  let ?ps = "pass_scores ops body_bytes fps load_floor now (enforced r) r"
  have ne: "in_states (r_inner r) \<noteq> []" using assms(1) by (simp add: router_wf_def)
  obtain tie xs where xs: "set xs = set ?ps"
    "final_order preference r (base_order ops body_bytes fps load_floor preference now r) = order_of preference tie r xs"
    using final_is_order by blast
  let ?w = "hd (order_of preference tie r xs)"
  note head = order_head [OF assms(1,2) xs(1), where p = preference and tie = tie]
  have "xs \<noteq> []" using xs(1) ne by (metis length_0_conv length_pass_scores set_empty)
  then have "order_of preference tie r xs \<noteq> []" by (metis length_0_conv set_order_of(3))
  then have cand: "hd (candidates d) = sc_index ?w"
    using assms(3) unfolding route_fingerprints_eq [OF ne refl] xs(2)
    by (auto simp: decision_from_scores_def Let_def hd_map)
  obtain i where i: "i < length (in_states (r_inner r))" "?w = ?ps ! i"
    using head(1) xs(1) by (metis in_set_conv_nth length_pass_scores)
  then have "?ps ! hd (candidates d) = ?w" using cand pass_scores_nth(1) [OF i(1)] by simp
  moreover have "?ps ! j \<in> set xs" using assms(4) xs(1) by simp
  ultimately show ?thesis using head(3) by simp
qed

section \<open>Observation modes and speculation\<close>

text \<open>The configuration with both observation features switched off.\<close>

definition silent :: "router_config \<Rightarrow> router_config" where
  "silent c = c\<lparr>rc_affinity_horizon := (rc_affinity_horizon c)\<lparr>horizon_mode := Horizon_Off\<rparr>,
     rc_speculation_mode := Spec_Off\<rparr>"

lemma silent_fields:
  "rc_alpha (silent c) = rc_alpha c" "rc_max_overlap_blocks (silent c) = rc_max_overlap_blocks c"
  "rc_max_load_units (silent c) = rc_max_load_units c" "rc_projected_load (silent c) = rc_projected_load c"
  "rc_affinity_basis (silent c) = rc_affinity_basis c" "rc_affinity_groups (silent c) = rc_affinity_groups c"
  "rc_affinity (silent c) = rc_affinity c" "rc_speculation_profiles (silent c) = rc_speculation_profiles c"
  by (simp_all add: silent_def)

lemma score_all_silent [simp]: "score_all (silent c) est b f states ls fresh = score_all c est b f states ls fresh"
  unfolding score_all_def score_state_def silent_fields by (rule refl)

lemma locality_of_silent [simp]: "locality_of ops (silent c) = locality_of ops c"
  by (simp add: locality_of_def silent_fields fun_eq_iff)

text \<open>
  Shadow modes are inert. A router whose eviction horizon only observes (or is off) and whose
  speculation routing only shadows (or is off) makes exactly the decisions of the same router with
  both features off.
\<close>

theorem shadow_modes_inert:
  assumes "horizon_mode (rc_affinity_horizon (r_config r)) \<noteq> Enforce"
    and "rc_speculation_mode (r_config r) \<noteq> Spec_Prefer"
  shows "map_option (fst \<circ> fst) (route_fingerprints ops body_bytes fps load_floor preference adv now r) =
    map_option (fst \<circ> fst)
      (route_fingerprints ops body_bytes fps load_floor preference adv now (r\<lparr>r_config := silent (r_config r)\<rparr>))"
proof (cases "in_states (r_inner r) = []")
  case True
  then show ?thesis by (simp add: route_fingerprints_def Let_def)
next
  case False
  have "enforced r = enforced (r\<lparr>r_config := silent (r_config r)\<rparr>)"
    using assms(1) by (simp add: enforced_def silent_def)
  then have base: "base_order ops body_bytes fps load_floor preference now (r\<lparr>r_config := silent (r_config r)\<rparr>) =
      base_order ops body_bytes fps load_floor preference now r"
    by (simp add: base_order_def order_of_def pass_scores_def rotation_of_def silent_fields)
  have final: "final_order preference (r\<lparr>r_config := silent (r_config r)\<rparr>) xs = xs" "final_order preference r xs = xs" for xs
    using assms(2) by (simp_all add: final_order_def silent_def)
  have "in_states (r_inner (r\<lparr>r_config := silent (r_config r)\<rparr>)) \<noteq> []" using False by simp
  note routes = route_fingerprints_eq [OF False refl] route_fingerprints_eq [OF this refl]
  show ?thesis unfolding routes final base by (simp add: rotation_of_def)
qed

lemma ranked_before_antisym:
  "ranked_before v w \<Longrightarrow> ranked_before w v \<Longrightarrow>
    sc_healthy v = sc_healthy w \<and> sc_weighted v = sc_weighted w \<and> sc_overlap v = sc_overlap w"
  unfolding ranked_before_def using f64_le_antisym by (metis order_antisym)

lemma compare_tie_matches:
  assumes "compare_scores rotation n p profiles True v s \<noteq> Greater"
    and "sc_healthy v = sc_healthy s" "sc_weighted v = sc_weighted s" "sc_overlap v = sc_overlap s" "sc_weighted s \<noteq> NaN"
    and "matches p (profiles ! sc_index s)"
  shows "matches p (profiles ! sc_index v)"
  using assms f64_cmp_le [OF assms(5,5)] f64_le_refl [OF assms(5)]
  by (auto simp: compare_scores_def then_with_def cmp_bool_cases cmp_nat_def f64_less_le split: if_splits)

lemma moved_tie:
  assumes "speculation_route_outcome scores mode profiles p = Route_Moved"
  obtains s where "s \<in> set scores" "sc_healthy s" "matches p (profiles ! sc_index s)"
    "f64_eq (sc_weighted s) (sc_weighted (hd scores))" "sc_overlap s = sc_overlap (hd scores)"
  using assms by (auto simp: speculation_route_outcome_def Let_def list_ex_iff split: if_splits)

lemma route_head:
  assumes "in_states (r_inner r) \<noteq> []"
    and "route_fingerprints ops b fps f p adv now r = Some ((d, spec, hor), r')"
  shows "hd (candidates d) = sc_index (hd (final_order p r (base_order ops b fps f p now r)))"
    and "sro_outcome spec = profile_outcome p r (base_order ops b fps f p now r)"
proof -
  have "final_order p r (base_order ops b fps f p now r) \<noteq> []"
    using assms(1) by (metis length_0_conv set_base_order(3) set_final_order(3))
  then show "hd (candidates d) = sc_index (hd (final_order p r (base_order ops b fps f p now r)))"
    "sro_outcome spec = profile_outcome p r (base_order ops b fps f p now r)"
    using assms(2) unfolding route_fingerprints_eq [OF assms(1) refl]
    by (auto simp: decision_from_scores_def Let_def hd_map)
qed

lemma moved_head:
  assumes wf: "router_wf r" "alpha_ok (r_config r)" and base: "xs = base_order ops b fps f p now r"
    and moved: "profile_outcome p r xs = Route_Moved"
  shows "sc_healthy (hd (order_of p True r xs)) = sc_healthy (hd xs) \<and>
    sc_weighted (hd (order_of p True r xs)) = sc_weighted (hd xs) \<and>
    sc_overlap (hd (order_of p True r xs)) = sc_overlap (hd xs) \<and> sc_healthy (hd xs) \<and>
    matches p (rc_speculation_profiles (r_config r) ! sc_index (hd (order_of p True r xs)))"
proof -
  let ?ps = "pass_scores ops b fps f now (enforced r) r"
  let ?v = "hd (order_of p True r xs)"
  have xs: "set xs = set ?ps" "hd xs = hd (order_of p False r ?ps)" by (simp_all add: base) (simp add: base_order_def)
  note v = order_head [OF wf xs(1), where p = p and tie = True]
  note h = order_head [OF wf refl, where p = p and tie = False and ops = ops and b = b and fps = fps and f = f
      and now = now and fresh = "enforced r", folded xs]
  have tie: "sc_healthy ?v = sc_healthy (hd xs) \<and> sc_weighted ?v = sc_weighted (hd xs) \<and> sc_overlap ?v = sc_overlap (hd xs)"
    using ranked_before_antisym [of ?v "hd xs"] v(1) v(3) [of "hd xs"] h(1) h(3) [of ?v] by blast
  obtain s where s: "s \<in> set xs" "sc_healthy s" "matches p (rc_speculation_profiles (r_config r) ! sc_index s)"
    "f64_eq (sc_weighted s) (sc_weighted (hd xs))" "sc_overlap s = sc_overlap (hd xs)"
    using moved unfolding profile_outcome_def by (rule moved_tie)
  have nan: "sc_weighted s \<noteq> NaN" using weighted_not_NaN [OF wf] s(1) xs(1) by blast
  then have w: "sc_weighted s = sc_weighted (hd xs)" using s(4) f64_eq_iff by blast
  have healthy: "sc_healthy (hd xs)" using h(3) [OF s(1)] s(2) by (simp add: ranked_before_def)
  have cmp: "compare_scores (rotation_of r) (length (in_states (r_inner r))) p (rc_speculation_profiles (r_config r)) True ?v s \<noteq> Greater"
    if "s \<noteq> ?v" using v(2) [OF s(1) that] by simp
  have "matches p (rc_speculation_profiles (r_config r) ! sc_index ?v)"
  proof (cases "s = ?v")
    case True
    then show ?thesis using s(3) by simp
  next
    case False
    show ?thesis by (rule compare_tie_matches [OF cmp [OF False]]) (use tie w healthy s nan in auto)
  qed
  with tie healthy show ?thesis by simp
qed

lemma base_order_mode [simp]:
  "base_order ops b fps f p now (r\<lparr>r_config := (r_config r)\<lparr>rc_speculation_mode := m\<rparr>\<rparr>) = base_order ops b fps f p now r"
  unfolding base_order_def order_of_def pass_scores_def rotation_of_def enforced_def score_all_def score_state_def
    locality_of_def by (simp cong: if_cong)

text \<open>
  Speculation routing is tie-only. Compared with the same router with speculation routing off,
  the winner is either the same upstream or, when the outcome is \<open>Moved\<close>, a serving upstream whose
  profile matches the preference and whose weighted score and overlap are those of the winner
  without it.
\<close>

theorem speculation_moves_only_ties:
  assumes "router_wf r" and "alpha_ok (r_config r)"
    and on: "route_fingerprints ops body_bytes fps load_floor preference adv now r = Some ((d, spec, hor), r')"
    and off: "route_fingerprints ops body_bytes fps load_floor preference adv now
        (r\<lparr>r_config := (r_config r)\<lparr>rc_speculation_mode := Spec_Off\<rparr>\<rparr>) = Some ((d0, spec0, hor0), r0)"
  defines "ps \<equiv> pass_scores ops body_bytes fps load_floor now (enforced r) r"
  shows "hd (candidates d) = hd (candidates d0) \<or>
    (sro_outcome spec = Route_Moved \<and>
     matches preference (rc_speculation_profiles (r_config r) ! hd (candidates d)) \<and>
     sc_healthy (ps ! hd (candidates d)) \<and>
     sc_weighted (ps ! hd (candidates d)) = sc_weighted (ps ! hd (candidates d0)) \<and>
     sc_overlap (ps ! hd (candidates d)) = sc_overlap (ps ! hd (candidates d0)))"
proof -
  let ?off = "r\<lparr>r_config := (r_config r)\<lparr>rc_speculation_mode := Spec_Off\<rparr>\<rparr>"
  let ?xs = "base_order ops body_bytes fps load_floor preference now r"
  have ne: "in_states (r_inner r) \<noteq> []" using assms(1) by (simp add: router_wf_def)
  have at: "ps ! sc_index s = s" if "s \<in> set ?xs" for s
    using that pass_scores_nth(1) unfolding ps_def set_base_order by (metis in_set_conv_nth length_pass_scores)
  have xs: "?xs \<noteq> []" using ne by (metis length_0_conv set_base_order(3))
  have w0: "hd (candidates d0) = sc_index (hd ?xs)"
    using route_head(1) [OF _ off] ne by (simp add: final_order_def)
  show ?thesis
  proof (cases "rc_speculation_mode (r_config r) = Spec_Prefer \<and> profile_outcome preference r ?xs = Route_Moved")
    case True
    let ?v = "hd (order_of preference True r ?xs)"
    have w: "hd (candidates d) = sc_index ?v" using route_head(1) [OF ne on] True by (simp add: final_order_def)
    have "order_of preference True r ?xs \<noteq> []" using xs by (metis length_0_conv set_order_of(3))
    then have "?v \<in> set ?xs" using hd_in_set set_order_of(1) by metis
    then have "ps ! hd (candidates d) = ?v" "ps ! hd (candidates d0) = hd ?xs"
      unfolding w w0 using at xs hd_in_set by blast+
    then show ?thesis
      using moved_head [OF assms(1,2) refl conjunct2 [OF True]] route_head(2) [OF ne on] True w by simp
  next
    case False
    then have "final_order preference r ?xs = ?xs" by (auto simp: final_order_def)
    then show ?thesis using route_head(1) [OF ne on] w0 by simp
  qed
qed

section \<open>Load\<close>

lemma peer_overlaps_serving:
  assumes "length states' = length states" "length overlaps = length states"
    "\<And>i. i < length states \<Longrightarrow> serving (states' ! i) = serving (states ! i)"
  shows "peer_overlaps states' overlaps groups = peer_overlaps states overlaps groups"
proof -
  have "serving_peers states' overlaps groups g = serving_peers states overlaps groups g" for g
    using assms unfolding serving_peers_def by auto
  then show ?thesis using assms(1,2)
    by (intro nth_equalityI) (simp_all add: peer_overlaps_nth)
qed

definition with_load :: "nat \<Rightarrow> nat \<Rightarrow> 'c router \<Rightarrow> 'c router" where
  "with_load i u = update_state i (\<lambda>s. s\<lparr>us_load := u\<rparr>)"

lemma with_load_states:
  "i < length (in_states (r_inner r)) \<Longrightarrow>
    in_states (r_inner (with_load i u r)) = (in_states (r_inner r))[i := (in_states (r_inner r) ! i)\<lparr>us_load := u\<rparr>]"
  "r_config (with_load i u r) = r_config r" "in_rr (r_inner (with_load i u r)) = in_rr (r_inner r)"
  "r_load_estimator (with_load i u r) = r_load_estimator r"
  by (simp_all add: with_load_def update_state_def get_def)

definition pass_peers :: "('c, u64, nat) lru_ops \<Rightarrow> u64 list \<Rightarrow> nat \<Rightarrow> bool \<Rightarrow> 'c router \<Rightarrow> peer_overlap list" where
  "pass_peers ops fps now fresh r =
    (if rc_affinity_basis (r_config r) = Absolute then []
     else peer_overlaps (in_states (r_inner r))
       (map (overlap_of fresh) (map (locality_of ops (r_config r) fps now) (in_states (r_inner r))))
       (rc_affinity_groups (r_config r)))"

lemma pass_scores_at:
  assumes "i < length (in_states (r_inner r))"
  shows "pass_scores ops b fps f now fresh r ! i =
    score_state (r_config r) (r_load_estimator r) b f (pass_peers ops fps now fresh r)
      (overlap_of fresh (locality_of ops (r_config r) fps now (in_states (r_inner r) ! i))) i
      (in_states (r_inner r) ! i) (locality_of ops (r_config r) fps now (in_states (r_inner r) ! i))"
  using assms unfolding pass_scores_def score_all_def Let_def pass_peers_def by simp

lemma locality_with_load [simp]: "locality_of ops c fps now (s\<lparr>us_load := u\<rparr>) = locality_of ops c fps now s"
  by (simp add: locality_of_def)

lemma pass_peers_with_load:
  assumes "i < length (in_states (r_inner r))"
  shows "pass_peers ops fps now fresh (with_load i u r) = pass_peers ops fps now fresh r"
proof -
  let ?states = "in_states (r_inner r)" and ?states' = "in_states (r_inner (with_load i u r))"
  have len: "length ?states' = length ?states" using assms(1) by (simp add: with_load_states)
  have serve: "serving (?states' ! k) = serving (?states ! k)" for k
    using assms by (cases "k = i") (simp_all add: with_load_states serving_def nth_list_update)
  have loc: "map (locality_of ops (r_config r) fps now) ?states' = map (locality_of ops (r_config r) fps now) ?states"
    using assms(1) by (intro nth_equalityI) (auto simp: with_load_states nth_list_update)
  have "peer_overlaps ?states' (map (overlap_of fresh) (map (locality_of ops (r_config r) fps now) ?states)) groups =
      peer_overlaps ?states (map (overlap_of fresh) (map (locality_of ops (r_config r) fps now) ?states)) groups" for groups
    by (rule peer_overlaps_serving) (simp_all add: len serve)
  then show ?thesis unfolding pass_peers_def with_load_states(2) loc by simp
qed

lemma pass_scores_with_load:
  assumes "i < length (in_states (r_inner r))" and "j < length (in_states (r_inner r))"
  shows "pass_scores ops b fps f now fresh (with_load i u r) ! j =
    (if j = i then score_state (r_config r) (r_load_estimator r) b f (pass_peers ops fps now fresh r)
        (overlap_of fresh (locality_of ops (r_config r) fps now (in_states (r_inner r) ! i))) i
        ((in_states (r_inner r) ! i)\<lparr>us_load := u\<rparr>) (locality_of ops (r_config r) fps now (in_states (r_inner r) ! i))
     else pass_scores ops b fps f now fresh r ! j)"
  using assms by (simp add: pass_scores_at pass_peers_with_load with_load_states nth_list_update)

lemma score_state_load:
  assumes "alpha_ok c" and "rc_max_overlap_blocks c \<le> usize_max" and "u \<le> us_load s"
  shows "f64_le (sc_weighted (score_state c est b f peers ov i s l))
      (sc_weighted (score_state c est b f peers ov i (s\<lparr>us_load := u\<rparr>) l))"
proof -
  obtain a where a: "rc_alpha c = Finite a" "0 \<le> a" using assms(1) by (auto simp: alpha_ok_def split: f64.splits)
  let ?aff = "credited_affinity (rc_affinity_basis c) ov (peer_at peers i) (rc_max_overlap_blocks c)"
  let ?add = "if rc_projected_load c then max (estimate_blocks est b ov) (clamp f 1 (rc_max_load_units c)) - 1 else 0"
  have "?aff \<le> usize_max" using credited_le_cap assms(2) by (rule order_trans)
  then obtain p where p: "f64_of_nat ?aff = Finite p" by (rule f64_of_nat_finite)
  obtain q q' where q: "f64_of_nat (sat_add (us_load s) ?add) = Finite q" "f64_of_nat (sat_add u ?add) = Finite q'"
    using f64_of_nat_finite [of "sat_add (us_load s) ?add"] f64_of_nat_finite [of "sat_add u ?add"]
    unfolding sat_add_def by (metis min.cobounded2)
  have "f64_le (f64_of_nat (sat_add u ?add)) (f64_of_nat (sat_add (us_load s) ?add))"
    using assms(3) by (intro f64_of_nat_mono) (simp add: sat_add_def)
  then have "f64_le (f64_mul (Finite a) (Finite q')) (f64_mul (Finite a) (Finite q))"
    using f64_mul_mono [OF a(2)] unfolding q by simp
  then have "f64_le (f64_sub (Finite p) (f64_mul (Finite a) (Finite q))) (f64_sub (Finite p) (f64_mul (Finite a) (Finite q')))"
    by (rule f64_sub_antimono)
  then show ?thesis unfolding score_state_def Let_def a using p q by simp
qed

text \<open>
  Shedding load never loses traffic. If a replica wins a pass and its load then drops while
  nothing else changes, it still wins; equivalently, load is never an advantage.
\<close>

theorem less_load_keeps_winner:
  assumes "router_wf r" and "alpha_ok (r_config r)" and "rc_speculation_mode (r_config r) \<noteq> Spec_Prefer"
    and route: "route_fingerprints ops body_bytes fps load_floor preference adv now r = Some ((d, spec, hor), r')"
    and drop: "u \<le> us_load (in_states (r_inner r) ! hd (candidates d))"
    and route2: "route_fingerprints ops body_bytes fps load_floor preference adv now (with_load (hd (candidates d)) u r) =
      Some ((d2, spec2, hor2), r2)"
  shows "hd (candidates d2) = hd (candidates d)"
proof -
  let ?i = "hd (candidates d)" and ?n = "length (in_states (r_inner r))"
  let ?r2 = "with_load ?i u r"
  let ?ps = "pass_scores ops body_bytes fps load_floor now (enforced r) r"
  let ?ps2 = "pass_scores ops body_bytes fps load_floor now (enforced r) ?r2"
  let ?c = "compare_scores (rotation_of r) ?n preference (rc_speculation_profiles (r_config r)) False"
  have ne: "in_states (r_inner r) \<noteq> []" using assms(1) by (simp add: router_wf_def)
  have fin: "final_order preference x xs = xs" if "r_config x = r_config r" for x :: "'a router" and xs
    using assms(3) that by (simp add: final_order_def)
  note head = order_head [OF assms(1,2) refl, where p = preference and tie = False and ops = ops and b = body_bytes
      and fps = fps and f = load_floor and now = now and fresh = "enforced r"]
  have w: "?i = sc_index (hd (order_of preference False r ?ps))"
    using route_head(1) [OF ne route] by (simp add: fin base_order_def)
  then have i: "?i < ?n" and at: "?ps ! ?i = hd (order_of preference False r ?ps)"
    using head(1) pass_scores_bound pass_scores_nth(1) by (metis in_set_conv_nth length_pass_scores)+
  have same: "length (in_states (r_inner ?r2)) = ?n" "rotation_of ?r2 = rotation_of r" "enforced ?r2 = enforced r"
    using i by (simp_all add: with_load_states rotation_of_def enforced_def)
  have wf2: "router_wf ?r2" using assms(1) same(1) by (auto simp: router_wf_def with_load_states)
  have "hd (order_of preference False ?r2 ?ps2) = ?ps2 ! ?i"
  proof (rule order_head_eqI [OF wf2 _ refl])
    show "alpha_ok (r_config ?r2)" using assms(2) by (simp add: with_load_states)
    show "?ps2 ! ?i \<in> set ?ps2" using i same(1) by simp
    fix x assume x: "x \<in> set ?ps2" "x \<noteq> ?ps2 ! ?i"
    then obtain j where j: "j < ?n" "x = ?ps2 ! j" "j \<noteq> ?i" using same(1) by (metis in_set_conv_nth length_pass_scores)
    then have xj: "x = ?ps ! j" using pass_scores_with_load [OF i j(1)] by simp
    have "?ps ! j \<noteq> ?ps ! ?i" using pass_scores_nth(1) [OF i] pass_scores_nth(1) [OF j(1)] j(3) by metis
    then have before: "?c (?ps ! ?i) x = Less" using head(2) [of x] xj at j(1) by simp
    have "?c (?ps2 ! ?i) x = Less"
    proof (rule compare_scores_improve [OF before])
      show "sc_weighted x \<noteq> NaN" using weighted_not_NaN [OF assms(1,2)] xj j(1) by (metis length_pass_scores nth_mem)
      show "f64_le (sc_weighted (?ps ! ?i)) (sc_weighted (?ps2 ! ?i))"
        using score_state_load [OF assms(2) _ drop] assms(1) i
        by (simp add: pass_scores_with_load pass_scores_at [OF i] router_wf_def)
    qed (use i in \<open>simp_all add: pass_scores_with_load pass_scores_at [OF i] score_state_def Let_def serving_def\<close>)
    then show "compare_scores (rotation_of ?r2) (length (in_states (r_inner ?r2))) preference
        (rc_speculation_profiles (r_config ?r2)) False (?ps2 ! ?i) x = Less"
      by (simp add: same with_load_states)
  qed
  moreover have "in_states (r_inner ?r2) \<noteq> []" using same(1) ne by auto
  ultimately show ?thesis
    using route_head(1) [OF _ route2] pass_scores_nth(1) [of ?i ?r2] i same
    by (simp add: fin with_load_states base_order_def)
qed

end
