(* ===== verification/Router_Served.thy ===== *)
theory Router_Served
  imports Router_Route_Proofs
begin

text \<open>
  Fair rotation between tied replicas, the meaning of the horizon outcome, and what the served index
  records and forgets; followed by concrete routers for the properties of a routing pass.
\<close>

section \<open>Rotation\<close>

text \<open>The upstream whose rotated position is zero.\<close>

definition slot :: "nat \<Rightarrow> nat \<Rightarrow> nat" where
  "slot n m = (n - m mod n) mod n"

lemma slot_less: "0 < n \<Longrightarrow> slot n m < n"
  by (simp add: slot_def)

lemma slot_first: "0 < n \<Longrightarrow> (slot n m + m mod n) mod n = 0"
  by (cases "m mod n = 0") (simp_all add: slot_def mod_less_divisor less_imp_le)

lemma slot_inj: "0 < n \<Longrightarrow> j < n \<Longrightarrow> k < n \<Longrightarrow> slot n (j + m) = slot n (k + m) \<Longrightarrow> j = k"
proof -
  assume n: "0 < n" and j: "j < n" and k: "k < n" and eq: "slot n (j + m) = slot n (k + m)"
  have "x mod n = (n - slot n x) mod n" for x
    using n mod_less_divisor [OF n, of x] by (cases "x mod n = 0") (simp_all add: slot_def)
  with eq have "(j + m) mod n = (k + m) mod n" by metis
  then show ?thesis using rotation_inj [OF j k] by blast
qed

definition tied :: "'c router \<Rightarrow> nat \<Rightarrow> bool" where
  "tied r L \<longleftrightarrow> (\<forall>s \<in> set (in_states (r_inner r)). serving s \<and> us_load s = L)"

lemma credited_zero: "credited_affinity basis 0 p cap = 0"
  by (simp add: credited_affinity_def split: affinity_basis.splits)

lemma walk_Nil: "walk [] lookup h now = locality_default\<lparr>horizon_ms := map_option millis h\<rparr>"
  by (simp add: walk_def)

lemma no_overlap:
  "fps = [] \<or> rc_affinity c = Affinity_Load \<Longrightarrow> overlap_of fresh (locality_of ops c fps now s) = 0"
  by (auto simp: locality_of_def overlap_of_def walk_Nil locality_default_def)

lemma tied_scores:
  assumes "tied r L" and "fps = [] \<or> rc_affinity (r_config r) = Affinity_Load"
    and "i < length (in_states (r_inner r))" "j < length (in_states (r_inner r))"
  shows "sc_healthy (pass_scores ops b fps f now fresh r ! i) \<and>
    sc_overlap (pass_scores ops b fps f now fresh r ! i) = 0 \<and>
    sc_weighted (pass_scores ops b fps f now fresh r ! i) = sc_weighted (pass_scores ops b fps f now fresh r ! j)"
proof -
  have "serving (in_states (r_inner r) ! k) \<and> us_load (in_states (r_inner r) ! k) = L"
    if "k < length (in_states (r_inner r))" for k using assms(1) that by (simp add: tied_def)
  then show ?thesis using assms(3,4)
    by (simp add: pass_scores_at no_overlap [OF assms(2)] score_state_def Let_def credited_zero)
qed

lemma tied_winner:
  assumes wf: "router_wf r" "alpha_ok (r_config r)" and tie: "tied r L"
    and none: "fps = [] \<or> rc_affinity (r_config r) = Affinity_Load"
  shows "sc_index (hd (order_of p False r (pass_scores ops b fps f now fresh r))) =
    slot (length (in_states (r_inner r))) (wrap_add (in_rr (r_inner r)) 1)"
proof -
  let ?n = "length (in_states (r_inner r))" and ?ps = "pass_scores ops b fps f now fresh r"
  let ?i = "slot ?n (wrap_add (in_rr (r_inner r)) 1)"
  have n: "0 < ?n" using wf(1) by (simp add: router_wf_def)
  have i: "?i < ?n" by (rule slot_less [OF n])
  have "hd (order_of p False r ?ps) = ?ps ! ?i"
  proof (rule order_head_eqI [OF wf refl])
    show "?ps ! ?i \<in> set ?ps" using i by simp
    fix x assume x: "x \<in> set ?ps" "x \<noteq> ?ps ! ?i"
    then obtain j where j: "j < ?n" "x = ?ps ! j" "j \<noteq> ?i" by (metis in_set_conv_nth length_pass_scores)
    have nan: "sc_weighted (?ps ! ?i) \<noteq> NaN" using weighted_not_NaN [OF wf] i by (metis length_pass_scores nth_mem)
    have zero: "(?i + rotation_of r) mod ?n = 0" unfolding rotation_of_def by (rule slot_first [OF n])
    then have "(j + rotation_of r) mod ?n \<noteq> 0" using rotation_inj [OF i j(1)] j(3) by metis
    moreover have "f64_partial_cmp (sc_weighted (?ps ! ?i)) (sc_weighted (?ps ! ?i)) = Some Equal"
      using f64_cmp_le [OF nan nan] f64_le_refl [OF nan] by (simp add: f64_less_le)
    ultimately show "compare_scores (rotation_of r) ?n p (rc_speculation_profiles (r_config r)) False (?ps ! ?i) x = Less"
      using tied_scores [OF tie none i j(1), of ops b f now fresh] tied_scores [OF tie none j(1) i, of ops b f now fresh]
        zero j(2) pass_scores_nth(1) [OF i] pass_scores_nth(1) [OF j(1)]
      by (simp add: compare_scores_def then_with_def cmp_bool_cases cmp_nat_def)
  qed
  then show ?thesis using pass_scores_nth(1) [OF i] by simp
qed

text \<open>The upstreams chosen by consecutive calls of \<^const>\<open>route_prepared_at\<close>.\<close>

fun winners :: "('c, u64, nat) lru_ops \<Rightarrow> nat \<Rightarrow> u64 list \<Rightarrow> nat \<Rightarrow> nat \<Rightarrow> 'c router \<Rightarrow> nat list" where
  "winners ops body_bytes fps now 0 r = []"
| "winners ops body_bytes fps now (Suc k) r = (case route_prepared_at ops body_bytes fps now r of
     None \<Rightarrow> [] | Some (d, r') \<Rightarrow> hd (candidates d) # winners ops body_bytes fps now k r')"

lemma neutral_final: "final_order Pref_Neutral r xs = xs"
  by (simp add: final_order_def profile_outcome_def speculation_route_outcome_def)

lemma winners_slots:
  assumes "router_wf r" "alpha_ok (r_config r)" "tied r L"
    "fps = [] \<or> rc_affinity (r_config r) = Affinity_Load" "in_rr (r_inner r) + k < 2 ^ 64"
  shows "winners ops b fps now k r =
    map (\<lambda>j. slot (length (in_states (r_inner r))) (j + (in_rr (r_inner r) + 1))) [0..<k]"
  using assms
proof (induction k arbitrary: r)
  case (Suc k)
  let ?n = "length (in_states (r_inner r))" and ?rr = "in_rr (r_inner r)"
  have ne: "in_states (r_inner r) \<noteq> []" using Suc.prems(1) by (simp add: router_wf_def)
  have rr: "wrap_add ?rr 1 = ?rr + 1" using Suc.prems(5) by (simp add: wrap_add_def)
  obtain d spec hor where route: "route_fingerprints ops b fps 1 Pref_Neutral True now r = Some ((d, spec, hor), advanced True r)"
    by (simp add: route_fingerprints_eq [OF ne refl])
  have "hd (candidates d) = slot ?n (?rr + 1)"
    using route_head(1) [OF ne route] tied_winner [OF Suc.prems(1-4)] rr
    by (simp add: neutral_final base_order_def)
  moreover have "winners ops b fps now k (advanced True r) = map (\<lambda>j. slot ?n (j + (?rr + 1 + 1))) [0..<k]"
    using Suc.IH [of "advanced True r"] Suc.prems router_wf_advanced [OF Suc.prems(1), of True] rr
    by (simp add: advanced_def tied_def)
  ultimately show ?case
    using route by (simp add: route_prepared_at_def upt_conv_Cons map_Suc_upt [symmetric] del: upt_Suc)
qed simp

lemma winners_permutation:
  assumes "router_wf r" "alpha_ok (r_config r)" "tied r L"
    "fps = [] \<or> rc_affinity (r_config r) = Affinity_Load"
    "in_rr (r_inner r) + length (in_states (r_inner r)) < 2 ^ 64"
  shows "mset (winners ops b fps now (length (in_states (r_inner r))) r) = mset [0..<length (in_states (r_inner r))]"
proof -
  let ?n = "length (in_states (r_inner r))"
  let ?ws = "map (\<lambda>j. slot ?n (j + (in_rr (r_inner r) + 1))) [0..<?n]"
  have n: "0 < ?n" using assms(1) by (simp add: router_wf_def)
  have "inj_on (\<lambda>j. slot ?n (j + (in_rr (r_inner r) + 1))) (set [0..<?n])"
    by (rule inj_onI, rule slot_inj [OF n]) (simp_all only: set_upt atLeastLessThan_iff)
  then have "distinct ?ws" by (simp only: distinct_map distinct_upt)
  moreover have "set ?ws \<subseteq> set [0..<?n]" using slot_less [OF n] by auto
  ultimately have "set ?ws = set [0..<?n]"
    by (intro card_subset_eq) (simp_all only: finite_set distinct_card distinct_upt length_map)
  then show ?thesis unfolding winners_slots [OF assms]
    using \<open>distinct ?ws\<close> by (simp only: set_eq_iff_mset_eq_distinct distinct_upt)
qed


section \<open>The horizon outcome\<close>

definition with_mode :: "affinity_horizon_mode \<Rightarrow> 'c router \<Rightarrow> 'c router" where
  "with_mode m r = r\<lparr>r_config := (r_config r)\<lparr>rc_affinity_horizon :=
     (rc_affinity_horizon (r_config r))\<lparr>horizon_mode := m\<rparr>\<rparr>\<rparr>"

lemma with_mode_fields:
  "r_inner (with_mode m r) = r_inner r" "r_load_estimator (with_mode m r) = r_load_estimator r"
  "rc_alpha (r_config (with_mode m r)) = rc_alpha (r_config r)"
  "rc_max_overlap_blocks (r_config (with_mode m r)) = rc_max_overlap_blocks (r_config r)"
  "rc_max_load_units (r_config (with_mode m r)) = rc_max_load_units (r_config r)"
  "rc_projected_load (r_config (with_mode m r)) = rc_projected_load (r_config r)"
  "rc_affinity_basis (r_config (with_mode m r)) = rc_affinity_basis (r_config r)"
  "rc_affinity_groups (r_config (with_mode m r)) = rc_affinity_groups (r_config r)"
  "rc_affinity (r_config (with_mode m r)) = rc_affinity (r_config r)"
  "rc_speculation_mode (r_config (with_mode m r)) = rc_speculation_mode (r_config r)"
  "rc_speculation_profiles (r_config (with_mode m r)) = rc_speculation_profiles (r_config r)"
  "horizon_mode (rc_affinity_horizon (r_config (with_mode m r))) = m"
  by (simp_all add: with_mode_def)

lemma pass_scores_mode: "pass_scores ops b fps f now fresh (with_mode m r) = pass_scores ops b fps f now fresh r"
  unfolding pass_scores_def score_all_def score_state_def locality_of_def with_mode_fields by (rule refl)

lemma order_of_mode: "order_of p tie (with_mode m r) = order_of p tie r"
  unfolding order_of_def rotation_of_def with_mode_fields by (rule refl)

lemma takeWhile_length_mono:
  "(\<And>x. P x \<Longrightarrow> Q x) \<Longrightarrow> length (takeWhile P xs) \<le> length (takeWhile Q xs)"
  by (induction xs) auto

lemma fresh_le_raw: "fresh_overlap (locality_of ops c fps now s) \<le> raw_overlap (locality_of ops c fps now s)"
proof -
  have "length (takeWhile (fresh_at (lru_peek ops (us_lru s)) h now) fps) \<le>
      length (takeWhile (\<lambda>fp. lru_peek ops (us_lru s) fp \<noteq> None) fps)" for h
    by (rule takeWhile_length_mono) (auto simp: fresh_at_def split: option.splits)
  then show ?thesis by (simp add: locality_of_def walk_def walk_loop_spec locality_default_def del: not_None_eq)
qed

lemma no_raw_same_scores:
  assumes "\<forall>s \<in> set (in_states (r_inner r)). raw_overlap (locality_of ops (r_config r) fps now s) = 0"
  shows "pass_scores ops b fps f now True r = pass_scores ops b fps f now False r"
proof -
  have "overlap_of True (locality_of ops (r_config r) fps now s) = overlap_of False (locality_of ops (r_config r) fps now s)"
    if "s \<in> set (in_states (r_inner r))" for s
    using assms that fresh_le_raw [of ops "r_config r" fps now s] by (simp add: overlap_of_def)
  then have same: "map (overlap_of True) (map (locality_of ops (r_config r) fps now) (in_states (r_inner r))) =
      map (overlap_of False) (map (locality_of ops (r_config r) fps now) (in_states (r_inner r)))" by simp
  show ?thesis unfolding pass_scores_def score_all_def Let_def same by (rule refl)
qed

lemma outcome_moved:
  assumes "list_all (\<lambda>l. raw_overlap l = 0) ls \<longrightarrow> sc_index (hd xs) = sc_index (hd ys)"
  shows "horizon_outcome_label (horizon_outcome cap enforce ls xs ys) = (if enforce then ''moved'' else ''would_move'') \<longleftrightarrow>
    sc_index (hd xs) \<noteq> sc_index (hd ys)"
  using assms by (auto simp: horizon_outcome_def)

text \<open>
  The published horizon outcome means what it says. For a router without preferring
  speculation, the enforcing router reports \<open>moved\<close>, and the observing one \<open>would_move\<close>, exactly when
  the two would dispatch to different upstreams.
\<close>

theorem horizon_outcome_exact:
  assumes "rc_speculation_mode (r_config r) \<noteq> Spec_Prefer"
    and enf: "route_fingerprints ops body_bytes fps load_floor preference adv now (with_mode Enforce r) = Some ((d, spec, hor), r1)"
    and obs: "route_fingerprints ops body_bytes fps load_floor preference adv now (with_mode Observe r) = Some ((d', spec', hor'), r2)"
  shows "(aho_outcome hor = ''moved'' \<longleftrightarrow> hd (candidates d) \<noteq> hd (candidates d')) \<and>
    (aho_outcome hor' = ''would_move'' \<longleftrightarrow> hd (candidates d) \<noteq> hd (candidates d'))"
proof -
  have ne: "in_states (r_inner r) \<noteq> []"
    using enf by (auto simp: route_fingerprints_def Let_def with_mode_fields split: if_splits)
  then have ne': "in_states (r_inner (with_mode m r)) \<noteq> []" for m by (simp add: with_mode_fields)
  let ?fresh = "order_of preference False r (pass_scores ops body_bytes fps load_floor now True r)"
  let ?raw = "order_of preference False r (pass_scores ops body_bytes fps load_floor now False r)"
  let ?ls = "map (locality_of ops (r_config r) fps now) (in_states (r_inner r))"
  have loc: "locality_of ops (r_config (with_mode m r)) = locality_of ops (r_config r)" for m
    unfolding locality_of_def with_mode_fields by (rule refl)
  have base: "base_order ops body_bytes fps load_floor preference now (with_mode Enforce r) = ?fresh"
    "base_order ops body_bytes fps load_floor preference now (with_mode Observe r) = ?raw"
    by (simp_all add: base_order_def order_of_mode pass_scores_mode enforced_def with_mode_fields)
  have fin: "final_order preference (with_mode m r) xs = xs" for m xs
    using assms(1) by (simp add: final_order_def with_mode_fields)
  have win: "hd (candidates d) = sc_index (hd ?fresh)" "hd (candidates d') = sc_index (hd ?raw)"
    using route_head(1) [OF ne' enf] route_head(1) [OF ne' obs] by (simp_all add: fin base)
  have "list_all (\<lambda>l. raw_overlap l = 0) ?ls \<longrightarrow> sc_index (hd ?fresh) = sc_index (hd ?raw)"
    using no_raw_same_scores [of r ops fps now body_bytes load_floor] by (auto simp: list_all_iff)
  note out = outcome_moved [OF this, where enforce = True]
    outcome_moved [of ?ls ?raw ?fresh, where enforce = False]
  have hor: "hor = observation_of ops body_bytes fps load_floor preference now (with_mode Enforce r)"
    "hor' = observation_of ops body_bytes fps load_floor preference now (with_mode Observe r)"
    using enf obs by (simp_all add: route_fingerprints_eq [OF ne' refl])
  show ?thesis unfolding hor win observation_of_def
    using out \<open>list_all (\<lambda>l. raw_overlap l = 0) ?ls \<longrightarrow> sc_index (hd ?fresh) = sc_index (hd ?raw)\<close>
    by (auto simp: with_mode_fields base order_of_mode pass_scores_mode enforced_def loc)
qed

section \<open>The served index\<close>

lemma observe_state:
  assumes "u < length (in_states (r_inner r))"
  shows "us_lru (in_states (r_inner (observe_at ops u fps tokens now r)) ! u) =
      lru_push_all ops fps now (us_lru (in_states (r_inner r) ! u))"
    "v \<noteq> u \<Longrightarrow> in_states (r_inner (observe_at ops u fps tokens now r)) ! v = in_states (r_inner r) ! v"
    "r_config (observe_at ops u fps tokens now r) = r_config r"
  using assms by (simp_all add: observe_at_def update_state_def get_def Let_def split: option.splits)

lemma takeWhile_none: "\<not> P (hd xs) \<Longrightarrow> takeWhile P xs = []"
  by (cases xs) auto

text \<open>
  What was served is what routing sees. After a response with the distinct fingerprint chain
  \<open>fps\<close> is observed on a replica, the chain's overlap on that replica is its full length if the index
  capacity holds it, and zero if it does not (the leading blocks are the first to be evicted); at
  the instant of the response all of it is fresh under any horizon, and no other replica's overlap
  changed. The LRU cache is assumed to behave as documented.
\<close>

theorem observed_prefix_credited:
  fixes now :: nat and tokens :: "nat option"
  assumes "lru_laws ops entries capacity" and "u < length (in_states (r_inner r))"
    and "rc_affinity (r_config r) = Affinity_Prefix" and "distinct fps"
  defines "r' \<equiv> observe_at ops u fps tokens now r"
    and "full \<equiv> if length fps \<le> capacity (us_lru (in_states (r_inner r) ! u)) then length fps else 0"
  shows "raw_overlap (locality_of ops (r_config r') fps later (in_states (r_inner r') ! u)) = full \<and>
    fresh_overlap (locality_of ops (r_config r') fps now (in_states (r_inner r') ! u)) = full \<and>
    (v \<noteq> u \<longrightarrow> locality_of ops (r_config r') fps later (in_states (r_inner r') ! v) =
       locality_of ops (r_config r) fps later (in_states (r_inner r) ! v))"
proof -
  let ?c = "us_lru (in_states (r_inner r) ! u)"
  let ?peek = "lru_peek ops (lru_push_all ops fps now ?c)"
  have served: "us_lru (in_states (r_inner r') ! u) = lru_push_all ops fps now ?c" "r_config r' = r_config r"
    unfolding r'_def using observe_state [OF assms(2)] by simp_all
  have all: "?peek fp = Some now" if "length fps \<le> capacity ?c" "fp \<in> set fps" for fp
    using lru_push_all_peek [OF assms(1,4)] that by blast
  have none: "?peek (hd fps) = None" if "\<not> length fps \<le> capacity ?c"
    using lru_push_all_overflow [OF assms(1,4)] that by simp
  have raw: "length (takeWhile (\<lambda>fp. ?peek fp \<noteq> None) fps) = full"
    using all none takeWhile_none [of "\<lambda>fp. ?peek fp \<noteq> None" fps] by (auto simp: full_def intro!: arg_cong [of _ _ length])
  have "fresh_at ?peek h now fp \<longleftrightarrow> ?peek fp \<noteq> None" if "?peek fp = Some now \<or> ?peek fp = None" for h fp
    using that by (auto simp: fresh_at_def credited_def saturating_duration_since_def split: option.splits)
  then have fresh: "length (takeWhile (fresh_at ?peek h now) fps) = full" for h
    using all none takeWhile_none [of "fresh_at ?peek h now" fps] by (auto simp: full_def intro!: arg_cong [of _ _ length])
  show ?thesis
    using raw fresh observe_state(2) [OF assms(2), of v ops fps tokens now] assms(3)
    by (simp add: locality_of_def walk_def walk_loop_spec locality_default_def served r'_def [symmetric] del: not_None_eq)
qed

definition forgettable :: "nat option \<Rightarrow> nat option \<Rightarrow> bool" where
  "forgettable served_before entry = (case entry of None \<Rightarrow> False
     | Some seen \<Rightarrow> (case served_before of None \<Rightarrow> True | Some before \<Rightarrow> seen \<le> before))"

lemma forget_one_peek:
  assumes "lru_laws ops entries capacity"
  shows "lru_peek ops (forget_one ops sb fp c) k =
    (if k = fp \<and> forgettable sb (lru_peek ops c k) then None else lru_peek ops c k)"
  by (auto simp: forget_one_def forgettable_def lru_lawsD [OF assms] delete_conv' split: option.splits)

lemma forget_all_peek:
  assumes "lru_laws ops entries capacity"
  shows "lru_peek ops (fold (forget_one ops sb) fps c) k =
    (if k \<in> set fps \<and> forgettable sb (lru_peek ops c k) then None else lru_peek ops c k)"
  by (induction fps arbitrary: c) (auto simp: forget_one_peek [OF assms] forgettable_def)

text \<open>
  Forgetting is exact: on the named replica it drops precisely the listed fingerprints last
  served no later than the given instant (all listed ones when no instant is given) and keeps every
  other entry, in particular a shared block another request has refreshed since.
\<close>

theorem forget_exact:
  assumes "lru_laws ops entries capacity" and "u < length (in_states (r_inner r))"
  shows "lru_peek ops (us_lru (in_states (r_inner (forget ops u fps served_before r)) ! v)) k =
    (if v = u \<and> k \<in> set fps \<and> forgettable served_before (lru_peek ops (us_lru (in_states (r_inner r) ! u)) k)
     then None else lru_peek ops (us_lru (in_states (r_inner r) ! v)) k)"
  using assms(2) by (auto simp: forget_def update_state_def get_def nth_list_update forget_all_peek [OF assms(1)])

section \<open>Concrete routers\<close>

definition sample_config :: "affinity_horizon_mode \<Rightarrow> speculation_route_mode \<Rightarrow> router_config" where
  "sample_config hm sm = \<lparr>rc_upstreams = [''http://a'', ''http://b''], rc_alpha = Finite 4, rc_chunk_bytes = 2048,
     rc_max_prefix_bytes = 65536, rc_max_overlap_blocks = 64, rc_index_capacity = 3, rc_load_unit_bytes = 4096,
     rc_max_load_units = 8, rc_projected_load = True, rc_speculation_mode = sm,
     rc_speculation_profiles = [Profile_Standard, Profile_Mtp], rc_affinity = Affinity_Prefix,
     rc_affinity_horizon = \<lparr>horizon_mode = hm, horizon_source = Some (Static 60)\<rparr>,
     rc_affinity_basis = Relative, rc_affinity_groups = []\<rparr>"

definition sample_router ::
  "affinity_horizon_mode \<Rightarrow> speculation_route_mode \<Rightarrow> (nat \<times> (u64 \<times> nat) list) router" where
  "sample_router hm sm = \<lparr>r_config = sample_config hm sm,
     r_load_estimator = \<lparr>est_chunk_bytes = 2048, load_unit_bytes = 4096, max_load_units = 8\<rparr>,
     r_inner = \<lparr>in_states = [fresh_state list_lru 3 (Static_Horizon 60), fresh_state list_lru 3 (Static_Horizon 60)],
       in_rr = 0\<rparr>\<rparr>"

lemma sample_router_wf: "router_wf (sample_router hm sm)" "alpha_ok (r_config (sample_router hm sm))"
  by (simp_all add: router_wf_def alpha_ok_def sample_router_def sample_config_def from_router_config_def
      estimator_new_def usize_max_eq)

lemma sample_router_fields:
  "length (in_states (r_inner (sample_router hm sm))) = 2" "in_states (r_inner (sample_router hm sm)) \<noteq> []"
  "r_config (sample_router hm sm) = sample_config hm sm" "in_rr (r_inner (sample_router hm sm)) = 0"
  "rc_speculation_mode (sample_config hm sm) = sm" "rc_affinity (sample_config hm sm) = Affinity_Prefix"
  "horizon_mode (rc_affinity_horizon (sample_config hm sm)) = hm"
  by (simp_all add: sample_router_def sample_config_def)

lemma route_returns:
  "in_states (r_inner r) \<noteq> [] \<Longrightarrow> \<exists>d spec hor r'. route_fingerprints ops b fps f p adv now r = Some ((d, spec, hor), r')"
  by (simp add: route_fingerprints_eq [OF _ refl])

lemma list_lru_peek: "lru_peek list_lru (n, es) k = map_of es k"
  by (simp add: list_lru_def)

theorem route_decision_sound_witness:
  "\<exists>d spec hor r'. route_fingerprints list_lru 9000 [7, 8] 1 Pref_Mtp True 5 (sample_router Enforce Spec_Prefer) =
      Some ((d, spec, hor), r') \<and> decision_wf d \<and> mset (candidates d) = mset [0..<2]"
  using route_decision_sound [OF sample_router_wf(1), of list_lru 9000 "[7, 8]" 1 Pref_Mtp True 5 Enforce Spec_Prefer]
  unfolding sample_router_fields by blast

theorem route_winner_optimal_witness:
  "\<exists>d spec hor r'. route_fingerprints list_lru 9000 [7, 8] 1 Pref_Mtp True 5 (sample_router Enforce Spec_Prefer) =
      Some ((d, spec, hor), r') \<and>
    ranked_before (pass_scores list_lru 9000 [7, 8] 1 5 True (sample_router Enforce Spec_Prefer) ! hd (candidates d))
      (pass_scores list_lru 9000 [7, 8] 1 5 True (sample_router Enforce Spec_Prefer) ! 1)"
proof -
  let ?r = "sample_router Enforce Spec_Prefer"
  obtain d spec hor r' where route: "route_fingerprints list_lru 9000 [7, 8] 1 Pref_Mtp True 5 ?r = Some ((d, spec, hor), r')"
    using route_returns [OF sample_router_fields(2)] by blast
  have "enforced ?r" by (simp add: enforced_def sample_router_fields)
  then show ?thesis
    using route route_winner_optimal [OF sample_router_wf route, of 1] by (simp add: sample_router_fields)
qed

theorem shadow_modes_inert_witness:
  "map_option (fst \<circ> fst) (route_fingerprints list_lru 9000 [7, 8] 1 Pref_Mtp True 5 (sample_router Observe Spec_Shadow)) =
   map_option (fst \<circ> fst) (route_fingerprints list_lru 9000 [7, 8] 1 Pref_Mtp True 5
     ((sample_router Observe Spec_Shadow)\<lparr>r_config := silent (sample_config Observe Spec_Shadow)\<rparr>))"
  using shadow_modes_inert [of "sample_router Observe Spec_Shadow" list_lru 9000 "[7, 8]" 1 Pref_Mtp True 5]
  by (simp add: sample_router_fields)

theorem speculation_moves_only_ties_witness:
  "\<exists>d spec hor r' d0 spec0 hor0 r0.
    route_fingerprints list_lru 9000 [7, 8] 1 Pref_Mtp True 5 (sample_router Enforce Spec_Prefer) = Some ((d, spec, hor), r') \<and>
    route_fingerprints list_lru 9000 [7, 8] 1 Pref_Mtp True 5 ((sample_router Enforce Spec_Prefer)\<lparr>r_config :=
        (r_config (sample_router Enforce Spec_Prefer))\<lparr>rc_speculation_mode := Spec_Off\<rparr>\<rparr>) = Some ((d0, spec0, hor0), r0) \<and>
    (hd (candidates d) = hd (candidates d0) \<or> sro_outcome spec = Route_Moved)"
proof -
  let ?r = "sample_router Enforce Spec_Prefer"
  let ?off = "?r\<lparr>r_config := (r_config ?r)\<lparr>rc_speculation_mode := Spec_Off\<rparr>\<rparr>"
  obtain d spec hor r' where route: "route_fingerprints list_lru 9000 [7, 8] 1 Pref_Mtp True 5 ?r = Some ((d, spec, hor), r')"
    using route_returns [OF sample_router_fields(2)] by blast
  have ne: "in_states (r_inner ?off) \<noteq> []" by (simp add: sample_router_fields)
  obtain d0 spec0 hor0 r0 where route0: "route_fingerprints list_lru 9000 [7, 8] 1 Pref_Mtp True 5 ?off = Some ((d0, spec0, hor0), r0)"
    using route_returns [OF ne] by blast
  show ?thesis using route route0 speculation_moves_only_ties [OF sample_router_wf route route0] by blast
qed

theorem less_load_keeps_winner_witness:
  "\<exists>d spec hor r' d2 spec2 hor2 r2.
    route_fingerprints list_lru 9000 [7, 8] 1 Pref_Neutral True 5 (sample_router Enforce Spec_Off) = Some ((d, spec, hor), r') \<and>
    route_fingerprints list_lru 9000 [7, 8] 1 Pref_Neutral True 5 (with_load (hd (candidates d)) 0 (sample_router Enforce Spec_Off)) =
      Some ((d2, spec2, hor2), r2) \<and> hd (candidates d2) = hd (candidates d)"
proof -
  let ?r = "sample_router Enforce Spec_Off"
  obtain d spec hor r' where route: "route_fingerprints list_lru 9000 [7, 8] 1 Pref_Neutral True 5 ?r = Some ((d, spec, hor), r')"
    using route_returns [OF sample_router_fields(2)] by blast
  have ne: "in_states (r_inner (with_load (hd (candidates d)) 0 ?r)) \<noteq> []"
    by (simp add: with_load_def update_state_def sample_router_fields split: option.splits)
  obtain d2 spec2 hor2 r2 where route2: "route_fingerprints list_lru 9000 [7, 8] 1 Pref_Neutral True 5
      (with_load (hd (candidates d)) 0 ?r) = Some ((d2, spec2, hor2), r2)"
    using route_returns [OF ne] by blast
  show ?thesis
    using route route2 less_load_keeps_winner [OF sample_router_wf _ route le0 route2] by (auto simp: sample_router_fields)
qed


theorem horizon_outcome_exact_witness:
  "\<exists>d spec hor r1 d' spec' hor' r2.
    route_fingerprints list_lru 9000 [7, 8] 1 Pref_Neutral True 5 (with_mode Enforce (sample_router Observe Spec_Off)) = Some ((d, spec, hor), r1) \<and>
    route_fingerprints list_lru 9000 [7, 8] 1 Pref_Neutral True 5 (with_mode Observe (sample_router Observe Spec_Off)) = Some ((d', spec', hor'), r2) \<and>
    (aho_outcome hor = ''moved'' \<longleftrightarrow> hd (candidates d) \<noteq> hd (candidates d'))"
proof -
  let ?r = "sample_router Observe Spec_Off"
  have ne: "in_states (r_inner (with_mode m ?r)) \<noteq> []" for m by (simp add: with_mode_fields sample_router_fields)
  obtain d spec hor r1 where route: "route_fingerprints list_lru 9000 [7, 8] 1 Pref_Neutral True 5 (with_mode Enforce ?r) = Some ((d, spec, hor), r1)"
    using route_returns [OF ne] by blast
  obtain d' spec' hor' r2 where route': "route_fingerprints list_lru 9000 [7, 8] 1 Pref_Neutral True 5 (with_mode Observe ?r) = Some ((d', spec', hor'), r2)"
    using route_returns [OF ne] by blast
  show ?thesis using route route' horizon_outcome_exact [OF _ route route'] by (auto simp: sample_router_fields)
qed

theorem observed_prefix_credited_witness:
  "raw_overlap (locality_of list_lru (sample_config Enforce Spec_Off) [7, 8] 9
      (in_states (r_inner (observe_at list_lru 1 [7, 8] (Some 100) 5 (sample_router Enforce Spec_Off))) ! 1)) = 2"
  using observed_prefix_credited [OF list_lru_laws, of 1 "sample_router Enforce Spec_Off" "[7, 8]" "Some 100" 5 9 0]
    observe_state(3) [of 1 "sample_router Enforce Spec_Off" list_lru "[7, 8]" "Some 100" 5]
  by (simp add: sample_router_fields) (simp add: sample_router_def fresh_state_def list_lru_def)

theorem forget_exact_witness:
  "lru_peek list_lru (us_lru (in_states (r_inner (forget list_lru 1 [7] (Some 6)
     (observe_at list_lru 1 [7, 8] None 5 (sample_router Enforce Spec_Off)))) ! 1)) 7 = None \<and>
   lru_peek list_lru (us_lru (in_states (r_inner (forget list_lru 1 [7] (Some 6)
     (observe_at list_lru 1 [7, 8] None 5 (sample_router Enforce Spec_Off)))) ! 1)) 8 = Some 5"
proof -
  let ?r = "observe_at list_lru 1 [7, 8] None 5 (sample_router Enforce Spec_Off)"
  have lru: "us_lru (in_states (r_inner ?r) ! 1) = (3, [(8, 5), (7, 5)])"
    using observe_state(1) [of 1 "sample_router Enforce Spec_Off" list_lru "[7, 8]" None 5]
    by (simp add: sample_router_fields) (simp add: sample_router_def fresh_state_def list_lru_def lru_push_all_def)
  have len: "1 < length (in_states (r_inner ?r))"
    by (simp add: observe_at_def update_state_def sample_router_def split: option.splits)
  show ?thesis
    using forget_exact [OF list_lru_laws len, of "[7]" "Some 6" 1 7]
      forget_exact [OF list_lru_laws len, of "[7]" "Some 6" 1 8]
    unfolding lru list_lru_peek by (simp add: forgettable_def)
qed

end
