(* ===== verification/Router_Load.thy ===== *)
theory Router_Load
  imports Router_Route
begin

text \<open>
  Load accounting of \<^verbatim>\<open>src/router.rs\<close>: \<open>acquire\<close> and its gated forms, the \<open>LoadGuard\<close> with its
  reduction, release and drop, and the health and drain fences. \<open>inflight\<close> and \<open>load\<close> are \<open>usize\<close>
  values; their unchecked additions wrap, as in a release build. The main result is conservation:
  the counters of an upstream are exactly what its live guards hold.
\<close>

section \<open>Operations\<close>

record load_guard =
  lg_upstream :: nat
  lg_units :: nat
  lg_released :: bool

definition reserve :: "nat \<Rightarrow> 'c upstream_state \<Rightarrow> 'c upstream_state" where
  "reserve units s = s\<lparr>us_inflight := wrap_add (us_inflight s) 1, us_load := wrap_add (us_load s) units\<rparr>"

definition acquire :: "nat \<Rightarrow> nat \<Rightarrow> 'c router \<Rightarrow> load_guard \<times> 'c router" where
  "acquire upstream units r =
    (let units = max units 1
     in (\<lparr>lg_upstream = upstream, lg_units = units, lg_released = False\<rparr>, update_state upstream (reserve units) r))"

definition acquire_gated :: "nat \<Rightarrow> nat \<Rightarrow> bool \<Rightarrow> 'c router \<Rightarrow> load_guard option \<times> 'c router" where
  "acquire_gated upstream units require_healthy r =
    (let units = max units 1
     in case get (in_states (r_inner r)) upstream of
          None \<Rightarrow> (None, r)
        | Some s \<Rightarrow>
            if us_drained s \<or> (require_healthy \<and> \<not> serving s) then (None, r)
            else (Some \<lparr>lg_upstream = upstream, lg_units = units, lg_released = False\<rparr>,
                  update_state upstream (reserve units) r))"

definition acquire_if_healthy :: "nat \<Rightarrow> nat \<Rightarrow> 'c router \<Rightarrow> load_guard option \<times> 'c router" where
  "acquire_if_healthy upstream units r = acquire_gated upstream units True r"

definition acquire_failing_open :: "nat \<Rightarrow> nat \<Rightarrow> 'c router \<Rightarrow> load_guard option \<times> 'c router" where
  "acquire_failing_open upstream units r = acquire_gated upstream units False r"

definition set_healthy :: "nat \<Rightarrow> bool \<Rightarrow> 'c router \<Rightarrow> 'c router" where
  "set_healthy upstream h = update_state upstream (\<lambda>s. s\<lparr>us_healthy := h\<rparr>)"

definition set_drained :: "nat \<Rightarrow> bool \<Rightarrow> 'c router \<Rightarrow> 'c router" where
  "set_drained upstream b = update_state upstream (\<lambda>s. s\<lparr>us_drained := b\<rparr>)"

definition set_drained_mask :: "bool list \<Rightarrow> 'c router \<Rightarrow> 'c router \<times> bool" where
  "set_drained_mask flags r =
    (if length (in_states (r_inner r)) \<noteq> length flags then (r, False)
     else (r\<lparr>r_inner := (r_inner r)\<lparr>in_states :=
             map (\<lambda>(s, b). s\<lparr>us_drained := b\<rparr>) (zip (in_states (r_inner r)) flags)\<rparr>\<rparr>, True))"

definition drained :: "nat \<Rightarrow> 'c router \<Rightarrow> bool" where
  "drained upstream r = (case get (in_states (r_inner r)) upstream of None \<Rightarrow> False | Some s \<Rightarrow> us_drained s)"

definition inflight :: "nat \<Rightarrow> 'c router \<Rightarrow> nat" where
  "inflight upstream r = (case get (in_states (r_inner r)) upstream of None \<Rightarrow> 0 | Some s \<Rightarrow> us_inflight s)"

definition router_state ::
  "('c, u64, nat) lru_ops \<Rightarrow> nat \<Rightarrow> 'c router \<Rightarrow> (nat \<times> nat \<times> nat \<times> bool) option" where
  "router_state ops upstream r =
     map_option (\<lambda>s. (us_inflight s, us_load s, lru_len ops (us_lru s), us_healthy s))
       (get (in_states (r_inner r)) upstream)"

definition reduce_to :: "nat \<Rightarrow> load_guard \<Rightarrow> 'c router \<Rightarrow> bool \<times> load_guard \<times> 'c router" where
  "reduce_to units g r =
    (if lg_released g then (False, g, r)
     else let units = max units 1 in
       if lg_units g \<le> units then (False, g, r)
       else let freed = lg_units g - units in
         case get (in_states (r_inner r)) (lg_upstream g) of
           None \<Rightarrow> (False, g, r)
         | Some s \<Rightarrow> (True, g\<lparr>lg_units := units\<rparr>,
             update_state (lg_upstream g) (\<lambda>s. s\<lparr>us_load := us_load s - freed\<rparr>) r))"

definition do_release :: "load_guard \<Rightarrow> 'c router \<Rightarrow> load_guard \<times> 'c router" where
  "do_release g r =
    (if lg_released g then (g, r)
     else (g\<lparr>lg_released := True\<rparr>,
           update_state (lg_upstream g) (\<lambda>s. s\<lparr>us_inflight := us_inflight s - 1, us_load := us_load s - lg_units g\<rparr>) r))"

text \<open>Dropping a guard releases it; \<open>release\<close> consumes the guard, so its drop follows.\<close>

definition drop_guard :: "load_guard \<Rightarrow> 'c router \<Rightarrow> 'c router" where
  "drop_guard g r = snd (do_release g r)"

definition release :: "load_guard \<Rightarrow> 'c router \<Rightarrow> 'c router" where
  "release g r = (let (g1, r1) = do_release g r in drop_guard g1 r1)"

lemma release_is_drop: "release g r = drop_guard g r"
  by (simp add: release_def drop_guard_def do_release_def Let_def)

section \<open>Runs\<close>

text \<open>
  The router together with the guards alive in the process. A guard leaves the list when it is
  dropped or released. The bound on an acquisition is the absence of \<open>usize\<close> overflow.
\<close>

type_synonym 'c load_state = "'c router \<times> load_guard list"

definition fits :: "nat \<Rightarrow> nat \<Rightarrow> 'c router \<Rightarrow> bool" where
  "fits upstream units r = (case get (in_states (r_inner r)) upstream of None \<Rightarrow> True
     | Some s \<Rightarrow> us_load s + max units 1 \<le> usize_max)"

inductive dispatch_step :: "('c, u64, nat) lru_ops \<Rightarrow> 'c load_state \<Rightarrow> 'c load_state \<Rightarrow> bool" for ops where
  step_gated: "fits u n r \<Longrightarrow> acquire_gated u n h r = (Some g, r') \<Longrightarrow> dispatch_step ops (r, gs) (r', g # gs)"
| step_refused: "acquire_gated u n h r = (None, r') \<Longrightarrow> dispatch_step ops (r, gs) (r', gs)"
| step_reduce: "k < length gs \<Longrightarrow> reduce_to n (gs ! k) r = (b, g, r') \<Longrightarrow> dispatch_step ops (r, gs) (r', gs[k := g])"
| step_release: "k < length gs \<Longrightarrow> dispatch_step ops (r, gs) (release (gs ! k) r, remove_at k gs)"
| step_drop: "k < length gs \<Longrightarrow> dispatch_step ops (r, gs) (drop_guard (gs ! k) r, remove_at k gs)"
| step_healthy: "dispatch_step ops (r, gs) (set_healthy u h r, gs)"
| step_drained: "dispatch_step ops (r, gs) (set_drained u h r, gs)"
| step_mask: "dispatch_step ops (r, gs) (fst (set_drained_mask flags r), gs)"
| step_observe: "dispatch_step ops (r, gs) (observe_at ops u fps tokens now r, gs)"
| step_forget: "dispatch_step ops (r, gs) (forget ops u fps before r, gs)"
| step_route: "route_fingerprints ops b fps f p adv now r = Some (x, r') \<Longrightarrow> dispatch_step ops (r, gs) (r', gs)"

text \<open>Runs that also use the ungated \<^const>\<open>acquire\<close>.\<close>

inductive load_step :: "('c, u64, nat) lru_ops \<Rightarrow> 'c load_state \<Rightarrow> 'c load_state \<Rightarrow> bool" for ops where
  step_dispatch: "dispatch_step ops st st' \<Longrightarrow> load_step ops st st'"
| step_acquire: "fits u n r \<Longrightarrow> acquire u n r = (g, r') \<Longrightarrow> load_step ops (r, gs) (r', g # gs)"

inductive_cases dispatch_stepE: "dispatch_step ops (r, gs) st'"

section \<open>What the guards hold\<close>

definition live :: "nat \<Rightarrow> load_guard list \<Rightarrow> nat" where
  "live u gs = length (filter (\<lambda>g. lg_upstream g = u) gs)"

definition held :: "nat \<Rightarrow> load_guard list \<Rightarrow> nat" where
  "held u gs = sum_list (map lg_units (filter (\<lambda>g. lg_upstream g = u) gs))"

definition load_inv :: "'c load_state \<Rightarrow> bool" where
  "load_inv st \<longleftrightarrow> (\<forall>g \<in> set (snd st). \<not> lg_released g \<and> 1 \<le> lg_units g) \<and>
     (\<forall>i < length (in_states (r_inner (fst st))).
        us_inflight (in_states (r_inner (fst st)) ! i) = live i (snd st) \<and>
        us_load (in_states (r_inner (fst st)) ! i) = held i (snd st) \<and>
        us_load (in_states (r_inner (fst st)) ! i) \<le> usize_max)"

lemma live_Cons [simp]: "live u (g # gs) = live u gs + of_bool (lg_upstream g = u)" "live u [] = 0"
  and held_Cons [simp]: "held u (g # gs) = held u gs + (if lg_upstream g = u then lg_units g else 0)" "held u [] = 0"
  by (simp_all add: live_def held_def)

lemma live_append [simp]: "live u (gs @ hs) = live u gs + live u hs"
  and held_append [simp]: "held u (gs @ hs) = held u gs + held u hs"
  by (simp_all add: live_def held_def)

lemma live_remove:
  assumes "k < length gs"
  shows "live u gs = live u (remove_at k gs) + of_bool (lg_upstream (gs ! k) = u)"
    and "held u gs = held u (remove_at k gs) + (if lg_upstream (gs ! k) = u then lg_units (gs ! k) else 0)"
    and "live u (gs[k := g]) = live u (remove_at k gs) + of_bool (lg_upstream g = u)"
    and "held u (gs[k := g]) = held u (remove_at k gs) + (if lg_upstream g = u then lg_units g else 0)"
proof -
  define xs x ys where "xs = take k gs" and "x = gs ! k" and "ys = drop (Suc k) gs"
  have gs: "gs = xs @ x # ys" unfolding xs_def x_def ys_def by (rule id_take_nth_drop [OF assms])
  have rem: "remove_at k gs = xs @ ys" "gs[k := g] = xs @ g # ys"
    unfolding xs_def ys_def remove_at_def by (simp_all add: upd_conv_take_nth_drop [OF assms])
  show "live u gs = live u (remove_at k gs) + of_bool (lg_upstream (gs ! k) = u)"
    "held u gs = held u (remove_at k gs) + (if lg_upstream (gs ! k) = u then lg_units (gs ! k) else 0)"
    unfolding rem x_def [symmetric] by (simp_all add: gs)
  show "live u (gs[k := g]) = live u (remove_at k gs) + of_bool (lg_upstream g = u)"
    "held u (gs[k := g]) = held u (remove_at k gs) + (if lg_upstream g = u then lg_units g else 0)"
    unfolding rem by simp_all
qed

lemma live_le_held: "\<forall>g \<in> set gs. 1 \<le> lg_units g \<Longrightarrow> live u gs \<le> held u gs"
  by (induction gs) auto

lemma update_state_nth:
  "length (in_states (r_inner (update_state u f r))) = length (in_states (r_inner r))"
  "i < length (in_states (r_inner r)) \<Longrightarrow>
    in_states (r_inner (update_state u f r)) ! i = (if i = u then f (in_states (r_inner r) ! i) else in_states (r_inner r) ! i)"
  "r_config (update_state u f r) = r_config r"
  by (auto simp: update_state_def get_def nth_list_update split: option.splits)

lemma set_remove_at: "set (remove_at k gs) \<subseteq> set gs"
  using set_take_subset [of k gs] set_drop_subset [of "Suc k" gs] by (auto simp: remove_at_def)

text \<open>A step that keeps both counters of every upstream and the guards keeps the invariant.\<close>

lemma load_inv_same:
  assumes "load_inv (r, gs)" and "length (in_states (r_inner r')) = length (in_states (r_inner r))"
    and "\<And>i. i < length (in_states (r_inner r)) \<Longrightarrow>
      us_inflight (in_states (r_inner r') ! i) = us_inflight (in_states (r_inner r) ! i) \<and>
      us_load (in_states (r_inner r') ! i) = us_load (in_states (r_inner r) ! i)"
  shows "load_inv (r', gs)"
  using assms by (auto simp: load_inv_def)

lemma load_inv_update:
  "load_inv (r, gs) \<Longrightarrow> (\<And>s. us_inflight (f s) = us_inflight s \<and> us_load (f s) = us_load s) \<Longrightarrow>
    load_inv (update_state u f r, gs)"
  by (rule load_inv_same [of r gs]) (simp_all add: update_state_nth)

lemma load_inv_reserve:
  assumes "load_inv (r, gs)" and "fits u n r" and "lg_upstream g = u" "lg_units g = max n 1" "\<not> lg_released g"
  shows "load_inv (update_state u (reserve (max n 1)) r, g # gs)"
proof -
  have "\<forall>g \<in> set gs. 1 \<le> lg_units g" using assms(1) by (simp add: load_inv_def)
  note le = live_le_held [OF this, of u]
  have "wrap_add (us_inflight s) 1 = us_inflight s + 1 \<and> wrap_add (us_load s) (max n 1) = us_load s + max n 1 \<and>
      us_load s + max n 1 \<le> usize_max"
    if "u < length (in_states (r_inner r))" "s = in_states (r_inner r) ! u" for s
    using assms(1,2) that le by (auto simp: load_inv_def fits_def get_def wrap_add_def usize_max_def)
  then show ?thesis using assms
    by (auto simp: load_inv_def update_state_nth reserve_def)
qed

lemma load_inv_release:
  assumes "load_inv (r, gs)" and "k < length gs"
  shows "load_inv (drop_guard (gs ! k) r, remove_at k gs)"
proof -
  have g: "\<not> lg_released (gs ! k)" using assms by (simp add: load_inv_def)
  show ?thesis using assms g live_remove(1,2) [OF assms(2)] set_remove_at [of k gs]
    by (auto simp: load_inv_def drop_guard_def do_release_def update_state_nth)
qed

lemma reduce_cases:
  assumes "reduce_to n g r = (b, g', r')"
  obtains (same) "g' = g" "r' = r"
  | (reduced) "max n 1 < lg_units g" "g' = g\<lparr>lg_units := max n 1\<rparr>" "lg_upstream g < length (in_states (r_inner r))"
      "r' = update_state (lg_upstream g) (\<lambda>s. s\<lparr>us_load := us_load s - (lg_units g - max n 1)\<rparr>) r"
proof (cases "lg_released g \<or> lg_units g \<le> max n 1 \<or> \<not> lg_upstream g < length (in_states (r_inner r))")
  case True
  then have "reduce_to n g r = (False, g, r)" by (auto simp: reduce_to_def Let_def get_def)
  then show ?thesis using assms same by simp
next
  case False
  then have "reduce_to n g r = (True, g\<lparr>lg_units := max n 1\<rparr>,
      update_state (lg_upstream g) (\<lambda>s. s\<lparr>us_load := us_load s - (lg_units g - max n 1)\<rparr>) r)"
    by (simp add: reduce_to_def Let_def get_def)
  then show ?thesis using assms False by (intro reduced) auto
qed

lemma load_inv_reduce:
  assumes inv: "load_inv (r, gs)" and k: "k < length gs" and run: "reduce_to n (gs ! k) r = (b, g', r')"
  shows "load_inv (r', gs[k := g'])"
  using run
proof (cases rule: reduce_cases)
  case same
  with inv show ?thesis by simp
next
  case reduced
  have rel: "\<not> lg_released (gs ! k)" using inv k by (simp add: load_inv_def)
  have "set (gs[k := g']) \<subseteq> insert g' (set gs)" by (rule set_update_subset_insert)
  moreover have "\<not> lg_released g' \<and> 1 \<le> lg_units g'" using rel reduced by simp
  ultimately show ?thesis
    using inv live_remove [OF k] reduced(1,2) unfolding reduced(4)
    by (auto simp: load_inv_def update_state_nth)
qed

lemma acquire_gated_Some:
  assumes "acquire_gated u n h r = (Some g, r')"
  shows "u < length (in_states (r_inner r))" "\<not> us_drained (in_states (r_inner r) ! u)"
    "h \<Longrightarrow> serving (in_states (r_inner r) ! u)"
    "lg_upstream g = u" "lg_units g = max n 1" "\<not> lg_released g" "r' = update_state u (reserve (max n 1)) r"
  using assms by (auto simp: acquire_gated_def Let_def get_def split: if_splits option.splits)

lemma acquire_gated_None: "acquire_gated u n h r = (None, r') \<Longrightarrow> r' = r"
  by (auto simp: acquire_gated_def Let_def split: if_splits option.splits)

lemma route_keeps_states:
  "route_fingerprints ops b fps f p adv now r = Some (x, r') \<Longrightarrow> in_states (r_inner r') = in_states (r_inner r)"
  by (auto simp: route_fingerprints_def Let_def split: if_splits)

lemma dispatch_step_inv:
  assumes "dispatch_step ops st st'" and "load_inv st"
  shows "load_inv st'"
  using assms
proof (induction rule: dispatch_step.induct)
  case (step_gated u n r h g r' gs)
  note g = acquire_gated_Some [OF step_gated(2)]
  show ?case unfolding g(7) by (rule load_inv_reserve [OF step_gated(3,1) g(4-6)])
next
  case (step_refused u n h r r' gs)
  then show ?case using acquire_gated_None by blast
next
  case (step_reduce k gs n r b g r')
  then show ?case by (blast intro: load_inv_reduce)
next
  case (step_release k gs r)
  then show ?case unfolding release_is_drop by (blast intro: load_inv_release)
next
  case (step_drop k gs r)
  then show ?case by (blast intro: load_inv_release)
next
  case (step_route b fps f p adv now r x r' gs)
  show ?case by (rule load_inv_same [OF step_route(2)]) (simp_all add: route_keeps_states [OF step_route(1)])
next
  case (step_mask r gs flags)
  then show ?case by (rule load_inv_same) (auto simp: set_drained_mask_def)
qed (simp_all add: set_healthy_def set_drained_def observe_at_def forget_def load_inv_update Let_def split: option.splits)

lemma load_step_inv: "load_step ops st st' \<Longrightarrow> load_inv st \<Longrightarrow> load_inv st'"
proof (induction rule: load_step.induct)
  case (step_acquire u n r g r' gs)
  then show ?case using load_inv_reserve [OF step_acquire(3,1), of g] by (auto simp: acquire_def Let_def)
qed (rule dispatch_step_inv)

lemma load_run_inv: "(load_step ops)\<^sup>*\<^sup>* st st' \<Longrightarrow> load_inv st \<Longrightarrow> load_inv st'"
  by (induction rule: rtranclp_induct) (auto intro: load_step_inv)

lemma router_new_inv: "router_new ops c = Some r \<Longrightarrow> load_inv (r, [])"
  by (auto simp: router_new_def load_inv_def fresh_state_def split: if_splits option.splits)

section \<open>Properties\<close>

text \<open>
  C31. Load is conserved. From a new router, after any run of routing passes, acquisitions,
  reductions, releases, drops, health and drain changes and index updates in which no counter
  overflows \<open>usize\<close>, the in-flight count of every upstream is the number of live guards on it and its
  load is the sum of the units they hold; with no guard alive both are zero.
\<close>

theorem load_conserved:
  assumes "router_new ops c = Some r" and "(load_step ops)\<^sup>*\<^sup>* (r, []) (r', gs)"
    and "i < length (in_states (r_inner r'))"
  shows "us_inflight (in_states (r_inner r') ! i) = length (filter (\<lambda>g. lg_upstream g = i) gs) \<and>
    us_load (in_states (r_inner r') ! i) = sum_list (map lg_units (filter (\<lambda>g. lg_upstream g = i) gs))"
  using load_run_inv [OF assms(2) router_new_inv [OF assms(1)]] assms(3)
  by (simp add: load_inv_def live_def held_def)

lemma update_state_inflight:
  "(\<And>s. us_inflight (f s) \<le> us_inflight s) \<Longrightarrow> inflight u (update_state v f r) \<le> inflight u r"
  by (auto simp: inflight_def update_state_def get_def nth_list_update split: option.splits)

lemma dispatch_step_drained:
  assumes "dispatch_step ops st st'" and "drained u (fst st)"
  shows "inflight u (fst st') \<le> inflight u (fst st) \<and> live u (snd st') \<le> live u (snd st)"
  using assms
proof (induction rule: dispatch_step.induct)
  case (step_gated v n r h g r' gs)
  note g = acquire_gated_Some [OF step_gated(2)]
  have "v \<noteq> u" using step_gated(3) g(1,2) by (auto simp: drained_def get_def)
  moreover have "inflight u (update_state v f r) = inflight u r" if "v \<noteq> u" for f
    using that by (auto simp: inflight_def update_state_def get_def split: option.splits)
  ultimately show ?case using g by simp
next
  case (step_refused v n h r r' gs)
  then show ?case using acquire_gated_None [OF step_refused(1)] by simp
next
  case (step_reduce k gs n r b g r')
  from step_reduce(2) show ?case
  proof (cases rule: reduce_cases)
    case same
    then show ?thesis by simp
  next
    case reduced
    then show ?thesis using live_remove(1,3) [OF step_reduce(1)] unfolding reduced(4)
      by (simp add: update_state_inflight)
  qed
next
  case (step_release k gs r)
  then show ?case using live_remove(1) [OF step_release(1), of u]
    by (simp add: release_is_drop drop_guard_def do_release_def update_state_inflight)
next
  case (step_drop k gs r)
  then show ?case using live_remove(1) [OF step_drop(1), of u]
    by (simp add: drop_guard_def do_release_def update_state_inflight)
next
  case (step_mask r gs flags)
  then show ?case by (auto simp: set_drained_mask_def inflight_def get_def)
next
  case (step_route b fps f p adv now r x r' gs)
  then show ?case using route_keeps_states [OF step_route(1)] by (simp add: inflight_def)
qed (simp_all add: set_healthy_def set_drained_def observe_at_def forget_def update_state_inflight Let_def split: option.splits)

text \<open>
  A drained replica only empties. While the drain fence of an upstream stays up, no gated
  acquisition (serving or failing open) is granted on it, so along any run of dispatches neither its
  in-flight count nor the number of its guards grows.
\<close>

theorem drained_replica_only_empties:
  assumes "(\<lambda>st st'. dispatch_step ops st st' \<and> drained u (fst st'))\<^sup>*\<^sup>* (r, gs) (r', gs')" and "drained u r"
  shows "inflight u r' \<le> inflight u r \<and> live u gs' \<le> live u gs \<and> acquire_gated u n h r' = (None, r')"
proof -
  have "drained u (fst st') \<and> inflight u (fst st') \<le> inflight u r \<and> live u (snd st') \<le> live u gs"
    if "(\<lambda>st st'. dispatch_step ops st st' \<and> drained u (fst st'))\<^sup>*\<^sup>* (r, gs) st'" for st'
    using that
  proof (induction rule: rtranclp_induct)
    case (step st1 st2)
    then show ?case using dispatch_step_drained [of ops st1 st2 u] by fastforce
  qed (simp add: assms(2))
  from this [OF assms(1)] show ?thesis
    by (auto simp: drained_def acquire_gated_def Let_def split: option.splits)
qed

lemma drop_all_run: "(dispatch_step ops)\<^sup>*\<^sup>* (r, gs) (fold drop_guard gs r, [])"
proof (induction gs arbitrary: r)
  case (Cons g gs)
  have "dispatch_step ops (r, g # gs) (drop_guard g r, gs)"
    using dispatch_step.step_drop [of 0 "g # gs" ops r] by (simp add: remove_at_def)
  then show ?case using Cons.IH [of "drop_guard g r"] by (auto intro: converse_rtranclp_into_rtranclp)
qed simp

lemma dispatch_is_load: "(dispatch_step ops)\<^sup>*\<^sup>* st st' \<Longrightarrow> (load_step ops)\<^sup>*\<^sup>* st st'"
  by (induction rule: rtranclp_induct) (auto intro: rtranclp.rtrancl_into_rtrancl step_dispatch)


section \<open>A concrete run\<close>

definition load_config :: router_config where
  "load_config = \<lparr>rc_upstreams = [''http://a'', ''http://b''], rc_alpha = Finite 4, rc_chunk_bytes = 2048,
     rc_max_prefix_bytes = 65536, rc_max_overlap_blocks = 64, rc_index_capacity = 3, rc_load_unit_bytes = 4096,
     rc_max_load_units = 8, rc_projected_load = True, rc_speculation_mode = Spec_Off,
     rc_speculation_profiles = [Profile_Standard, Profile_Standard], rc_affinity = Affinity_Prefix,
     rc_affinity_horizon = \<lparr>horizon_mode = Horizon_Off, horizon_source = None\<rparr>,
     rc_affinity_basis = Absolute, rc_affinity_groups = []\<rparr>"

definition load_router :: "(nat \<times> (u64 \<times> nat) list) router" where
  "load_router = \<lparr>r_config = load_config,
     r_load_estimator = \<lparr>est_chunk_bytes = 2048, load_unit_bytes = 4096, max_load_units = 8\<rparr>,
     r_inner = \<lparr>in_states = [fresh_state list_lru 3 Unbounded, fresh_state list_lru 3 Unbounded], in_rr = 0\<rparr>\<rparr>"

lemma load_router_new: "router_new list_lru load_config = Some load_router"
  by (simp add: router_new_def load_config_def load_router_def from_router_config_def estimator_new_def estimators_def
      numeral_2_eq_2)

definition busy_router :: "(nat \<times> (u64 \<times> nat) list) router" where
  "busy_router = snd (acquire_if_healthy 1 5 load_router)"

definition busy_guard :: load_guard where
  "busy_guard = \<lparr>lg_upstream = 1, lg_units = 5, lg_released = False\<rparr>"

lemma busy_step: "dispatch_step list_lru (load_router, []) (busy_router, [busy_guard])"
proof -
  have "acquire_gated 1 5 True load_router = (Some busy_guard, busy_router)"
    by (simp add: busy_router_def busy_guard_def acquire_if_healthy_def acquire_gated_def load_router_def get_def
        fresh_state_def serving_def)
  moreover have "fits 1 5 load_router" by (simp add: fits_def load_router_def get_def fresh_state_def usize_max_eq)
  ultimately show ?thesis by (intro dispatch_step.step_gated)
qed

lemma busy_run: "(load_step list_lru)\<^sup>*\<^sup>* (load_router, []) (busy_router, [busy_guard])"
  by (rule r_into_rtranclp) (rule step_dispatch, rule busy_step)

lemma busy_length: "length (in_states (r_inner busy_router)) = 2"
  by (simp add: busy_router_def acquire_if_healthy_def acquire_gated_def load_router_def get_def update_state_def Let_def)

theorem load_conserved_witness:
  "us_inflight (in_states (r_inner busy_router) ! 1) = 1 \<and> us_load (in_states (r_inner busy_router) ! 1) = 5"
  using load_conserved [OF load_router_new busy_run, of 1] busy_length by (simp add: busy_guard_def)

theorem drained_replica_only_empties_witness:
  "inflight 1 (drop_guard busy_guard (set_drained 1 True busy_router)) \<le> inflight 1 (set_drained 1 True busy_router) \<and>
   acquire_gated 1 3 False (drop_guard busy_guard (set_drained 1 True busy_router)) =
     (None, drop_guard busy_guard (set_drained 1 True busy_router))"
proof -
  let ?r = "set_drained 1 True busy_router"
  have d: "drained 1 ?r" using busy_length by (simp add: drained_def set_drained_def get_def update_state_nth)
  have d': "drained 1 (drop_guard busy_guard ?r)"
    using busy_length by (simp add: drained_def set_drained_def drop_guard_def do_release_def get_def update_state_nth)
  have "dispatch_step list_lru (?r, [busy_guard]) (drop_guard busy_guard ?r, [])"
    using dispatch_step.step_drop [of 0 "[busy_guard]" list_lru ?r] by (simp add: remove_at_def)
  then have "(\<lambda>st st'. dispatch_step list_lru st st' \<and> drained 1 (fst st'))\<^sup>*\<^sup>* (?r, [busy_guard]) (drop_guard busy_guard ?r, [])"
    using d' by (intro r_into_rtranclp) simp
  then show ?thesis using drained_replica_only_empties [OF _ d, of list_lru "[busy_guard]" _ "[]" 3 False] by blast
qed


end
