(* ===== verification/Long_Prompt_Lane.thy ===== *)
theory Long_Prompt_Lane
  imports Router_Decision
begin

text \<open>
  \<^verbatim>\<open>src/long_prompt_lane.rs\<close>: very long prompts are confined to designated replicas, and an exclusive
  lane keeps short prompts off them. \<open>None\<close> is the panic of an index out of range. The main result is
  that the rule only ever removes candidates, never panics on an aligned mask, and keeps a serving
  candidate whenever it restricts.
\<close>

section \<open>Model\<close>

datatype long_prompt_lane_sharing = Shared | Exclusive

datatype long_prompt_lane_outcome =
  Lane_Off | Lane_Below | NoLane | Lane | Lane_Fallback | Excluded | ExcludedFallback

fun lane_label :: "long_prompt_lane_outcome \<Rightarrow> string" where
  "lane_label Lane_Off = ''off''"
| "lane_label Lane_Below = ''below''"
| "lane_label NoLane = ''no_lane''"
| "lane_label Lane = ''lane''"
| "lane_label Lane_Fallback = ''fallback''"
| "lane_label Excluded = ''excluded''"
| "lane_label ExcludedFallback = ''excluded_fallback''"

definition lane_counted :: "long_prompt_lane_outcome \<Rightarrow> bool" where
  "lane_counted oc \<longleftrightarrow> oc = Lane \<or> oc = Lane_Fallback"

definition short_counted :: "long_prompt_lane_outcome \<Rightarrow> bool" where
  "short_counted oc \<longleftrightarrow> oc = Excluded \<or> oc = ExcludedFallback"

definition is_member :: "bool list \<Rightarrow> nat \<Rightarrow> bool" where
  "is_member members upstream = (case get members upstream of None \<Rightarrow> False | Some b \<Rightarrow> b)"

fun mark :: "(nat \<Rightarrow> bool) \<Rightarrow> nat list \<Rightarrow> bool list \<Rightarrow> bool \<Rightarrow> (bool list \<times> bool) option" where
  "mark p [] m any = Some (m, any)"
| "mark p (u # us) m any =
    (if p u then (if u < length m then mark p us (m[u := True]) True else None)
     else mark p us m any)"

definition select ::
  "nat \<Rightarrow> nat \<Rightarrow> bool list \<Rightarrow> long_prompt_lane_sharing \<Rightarrow> nat list \<Rightarrow> (nat \<Rightarrow> bool)
     \<Rightarrow> (long_prompt_lane_outcome \<times> bool list option) option" where
  "select prompt_bytes threshold_bytes members sharing cands serves =
    (if threshold_bytes = 0 \<or> members = [] then Some (Lane_Off, None)
     else if prompt_bytes < threshold_bytes then
       (if sharing = Shared \<or> \<not> list_ex (is_member members) cands \<or> list_all (is_member members) cands
        then Some (Lane_Below, None)
        else (case mark (\<lambda>u. \<not> is_member members u \<and> serves u) cands (replicate (length members) False) False of
            None \<Rightarrow> None
          | Some (m, any) \<Rightarrow> Some (if any then (Excluded, Some m) else (ExcludedFallback, None))))
     else if \<not> list_ex (is_member members) cands then Some (NoLane, None)
     else (case mark (\<lambda>u. is_member members u \<and> serves u) cands (replicate (length members) False) False of
            None \<Rightarrow> None
          | Some (m, any) \<Rightarrow> Some (if any then (Lane, Some m) else (Lane_Fallback, None))))"

definition serving_in :: "decision \<Rightarrow> nat \<Rightarrow> bool" where
  "serving_in d upstream = list_ex (\<lambda>s. cs_index s = upstream \<and> cs_healthy s) (candidate_states d)"

definition confine_with_failover ::
  "decision \<Rightarrow> nat \<Rightarrow> nat \<Rightarrow> bool list \<Rightarrow> long_prompt_lane_sharing
     \<Rightarrow> (long_prompt_lane_outcome \<times> nat list \<times> decision) option" where
  "confine_with_failover d prompt_bytes threshold_bytes members sharing =
    (case select prompt_bytes threshold_bytes members sharing (candidates d) (serving_in d) of
       None \<Rightarrow> None
     | Some (oc, None) \<Rightarrow> Some (oc, [], d)
     | Some (oc, Some m) \<Rightarrow>
        if oc = Excluded \<and> list_ex (\<lambda>u. length m \<le> u) (candidates d) then None
        else
          let failover = (if oc = Excluded
              then filter (\<lambda>u. \<not> m ! u \<and> serving_in d u) (candidates d) else [])
          in case restrict_to m d of
               None \<Rightarrow> None
             | Some (d', True) \<Rightarrow> Some (oc, failover, d')
             | Some (d', False) \<Rightarrow>
                 Some (if oc = Excluded then ExcludedFallback else Lane_Fallback, [], d'))"

section \<open>Masks\<close>

lemma mark_spec:
  assumes "\<forall>u \<in> set us. p u \<longrightarrow> u < length m"
  shows "mark p us m any = Some (map (\<lambda>i. m ! i \<or> (i \<in> set us \<and> p i)) [0..<length m], any \<or> list_ex p us)"
  using assms
proof (induction us arbitrary: m any)
  case Nil
  then show ?case by (simp add: map_nth)
next
  case (Cons u us)
  have "map (\<lambda>i. (m[u := True]) ! i \<or> (i \<in> set us \<and> p i)) [0..<length m] =
      map (\<lambda>i. m ! i \<or> (i \<in> set (u # us) \<and> p i)) [0..<length m]" if "p u"
    using that Cons.prems by (auto simp: nth_list_update)
  moreover have "map (\<lambda>i. m ! i \<or> (i \<in> set us \<and> p i)) [0..<length m] =
      map (\<lambda>i. m ! i \<or> (i \<in> set (u # us) \<and> p i)) [0..<length m]" if "\<not> p u"
    using that by auto
  ultimately show ?case using Cons by auto
qed

lemma mark_fresh:
  assumes "\<forall>u \<in> set us. p u \<longrightarrow> u < n"
  shows "mark p us (replicate n False) False = Some (map (\<lambda>i. i \<in> set us \<and> p i) [0..<n], list_ex p us)"
  using mark_spec [of us p "replicate n False" False] assms by (simp cong: map_cong)

lemma eligible_mask:
  "eligible_at (map (\<lambda>i. i \<in> set us \<and> p i) [0..<n]) i \<longleftrightarrow> i < n \<and> i \<in> set us \<and> p i"
  by (simp add: eligible_at_def get_def)

text \<open>What the rule does to the decision, by outcome.\<close>

definition lane_keeps :: "bool list \<Rightarrow> long_prompt_lane_outcome \<Rightarrow> nat \<Rightarrow> bool" where
  "lane_keeps members oc u \<longleftrightarrow> (oc = Lane \<longrightarrow> is_member members u) \<and> (oc = Excluded \<longrightarrow> \<not> is_member members u)"

lemma select_spec:
  assumes "\<forall>u \<in> set cands. u < length members"
  shows "\<exists>oc mo. select pb tb members sharing cands serves = Some (oc, mo) \<and>
    (mo \<noteq> None \<longleftrightarrow> oc \<in> {Lane, Excluded}) \<and>
    (oc \<in> {Lane, Excluded} \<longrightarrow>
       mo = Some (map (\<lambda>i. i \<in> set cands \<and> lane_keeps members oc i \<and> serves i) [0..<length members]) \<and>
       (\<exists>u \<in> set cands. lane_keeps members oc u \<and> serves u))"
proof -
  have "\<forall>u \<in> set cands. p u \<longrightarrow> u < length members" for p using assms by blast
  note fresh = mark_fresh [OF this]
  show ?thesis
    by (auto simp: select_def fresh lane_keeps_def list_ex_iff)
qed

section \<open>The rule as a restriction\<close>

lemma confine_unrestricted:
  "select pb tb members sharing (candidates d) (serving_in d) = Some (oc, None) \<Longrightarrow>
    confine_with_failover d pb tb members sharing = Some (oc, [], d)"
  by (simp add: confine_with_failover_def)

lemma confine_restricted:
  assumes wf: "decision_wf d" and len: "length members = length (candidate_states d)"
    and bound: "\<forall>c \<in> set (candidate_states d). cs_index c < length members"
    and sel: "select pb tb members sharing (candidates d) (serving_in d) = Some (oc, Some m)"
    and m: "m = map (\<lambda>i. i \<in> set (candidates d) \<and> lane_keeps members oc i \<and> serving_in d i) [0..<length members]"
    and some: "\<exists>u \<in> set (candidates d). lane_keeps members oc u \<and> serving_in d u"
  shows "\<exists>failover d'. confine_with_failover d pb tb members sharing = Some (oc, failover, d') \<and> decision_wf d' \<and>
    candidates d' = filter (\<lambda>u. lane_keeps members oc u \<and> serving_in d u) (candidates d) \<and>
    failover = (if oc = Excluded then filter (\<lambda>u. is_member members u \<and> serving_in d u) (candidates d) else [])"
proof -
  obtain rest where D: "map cs_index (candidate_states d) = candidates d @ rest"
    "distinct (map cs_index (candidate_states d))"
    using wf by (rule decision_wfD)
  have cand: "u < length members" if "u \<in> set (candidates d)" for u
  proof -
    have "u \<in> set (map cs_index (candidate_states d))" using that unfolding D(1) by simp
    then show ?thesis using bound by auto
  qed
  have el: "eligible_at m u \<longleftrightarrow> u < length members \<and> u \<in> set (candidates d) \<and> lane_keeps members oc u \<and> serving_in d u" for u
    unfolding m by (rule eligible_mask)
  have rest: "\<forall>i \<in> set rest'. \<not> eligible_at m i" if "map cs_index (candidate_states d) = candidates d @ rest'" for rest'
    using D that el by auto
  have lm: "length m = length members" by (simp add: m)
  have ne: "filter (eligible_at m) (candidates d) \<noteq> []" using some cand el by (auto simp: filter_empty_conv)
  obtain d' ok where r: "restrict_to m d = Some (d', ok)" using restrict_to_total [OF wf, of m] by auto
  have ok: "ok" using r lm len bound ne
    by (auto simp: restrict_to_def Let_def list_ex_iff split: if_splits option.splits)
  with r have run: "restrict_to m d = Some (d', True)" by simp
  have res: "decision_wf d' \<and> candidates d' = filter (eligible_at m) (candidates d)"
    by (rule restrict_to_wf [OF wf rest run])
  have keep: "filter (eligible_at m) (candidates d) = filter (\<lambda>u. lane_keeps members oc u \<and> serving_in d u) (candidates d)"
    using cand el by (auto intro!: filter_cong)
  have fo: "filter (\<lambda>u. \<not> m ! u \<and> serving_in d u) (candidates d) =
      filter (\<lambda>u. is_member members u \<and> serving_in d u) (candidates d)" if "oc = Excluded"
    using cand that by (auto simp: m lane_keeps_def intro!: filter_cong)
  have "\<not> list_ex (\<lambda>u. length m \<le> u) (candidates d)" using cand lm by (auto simp: list_ex_iff not_le)
  then show ?thesis using sel run res keep fo by (auto simp: confine_with_failover_def)
qed

text \<open>
  The lane rule is a restriction, never an expansion, and never leaves a request without a
  serving replica. On a well-formed decision and an aligned member mask it does not panic and
  keeps the decision well-formed. Outcome \<open>Lane\<close> leaves exactly the serving lane members, \<open>Excluded\<close>
  exactly the serving replicas off the lane (with the serving lane members as failover), both
  non-empty and in the original order; every other outcome leaves the decision as it was.
\<close>

theorem lane_restricts_only:
  assumes "decision_wf d" and "length members = length (candidate_states d)"
    and "\<forall>c \<in> set (candidate_states d). cs_index c < length members"
  shows "\<exists>oc failover d'. confine_with_failover d prompt_bytes threshold_bytes members sharing = Some (oc, failover, d') \<and>
    decision_wf d' \<and>
    (if oc \<in> {Lane, Excluded}
     then candidates d' = filter (\<lambda>u. lane_keeps members oc u \<and> serving_in d u) (candidates d)
     else d' = d) \<and>
    failover = (if oc = Excluded then filter (\<lambda>u. is_member members u \<and> serving_in d u) (candidates d) else [])"
proof -
  obtain rest where D: "map cs_index (candidate_states d) = candidates d @ rest"
    using assms(1) by (rule decision_wfD)
  have "\<forall>u \<in> set (candidates d). u < length members"
  proof
    fix u assume "u \<in> set (candidates d)"
    then have "u \<in> set (map cs_index (candidate_states d))" unfolding D by simp
    then show "u < length members" using assms(3) by auto
  qed
  from select_spec [OF this, of prompt_bytes threshold_bytes sharing "serving_in d"] obtain oc mo where
    sel: "select prompt_bytes threshold_bytes members sharing (candidates d) (serving_in d) = Some (oc, mo)"
    "mo \<noteq> None \<longleftrightarrow> oc \<in> {Lane, Excluded}"
    "oc \<in> {Lane, Excluded} \<longrightarrow>
       mo = Some (map (\<lambda>i. i \<in> set (candidates d) \<and> lane_keeps members oc i \<and> serving_in d i) [0..<length members]) \<and>
       (\<exists>u \<in> set (candidates d). lane_keeps members oc u \<and> serving_in d u)" by blast
  show ?thesis
  proof (cases "oc \<in> {Lane, Excluded}")
    case False
    then have "mo = None" using sel(2) by simp
    then show ?thesis using confine_unrestricted [of prompt_bytes threshold_bytes members sharing d oc] sel(1) assms(1) False
      by auto
  next
    case True
    with sel(3) have mo: "mo = Some (map (\<lambda>i. i \<in> set (candidates d) \<and> lane_keeps members oc i \<and> serving_in d i) [0..<length members])"
      and some: "\<exists>u \<in> set (candidates d). lane_keeps members oc u \<and> serving_in d u" by blast+
    from confine_restricted [OF assms sel(1) [unfolded mo] refl some] True show ?thesis by auto
  qed
qed

theorem lane_restricts_only_witness:
  "\<exists>failover d'. confine_with_failover sample_decision 5 100 [False, True, False] Exclusive = Some (Excluded, failover, d') \<and>
     candidates d' = [0, 2] \<and> failover = [1]"
proof -
  have wf: "decision_wf sample_decision"
    by (simp add: decision_wf_def sample_decision_def sample_candidate_def upt_rec)
  have pre: "length [False, True, False] = length (candidate_states sample_decision)"
    "\<forall>c \<in> set (candidate_states sample_decision). cs_index c < length [False, True, False]"
    by (simp_all add: sample_decision_def sample_candidate_def)
  have sel: "select 5 100 [False, True, False] Exclusive (candidates sample_decision) (serving_in sample_decision) =
      Some (Excluded, Some [True, False, True])"
    by (simp add: select_def sample_decision_def sample_candidate_def is_member_def get_def serving_in_def numeral_3_eq_3 numeral_2_eq_2)
  have fields: "candidates sample_decision = [0, 1, 2]" "serving_in sample_decision 0" "serving_in sample_decision 1"
    "serving_in sample_decision 2"
    by (simp_all add: sample_decision_def sample_candidate_def serving_in_def)
  obtain oc failover d' where run: "confine_with_failover sample_decision 5 100 [False, True, False] Exclusive = Some (oc, failover, d')"
    "if oc \<in> {Lane, Excluded}
     then candidates d' = filter (\<lambda>u. lane_keeps [False, True, False] oc u \<and> serving_in sample_decision u) (candidates sample_decision)
     else d' = sample_decision"
    "failover = (if oc = Excluded then filter (\<lambda>u. is_member [False, True, False] u \<and> serving_in sample_decision u) (candidates sample_decision) else [])"
    using lane_restricts_only [OF wf pre, of 5 100 Exclusive] by blast
  have "oc = Excluded"
    using run(1) sel by (auto simp: confine_with_failover_def restrict_to_def Let_def fields list_ex_iff
        eligible_at_def get_def sample_decision_def sample_candidate_def split: if_splits option.splits bool.splits)
  with run fields show ?thesis by (simp add: lane_keeps_def is_member_def get_def)
qed

end
