(* ===== verification/Long_Session.thy ===== *)
theory Long_Session
  imports Router_Decision F64
begin

text \<open>
  \<^verbatim>\<open>src/long_session.rs\<close>: a per-replica model of which long conversations are resident, used to move a
  long prompt off a replica whose other conversations leave no room for it. Token counts are \<open>u64\<close>
  values; sums and differences of the release build wrap. \<open>None\<close> is the panic of an index out of
  range. Proved: the residency model stays within its bounds, and placement only ever moves a
  request to the best-ranked serving candidate that has room.
\<close>

section \<open>Model\<close>

definition max_residents :: nat where
  "max_residents = 16"

definition default_tokens_per_block :: f64 where
  "default_tokens_per_block = Finite 512"

record long_session_config =
  threshold_tokens :: nat
  lsc_capacity_tokens :: "nat option list"
  ttl :: nat

definition long_session_off :: long_session_config where
  "long_session_off = \<lparr>threshold_tokens = 0, lsc_capacity_tokens = [], ttl = duration_from_secs (30 * 60)\<rparr>"

definition long_session_enabled :: "long_session_config \<Rightarrow> bool" where
  "long_session_enabled c \<longleftrightarrow> 0 < threshold_tokens c"

datatype long_session_outcome = LS_Off | LS_Below | Fits | LS_Moved | AllCrowded

fun long_session_label :: "long_session_outcome \<Rightarrow> string" where
  "long_session_label LS_Off = ''off''"
| "long_session_label LS_Below = ''below''"
| "long_session_label Fits = ''fits''"
| "long_session_label LS_Moved = ''moved''"
| "long_session_label AllCrowded = ''all_crowded''"

record long_session_observation =
  lso_outcome :: string
  estimated_ktokens :: nat

definition long_session_observation_off :: long_session_observation where
  "long_session_observation_off = \<lparr>lso_outcome = long_session_label LS_Off, estimated_ktokens = 0\<rparr>"

definition long_session_counted :: "long_session_observation \<Rightarrow> bool" where
  "long_session_counted ob \<longleftrightarrow> lso_outcome ob \<noteq> ''off'' \<and> lso_outcome ob \<noteq> ''below''"

record resident =
  rs_fingerprints :: "u64 list"
  rs_tokens :: nat
  last_served :: nat

definition continued_by :: "u64 list \<Rightarrow> resident \<Rightarrow> bool" where
  "continued_by fps s =
    (let shared = length (takeWhile (\<lambda>(l, r). l = r) (zip (rs_fingerprints s) fps))
     in rs_fingerprints s \<noteq> [] \<and> length (rs_fingerprints s) \<le> shared * 2)"

record session_state =
  residents :: "resident list list"
  tokens_per_block :: f64

record long_sessions =
  ls_config :: long_session_config
  ls_max_blocks :: nat
  ls_state :: session_state

record evicted_blocks =
  ev_upstream :: nat
  ev_fingerprints :: "u64 list"
  ev_served_before :: "nat option"

definition long_sessions_new :: "long_session_config \<Rightarrow> nat \<Rightarrow> nat \<Rightarrow> long_sessions" where
  "long_sessions_new c upstreams max_blocks = \<lparr>ls_config = c, ls_max_blocks = max_blocks,
     ls_state = \<lparr>residents = replicate upstreams [], tokens_per_block = default_tokens_per_block\<rparr>\<rparr>"

definition session_capacity :: "long_session_config \<Rightarrow> nat \<Rightarrow> nat option" where
  "session_capacity c upstream = (case get (lsc_capacity_tokens c) upstream of None \<Rightarrow> None | Some x \<Rightarrow> x)"

text \<open>\<open>Iterator::sum\<close> on \<open>u64\<close> and subtraction, without overflow checks.\<close>

definition sum_u64 :: "nat list \<Rightarrow> nat" where
  "sum_u64 xs = sum_list xs mod 2 ^ 64"

definition wrap_sub :: "nat \<Rightarrow> nat \<Rightarrow> nat" where
  "wrap_sub a b = (a + 2 ^ 64 - b) mod 2 ^ 64"

definition expire :: "nat \<Rightarrow> nat \<Rightarrow> resident list list \<Rightarrow> resident list list" where
  "expire limit now rss = map (filter (\<lambda>s. saturating_duration_since now (last_served s) \<le> limit)) rss"

definition estimate_tokens :: "u64 list \<Rightarrow> session_state \<Rightarrow> nat" where
  "estimate_tokens fps st =
    (let recorded = foldr max (map rs_tokens (filter (continued_by fps) (concat (residents st)))) 0
     in max recorded (f64_to_u64 (f64_mul (f64_of_nat (length fps)) (tokens_per_block st))))"

definition session_fits :: "long_session_config \<Rightarrow> resident list list \<Rightarrow> u64 list \<Rightarrow> nat \<Rightarrow> nat \<Rightarrow> bool option" where
  "session_fits c rss fps estimated upstream =
    (case session_capacity c upstream of None \<Rightarrow> Some True
     | Some cap \<Rightarrow> (case get rss upstream of None \<Rightarrow> None
        | Some rs \<Rightarrow> let others = sum_u64 (map rs_tokens (filter (\<lambda>s. \<not> continued_by fps s) rs))
                    in Some (sat_add others estimated \<le> cap)))"

definition decision_serving :: "decision \<Rightarrow> nat \<Rightarrow> bool" where
  "decision_serving d upstream = list_ex (\<lambda>c. cs_index c = upstream \<and> cs_healthy c) (candidate_states d)"

fun find_alternative :: "(nat \<Rightarrow> bool) \<Rightarrow> (nat \<Rightarrow> bool option) \<Rightarrow> nat list \<Rightarrow> nat option option" where
  "find_alternative ok has_room [] = Some None"
| "find_alternative ok has_room (u # us) =
    (if ok u then (case has_room u of None \<Rightarrow> None
        | Some True \<Rightarrow> Some (Some u) | Some False \<Rightarrow> find_alternative ok has_room us)
     else find_alternative ok has_room us)"

definition place ::
  "decision \<Rightarrow> u64 list \<Rightarrow> nat \<Rightarrow> long_sessions
     \<Rightarrow> (long_session_observation \<times> decision \<times> long_sessions) option" where
  "place d fps now ls =
    (let c = ls_config ls in
     if \<not> long_session_enabled c \<or> fps = [] then Some (long_session_observation_off, d, ls)
     else
       let st = (ls_state ls)\<lparr>residents := expire (ttl c) now (residents (ls_state ls))\<rparr>;
           ls1 = ls\<lparr>ls_state := st\<rparr>;
           estimated = estimate_tokens fps st;
           observation = (\<lambda>oc. \<lparr>lso_outcome = long_session_label oc, estimated_ktokens = div_ceil estimated 1000\<rparr>);
           has_room = session_fits c (residents st) fps estimated
       in if estimated < threshold_tokens c then Some (observation LS_Below, d, ls1)
       else (case candidates d of [] \<Rightarrow> Some (observation Fits, d, ls1)
         | chosen # _ \<Rightarrow> (case has_room chosen of None \<Rightarrow> None
            | Some True \<Rightarrow> Some (observation Fits, d, ls1)
            | Some False \<Rightarrow>
               (case find_alternative (\<lambda>u. u \<noteq> chosen \<and> u \<in> set (candidates d) \<and> decision_serving d u) has_room
                       (map cs_index (candidate_states d)) of
                  None \<Rightarrow> None
                | Some None \<Rightarrow> Some (observation AllCrowded, d, ls1)
                | Some (Some upstream) \<Rightarrow> (case promote upstream d of
                     (d', True) \<Rightarrow> Some (observation LS_Moved, d', ls1)
                   | (d', False) \<Rightarrow> Some (observation AllCrowded, d', ls1))))))"

fun evict_over :: "nat \<Rightarrow> nat \<Rightarrow> nat \<Rightarrow> resident list \<Rightarrow> resident list \<times> evicted_blocks list" where
  "evict_over upstream cap tot [] = ([], [])"
| "evict_over upstream cap tot (s # rs) =
    (if (cap < tot \<and> 1 < length (s # rs)) \<or> max_residents < length (s # rs)
     then let (kept, ev) = evict_over upstream cap (wrap_sub tot (rs_tokens s)) rs
          in (kept, \<lparr>ev_upstream = upstream, ev_fingerprints = rs_fingerprints s,
                     ev_served_before = Some (last_served s)\<rparr> # ev)
     else (s # rs, []))"

definition calibrate :: "long_session_config \<Rightarrow> nat \<Rightarrow> u64 list \<Rightarrow> nat \<Rightarrow> f64 \<Rightarrow> f64" where
  "calibrate c max_blocks fps prompt tpb =
    (if length fps < max_blocks then
       (let observed = f64_div (f64_of_nat prompt) (f64_of_nat (length fps))
        in if threshold_tokens c \<le> prompt \<and> is_finite observed \<and> f64_less (Finite 0) observed
           then f64_mul_add (f64_round (8 / 10)) tpb (f64_mul (f64_round (2 / 10)) observed) else tpb)
     else tpb)"

definition churned :: "nat \<Rightarrow> resident option \<Rightarrow> nat option \<Rightarrow> resident list \<Rightarrow> resident list \<times> evicted_blocks list" where
  "churned upstream previous cached rs =
    (case previous of None \<Rightarrow> (rs, [])
     | Some p \<Rightarrow>
        if sat_mul (case cached of None \<Rightarrow> 0 | Some x \<Rightarrow> x) 2 < rs_tokens p
        then (filter (\<lambda>s. \<not> last_served s \<le> last_served p) rs,
              map (\<lambda>s. \<lparr>ev_upstream = upstream, ev_fingerprints = rs_fingerprints s,
                       ev_served_before = Some (last_served s)\<rparr>) (filter (\<lambda>s. last_served s \<le> last_served p) rs))
        else (rs, []))"

definition take_previous :: "u64 list \<Rightarrow> resident list \<Rightarrow> resident option \<times> resident list" where
  "take_previous fps rs = (case position (continued_by fps) rs of None \<Rightarrow> (None, rs)
     | Some i \<Rightarrow> (Some (rs ! i), remove_at i rs))"

definition settle :: "long_session_config \<Rightarrow> nat \<Rightarrow> resident list \<Rightarrow> resident list \<times> evicted_blocks list" where
  "settle c upstream rs = (case session_capacity c upstream of
      Some cap \<Rightarrow>
        let sorted_rs = sort_by (\<lambda>a b. last_served b < last_served a) rs
        in evict_over upstream cap (sum_u64 (map rs_tokens sorted_rs)) sorted_rs
    | None \<Rightarrow>
        if max_residents < length rs
        then (remove_at 0 (sort_by (\<lambda>a b. last_served b < last_served a) rs), []) else (rs, []))"

definition served ::
  "nat \<Rightarrow> u64 list \<Rightarrow> nat option \<Rightarrow> nat option \<Rightarrow> nat \<Rightarrow> long_sessions \<Rightarrow> evicted_blocks list \<times> long_sessions" where
  "served upstream fps prompt_tokens cached_tokens now ls =
    (case prompt_tokens of None \<Rightarrow> ([], ls)
     | Some prompt \<Rightarrow>
       let c = ls_config ls; st = ls_state ls in
       if \<not> long_session_enabled c \<or> fps = [] then ([], ls)
       else if length (residents st) \<le> upstream then ([], ls)
       else
         let st1 = st\<lparr>tokens_per_block := calibrate c (ls_max_blocks ls) fps prompt (tokens_per_block st)\<rparr>
         in if prompt < threshold_tokens c then ([], ls\<lparr>ls_state := st1\<rparr>)
         else
           let rss = map (\<lambda>(i, rs). if i \<noteq> upstream then filter (\<lambda>s. \<not> continued_by fps s) rs else rs)
                       (zip [0..<length (residents st1)] (residents st1));
               (previous, rs1) = take_previous fps (rss ! upstream);
               (rs2, ev1) = churned upstream previous cached_tokens rs1;
               rs3 = rs2 @ [\<lparr>rs_fingerprints = fps, rs_tokens = prompt, last_served = now\<rparr>];
               (rs4, ev2) = settle c upstream rs3
           in (ev1 @ ev2, ls\<lparr>ls_state := st1\<lparr>residents := rss[upstream := rs4]\<rparr>\<rparr>))"

definition resident_tokens :: "long_sessions \<Rightarrow> nat list" where
  "resident_tokens ls = map (\<lambda>rs. sum_u64 (map rs_tokens rs)) (residents (ls_state ls))"

section \<open>Bounds of the residency model\<close>

definition bounded_residents :: "long_session_config \<Rightarrow> nat \<Rightarrow> resident list \<Rightarrow> bool" where
  "bounded_residents c u rs \<longleftrightarrow> length rs \<le> max_residents \<and> (\<forall>s \<in> set rs. threshold_tokens c \<le> rs_tokens s) \<and>
     (case session_capacity c u of None \<Rightarrow> True
      | Some cap \<Rightarrow> sum_list (map rs_tokens rs) \<le> cap \<or> length rs \<le> 1)"

definition sessions_wf :: "long_sessions \<Rightarrow> bool" where
  "sessions_wf ls \<longleftrightarrow> (\<forall>u < length (residents (ls_state ls)).
     bounded_residents (ls_config ls) u (residents (ls_state ls) ! u))"

lemma sum_filter_le: "sum_list (map f (filter p xs)) \<le> (sum_list (map f xs) :: nat)"
  by (induction xs) auto

lemma sum_remove_le: "sum_list (map f (remove_at k xs)) \<le> (sum_list (map f xs) :: nat)"
proof (cases "k < length xs")
  case True
  have "sum_list (map f xs) = sum_list (map f (take k xs @ xs ! k # drop (Suc k) xs))"
    using id_take_nth_drop [OF True] by simp
  then show ?thesis by (simp add: remove_at_def)
qed (simp add: remove_at_def)

lemma length_remove_le: "length (remove_at k xs) \<le> length xs"
  by (simp add: remove_at_def)

lemma set_remove_le: "set (remove_at k xs) \<subseteq> set xs"
  using set_take_subset [of k xs] set_drop_subset [of "Suc k" xs] by (auto simp: remove_at_def)

lemma bounded_mono:
  assumes "bounded_residents c u rs" and "length rs' \<le> length rs" "set rs' \<subseteq> set rs"
    "sum_list (map rs_tokens rs') \<le> sum_list (map rs_tokens rs)"
  shows "bounded_residents c u rs'"
proof -
  have "\<forall>s \<in> set rs'. threshold_tokens c \<le> rs_tokens s" using assms(1,3) by (auto simp: bounded_residents_def)
  then show ?thesis using assms(1,2,4)
    unfolding bounded_residents_def by (auto split: option.splits)
qed

lemma bounded_filter: "bounded_residents c u rs \<Longrightarrow> bounded_residents c u (filter p rs)"
  by (erule bounded_mono) (simp_all add: sum_filter_le)

lemma long_sessions_new_wf: "sessions_wf (long_sessions_new c n m)"
  by (auto simp: sessions_wf_def long_sessions_new_def bounded_residents_def split: option.splits)

lemma evict_over_spec:
  assumes "evict_over u cap tot rs = (kept, ev)" and "tot = sum_list (map rs_tokens rs)" and "tot \<le> usize_max"
  shows "\<exists>gone. rs = gone @ kept \<and> map ev_fingerprints ev = map rs_fingerprints gone \<and>
    length kept \<le> max_residents \<and> (sum_list (map rs_tokens kept) \<le> cap \<or> length kept \<le> 1)"
  using assms
proof (induction u cap tot rs arbitrary: kept ev rule: evict_over.induct)
  case (2 u cap tot s rs)
  show ?case
  proof (cases "(cap < tot \<and> 1 < length (s # rs)) \<or> max_residents < length (s # rs)")
    case True
    obtain kept' ev' where rec: "evict_over u cap (wrap_sub tot (rs_tokens s)) rs = (kept', ev')" by fastforce
    have "wrap_sub tot (rs_tokens s) = sum_list (map rs_tokens rs)"
      using "2.prems"(2,3) by (simp add: wrap_sub_def usize_max_def)
    with "2.IH" [OF True rec] "2.prems"(2,3) obtain gone where
      "rs = gone @ kept'" "map ev_fingerprints ev' = map rs_fingerprints gone"
      "length kept' \<le> max_residents" "sum_list (map rs_tokens kept') \<le> cap \<or> length kept' \<le> 1" by auto
    with "2.prems"(1) True rec show ?thesis by (intro exI [of _ "s # gone"]) auto
  next
    case False
    with "2.prems" show ?thesis by (intro exI [of _ "[]"]) auto
  qed
qed (simp add: max_residents_def)

lemma settle_bounded:
  assumes "length rs \<le> Suc max_residents" and "\<forall>s \<in> set rs. threshold_tokens c \<le> rs_tokens s"
    and "sum_list (map rs_tokens rs) \<le> usize_max"
  shows "bounded_residents c u (fst (settle c u rs))"
proof (cases "session_capacity c u")
  case None
  let ?sorted = "sort_by (\<lambda>a b. last_served b < last_served a) rs"
  have "set (remove_at 0 ?sorted) \<subseteq> set rs" using set_remove_le [of 0 ?sorted] by simp
  moreover have "length (remove_at 0 ?sorted) \<le> max_residents" using assms(1) by (simp add: remove_at_def)
  ultimately show ?thesis using None assms(2) by (auto simp: settle_def bounded_residents_def)
next
  case (Some cap)
  let ?sorted = "sort_by (\<lambda>a b. last_served b < last_served a) rs"
  obtain kept ev where run: "evict_over u cap (sum_u64 (map rs_tokens ?sorted)) ?sorted = (kept, ev)" by fastforce
  have "mset (map rs_tokens ?sorted) = mset (map rs_tokens rs)" by simp
  then have sum: "sum_list (map rs_tokens ?sorted) = sum_list (map rs_tokens rs)" by (metis sum_mset_sum_list)
  then have tot: "sum_u64 (map rs_tokens ?sorted) = sum_list (map rs_tokens ?sorted)"
    using assms(3) by (simp add: sum_u64_def usize_max_def)
  have "sum_u64 (map rs_tokens ?sorted) \<le> usize_max" using tot sum assms(3) by simp
  from evict_over_spec [OF run tot this] obtain gone where
    k: "?sorted = gone @ kept" "length kept \<le> max_residents" "sum_list (map rs_tokens kept) \<le> cap \<or> length kept \<le> 1" by auto
  have "set kept \<subseteq> set rs" using k(1) set_sort_by [of "\<lambda>a b. last_served b < last_served a" rs] by auto
  then show ?thesis using Some run k assms(2) by (auto simp: settle_def bounded_residents_def)
qed

lemma take_previous_bounds:
  assumes "take_previous fps rs = (p, rs')"
  shows "length rs' \<le> length rs" "set rs' \<subseteq> set rs" "sum_list (map rs_tokens rs') \<le> sum_list (map rs_tokens rs)"
proof -
  have "rs' = rs \<or> (\<exists>k. rs' = remove_at k rs)" using assms by (auto simp: take_previous_def split: option.splits)
  then consider "rs' = rs" | k where "rs' = remove_at k rs" by blast
  note cases = this
  show "length rs' \<le> length rs" by (cases rule: cases) (simp_all add: length_remove_le)
  show "set rs' \<subseteq> set rs" by (cases rule: cases) (simp_all add: set_remove_le)
  show "sum_list (map rs_tokens rs') \<le> sum_list (map rs_tokens rs)" by (cases rule: cases) (simp_all add: sum_remove_le)
qed

lemma churned_bounds:
  assumes "churned u p cached rs = (rs', ev)"
  shows "length rs' \<le> length rs" "set rs' \<subseteq> set rs" "sum_list (map rs_tokens rs') \<le> sum_list (map rs_tokens rs)"
  using assms sum_filter_le length_filter_le
  by (auto simp: churned_def split: option.splits if_splits)

lemma served_replicas:
  assumes "served upstream fps prompt cached now ls = (ev, ls')"
    and tracked: "prompt = Some n" "threshold_tokens (ls_config ls) \<le> n" "long_session_enabled (ls_config ls)" "fps \<noteq> []"
      "upstream < length (residents (ls_state ls))"
  obtains rs1 rs2 previous ev1 ev2 where
    "take_previous fps (residents (ls_state ls) ! upstream) = (previous, rs1)"
    "churned upstream previous cached rs1 = (rs2, ev1)"
    "ls_config ls' = ls_config ls" "length (residents (ls_state ls')) = length (residents (ls_state ls))"
    "residents (ls_state ls') ! upstream =
       fst (settle (ls_config ls) upstream (rs2 @ [\<lparr>rs_fingerprints = fps, rs_tokens = n, last_served = now\<rparr>]))"
    "\<And>v. v < length (residents (ls_state ls)) \<Longrightarrow> v \<noteq> upstream \<Longrightarrow>
       residents (ls_state ls') ! v = filter (\<lambda>s. \<not> continued_by fps s) (residents (ls_state ls) ! v)"
proof -
  obtain previous rs1 where p: "take_previous fps (residents (ls_state ls) ! upstream) = (previous, rs1)" by fastforce
  obtain rs2 ev1 where c: "churned upstream previous cached rs1 = (rs2, ev1)" by fastforce
  obtain rs4 ev2 where s: "settle (ls_config ls) upstream
      (rs2 @ [\<lparr>rs_fingerprints = fps, rs_tokens = n, last_served = now\<rparr>]) = (rs4, ev2)" by fastforce
  show ?thesis
    using assms(1) tracked p c s
    by (intro that [OF p c]) (auto simp: served_def Let_def not_le not_less)
qed

lemma served_bounded:
  assumes wf: "sessions_wf ls" and run: "served upstream fps prompt cached now ls = (ev, ls')"
    and room: "upstream < length (residents (ls_state ls)) \<Longrightarrow> prompt = Some n \<Longrightarrow>
      sum_list (map rs_tokens (residents (ls_state ls) ! upstream)) + n \<le> usize_max"
    and n: "prompt = None \<or> prompt = Some n"
  shows "sessions_wf ls'"
proof (cases "prompt = Some n \<and> threshold_tokens (ls_config ls) \<le> n \<and> long_session_enabled (ls_config ls) \<and> fps \<noteq> [] \<and>
    upstream < length (residents (ls_state ls))")
  case False
  then have "residents (ls_state ls') = residents (ls_state ls) \<and> ls_config ls' = ls_config ls"
    using run n by (auto simp: served_def Let_def split: if_splits option.splits)
  then show ?thesis using wf by (simp add: sessions_wf_def)
next
  case True
  then have t: "prompt = Some n" "threshold_tokens (ls_config ls) \<le> n" "long_session_enabled (ls_config ls)" "fps \<noteq> []"
    "upstream < length (residents (ls_state ls))" by auto
  let ?rs = "residents (ls_state ls) ! upstream"
  have b: "bounded_residents (ls_config ls) upstream ?rs" using wf t(5) by (simp add: sessions_wf_def)
  obtain rs1 rs2 previous ev1 where
    p: "take_previous fps ?rs = (previous, rs1)" "churned upstream previous cached rs1 = (rs2, ev1)" and
    fin: "ls_config ls' = ls_config ls" "length (residents (ls_state ls')) = length (residents (ls_state ls))"
    "residents (ls_state ls') ! upstream =
       fst (settle (ls_config ls) upstream (rs2 @ [\<lparr>rs_fingerprints = fps, rs_tokens = n, last_served = now\<rparr>]))"
    "\<And>v. v < length (residents (ls_state ls)) \<Longrightarrow> v \<noteq> upstream \<Longrightarrow>
       residents (ls_state ls') ! v = filter (\<lambda>s. \<not> continued_by fps s) (residents (ls_state ls) ! v)"
    using run t by (rule served_replicas) blast
  note le = take_previous_bounds [OF p(1)] churned_bounds [OF p(2)]
  have "length rs2 \<le> max_residents" using le b by (simp add: bounded_residents_def)
  moreover have "\<forall>s \<in> set rs2. threshold_tokens (ls_config ls) \<le> rs_tokens s"
    using le(2,5) b by (auto simp: bounded_residents_def)
  moreover have "sum_list (map rs_tokens rs2) + n \<le> usize_max" using room [OF t(5,1)] le(3,6) by linarith
  ultimately have "bounded_residents (ls_config ls) upstream (residents (ls_state ls') ! upstream)"
    unfolding fin(3) using t(2) by (intro settle_bounded) auto
  moreover have "bounded_residents (ls_config ls) v (residents (ls_state ls') ! v)"
    if "v < length (residents (ls_state ls))" "v \<noteq> upstream" for v
    using fin(4) [OF that] wf that by (simp add: sessions_wf_def bounded_filter)
  ultimately show ?thesis unfolding sessions_wf_def fin(1,2) by blast
qed

lemma place_bounded:
  assumes "sessions_wf ls" and "place d fps now ls = Some (ob, d', ls')"
  shows "sessions_wf ls'"
proof -
  have "ls' = ls \<or> ls' = ls\<lparr>ls_state := (ls_state ls)\<lparr>residents := expire (ttl (ls_config ls)) now (residents (ls_state ls))\<rparr>\<rparr>"
    using assms(2) by (auto simp: place_def Let_def split: if_splits list.splits option.splits bool.splits prod.splits)
  then show ?thesis using assms(1) by (auto simp: sessions_wf_def expire_def bounded_filter)
qed

section \<open>Placement\<close>

lemma find_alternative_spec:
  assumes "\<forall>u \<in> set us. ok u \<longrightarrow> has_room u \<noteq> None"
  shows "find_alternative ok has_room us = Some (List.find (\<lambda>u. ok u \<and> has_room u = Some True) us)"
  using assms by (induction us) (auto split: option.splits bool.splits)

lemma decision_serving_iff: "decision_serving d u \<longleftrightarrow> (\<exists>s \<in> set (candidate_states d). cs_index s = u \<and> cs_healthy s)"
  by (simp add: decision_serving_def list_ex_iff)

text \<open>The state a placement decides on, its estimate, and whether a replica has room.\<close>

definition placing :: "nat \<Rightarrow> long_sessions \<Rightarrow> session_state" where
  "placing now ls = (ls_state ls)\<lparr>residents := expire (ttl (ls_config ls)) now (residents (ls_state ls))\<rparr>"

definition room_on :: "u64 list \<Rightarrow> nat \<Rightarrow> long_sessions \<Rightarrow> nat \<Rightarrow> bool" where
  "room_on fps now ls u \<longleftrightarrow>
     session_fits (ls_config ls) (residents (placing now ls)) fps (estimate_tokens fps (placing now ls)) u = Some True"

definition better_home :: "decision \<Rightarrow> u64 list \<Rightarrow> nat \<Rightarrow> long_sessions \<Rightarrow> nat option" where
  "better_home d fps now ls = List.find (\<lambda>u. u \<noteq> hd (candidates d) \<and> u \<in> set (candidates d) \<and>
     decision_serving d u \<and> room_on fps now ls u) (map cs_index (candidate_states d))"

lemma fits_total:
  "u < length rss \<Longrightarrow> session_fits c rss fps e u \<noteq> None"
  by (auto simp: session_fits_def get_def Let_def split: option.splits)

lemma place_cases:
  assumes wf: "decision_wf d" and bound: "\<forall>c \<in> set (candidate_states d). cs_index c < length (residents (ls_state ls))"
    and on: "long_session_enabled (ls_config ls)" "fps \<noteq> []"
    and long: "threshold_tokens (ls_config ls) \<le> estimate_tokens fps (placing now ls)"
  shows "\<exists>ob d' ls'. place d fps now ls = Some (ob, d', ls') \<and>
    (if room_on fps now ls (hd (candidates d)) then d' = d \<and> lso_outcome ob = ''fits''
     else case better_home d fps now ls of
        None \<Rightarrow> d' = d \<and> lso_outcome ob = ''all_crowded''
      | Some u \<Rightarrow> promote u d = (d', True) \<and> lso_outcome ob = ''moved'')"
proof -
  obtain rest where D: "candidates d \<noteq> []" "map cs_index (candidate_states d) = candidates d @ rest"
    using wf by (rule decision_wfD)
  let ?rss = "residents (placing now ls)" and ?e = "estimate_tokens fps (placing now ls)"
  let ?room = "session_fits (ls_config ls) ?rss fps ?e"
  have len: "length ?rss = length (residents (ls_state ls))" by (simp add: placing_def expire_def)
  have all: "u < length ?rss" if "u \<in> set (map cs_index (candidate_states d))" for u using that bound len by auto
  have "hd (candidates d) \<in> set (map cs_index (candidate_states d))" unfolding D(2) using D(1) by simp
  then obtain b where b: "?room (hd (candidates d)) = Some b" using fits_total [OF all] by blast
  have find: "find_alternative (\<lambda>u. u \<noteq> hd (candidates d) \<and> u \<in> set (candidates d) \<and> decision_serving d u) ?room
      (map cs_index (candidate_states d)) = Some (better_home d fps now ls)"
    using find_alternative_spec [of "map cs_index (candidate_states d)"
        "\<lambda>u. u \<noteq> hd (candidates d) \<and> u \<in> set (candidates d) \<and> decision_serving d u" ?room] fits_total [OF all]
    by (simp add: better_home_def room_on_def conj_assoc)
  obtain ch cs where ch: "candidates d = ch # cs" using D(1) by (cases "candidates d") auto
  have prom: "\<exists>d'. promote u d = (d', True)" if "better_home d fps now ls = Some u" for u
    using that promote_serving [of _ d] by (auto simp: better_home_def find_Some_iff decision_serving_iff)
  show ?thesis
  proof (cases b)
    case True
    then show ?thesis using on long b ch by (auto simp: place_def Let_def room_on_def placing_def)
  next
    case False
    then have nr: "\<not> room_on fps now ls (hd (candidates d))" using b by (simp add: room_on_def)
    show ?thesis
    proof (cases "better_home d fps now ls")
      case None
      then show ?thesis using on long b ch False find nr by (auto simp: place_def Let_def placing_def)
    next
      case (Some u)
      then obtain d' where "promote u d = (d', True)" using prom by blast
      then show ?thesis using on long b ch False find nr Some by (auto simp: place_def Let_def placing_def)
    qed
  qed
qed

text \<open>
  A long conversation is only moved where it has room. For a long prompt on a well-formed
  decision whose upstreams the model knows, placement does not panic. If the chosen replica has
  room the decision stands. Otherwise, if some other serving candidate has room, the best-ranked
  such candidate becomes the first (the decision stays well-formed, a permutation of its
  candidates); and if none has, the decision stands.
\<close>

theorem place_moves_to_room:
  assumes "decision_wf d" and "\<forall>c \<in> set (candidate_states d). cs_index c < length (residents (ls_state ls))"
    and "long_session_enabled (ls_config ls)" and "fps \<noteq> []"
    and "threshold_tokens (ls_config ls) \<le> estimate_tokens fps (placing now ls)"
  shows "\<exists>ob d' ls'. place d fps now ls = Some (ob, d', ls') \<and> decision_wf d' \<and>
    mset (candidates d') = mset (candidates d) \<and>
    (if room_on fps now ls (hd (candidates d)) then d' = d
     else case better_home d fps now ls of
        None \<Rightarrow> d' = d \<and> lso_outcome ob = ''all_crowded''
      | Some u \<Rightarrow> hd (candidates d') = u \<and> room_on fps now ls u \<and> decision_serving d u \<and> lso_outcome ob = ''moved'')"
proof -
  obtain ob d' ls' where run: "place d fps now ls = Some (ob, d', ls')"
    "if room_on fps now ls (hd (candidates d)) then d' = d \<and> lso_outcome ob = ''fits''
     else case better_home d fps now ls of
        None \<Rightarrow> d' = d \<and> lso_outcome ob = ''all_crowded''
      | Some u \<Rightarrow> promote u d = (d', True) \<and> lso_outcome ob = ''moved''"
    using place_cases [OF assms] by blast
  show ?thesis
  proof (cases "room_on fps now ls (hd (candidates d)) \<or> better_home d fps now ls = None")
    case True
    then show ?thesis using run assms(1) by auto
  next
    case False
    then obtain u where u: "better_home d fps now ls = Some u" by auto
    then have "promote u d = (d', True)" using run(2) False by simp
    note p = promote_wf [OF assms(1) this]
    have "room_on fps now ls u \<and> decision_serving d u" using u by (auto simp: better_home_def find_Some_iff)
    then show ?thesis using run False u p by auto
  qed
qed

text \<open>
  C37. The residency model is bounded. Recording a completion (when the replica's tokens fit a \<open>u64\<close>)
  and placing a prompt keep, per replica, at most \<open>max_residents\<close> conversations, each at or above the
  threshold, whose total is within the KV capacity unless a single conversation exceeds it alone.
\<close>

theorem residency_bounded:
  assumes "sessions_wf ls"
    and "upstream < length (residents (ls_state ls))"
    and "sum_list (map rs_tokens (residents (ls_state ls) ! upstream)) + prompt \<le> usize_max"
  shows "sessions_wf (snd (served upstream fps (Some prompt) cached now ls)) \<and>
    (case place d fps now ls of None \<Rightarrow> True | Some (ob, d', ls') \<Rightarrow> sessions_wf ls')"
  using served_bounded [OF assms(1), of upstream fps "Some prompt" cached now _ _ prompt] place_bounded [OF assms(1), of d fps now] assms(3)
  by (cases "served upstream fps (Some prompt) cached now ls") (auto split: option.splits)

section \<open>A concrete model\<close>

definition sample_sessions :: long_sessions where
  "sample_sessions = \<lparr>ls_config = \<lparr>threshold_tokens = 100, lsc_capacity_tokens = [Some 500, Some 500, None], ttl = 1000\<rparr>,
     ls_max_blocks = 8,
     ls_state = \<lparr>residents = [[\<lparr>rs_fingerprints = [1], rs_tokens = 400, last_served = 10\<rparr>], [], []],
       tokens_per_block = Finite 300\<rparr>\<rparr>"

lemma sample_sessions_wf: "sessions_wf sample_sessions"
  by (simp add: sessions_wf_def sample_sessions_def bounded_residents_def session_capacity_def get_def
      max_residents_def less_Suc_eq numeral_3_eq_3 all_conj_distrib)

theorem residency_bounded_witness:
  "sessions_wf (snd (served 0 [2, 3] (Some 300) None 20 sample_sessions))"
  using residency_bounded [OF sample_sessions_wf, of 0 300 "[2, 3]" None 20 sample_decision]
  by (simp add: sample_sessions_def usize_max_eq)

lemma sample_estimate: "estimate_tokens [7] (placing 20 sample_sessions) = 300"
proof -
  have "f64_mul (f64_of_nat 1) (Finite 300) = Finite 300"
    using f64_of_nat_exact [of 1] f64_round_int_exact [of 300] by simp
  then have "f64_to_u64 (f64_mul (f64_of_nat (Suc 0)) (Finite 300)) = 300" by (simp add: f64_to_u64_def usize_max_eq)
  then show ?thesis by (simp add: estimate_tokens_def placing_def sample_sessions_def expire_def continued_by_def
      saturating_duration_since_def)
qed

lemma sample_room: "room_on [7] 20 sample_sessions 1" "\<not> room_on [7] 20 sample_sessions 0"
  unfolding room_on_def sample_estimate
  by (simp_all add: placing_def sample_sessions_def expire_def continued_by_def session_fits_def session_capacity_def
      get_def sum_u64_def sat_add_def usize_max_eq saturating_duration_since_def)

theorem place_moves_to_room_witness:
  "\<exists>ob d' ls'. place sample_decision [7] 20 sample_sessions = Some (ob, d', ls') \<and>
     hd (candidates d') = 1 \<and> lso_outcome ob = ''moved''"
proof -
  have wf: "decision_wf sample_decision"
    by (simp add: decision_wf_def sample_decision_def sample_candidate_def upt_rec)
  have pre: "\<forall>c \<in> set (candidate_states sample_decision). cs_index c < length (residents (ls_state sample_sessions))"
    "long_session_enabled (ls_config sample_sessions)" "[7] \<noteq> ([] :: u64 list)"
    "threshold_tokens (ls_config sample_sessions) \<le> estimate_tokens [7] (placing 20 sample_sessions)"
    unfolding sample_estimate
    by (simp_all add: sample_decision_def sample_candidate_def sample_sessions_def long_session_enabled_def)
  have home: "better_home sample_decision [7] 20 sample_sessions = Some 1" and "hd (candidates sample_decision) = 0"
    using sample_room(1) by (simp_all add: better_home_def sample_decision_def sample_candidate_def decision_serving_def)
  then show ?thesis using place_moves_to_room [OF wf pre] sample_room(2) by auto
qed

end
