(* ===== verification/Prefix_Single_Flight.thy ===== *)
theory Prefix_Single_Flight
  imports Router_Decision
begin

text \<open>
  \<^verbatim>\<open>src/prefix_single_flight.rs\<close>: concurrent requests that share a cold leading fingerprint join one
  flight and follow its target. The flight table is an association list behind one lock, so
  \<open>route\<close>, \<open>retarget\<close> and the drop of a guard are single steps. Proved: the table holds exactly the
  flights of the live guards and stays within its capacity, and a route is only ever changed to a
  serving candidate within the load gate.
\<close>

section \<open>Model\<close>

datatype prefix_single_flight_mode = PSF_Off | PSF_Shadow | PSF_Prefer

fun psf_mode_label :: "prefix_single_flight_mode \<Rightarrow> string" where
  "psf_mode_label PSF_Off = ''off''"
| "psf_mode_label PSF_Shadow = ''shadow''"
| "psf_mode_label PSF_Prefer = ''prefer''"

record prefix_single_flight_config =
  psf_mode :: prefix_single_flight_mode
  min_blocks :: nat
  psf_capacity :: nat
  max_load_delta :: nat

type_synonym flight_key = "nat \<times> u64"

record flight =
  fl_generation :: nat
  fl_target :: nat
  fl_requests :: nat

record flight_state =
  flights :: "(flight_key \<times> flight) list"
  fs_generation :: nat

record psf_observation =
  po_mode :: string
  po_outcome :: string

definition psf_observation_off :: psf_observation where
  "psf_observation_off = \<lparr>po_mode = ''off'', po_outcome = ''off''\<rparr>"

record psf_guard =
  g_key :: flight_key
  g_generation :: nat
  retarget_allowed :: bool

text \<open>\<open>None\<close> is the panic of an assertion.\<close>

definition psf_new :: "prefix_single_flight_config \<Rightarrow> flight_state option" where
  "psf_new c = (if min_blocks c = 0 \<or> psf_capacity c = 0 then None
     else Some \<lparr>flights = [], fs_generation = 0\<rparr>)"

definition retarget :: "nat \<Rightarrow> psf_guard \<Rightarrow> flight_state \<Rightarrow> flight_state" where
  "retarget upstream g st =
    (if \<not> retarget_allowed g then st
     else case map_of (flights st) (g_key g) of None \<Rightarrow> st
       | Some f \<Rightarrow> if fl_generation f = g_generation g
           then st\<lparr>flights := AList.update (g_key g) (f\<lparr>fl_target := upstream\<rparr>) (flights st)\<rparr> else st)"

definition psf_drop :: "psf_guard \<Rightarrow> flight_state \<Rightarrow> flight_state" where
  "psf_drop g st = (case map_of (flights st) (g_key g) of None \<Rightarrow> st
     | Some f \<Rightarrow>
        if fl_generation f \<noteq> g_generation g then st
        else let f' = f\<lparr>fl_requests := fl_requests f - 1\<rparr> in
          if fl_requests f' = 0 then st\<lparr>flights := AList.delete (g_key g) (flights st)\<rparr>
          else st\<lparr>flights := AList.update (g_key g) f' (flights st)\<rparr>)"

definition move_to_front :: "nat \<Rightarrow> decision \<Rightarrow> decision" where
  "move_to_front tgt d = (case position (\<lambda>c. c = tgt) (candidates d) of None \<Rightarrow> d
     | Some i \<Rightarrow>
        let d1 = d\<lparr>candidates := (candidates d ! i) # remove_at i (candidates d)\<rparr> in
        (case position (\<lambda>s. cs_index s = tgt) (candidate_states d1) of None \<Rightarrow> d1
         | Some j \<Rightarrow>
            let d2 = d1\<lparr>candidate_states := renumber ((candidate_states d1 ! j) # remove_at j (candidate_states d1))\<rparr>
            in take_winner (hd (candidate_states d2)) d2))"

definition join_flight ::
  "prefix_single_flight_config \<Rightarrow> flight_key \<Rightarrow> nat \<Rightarrow> flight_state \<Rightarrow> ((nat \<times> nat \<times> bool) \<times> flight_state) option" where
  "join_flight c key leader st = (case map_of (flights st) key of
      Some f \<Rightarrow> Some ((fl_target f, fl_generation f, False),
        st\<lparr>flights := AList.update key (f\<lparr>fl_requests := sat_add (fl_requests f) 1\<rparr>) (flights st)\<rparr>)
    | None \<Rightarrow>
        if psf_capacity c \<le> length (flights st) then None
        else let gen = max (wrap_add (fs_generation st) 1) 1
             in Some ((leader, gen, True),
                  \<lparr>flights = AList.update key \<lparr>fl_generation = gen, fl_target = leader, fl_requests = 1\<rparr> (flights st),
                   fs_generation = gen\<rparr>))"

text \<open>The observation, the guard, the decision and the table after a route.\<close>

definition psf_route ::
  "prefix_single_flight_config \<Rightarrow> u64 list \<Rightarrow> decision \<Rightarrow> flight_state
     \<Rightarrow> psf_observation \<times> psf_guard option \<times> decision \<times> flight_state" where
  "psf_route c fps d st =
    (let observation = (\<lambda>oc. \<lparr>po_mode = psf_mode_label (psf_mode c), po_outcome = oc\<rparr>) in
     if psf_mode c = PSF_Off then (psf_observation_off, None, d, st)
     else if length fps < min_blocks c then (observation ''short'', None, d, st)
     else if d_outcome d = Exact then (observation ''exact_blocked'', None, d, st)
     else if min_blocks c \<le> d_overlap_blocks d then (observation ''warm'', None, d, st)
     else case candidates d of [] \<Rightarrow> (observation ''unavailable'', None, d, st)
     | leader # _ \<Rightarrow>
       let key = (min_blocks c, fps ! (min_blocks c - 1)) in
       (case join_flight c key leader st of None \<Rightarrow> (observation ''capacity'', None, d, st)
        | Some ((tgt, gen, leader_request), st') \<Rightarrow>
          let guard = (\<lambda>allowed. Some \<lparr>g_key = key, g_generation = gen, retarget_allowed = allowed\<rparr>) in
          if leader_request then (observation ''leader'', guard True, d, st')
          else if tgt = leader then (observation ''already_home'', guard True, d, st')
          else case candidate_states d of [] \<Rightarrow> (observation ''unavailable'', guard False, d, st')
          | winner # _ \<Rightarrow>
            (case List.find (\<lambda>s. cs_index s = tgt \<and> cs_healthy s) (candidate_states d) of
               None \<Rightarrow> (observation ''unavailable'', guard False, d, st')
             | Some target_state \<Rightarrow>
                if sat_add (cs_load_units winner) (max_load_delta c) < cs_load_units target_state
                then (observation ''load_blocked'', guard False, d, st')
                else if psf_mode c = PSF_Shadow then (observation ''would_move'', guard False, d, st')
                else (observation ''moved'', guard True, move_to_front tgt d, st'))))"

section \<open>Runs\<close>

text \<open>The table and the guards alive in the process.\<close>

inductive flight_step ::
  "prefix_single_flight_config \<Rightarrow> flight_state \<times> psf_guard list \<Rightarrow> flight_state \<times> psf_guard list \<Rightarrow> bool" for c where
  step_join: "length gs < usize_max \<Longrightarrow> psf_route c fps d st = (ob, Some g, d', st') \<Longrightarrow> flight_step c (st, gs) (st', g # gs)"
| step_pass: "psf_route c fps d st = (ob, None, d', st') \<Longrightarrow> flight_step c (st, gs) (st', gs)"
| step_retarget: "g \<in> set gs \<Longrightarrow> flight_step c (st, gs) (retarget u g st, gs)"
| step_drop: "k < length gs \<Longrightarrow> flight_step c (st, gs) (psf_drop (gs ! k) st, remove_at k gs)"

definition riders :: "flight_key \<Rightarrow> psf_guard list \<Rightarrow> nat" where
  "riders k gs = length (filter (\<lambda>g. g_key g = k) gs)"

definition flights_inv :: "prefix_single_flight_config \<Rightarrow> flight_state \<times> psf_guard list \<Rightarrow> bool" where
  "flights_inv c s \<longleftrightarrow> distinct (map fst (flights (fst s))) \<and> length (flights (fst s)) \<le> psf_capacity c \<and>
     length (snd s) \<le> usize_max \<and>
     (\<forall>k. map_option fl_requests (map_of (flights (fst s)) k) = (if riders k (snd s) = 0 then None else Some (riders k (snd s)))) \<and>
     (\<forall>g \<in> set (snd s). map_option fl_generation (map_of (flights (fst s)) (g_key g)) = Some (g_generation g))"

lemma riders_Cons [simp]: "riders k (g # gs) = riders k gs + of_bool (g_key g = k)" "riders k [] = 0"
  by (simp_all add: riders_def)

lemma riders_remove:
  assumes "j < length gs"
  shows "riders k gs = riders k (remove_at j gs) + of_bool (g_key (gs ! j) = k)"
proof -
  define xs x ys where "xs = take j gs" and "x = gs ! j" and "ys = drop (Suc j) gs"
  have gs: "gs = xs @ x # ys" unfolding xs_def x_def ys_def by (rule id_take_nth_drop [OF assms])
  have rem: "remove_at j gs = xs @ ys" unfolding xs_def ys_def remove_at_def by simp
  show ?thesis unfolding rem x_def [symmetric] by (simp add: gs riders_def)
qed

lemma riders_le: "riders k gs \<le> length gs"
  by (simp add: riders_def)

lemma riders_pos: "g \<in> set gs \<Longrightarrow> 0 < riders (g_key g) gs"
  by (auto simp: riders_def filter_empty_conv)

lemma delete_length: "distinct (map fst xs) \<Longrightarrow> length (AList.delete k xs) \<le> length xs"
  by (simp add: AList.delete_eq)

lemma route_join:
  assumes "psf_route c fps d st = (ob, Some g, d', st')"
  shows "\<exists>leader tgt l. join_flight c (g_key g) leader st = Some ((tgt, g_generation g, l), st')"
  using assms by (auto simp: psf_route_def Let_def split: if_splits list.splits option.splits prod.splits)
    (intro exI, assumption)+

lemma route_pass:
  assumes "psf_route c fps d st = (ob, None, d', st')"
  shows "st' = st \<and> d' = d"
  using assms by (auto simp: psf_route_def Let_def split: if_splits list.splits option.splits prod.splits)

lemma join_cases:
  assumes "join_flight c key leader st = Some ((tgt, gen, l), st')"
  obtains (follow) f where "map_of (flights st) key = Some f" "gen = fl_generation f"
      "flights st' = AList.update key (f\<lparr>fl_requests := sat_add (fl_requests f) 1\<rparr>) (flights st)"
  | (lead) f where "map_of (flights st) key = None" "length (flights st) < psf_capacity c"
      "fl_requests f = 1" "fl_generation f = gen" "flights st' = AList.update key f (flights st)"
proof (cases "map_of (flights st) key")
  case None
  with assms show ?thesis
    by (intro lead [of "\<lparr>fl_generation = gen, fl_target = leader, fl_requests = 1\<rparr>"])
      (auto simp: join_flight_def Let_def not_le split: if_splits)
next
  case (Some f)
  with assms show ?thesis by (intro follow [of f]) (auto simp: join_flight_def)
qed

lemma length_update_new: "map_of xs k = None \<Longrightarrow> length (AList.update k v xs) = Suc (length xs)"
  by (induction xs) auto

lemma length_update_old: "map_of xs k = Some w \<Longrightarrow> length (AList.update k v xs) = length xs"
  by (induction xs) auto

lemma flights_invD:
  assumes "flights_inv c (st, gs)"
  shows "distinct (map fst (flights st))" "length (flights st) \<le> psf_capacity c" "length gs \<le> usize_max"
    "map_option fl_requests (map_of (flights st) k) = (if riders k gs = 0 then None else Some (riders k gs))"
    "g \<in> set gs \<Longrightarrow> map_option fl_generation (map_of (flights st) (g_key g)) = Some (g_generation g)"
  using assms unfolding flights_inv_def fst_conv snd_conv by blast+

lemma flights_invI:
  assumes "distinct (map fst (flights st))" "length (flights st) \<le> psf_capacity c" "length gs \<le> usize_max"
    "\<And>k. map_option fl_requests (map_of (flights st) k) = (if riders k gs = 0 then None else Some (riders k gs))"
    "\<And>g. g \<in> set gs \<Longrightarrow> map_option fl_generation (map_of (flights st) (g_key g)) = Some (g_generation g)"
  shows "flights_inv c (st, gs)"
  using assms unfolding flights_inv_def fst_conv snd_conv by blast

lemma join_inv:
  assumes inv: "flights_inv c (st, gs)" and room: "length gs < usize_max"
    and join: "join_flight c (g_key g) leader st = Some ((tgt, g_generation g, l), st')"
  shows "flights_inv c (st', g # gs)"
  using join
proof (cases rule: join_cases)
  case (follow f)
  have req: "fl_requests f = riders (g_key g) gs"
    using flights_invD(4) [OF inv, of "g_key g"] follow(1) by (auto split: if_splits)
  have sat: "sat_add (fl_requests f) 1 = riders (g_key g) gs + 1"
    using req riders_le [of "g_key g" gs] room by (simp add: sat_add_def)
  show ?thesis
  proof (rule flights_invI)
    show "map_option fl_requests (map_of (flights st') k) = (if riders k (g # gs) = 0 then None else Some (riders k (g # gs)))" for k
      using flights_invD(4) [OF inv, of k] sat unfolding follow(3) by (auto simp: update_conv')
    show "map_option fl_generation (map_of (flights st') (g_key h)) = Some (g_generation h)" if "h \<in> set (g # gs)" for h
      using flights_invD(5) [OF inv, of h] that follow(1,2) unfolding follow(3) by (auto simp: update_conv')
  qed (use flights_invD(1-3) [OF inv] room follow in \<open>simp_all add: distinct_update length_update_old\<close>)
next
  case (lead f)
  have none: "riders (g_key g) gs = 0"
    using flights_invD(4) [OF inv, of "g_key g"] lead(1) by (auto split: if_splits)
  show ?thesis
  proof (rule flights_invI)
    show "map_option fl_requests (map_of (flights st') k) = (if riders k (g # gs) = 0 then None else Some (riders k (g # gs)))" for k
      using flights_invD(4) [OF inv, of k] none lead(3) unfolding lead(5) by (auto simp: update_conv')
    show "map_option fl_generation (map_of (flights st') (g_key h)) = Some (g_generation h)" if "h \<in> set (g # gs)" for h
      using flights_invD(5) [OF inv, of h] that lead(4) none riders_pos [of h gs] unfolding lead(5)
      by (auto simp: update_conv')
  qed (use flights_invD(1-3) [OF inv] room lead in \<open>simp_all add: distinct_update length_update_new\<close>)
qed

lemma retarget_inv:
  assumes inv: "flights_inv c (st, gs)"
  shows "flights_inv c (retarget u g st, gs)"
proof (cases "\<exists>f. map_of (flights st) (g_key g) = Some f \<and>
    retarget u g st = st\<lparr>flights := AList.update (g_key g) (f\<lparr>fl_target := u\<rparr>) (flights st)\<rparr>")
  case True
  then obtain f where f: "map_of (flights st) (g_key g) = Some f"
    "retarget u g st = st\<lparr>flights := AList.update (g_key g) (f\<lparr>fl_target := u\<rparr>) (flights st)\<rparr>" by blast
  show ?thesis
  proof (rule flights_invI)
    show "map_option fl_requests (map_of (flights (retarget u g st)) k) = (if riders k gs = 0 then None else Some (riders k gs))" for k
      using flights_invD(4) [OF inv, of k] f by (auto simp: update_conv' split: if_splits)
    show "map_option fl_generation (map_of (flights (retarget u g st)) (g_key h)) = Some (g_generation h)" if "h \<in> set gs" for h
      using flights_invD(5) [OF inv that] f by (auto simp: update_conv')
  qed (use flights_invD(1-3) [OF inv] f in \<open>simp_all add: distinct_update length_update_old\<close>)
next
  case False
  then have "retarget u g st = st" by (auto simp: retarget_def split: option.splits if_splits)
  with inv show ?thesis by simp
qed

lemma drop_inv:
  assumes inv: "flights_inv c (st, gs)" and k: "k < length gs"
  shows "flights_inv c (psf_drop (gs ! k) st, remove_at k gs)"
proof -
  let ?g = "gs ! k" and ?gs = "remove_at k gs"
  have "?g \<in> set gs" using k by simp
  then obtain f where f: "map_of (flights st) (g_key ?g) = Some f" "fl_generation f = g_generation ?g"
    using flights_invD(5) [OF inv] by fastforce
  have req: "fl_requests f = riders (g_key ?g) gs"
    using flights_invD(4) [OF inv, of "g_key ?g"] f(1) by (auto split: if_splits)
  note rem = riders_remove [OF k]
  have sub: "h \<in> set gs" if "h \<in> set ?gs" for h
    using that set_take_subset [of k gs] set_drop_subset [of "Suc k" gs] by (auto simp: remove_at_def)
  have len: "length ?gs \<le> usize_max" using flights_invD(3) [OF inv] by (simp add: remove_at_def)
  show ?thesis
  proof (cases "riders (g_key ?g) ?gs = 0")
    case True
    then have drop: "psf_drop ?g st = st\<lparr>flights := AList.delete (g_key ?g) (flights st)\<rparr>"
      using f req rem [of "g_key ?g"] by (simp add: psf_drop_def Let_def)
    show ?thesis
    proof (rule flights_invI)
      show "map_option fl_requests (map_of (flights (psf_drop ?g st)) j) = (if riders j ?gs = 0 then None else Some (riders j ?gs))" for j
        using flights_invD(4) [OF inv, of j] rem [of j] True unfolding drop by (auto simp: delete_conv')
      show "map_option fl_generation (map_of (flights (psf_drop ?g st)) (g_key h)) = Some (g_generation h)" if "h \<in> set ?gs" for h
        using flights_invD(5) [OF inv sub [OF that]] riders_pos [OF that] True unfolding drop by (auto simp: delete_conv')
      show "length (flights (psf_drop ?g st)) \<le> psf_capacity c"
        using order_trans [OF delete_length flights_invD(2) [OF inv], OF flights_invD(1) [OF inv]] unfolding drop by simp
    qed (use flights_invD(1-3) [OF inv] len in \<open>simp_all add: drop distinct_delete\<close>)
  next
    case False
    then have drop: "psf_drop ?g st = st\<lparr>flights := AList.update (g_key ?g) (f\<lparr>fl_requests := fl_requests f - 1\<rparr>) (flights st)\<rparr>"
      using f req rem [of "g_key ?g"] by (simp add: psf_drop_def Let_def)
    show ?thesis
    proof (rule flights_invI)
      show "map_option fl_requests (map_of (flights (psf_drop ?g st)) j) = (if riders j ?gs = 0 then None else Some (riders j ?gs))" for j
        using flights_invD(4) [OF inv, of j] rem [of j] False req unfolding drop by (auto simp: update_conv')
      show "map_option fl_generation (map_of (flights (psf_drop ?g st)) (g_key h)) = Some (g_generation h)" if "h \<in> set ?gs" for h
        using flights_invD(5) [OF inv sub [OF that]] f unfolding drop by (auto simp: update_conv')
    qed (use flights_invD(1-3) [OF inv] len f in \<open>simp_all add: drop distinct_update length_update_old\<close>)
  qed
qed

lemma flight_step_inv: "flight_step c s s' \<Longrightarrow> flights_inv c s \<Longrightarrow> flights_inv c s'"
proof (induction rule: flight_step.induct)
  case (step_join gs fps d st ob g d' st')
  obtain leader tgt l where "join_flight c (g_key g) leader st = Some ((tgt, g_generation g, l), st')"
    using route_join [OF step_join(2)] by blast
  then show ?case by (rule join_inv [OF step_join(3,1)])
next
  case (step_pass fps d st ob d' st' gs)
  then show ?case using route_pass by blast
qed (auto intro: retarget_inv drop_inv)

lemma flight_run_inv: "(flight_step c)\<^sup>*\<^sup>* s s' \<Longrightarrow> flights_inv c s \<Longrightarrow> flights_inv c s'"
  by (induction rule: rtranclp_induct) (auto intro: flight_step_inv)

lemma psf_new_inv: "psf_new c = Some st \<Longrightarrow> flights_inv c (st, [])"
  by (auto simp: psf_new_def flights_inv_def split: if_splits)

text \<open>
  C38. The flight table is exactly the live guards. After any run of routes, retargets and guard
  drops from a new table, a flight is present for a key if and only if a guard for it is alive, its
  request count is the number of those guards, every guard carries the generation of its flight,
  and the table never exceeds its capacity; with no guard alive it is empty.
\<close>

theorem flights_conserved:
  assumes "psf_new c = Some st0" and "(flight_step c)\<^sup>*\<^sup>* (st0, []) (st, gs)"
  shows "length (flights st) \<le> psf_capacity c \<and>
    (map_option fl_requests (map_of (flights st) k) =
       (let n = length (filter (\<lambda>g. g_key g = k) gs) in if n = 0 then None else Some n)) \<and>
    list_all (\<lambda>g. map_option fl_generation (map_of (flights st) (g_key g)) = Some (g_generation g)) gs"
proof -
  have inv: "flights_inv c (st, gs)" by (rule flight_run_inv [OF assms(2) psf_new_inv [OF assms(1)]])
  show ?thesis using flights_invD(2) [OF inv] flights_invD(4) [OF inv, of k] flights_invD(5) [OF inv]
    unfolding riders_def Let_def list_all_iff by blast
qed

section \<open>Effect on the decision\<close>

lemma mset_move: "i < length xs \<Longrightarrow> mset (xs ! i # remove_at i xs) = mset xs"
proof -
  assume i: "i < length xs"
  have "mset xs = mset (take i xs @ xs ! i # drop (Suc i) xs)" using id_take_nth_drop [OF i] by simp
  then show ?thesis by (simp add: remove_at_def)
qed

lemma map_remove_at: "map f (remove_at i xs) = remove_at i (map f xs)"
  by (simp add: remove_at_def take_map drop_map)

lemma remove_at_append: "i < length xs \<Longrightarrow> remove_at i (xs @ ys) = remove_at i xs @ ys"
  by (simp add: remove_at_def)

lemma move_to_front_wf:
  assumes wf: "decision_wf d" and tgt: "tgt \<in> set (candidates d)"
  shows "decision_wf (move_to_front tgt d) \<and> mset (candidates (move_to_front tgt d)) = mset (candidates d) \<and>
    hd (candidates (move_to_front tgt d)) = tgt"
proof -
  obtain rest where D: "map cs_index (candidate_states d) = candidates d @ rest"
    "distinct (map cs_index (candidate_states d))" using wf by (rule decision_wfD)
  obtain i where pi: "position (\<lambda>c. c = tgt) (candidates d) = Some i" using position_ex [OF tgt, of "\<lambda>c. c = tgt"] by blast
  note i = position_Some [OF pi]
  have "tgt \<in> set (map cs_index (candidate_states d))" unfolding D(1) using tgt by simp
  then obtain j where pj: "position (\<lambda>s. cs_index s = tgt) (candidate_states d) = Some j"
    using position_ex [of _ "candidate_states d" "\<lambda>s. cs_index s = tgt"] by auto
  note j = position_Some [OF pj]
  have il: "i < length (candidate_states d)" using i arg_cong [OF D(1), of length] by simp
  have "map cs_index (candidate_states d) ! i = tgt" using i unfolding D(1) by (simp add: nth_append)
  then have eq: "i = j" using nth_eq_iff_index_eq [OF D(2), of i j] il j by simp
  let ?cs = "candidate_states d ! i # remove_at i (candidate_states d)"
  let ?c = "candidates d ! i # remove_at i (candidates d)"
  have idx: "map cs_index (renumber ?cs) = ?c @ rest"
    unfolding renumber_index list.map map_remove_at D(1) using i j eq by (simp add: remove_at_append)
  have "mset (map cs_index (renumber ?cs)) = mset (map cs_index (candidate_states d))"
    unfolding renumber_index mset_map mset_move [OF il] ..
  then have dist: "distinct (map cs_index (renumber ?cs))" using D(2) by (metis mset_eq_imp_distinct_iff)
  have run: "move_to_front tgt d = take_winner (hd (renumber ?cs))
      (d\<lparr>candidates := ?c, candidate_states := renumber ?cs\<rparr>)"
    using pi pj eq by (simp add: move_to_front_def Let_def)
  show ?thesis unfolding run
    using idx dist renumber_ranks [of ?cs] mset_move [of i "candidates d"] i
    by (simp add: decision_wf_def take_winner_def)
qed

text \<open>
  Single flight only redirects to a serving candidate within the load gate. On a well-formed
  decision whose serving upstreams are candidates, every outcome but \<open>moved\<close> leaves the decision
  untouched (in particular every shadow outcome), and \<open>moved\<close> puts one serving candidate first
  whose load exceeds the former winner's by at most \<open>max_load_delta\<close>, keeping the decision
  well-formed and its candidates a permutation.
\<close>

theorem psf_route_safe:
  assumes "decision_wf d" and "\<forall>s \<in> set (candidate_states d). cs_healthy s \<longrightarrow> cs_index s \<in> set (candidates d)"
    and "psf_route c fps d st = (ob, g, d', st')"
  shows "decision_wf d' \<and> mset (candidates d') = mset (candidates d) \<and>
    (d' = d \<and> po_outcome ob \<noteq> ''moved'' \<or>
     po_outcome ob = ''moved'' \<and> psf_mode c = PSF_Prefer \<and>
      (\<exists>s \<in> set (candidate_states d). cs_index s = hd (candidates d') \<and> cs_healthy s \<and>
         cs_load_units s \<le> sat_add (cs_load_units (hd (candidate_states d))) (max_load_delta c)))"
proof (cases "\<exists>s tgt. s \<in> set (candidate_states d) \<and> cs_index s = tgt \<and> cs_healthy s \<and> d' = move_to_front tgt d \<and>
    po_outcome ob = ''moved'' \<and> psf_mode c = PSF_Prefer \<and>
    cs_load_units s \<le> sat_add (cs_load_units (hd (candidate_states d))) (max_load_delta c)")
  case True
  then obtain s where s: "s \<in> set (candidate_states d)" "cs_healthy s" "d' = move_to_front (cs_index s) d"
    "po_outcome ob = ''moved''" "psf_mode c = PSF_Prefer"
    "cs_load_units s \<le> sat_add (cs_load_units (hd (candidate_states d))) (max_load_delta c)" by blast
  then show ?thesis using move_to_front_wf [OF assms(1), of "cs_index s"] assms(2) by auto
next
  case False
  have mode: "psf_mode c = PSF_Prefer" if "psf_mode c \<noteq> PSF_Off" "psf_mode c \<noteq> PSF_Shadow"
    using that by (cases "psf_mode c") auto
  have "d' = d \<and> po_outcome ob \<noteq> ''moved''"
    using assms(3) False mode
    by (auto simp: psf_route_def psf_observation_off_def Let_def find_Some_iff not_less
        split: if_splits list.splits option.splits prod.splits)
  then show ?thesis using assms(1) by simp
qed

section \<open>A concrete flight\<close>

definition flight_config :: prefix_single_flight_config where
  "flight_config = \<lparr>psf_mode = PSF_Prefer, min_blocks = 1, psf_capacity = 4, max_load_delta = 2\<rparr>"

definition flight_started :: flight_state where
  "flight_started = \<lparr>flights = [((1, 7), \<lparr>fl_generation = 1, fl_target = 0, fl_requests = 1\<rparr>)], fs_generation = 1\<rparr>"

definition leader_guard :: psf_guard where
  "leader_guard = \<lparr>g_key = (1, 7), g_generation = 1, retarget_allowed = True\<rparr>"

lemma flight_new: "psf_new flight_config = Some \<lparr>flights = [], fs_generation = 0\<rparr>"
  by (simp add: psf_new_def flight_config_def)

lemma flight_starts:
  "psf_route flight_config [7] sample_decision \<lparr>flights = [], fs_generation = 0\<rparr> =
     (\<lparr>po_mode = ''prefer'', po_outcome = ''leader''\<rparr>, Some leader_guard, sample_decision, flight_started)"
  by (simp add: psf_route_def flight_config_def sample_decision_def join_flight_def leader_guard_def flight_started_def
      wrap_add_def Let_def)

theorem flights_conserved_witness:
  "length (flights flight_started) \<le> 4 \<and> map_option fl_requests (map_of (flights flight_started) (1, 7)) = Some 1"
proof -
  have "flight_step flight_config (\<lparr>flights = [], fs_generation = 0\<rparr>, []) (flight_started, [leader_guard])"
    using flight_step.step_join [OF _ flight_starts] by (simp add: usize_max_eq)
  then show ?thesis
    using flights_conserved [OF flight_new r_into_rtranclp, of flight_started "[leader_guard]" "(1, 7)"]
    by (simp add: flight_config_def leader_guard_def)
qed

definition flight_elsewhere :: flight_state where
  "flight_elsewhere = \<lparr>flights = [((1, 7), \<lparr>fl_generation = 1, fl_target = 2, fl_requests = 1\<rparr>)], fs_generation = 1\<rparr>"

theorem psf_route_safe_witness:
  "\<exists>ob g d' st'. psf_route flight_config [7] sample_decision flight_elsewhere = (ob, g, d', st') \<and>
     po_outcome ob = ''moved'' \<and> decision_wf d' \<and> mset (candidates d') = mset [0, 1, 2]"
proof -
  have wf: "decision_wf sample_decision"
    by (simp add: decision_wf_def sample_decision_def sample_candidate_def upt_rec)
  have pre: "\<forall>s \<in> set (candidate_states sample_decision). cs_healthy s \<longrightarrow> cs_index s \<in> set (candidates sample_decision)"
    by (simp add: sample_decision_def sample_candidate_def)
  obtain ob g d' st' where run: "psf_route flight_config [7] sample_decision flight_elsewhere = (ob, g, d', st')"
    by (cases "psf_route flight_config [7] sample_decision flight_elsewhere") auto
  have "po_outcome ob = ''moved''"
    using run by (auto simp: psf_route_def flight_config_def sample_decision_def sample_candidate_def join_flight_def
        flight_elsewhere_def sat_add_def usize_max_eq Let_def)
  moreover have "candidates sample_decision = [0, 1, 2]" by (simp add: sample_decision_def)
  ultimately show ?thesis using run psf_route_safe [OF wf pre run] by auto
qed

end
