(* ===== verification/Exact_Errors.thy ===== *)
theory Exact_Errors
  imports Exact_Lookup
begin

text \<open>
  When \<open>ExactKvIndex::store\<close> refuses an event, and that a lookup ends: the errors of
  \<^verbatim>\<open>src/src/exact_index.rs\<close> read off the abstract contents and the blocks the trie retains.
\<close>

section \<open>Conflicts\<close>

text \<open>
  A block below the parent conflicts with the index if the path to it is known under another hash, or
  its hash is resident at the end of another path.
\<close>

definition conflict_at :: "exact_kv_index \<Rightarrow> token_id list list \<Rightarrow> external_block_hash \<Rightarrow> bool" where
  "conflict_at ix path h \<longleftrightarrow>
     (\<exists>i n. reach (node_at ix) i path \<and> node_at ix i = Some n \<and> external_hash n \<noteq> Some h) \<or>
     (\<exists>q. (h, q) \<in> index_contents ix \<and> q \<noteq> path)"

definition path_conflict ::
  "exact_kv_index \<Rightarrow> token_id list list \<Rightarrow> (token_id list \<times> external_block_hash) list \<Rightarrow> bool" where
  "path_conflict ix ps items \<longleftrightarrow>
     (\<exists>pre c h post. items = pre @ (c, h) # post \<and> conflict_at ix (ps @ map fst pre @ [c]) h)"

lemma path_conflict_Nil [simp]: "\<not> path_conflict ix ps []"
  by (simp add: path_conflict_def)

lemma path_conflict_Cons [simp]:
  "path_conflict ix ps ((c, h) # rest) \<longleftrightarrow> conflict_at ix (ps @ [c]) h \<or> path_conflict ix (ps @ [c]) rest"
proof
  assume "path_conflict ix ps ((c, h) # rest)"
  then obtain pre d k post where p: "(c, h) # rest = pre @ (d, k) # post" "conflict_at ix (ps @ map fst pre @ [d]) k"
    unfolding path_conflict_def by blast
  then show "conflict_at ix (ps @ [c]) h \<or> path_conflict ix (ps @ [c]) rest"
    by (cases pre) (force simp: path_conflict_def)+
next
  assume "conflict_at ix (ps @ [c]) h \<or> path_conflict ix (ps @ [c]) rest"
  then show "path_conflict ix ps ((c, h) # rest)"
  proof
    assume "conflict_at ix (ps @ [c]) h"
    then show ?thesis unfolding path_conflict_def by - (rule exI [of _ "[]"], auto)
  next
    assume "path_conflict ix (ps @ [c]) rest"
    then obtain pre d k post where "rest = pre @ (d, k) # post" "conflict_at ix ((ps @ [c]) @ map fst pre @ [d]) k"
      unfolding path_conflict_def by blast
    then show ?thesis unfolding path_conflict_def by - (rule exI [of _ "(c, h) # pre"], auto)
  qed
qed

lemma resident_hash:
  assumes "index_shape {} ix"
  shows "(\<exists>q. (h, q) \<in> index_contents ix) \<longleftrightarrow> hmap ix h \<noteq> None"
proof -
  have "\<exists>q. reach (node_at ix) i q" if "hmap ix h = Some i" for i
    using trie_hashD [OF index_shapeD(1) [OF assms] that] trie_reachD [OF index_shapeD(1) [OF assms]] by metis
  then show ?thesis by (auto simp: index_contents_def contents_def)
qed

lemma conflict_unreachable:
  assumes "index_shape {} ix" "\<nexists>i. reach (node_at ix) i path"
  shows "conflict_at ix path h \<longleftrightarrow> hmap ix h \<noteq> None"
  using resident_hash [OF assms(1), of h] assms(2)
  by (auto simp: conflict_at_def index_contents_def contents_def)

lemma path_conflict_unreachable:
  assumes "index_shape {} ix" "\<nexists>i. reach (node_at ix) i ps"
  shows "path_conflict ix ps items \<longleftrightarrow> (\<exists>k \<in> snd ` set items. hmap ix k \<noteq> None)"
  using assms(2)
proof (induction items arbitrary: ps)
  case (Cons x rest)
  obtain c h where x: "x = (c, h)" by force
  have "\<nexists>i. reach (node_at ix) i (ps @ [c])" using Cons.prems by (auto elim: reach_snocE)
  then show ?case using Cons.IH [of "ps @ [c]"] conflict_unreachable [OF assms(1)] x by auto
qed simp

lemma conflict_reached:
  assumes "index_shape {} ix" "reach (node_at ix) i path" "node_at ix i = Some n"
  shows "conflict_at ix path h \<longleftrightarrow> external_hash n \<noteq> Some h \<or> (hmap ix h \<noteq> None \<and> hmap ix h \<noteq> Some i)"
proof -
  note wf = index_shapeD(1) [OF assms(1)]
  have "(\<exists>j m. reach (node_at ix) j path \<and> node_at ix j = Some m \<and> external_hash m \<noteq> Some h) \<longleftrightarrow> external_hash n \<noteq> Some h"
    using assms(2,3) reach_same_node [OF assms(2)] by (metis option.inject)
  moreover have "(\<exists>q. (h, q) \<in> index_contents ix \<and> q \<noteq> path) \<longleftrightarrow> hmap ix h \<noteq> None \<and> hmap ix h \<noteq> Some i"
  proof (cases "hmap ix h")
    case None
    then show ?thesis by (simp add: index_contents_def contents_def)
  next
    case (Some j)
    then obtain q where q: "reach (node_at ix) j q" "(h, q) \<in> index_contents ix"
      using resident_hash [OF assms(1), of h] by (auto simp: index_contents_def contents_def)
    have only: "(h, q') \<in> index_contents ix \<longleftrightarrow> q' = q" for q'
      using q contents_functional [OF wf] unfolding index_contents_def by blast
    have "q \<noteq> path \<longleftrightarrow> j \<noteq> i"
      using reach_same_path [OF wf q(1)] reach_same_node [OF q(1)] assms(2) by blast
    then show ?thesis using Some only by simp
  qed
  ultimately show ?thesis by (simp add: conflict_at_def)
qed

text \<open>The checks of \<open>store\<close> are exactly the absence of conflicts.\<close>

lemma attachable_iff:
  assumes "index_shape {} ix" "reach (node_at ix) cursor ps"
  shows "attachable ix cursor items \<longleftrightarrow> \<not> path_conflict ix ps items"
  using assms(2)
proof (induction items arbitrary: cursor ps)
  case (Cons x rest)
  obtain c h where x: "x = (c, h)" by force
  note wf = index_shapeD(1) [OF assms(1)]
  obtain n where n: "node_at ix cursor = Some n" using reach_live [OF wf Cons.prems] by blast
  show ?case
  proof (cases "map_of (children n) c")
    case None
    have "\<nexists>i. reach (node_at ix) i (ps @ [c])"
    proof
      assume "\<exists>i. reach (node_at ix) i (ps @ [c])"
      then obtain p pn i where "reach (node_at ix) p ps" "node_at ix p = Some pn" "map_of (children pn) c = Some i"
        by (auto elim: reach_snocE)
      then show False using reach_same_node [OF _ Cons.prems] n None by force
    qed
    then show ?thesis
      using n None x conflict_unreachable [OF assms(1)] path_conflict_unreachable [OF assms(1)] by auto
  next
    case (Some i)
    obtain child where child: "node_at ix i = Some child" using trie_downD [OF wf n Some] by blast
    have r: "reach (node_at ix) i (ps @ [c])" using Cons.prems n Some by (rule reach_child)
    show ?thesis using n Some x child Cons.IH [OF r] conflict_reached [OF assms(1) r child, of h] by auto
  qed
qed simp

lemma hash_conflict_unknown: "\<forall>h \<in> set hs. hmap ix h = None \<Longrightarrow> \<not> hash_conflict ix path pos hs"
  by (induction hs arbitrary: pos) auto

lemma attachable_scan:
  assumes "attachable ix cursor items" "node_at ix cursor \<noteq> None" "length path = pos"
  shows "\<exists>fn more. scan_path ix tot pos items cursor path = Some (Inr (fn, path @ more)) \<and>
    \<not> hash_conflict ix (path @ more) pos (map snd items)"
  using assms
proof (induction items arbitrary: cursor path pos)
  case (Cons x rest)
  obtain c h where x: "x = (c, h)" by force
  obtain n where n: "node_at ix cursor = Some n" using Cons.prems(2) by blast
  show ?case
  proof (cases "map_of (children n) c")
    case None
    then have "\<forall>k \<in> set (map snd (x # rest)). hmap ix k = None" using Cons.prems(1) n x by auto
    then show ?thesis using hash_conflict_unknown n None x by (auto intro!: exI [of _ "[]"])
  next
    case (Some i)
    then obtain child where child: "node_at ix i = Some child" "external_hash child = Some h"
      "hmap ix h = None \<or> hmap ix h = Some i" "attachable ix i rest"
      using Cons.prems(1) n x by auto
    obtain fn more where IH: "scan_path ix tot (Suc pos) rest i (path @ [i]) = Some (Inr (fn, (path @ [i]) @ more))"
      "\<not> hash_conflict ix ((path @ [i]) @ more) (Suc pos) (map snd rest)"
      using Cons.IH [OF child(4), of "path @ [i]" "Suc pos"] child(1) Cons.prems(3) by auto
    have "get (path @ i # more) pos = Some i" by (simp add: get_def nth_append flip: Cons.prems(3))
    then show ?thesis using IH child n Some x
      by (intro exI [of _ fn] exI [of _ "i # more"]) (auto split: option.split)
  qed
qed (auto intro!: exI [of _ "[]"])

lemma scan_path_error: "scan_path ix tot pos items cursor path = Some (Inl e) \<Longrightarrow> e = ConflictingPath"
proof (induction items arbitrary: pos cursor path)
  case (Cons x rest)
  obtain c h where x: "x = (c, h)" by force
  obtain n i where n: "node_at ix cursor = Some n" "map_of (children n) c = Some i"
    using Cons.prems x by (cases "node_at ix cursor") (auto split: option.splits)
  obtain child where child: "node_at ix i = Some child" using Cons.prems x n by (cases "node_at ix i") auto
  show ?case using Cons.prems Cons.IH [of "Suc pos" i "path @ [i]"] x n child by (simp split: if_splits)
qed simp

section \<open>Refusals\<close>

definition bad_shape :: "block_stored \<Rightarrow> bool" where
  "bad_shape event \<longleftrightarrow> block_size event = 0 \<or> token_ids event = [] \<or> block_hashes event = [] \<or>
     div_ceil (length (token_ids event)) (block_size event) \<noteq> length (block_hashes event)"

definition repeats_hash :: "block_stored \<Rightarrow> bool" where
  "repeats_hash event \<longleftrightarrow> \<not> distinct ((case parent_block_hash event of None \<Rightarrow> [] | Some p \<Rightarrow> [p]) @ block_hashes event)"

definition over_capacity :: "exact_kv_index \<Rightarrow> block_stored \<Rightarrow> bool" where
  "over_capacity ix event \<longleftrightarrow> max_nodes (limits ix) < live_nodes ix + length (block_hashes event) \<or>
     max_token_ids (limits ix) < resident_token_ids ix + length (token_ids event)"

lemma store_parent_None:
  assumes "index_shape {} ix"
  shows "store_parent ix event = None \<longleftrightarrow> (\<nexists>ps. parent_path ix event ps)"
proof (cases "parent_block_hash event")
  case (Some p)
  then show ?thesis using resident_hash [OF assms, of p] by (auto simp: store_parent_def parent_path_def)
qed (simp add: store_parent_def parent_path_def)

lemma parent_path_unique:
  assumes "index_shape {} ix" "parent_path ix event ps" "parent_path ix event qs"
  shows "ps = qs"
  using assms contents_functional [OF index_shapeD(1) [OF assms(1)]]
  by (auto simp: parent_path_def index_contents_def split: option.splits)

text \<open>The result of a store whose shape, parent and hashes are in order.\<close>

lemma store_checks:
  assumes "index_wf ix" "\<not> bad_shape event" "\<not> repeats_hash event" "store_parent ix event = Some i"
    and "reach (node_at ix) i ps"
  shows "if path_conflict ix ps (event_items event) then index_store event ix = Some (Inl ConflictingPath)
    else (index_store event ix = Some (Inl CapacityExceeded) \<and> over_capacity ix event) \<or> (\<exists>r. index_store event ix = Some (Inr r))"
proof -
  have sh: "index_shape {} ix" using assms(1) by (simp add: index_wf_def)
  let ?cs = "chunks (block_size event) (token_ids event)"
  have len: "length ?cs = length (block_hashes event)" "length (event_items event) = length ?cs"
    "map snd (event_items event) = block_hashes event"
    using assms(2) by (auto simp: bad_shape_def length_chunks event_items_def)
  have live: "node_at ix i \<noteq> None" using reach_live [OF index_shapeD(1) [OF sh] assms(5)] .
  let ?scan = "scan_path ix (length ?cs) 0 (event_items event) i []"
  have eq: "index_store event ix = Option.bind ?scan (\<lambda>r. case r of
               Inl e \<Rightarrow> Some (Inl e)
             | Inr (first_new, path) \<Rightarrow>
                if hash_conflict ix path 0 (block_hashes event) then Some (Inl ConflictingPath)
                else (case checked_sum 0 (map length (drop first_new ?cs)) of
                     None \<Rightarrow> Some (Inl CapacityExceeded)
                   | Some new_token_ids \<Rightarrow>
                      if max_nodes (limits ix) < sat_add (live_nodes ix) (length ?cs - first_new)
                         \<or> max_token_ids (limits ix) < sat_add (resident_token_ids ix) new_token_ids
                      then Some (Inl CapacityExceeded)
                      else map_option (\<lambda>ix'. Inr (ix', length (block_hashes event)))
                             (attach_path i (event_items event) ix)))"
    unfolding index_store_def if_not_P [OF assms(2) [unfolded bad_shape_def]] assms(4) option.case
      if_not_P [OF assms(3) [unfolded repeats_hash_def]] Let_def event_items_def by (rule refl)
  obtain r where r: "?scan = Some r" using scan_path_total [OF sh live] by blast
  show ?thesis
  proof (cases "path_conflict ix ps (event_items event)")
    case True
    then have na: "\<not> attachable ix i (event_items event)" using attachable_iff [OF sh assms(5)] by blast
    show ?thesis
    proof (cases r)
      case (Inl e)
      then show ?thesis using True eq r scan_path_error [of ix "length ?cs" 0 "event_items event" i "[]" e] by simp
    next
      case (Inr q)
      obtain fn path where q: "q = (fn, path)" by force
      have "hash_conflict ix path 0 (block_hashes event)"
        using scan_path_attachable [of ix 0 "event_items event" i "[]" fn path] na r Inr q len by auto
      then show ?thesis using True eq r Inr q by simp
    qed
  next
    case False
    then have "attachable ix i (event_items event)" using attachable_iff [OF sh assms(5)] by blast
    then obtain fn path where scan: "?scan = Some (Inr (fn, path))" "\<not> hash_conflict ix path 0 (block_hashes event)"
      using attachable_scan [OF _ live, of "event_items event" "[]" 0 "length ?cs"] len by auto
    let ?w = "sum_list (map length (drop fn ?cs))"
    have "sum_list (map length (take fn ?cs)) + ?w = length (token_ids event)"
      using concat_chunks [of "block_size event" "token_ids event"] assms(2) length_concat [of ?cs]
      by (metis append_take_drop_id bad_shape_def gr0I map_append sum_list_append)
    then have w: "?w \<le> length (token_ids event)" by simp
    have total: "\<exists>x. index_store event ix = Some x" using index_store_ok [OF assms(1)] by blast
    have lim: "max_token_ids (limits ix) < usize_max" using assms(1) by (simp add: index_wf_def limits_ok_def)
    show ?thesis using False eq scan total w lim len
      by (auto simp: checked_sum_eq over_capacity_def sat_add_def split: if_splits)
  qed
qed

lemma store_early:
  "bad_shape event \<Longrightarrow> index_store event ix = Some (Inl InconsistentBlockShape)"
  "\<not> bad_shape event \<Longrightarrow> store_parent ix event = None \<Longrightarrow> index_store event ix = Some (Inl ParentNotFound)"
  "\<not> bad_shape event \<Longrightarrow> store_parent ix event = Some i \<Longrightarrow> repeats_hash event \<Longrightarrow> index_store event ix = Some (Inl DuplicateHash)"
  by (auto simp: index_store_def bad_shape_def repeats_hash_def)



section \<open>Lookups end\<close>

text \<open>
  C17. A lookup ends: on a well-formed index the work-list loop returns for every prompt of a length a
  vector can have, with a match that covers no more than the prompt and no more blocks than tokens, or with the error
  that the step budget was exhausted; it neither diverges nor panics.
\<close>

theorem lookup_terminates:
  assumes "index_wf ix" "length toks \<le> usize_max"
  shows "\<exists>r. index_find_longest toks ix = Some r \<and>
    (case r of Inl e \<Rightarrow> e = LookupBudgetExceeded | Inr m \<Rightarrow> em_token_ids m \<le> length toks \<and> em_blocks m \<le> em_token_ids m)"
proof -
  have sh: "index_shape {} ix" using assms(1) by (simp add: index_wf_def)
  consider (budget) "index_find_longest toks ix = Some (Inl LookupBudgetExceeded)"
    | (found) ps where "index_find_longest toks ix = Some (Inr (chain_match ps))" "resident_chain (index_contents ix) toks ps"
    using index_find_longest_ok [OF assms] by blast
  then show ?thesis
  proof cases
    case (found ps)
    have "\<forall>c \<in> set ps. c \<noteq> []"
    proof (cases "ps = []")
      case False
      then obtain h where "(h, ps) \<in> index_contents ix" using found(2) by (force simp: resident_chain_def)
      then show ?thesis using reach_blocks_nonempty [OF index_shapeD(1) [OF sh]]
        by (auto simp: index_contents_def contents_def)
    qed simp
    then have "length ps \<le> length (concat ps)"
    proof (induction ps)
      case (Cons c ps)
      then show ?case by (cases c) auto
    qed simp
    moreover have "length (concat ps) \<le> length toks" using found(2) by (auto simp: resident_chain_def dest: prefix_length_le)
    ultimately show ?thesis using found(1) by (simp add: chain_match_def)
  qed simp
qed

theorem lookup_terminates_witness:
  "\<exists>r. index_find_longest [10, 11, 12, 13] sample_index = Some r \<and>
     (case r of Inl e \<Rightarrow> e = LookupBudgetExceeded | Inr m \<Rightarrow> em_token_ids m \<le> 4)"
  using lookup_terminates [OF sample_index_wf, of "[10, 11, 12, 13]"] by (fastforce simp: usize_max_def split: sum.splits)

end
