(* ===== verification/Json.thy ===== *)
theory Json
  imports Ramjet_Prelude "HOL-Library.Char_ord" "HOL-Library.List_Lexorder" "HOL-Library.Multiset"
begin

text \<open>
  JSON values as the sources handle them (\<^verbatim>\<open>serde_json::Value\<close>) and the canonical form of
  \<^verbatim>\<open>src/src/router.rs\<close>.  A Rust string or byte vector is a list of octets, so a \<^typ>\<open>string\<close>;
  a \<^verbatim>\<open>Map<String, Value>\<close> is an association list with distinct keys, in an order that means nothing.
  Numbers are a type parameter: the sources only ask the crate for their \<^verbatim>\<open>i64\<close> value and for their
  text.
\<close>

section \<open>Values\<close>

datatype 'n json =
    JNull
  | JBool bool
  | JNumber 'n
  | JString string
  | JArray "'n json list"
  | JObject "(string \<times> 'n json) list"

type_synonym 'n json_map = "(string \<times> 'n json) list"

fun as_array :: "'n json \<Rightarrow> 'n json list option" where
  "as_array (JArray vs) = Some vs"
| "as_array _ = None"

fun as_object :: "'n json \<Rightarrow> 'n json_map option" where
  "as_object (JObject m) = Some m"
| "as_object _ = None"

fun as_str :: "'n json \<Rightarrow> string option" where
  "as_str (JString s) = Some s"
| "as_str _ = None"

fun as_number :: "'n json \<Rightarrow> 'n option" where
  "as_number (JNumber n) = Some n"
| "as_number _ = None"

fun as_bool :: "'n json \<Rightarrow> bool option" where
  "as_bool (JBool b) = Some b"
| "as_bool _ = None"

text \<open>\<open>Value::get\<close> with a string index.\<close>

definition json_get :: "string \<Rightarrow> 'n json \<Rightarrow> 'n json option" where
  "json_get key v = Option.bind (as_object v) (\<lambda>m. map_of m key)"

definition is_null :: "'n json \<Rightarrow> bool" where
  "is_null v \<longleftrightarrow> (case v of JNull \<Rightarrow> True | _ \<Rightarrow> False)"

definition get_str :: "'n json_map \<Rightarrow> string \<Rightarrow> string option" where
  "get_str m key = Option.bind (map_of m key) as_str"

definition get_array :: "'n json_map \<Rightarrow> string \<Rightarrow> 'n json list option" where
  "get_array m key = Option.bind (map_of m key) as_array"

lemma json_member_size [termination_simp]:
  "(k, v) \<in> set m \<Longrightarrow> size v < Suc (size_list (size_prod (\<lambda>_. 0) size) m)"
  by (induction m) auto

lemma json_snd_size [termination_simp]:
  "p \<in> set m \<Longrightarrow> size (snd p) < Suc (size_list (size_prod (\<lambda>_. 0) size) m)"
  by (cases p) (auto intro: json_member_size)

text \<open>Every object has each key once, as the map type guarantees.\<close>

fun json_ok :: "'n json \<Rightarrow> bool" where
  "json_ok (JArray vs) \<longleftrightarrow> (\<forall>v \<in> set vs. json_ok v)"
| "json_ok (JObject m) \<longleftrightarrow> distinct (map fst m) \<and> (\<forall>p \<in> set m. json_ok (snd p))"
| "json_ok _ \<longleftrightarrow> True"

abbreviation map_ok :: "'n json_map \<Rightarrow> bool" where
  "map_ok m \<equiv> json_ok (JObject m)"

section \<open>Canonical text\<close>

fun commas :: "string list \<Rightarrow> string" where
  "commas [] = []"
| "commas [x] = x"
| "commas (x # y # ys) = x @ '','' @ commas (y # ys)"

text \<open>
  The bytes \<open>append_canonical_json\<close> appends.  \<open>to_writer\<close> is the crate's compact writer; the source calls
  it on scalars and on keys.
\<close>

fun append_canonical_json :: "('n json \<Rightarrow> string) \<Rightarrow> 'n json \<Rightarrow> string" where
  "append_canonical_json to_writer (JArray vs) =
     ''['' @ commas (map (append_canonical_json to_writer) vs) @ '']''"
| "append_canonical_json to_writer (JObject m) =
    (let texts = map (\<lambda>p. (fst p, append_canonical_json to_writer (snd p))) m;
         keys = sort (map fst m)
     in ''{'' @ commas (map (\<lambda>key. to_writer (JString key) @ '':'' @ the (map_of texts key)) keys) @ ''}'')"
| "append_canonical_json to_writer v = to_writer v"

section \<open>Reordering of objects\<close>

text \<open>Two values that differ only in the order of the members of their objects, at any depth.\<close>

inductive same_json :: "'n json \<Rightarrow> 'n json \<Rightarrow> bool" where
  same_refl: "same_json v v"
| same_array: "list_all2 same_json vs ws \<Longrightarrow> same_json (JArray vs) (JArray ws)"
| same_object: "list_all2 (\<lambda>p q. fst p = fst q \<and> same_json (snd p) (snd q)) m n \<Longrightarrow> mset n = mset n' \<Longrightarrow>
    same_json (JObject m) (JObject n')"

inductive_cases same_arrayE: "same_json (JArray vs) w"
inductive_cases same_objectE: "same_json (JObject m) w"
inductive_cases same_stringE: "same_json (JString s) w"
inductive_cases same_nullE: "same_json JNull w"

abbreviation same_map :: "'n json_map \<Rightarrow> 'n json_map \<Rightarrow> bool" where
  "same_map m n \<equiv> same_json (JObject m) (JObject n)"

lemma map_of_perm: "mset m = mset n \<Longrightarrow> distinct (map fst m) \<Longrightarrow> map_of m = map_of n"
  by (metis distinct_map mset_eq_setD mset_map map_of_inject_set mset_eq_imp_distinct_iff)

lemma all2_keys:
  "list_all2 (\<lambda>p q. fst p = fst q \<and> R (snd p) (snd q)) m n \<Longrightarrow> map fst m = map fst n"
  by (induction rule: list_all2_induct) auto

lemma all2_map_of:
  assumes "list_all2 (\<lambda>p q. fst p = fst q \<and> R (snd p) (snd q)) m n"
  shows "rel_option R (map_of m k) (map_of n k)"
  using assms by (induction rule: list_all2_induct) auto

text \<open>Canonical text does not depend on the order of object members.\<close>

lemma canonical_json_same:
  "same_json v w \<Longrightarrow> json_ok v \<Longrightarrow> append_canonical_json tw v = append_canonical_json tw w"
proof (induction rule: same_json.induct)
  case (same_array vs ws)
  have "map (append_canonical_json tw) vs = map (append_canonical_json tw) ws"
    using same_array by (auto simp: list_all2_conv_all_nth intro!: nth_equalityI)
  then show ?case by simp
next
  case (same_object m n n')
  let ?text = "\<lambda>p. (fst p, append_canonical_json tw (snd p))"
  have all: "list_all2 (\<lambda>p q. ?text p = ?text q) m n"
    using same_object(1,3) by (auto simp: list_all2_conv_all_nth)
  then have texts: "map ?text m = map ?text n" by (auto simp: list_all2_conv_all_nth intro!: nth_equalityI)
  have keys: "map fst m = map fst n"
    using texts by (metis (no_types, lifting) comp_apply fst_conv map_cong map_map)
  have "map_of (map ?text n) = map_of (map ?text n')"
    using same_object(2,3) keys by (intro map_of_perm) (simp_all add: comp_def)
  moreover have "sort (map fst n) = sort (map fst n')"
    using same_object(2) by (metis mset_map sorted_list_of_multiset_mset)
  ultimately show ?case using texts keys by (simp add: Let_def del: map_map)
qed simp

lemma same_map_lookup:
  assumes "same_map m n" "map_ok m"
  shows "rel_option same_json (map_of m k) (map_of n k)"
  using assms(1)
proof (rule same_objectE)
  assume "JObject n = JObject m"
  then show ?thesis by (auto intro: option.rel_refl same_refl)
next
  fix n0 n'
  assume o: "JObject n = JObject n'" and all: "list_all2 (\<lambda>p q. fst p = fst q \<and> same_json (snd p) (snd q)) m n0"
    and "mset n0 = mset n'"
  then have "map_of n0 = map_of n'" using assms(2) all2_keys [OF all] by (intro map_of_perm) simp_all
  then show ?thesis using all2_map_of [OF all, of k] o by simp
qed

lemma map_of_ok: "map_ok m \<Longrightarrow> map_of m k = Some v \<Longrightarrow> json_ok v"
  by (auto dest!: map_of_SomeD)

lemma same_scalars:
  assumes "same_json v w"
  shows "is_null v = is_null w" "as_str v = as_str w" "rel_option (list_all2 same_json) (as_array v) (as_array w)"
    "rel_option same_map (as_object v) (as_object w)"
  using assms
  by (auto simp: is_null_def elim!: same_json.cases intro: list.rel_refl option.rel_refl same_refl same_json.intros
      split: json.split)

lemma same_json_shape:
  assumes "same_json v w"
  obtains (objects) m n where "v = JObject m" "w = JObject n" "same_map m n"
    | (other) "as_object v = None" "as_object w = None"
  using same_scalars(4) [OF assms] assms by (cases v; cases w) auto

end
