(* ===== verification/Fingerprint.thy ===== *)
theory Fingerprint
  imports Json Router_Served
begin

text \<open>
  From a request body to its fingerprint chain (\<^verbatim>\<open>src/src/router.rs\<close>): the canonical prompt with its
  static fields hoisted before the conversation, and the chained 64-bit FNV-1a hash of its chunks.  The JSON
  parser and the compact JSON writer are the parameters \<open>from_slice\<close> and \<open>to_writer\<close>.
\<close>

unbundle bit_operations_syntax

section \<open>The canonical prompt\<close>

definition nul :: string where
  "nul = [CHR 0x00]"

definition append_field :: "('n json \<Rightarrow> string) \<Rightarrow> string \<Rightarrow> 'n json option \<Rightarrow> string" where
  "append_field to_writer key field = (case field of
      None \<Rightarrow> []
    | Some v \<Rightarrow> if is_null v then [] else key @ nul @ append_canonical_json to_writer v @ nul)"

definition message_keys :: "string list" where
  "message_keys = [''role'', ''name'', ''content'', ''reasoning_content'', ''reasoning'', ''tool_calls'',
     ''function_call'', ''tool_call_id'']"

definition append_message :: "('n json \<Rightarrow> string) \<Rightarrow> 'n json_map \<Rightarrow> string" where
  "append_message to_writer message =
     ''message'' @ nul @ concat (map (\<lambda>key. append_field to_writer key (map_of message key)) message_keys)"

definition prompt_keys :: "string list" where
  "prompt_keys = [''chat_template_kwargs'', ''enable_thinking'', ''preserve_thinking'', ''mm_processor_kwargs'',
     ''add_generation_prompt'', ''continue_final_message'', ''tools'', ''functions'', ''tool_choice'',
     ''function_call'', ''parallel_tool_calls'', ''reasoning_effort'', ''thinking'', ''response_format'']"

fun leading_message :: "'n json \<Rightarrow> bool" where
  "leading_message (JObject message) \<longleftrightarrow> get_str message ''role'' \<in> {Some ''system'', Some ''developer''}"
| "leading_message _ \<longleftrightarrow> False"

fun append_messages :: "('n json \<Rightarrow> string) \<Rightarrow> 'n json list \<Rightarrow> string" where
  "append_messages to_writer [] = []"
| "append_messages to_writer (JObject message # ms) = append_message to_writer message @ append_messages to_writer ms"
| "append_messages to_writer (_ # ms) = append_messages to_writer ms"

text \<open>The messages to render; \<open>None\<close> when the body is fingerprinted as it is.\<close>

definition prompt_messages :: "'n json_map \<Rightarrow> 'n json list option" where
  "prompt_messages m =
    (case map_of m ''messages'' of
       Some (JArray ms) \<Rightarrow> Some ms
     | Some JNull \<Rightarrow> (if (case map_of m ''system'' of None \<Rightarrow> True | Some v \<Rightarrow> is_null v) then None else Some [])
     | None \<Rightarrow> (if (case map_of m ''system'' of None \<Rightarrow> True | Some v \<Rightarrow> is_null v) then None else Some [])
     | Some _ \<Rightarrow> None)"

definition system_prompt :: "('n json \<Rightarrow> string) \<Rightarrow> 'n json_map \<Rightarrow> string" where
  "system_prompt to_writer m = (case map_of m ''system'' of
      None \<Rightarrow> []
    | Some v \<Rightarrow> if is_null v then []
        else append_message to_writer [(''role'', JString ''system''), (''content'', v)])"

text \<open>The output before it is cut to the configured length.\<close>

definition full_prompt :: "('n json \<Rightarrow> string) \<Rightarrow> 'n json_map \<Rightarrow> 'n json list \<Rightarrow> string" where
  "full_prompt to_writer m messages =
     system_prompt to_writer m
     @ append_messages to_writer (takeWhile leading_message messages)
     @ concat (map (\<lambda>key. append_field to_writer key (map_of m key)) prompt_keys)
     @ append_messages to_writer (dropWhile leading_message messages)"

definition canonical_prompt :: "('n json \<Rightarrow> string) \<Rightarrow> string \<Rightarrow> 'n json_map option \<Rightarrow> nat \<Rightarrow> string" where
  "canonical_prompt to_writer body parsed max_bytes =
    (case parsed of None \<Rightarrow> take max_bytes body
     | Some m \<Rightarrow> (case prompt_messages m of None \<Rightarrow> take max_bytes body
        | Some messages \<Rightarrow> take max_bytes (full_prompt to_writer m messages)))"

section \<open>The chained hash\<close>

definition to_le_bytes :: "u64 \<Rightarrow> u8 list" where
  "to_le_bytes x = map (\<lambda>i. ucast (drop_bit (8 * i) x)) [0..<8]"

definition fnv1a :: "u8 list \<Rightarrow> u64" where
  "fnv1a bytes = fold (\<lambda>byte hash. (hash XOR ucast byte) * 0x00000100000001b3) bytes 0xcbf29ce484222325"

fun chain_chunks :: "u64 \<Rightarrow> string list \<Rightarrow> u64 list" where
  "chain_chunks previous [] = []"
| "chain_chunks previous (chunk # cs) =
    (let hash = fnv1a (to_le_bytes previous @ map of_char chunk) in hash # chain_chunks hash cs)"

definition chain_fingerprints :: "string \<Rightarrow> nat \<Rightarrow> u64 list" where
  "chain_fingerprints prompt chunk_bytes =
    (if prompt = [] \<or> chunk_bytes = 0 then [] else chain_chunks 0 (chunks chunk_bytes prompt))"

definition fingerprints_preparsed ::
  "('n json \<Rightarrow> string) \<Rightarrow> router_config \<Rightarrow> string \<Rightarrow> 'n json_map option \<Rightarrow> u64 list" where
  "fingerprints_preparsed to_writer c body parsed =
     chain_fingerprints (canonical_prompt to_writer body parsed (rc_max_prefix_bytes c)) (rc_chunk_bytes c)"

definition fingerprints ::
  "(string \<Rightarrow> 'n json option) \<Rightarrow> ('n json \<Rightarrow> string) \<Rightarrow> router_config \<Rightarrow> string \<Rightarrow> u64 list" where
  "fingerprints from_slice to_writer c body =
     fingerprints_preparsed to_writer c body (Option.bind (from_slice body) as_object)"

definition route_with_fingerprints ::
  "('c, u64, nat) lru_ops \<Rightarrow> (string \<Rightarrow> 'n json option) \<Rightarrow> ('n json \<Rightarrow> string) \<Rightarrow> string \<Rightarrow> nat \<Rightarrow> 'c router
     \<Rightarrow> ((decision \<times> u64 list) \<times> 'c router) option" where
  "route_with_fingerprints ops from_slice to_writer body now r =
    (let fps = fingerprints from_slice to_writer (r_config r) body
     in map_option (\<lambda>((d, _), r'). ((d, fps), r'))
          (route_fingerprints ops (length body) fps 1 Pref_Neutral True now r))"

definition route ::
  "('c, u64, nat) lru_ops \<Rightarrow> (string \<Rightarrow> 'n json option) \<Rightarrow> ('n json \<Rightarrow> string) \<Rightarrow> string \<Rightarrow> nat \<Rightarrow> 'c router
     \<Rightarrow> (decision \<times> 'c router) option" where
  "route ops from_slice to_writer body now r =
     map_option (\<lambda>((d, _), r'). (d, r'))
       (route_fingerprints ops (length body) (fingerprints from_slice to_writer (r_config r) body) 1 Pref_Neutral True now r)"

section \<open>Reordered objects\<close>

lemma append_field_same:
  assumes "rel_option same_json v w" "pred_option json_ok v"
  shows "append_field tw key v = append_field tw key w"
  using assms canonical_json_same [of _ _ tw] same_scalars(1)
  by (cases v; cases w) (auto simp: append_field_def)

lemma append_fields_same:
  assumes "same_map m n" "map_ok m"
  shows "map (\<lambda>key. append_field tw key (map_of m key)) ks = map (\<lambda>key. append_field tw key (map_of n key)) ks"
  using append_field_same [OF same_map_lookup [OF assms]] map_of_ok [OF assms(2)]
  by (auto simp: option.pred_set elim: option.set_cases)

lemma append_message_same: "same_map m n \<Longrightarrow> map_ok m \<Longrightarrow> append_message tw m = append_message tw n"
  unfolding append_message_def by (simp only: append_fields_same)

lemma append_messages_Cons:
  "append_messages tw (v # ms) =
     (case as_object v of None \<Rightarrow> [] | Some m \<Rightarrow> append_message tw m) @ append_messages tw ms"
  by (cases v) simp_all

lemma leading_message_object:
  "leading_message v \<longleftrightarrow> (case as_object v of None \<Rightarrow> False | Some m \<Rightarrow>
     get_str m ''role'' \<in> {Some ''system'', Some ''developer''})"
  by (cases v) simp_all

lemma append_messages_same:
  "list_all2 same_json ms ns \<Longrightarrow> \<forall>v \<in> set ms. json_ok v \<Longrightarrow> append_messages tw ms = append_messages tw ns"
proof (induction rule: list_all2_induct)
  case (Cons v ms w ns)
  have "(case as_object v of None \<Rightarrow> [] | Some m \<Rightarrow> append_message tw m) =
        (case as_object w of None \<Rightarrow> [] | Some m \<Rightarrow> append_message tw m)"
    using Cons.hyps(1)
  proof (cases rule: same_json_shape)
    case (objects m n)
    then show ?thesis using append_message_same [of m n tw] Cons.prems by (simp del: json_ok.simps)
  qed simp
  then show ?case using Cons by (simp add: append_messages_Cons)
qed simp

lemma get_str_same:
  assumes "same_map m n" "map_ok m"
  shows "get_str m k = get_str n k"
  using same_map_lookup [OF assms, of k] same_scalars(2)
  by (cases "map_of m k"; cases "map_of n k") (auto simp: get_str_def)

lemma leading_same:
  assumes "same_json v w" "json_ok v"
  shows "leading_message v = leading_message w"
  using assms(1)
proof (cases rule: same_json_shape)
  case (objects m n)
  have "get_str m ''role'' = get_str n ''role''" using objects assms(2) by (intro get_str_same) simp_all
  then show ?thesis using objects by simp
qed (simp add: leading_message_object)

lemma split_leading_same:
  assumes "list_all2 same_json ms ns" "\<forall>v \<in> set ms. json_ok v"
  shows "list_all2 same_json (takeWhile leading_message ms) (takeWhile leading_message ns)"
    "list_all2 same_json (dropWhile leading_message ms) (dropWhile leading_message ns)"
  using assms by (induction rule: list_all2_induct) (auto simp: leading_same)

lemma system_prompt_same:
  assumes "same_map m n" "map_ok m"
  shows "system_prompt tw m = system_prompt tw n"
proof -
  have field: "append_field tw ''content'' (map_of m ''system'') = append_field tw ''content'' (map_of n ''system'')"
    using append_fields_same [OF assms, of tw "[''system'']"] same_map_lookup [OF assms, of "''system''"]
      append_field_same [of "map_of m ''system''" "map_of n ''system''" tw] map_of_ok [OF assms(2)]
    by (auto simp: option.pred_set simp del: json_ok.simps elim: option.set_cases)
  show ?thesis
  proof (cases "map_of m ''system''")
    case None
    then show ?thesis using same_map_lookup [OF assms, of "''system''"] by (simp add: system_prompt_def)
  next
    case (Some v)
    then obtain w where w: "map_of n ''system'' = Some w" "same_json v w"
      using same_map_lookup [OF assms, of "''system''"] by (cases "map_of n ''system''") auto
    then show ?thesis using Some field same_scalars(1) [OF w(2)]
      by (simp add: system_prompt_def append_message_def message_keys_def)
  qed
qed

lemma prompt_messages_same:
  assumes "same_map m n" "map_ok m"
  shows "rel_option (list_all2 same_json) (prompt_messages m) (prompt_messages n)"
proof -
  have "(case map_of m ''system'' of None \<Rightarrow> True | Some v \<Rightarrow> is_null v) \<longleftrightarrow>
        (case map_of n ''system'' of None \<Rightarrow> True | Some v \<Rightarrow> is_null v)"
    using same_map_lookup [OF assms, of "''system''"]
    by (cases "map_of m ''system''"; cases "map_of n ''system''") (auto simp: same_scalars(1))
  then show ?thesis
    using same_map_lookup [OF assms, of "''messages''"]
    by (cases "map_of m ''messages''"; cases "map_of n ''messages''")
      (auto simp: prompt_messages_def elim!: same_json.cases intro: list.rel_refl same_refl split: json.split)
qed

lemma prompt_messages_ok:
  assumes "map_ok m" "prompt_messages m = Some ms"
  shows "\<forall>v \<in> set ms. json_ok v"
  using assms map_of_ok [OF assms(1), of "''messages''"]
  by (auto simp: prompt_messages_def simp del: json_ok.simps(2) split: option.splits json.splits if_splits)

lemma full_prompt_same:
  assumes "same_map m n" "map_ok m" "list_all2 same_json ms ns" "\<forall>v \<in> set ms. json_ok v"
  shows "full_prompt tw m ms = full_prompt tw n ns"
proof -
  have "\<forall>v \<in> set (takeWhile leading_message ms). json_ok v" "\<forall>v \<in> set (dropWhile leading_message ms). json_ok v"
    using assms(4) by (auto dest: set_takeWhileD set_dropWhileD)
  then show ?thesis
    unfolding full_prompt_def
    by (simp only: system_prompt_same [OF assms(1,2)] append_fields_same [OF assms(1,2)]
        append_messages_same [OF split_leading_same(1) [OF assms(3,4)]]
        append_messages_same [OF split_leading_same(2) [OF assms(3,4)]])
qed

text \<open>
  Fingerprints do not depend on the order of object members: two bodies whose parsed objects differ
  only in that order, at any depth, have the same fingerprint chain, provided the body is a conversation
  (and so not fingerprinted as raw bytes).
\<close>

theorem fingerprints_order_independent:
  assumes "map_ok m" "same_map m n" "prompt_messages m \<noteq> None"
  shows "fingerprints_preparsed to_writer c body (Some m) = fingerprints_preparsed to_writer c body' (Some n)"
proof -
  obtain ms where ms: "prompt_messages m = Some ms" using assms(3) by blast
  then obtain ns where ns: "prompt_messages n = Some ns" "list_all2 same_json ms ns"
    using prompt_messages_same [OF assms(2,1)] by (cases "prompt_messages n") auto
  have "full_prompt to_writer m ms = full_prompt to_writer n ns"
    using full_prompt_same [OF assms(2,1) ns(2) prompt_messages_ok [OF assms(1) ms]] .
  then show ?thesis by (simp add: fingerprints_preparsed_def canonical_prompt_def ms ns)
qed

section \<open>Chains\<close>

lemma length_chain_chunks [simp]: "length (chain_chunks p cs) = length cs"
  by (induction p cs rule: chain_chunks.induct) (simp_all add: Let_def)

lemma take_chain_chunks: "take k (chain_chunks p cs) = chain_chunks p (take k cs)"
  by (induction p cs arbitrary: k rule: chain_chunks.induct) (simp_all add: Let_def take_Cons' )

lemma take_chunks: "0 < n \<Longrightarrow> take k (chunks n xs) = chunks n (take (k * n) xs)"
proof (induction k arbitrary: xs)
  case (Suc k)
  then show ?case
    by (cases "xs = []") (simp_all add: chunks.simps [of n xs] chunks.simps [of n "take (n + k * n) xs"]
        drop_take min_def)
qed simp

lemma chain_fingerprints_eq:
  "chain_fingerprints p n = (if n = 0 then [] else chain_chunks 0 (chunks n p))"
  by (simp add: chain_fingerprints_def)

lemma chain_take: "take k (chain_fingerprints p n) = (if n = 0 then [] else chain_chunks 0 (chunks n (take (k * n) p)))"
  by (simp add: chain_fingerprints_eq take_chain_chunks take_chunks)

lemma chain_agree:
  "take (k * n) p = take (k * n) q \<Longrightarrow> take k (chain_fingerprints p n) = take k (chain_fingerprints q n)"
  by (simp add: chain_take)

lemma chain_length: "length (chain_fingerprints p n) = (if n = 0 then 0 else div_ceil (length p) n)"
  by (simp add: chain_fingerprints_eq length_chunks)

section \<open>Follow-up turns\<close>

lemma append_messages_append [simp]: "append_messages tw (ms @ ns) = append_messages tw ms @ append_messages tw ns"
  by (induction tw ms rule: append_messages.induct) simp_all

text \<open>The request with further messages at the end of the conversation.\<close>

definition continued :: "'n json_map \<Rightarrow> 'n json list \<Rightarrow> 'n json_map" where
  "continued m ms = AList.update ''messages'' (JArray ms) m"

lemma full_prompt_continued:
  assumes "\<not> list_all leading_message ms"
  shows "full_prompt tw (continued m (ms @ extra)) (ms @ extra) = full_prompt tw m ms @ append_messages tw extra"
proof -
  obtain v where v: "v \<in> set ms" "\<not> leading_message v" using assms by (auto simp: list_all_iff)
  have "map_of (continued m (ms @ extra)) key = map_of m key" if "key \<noteq> ''messages''" for key
    using that by (simp add: continued_def update_conv')
  then show ?thesis
    using takeWhile_append1 [of v ms leading_message extra] dropWhile_append1 [of v ms leading_message extra] v
    by (simp add: full_prompt_def system_prompt_def prompt_keys_def)
qed

lemma canonical_continued:
  assumes "map_of m ''messages'' = Some (JArray ms)" "\<not> list_all leading_message ms"
  shows "\<exists>rest. canonical_prompt tw body' (Some (continued m (ms @ extra))) mx = canonical_prompt tw body (Some m) mx @ rest"
  using assms(1) full_prompt_continued [OF assms(2), of tw m extra]
  by (simp add: canonical_prompt_def prompt_messages_def continued_def update_conv')

lemma takeWhile_at_least:
  "\<forall>x \<in> set (take k xs). P x \<Longrightarrow> k \<le> length xs \<Longrightarrow> k \<le> length (takeWhile P xs)"
proof (induction k arbitrary: xs)
  case (Suc k)
  then show ?case by (cases xs) auto
qed simp

lemma observed_blocks_credited:
  fixes now :: nat and tokens :: "nat option" and fps :: "u64 list"
  assumes "lru_laws ops entries capacity" "u < length (in_states (r_inner r))"
    and "rc_affinity (r_config r) = Affinity_Prefix" "distinct fps"
    and "length fps \<le> capacity (us_lru (in_states (r_inner r) ! u))"
    and "k \<le> length follow" "set (take k follow) \<subseteq> set fps"
  defines "r' \<equiv> observe_at ops u fps tokens now r"
  shows "k \<le> raw_overlap (locality_of ops (r_config r') follow later (in_states (r_inner r') ! u)) \<and>
    k \<le> fresh_overlap (locality_of ops (r_config r') follow now (in_states (r_inner r') ! u))"
proof -
  let ?peek = "lru_peek ops (lru_push_all ops fps now (us_lru (in_states (r_inner r) ! u)))"
  have served: "us_lru (in_states (r_inner r') ! u) = lru_push_all ops fps now (us_lru (in_states (r_inner r) ! u))"
    "r_config r' = r_config r"
    unfolding r'_def using observe_state [OF assms(2)] by simp_all
  have peek: "\<forall>fp \<in> set (take k follow). ?peek fp = Some now"
    using lru_push_all_peek [OF assms(1,4,5)] assms(7) by blast
  then have "k \<le> length (takeWhile (\<lambda>fp. ?peek fp \<noteq> None) follow)"
    using assms(6) by (intro takeWhile_at_least) auto
  moreover have "k \<le> length (takeWhile (fresh_at ?peek h now) follow)" for h
    using assms(6) peek
    by (intro takeWhile_at_least) (auto simp: fresh_at_def credited_def saturating_duration_since_def split: option.splits)
  ultimately show ?thesis
    using assms(3) by (simp add: locality_of_def walk_def walk_loop_spec locality_default_def served del: not_None_eq)
qed

lemma continued_chain:
  fixes tw :: "'n json \<Rightarrow> string" and c :: router_config and body :: string
  assumes "map_of m ''messages'' = Some (JArray ms)" "\<not> list_all leading_message ms"
  defines "k \<equiv> length (canonical_prompt tw body (Some m) (rc_max_prefix_bytes c)) div rc_chunk_bytes c"
  shows "take k (fingerprints_preparsed tw c body' (Some (continued m (ms @ extra)))) =
      take k (fingerprints_preparsed tw c body (Some m)) \<and> k \<le> length (fingerprints_preparsed tw c body (Some m))"
proof -
  let ?p = "canonical_prompt tw body (Some m) (rc_max_prefix_bytes c)"
  have "k * rc_chunk_bytes c \<le> length ?p" unfolding k_def by simp
  moreover obtain rest where "canonical_prompt tw body' (Some (continued m (ms @ extra))) (rc_max_prefix_bytes c) = ?p @ rest"
    using canonical_continued [OF assms(1,2)] by blast
  ultimately have "take k (fingerprints_preparsed tw c body' (Some (continued m (ms @ extra)))) =
      take k (fingerprints_preparsed tw c body (Some m))"
    unfolding fingerprints_preparsed_def by (intro chain_agree) simp
  moreover have "length ?p div n \<le> div_ceil (length ?p) n" for n
    by (auto simp: div_ceil_def)
  ultimately show ?thesis by (auto simp: fingerprints_preparsed_def chain_length k_def)
qed

text \<open>
  C32. A conversation stays where it was served. After a request of a conversation was served by a
  replica, a later request that appends messages to it is credited, on that replica, with at least every
  whole chunk of the earlier canonical prompt, both in the raw overlap at any later instant and in the
  fresh overlap at the instant of the response. The served index must be able to hold the chain, its
  fingerprints must be distinct, and the earlier request must contain a message that is neither a system nor
  a developer message.
\<close>

theorem follow_up_turn_credited:
  fixes now :: nat and tokens :: "nat option" and to_writer :: "'n json \<Rightarrow> string" and body body' :: string
    and extra :: "'n json list"
  assumes "lru_laws ops entries capacity" "u < length (in_states (r_inner r))"
    and "rc_affinity (r_config r) = Affinity_Prefix"
    and "map_of m ''messages'' = Some (JArray ms)" "\<not> list_all leading_message ms"
    and "distinct (fingerprints_preparsed to_writer (r_config r) body (Some m))"
    and "length (fingerprints_preparsed to_writer (r_config r) body (Some m)) \<le> capacity (us_lru (in_states (r_inner r) ! u))"
  defines "r' \<equiv> observe_at ops u (fingerprints_preparsed to_writer (r_config r) body (Some m)) tokens now r"
    and "follow \<equiv> fingerprints_preparsed to_writer (r_config r) body' (Some (continued m (ms @ extra)))"
    and "whole \<equiv> length (canonical_prompt to_writer body (Some m) (rc_max_prefix_bytes (r_config r))) div rc_chunk_bytes (r_config r)"
  shows "whole \<le> raw_overlap (locality_of ops (r_config r') follow later (in_states (r_inner r') ! u)) \<and>
    whole \<le> fresh_overlap (locality_of ops (r_config r') follow now (in_states (r_inner r') ! u))"
proof -
  have eq: "take whole follow = take whole (fingerprints_preparsed to_writer (r_config r) body (Some m))"
    and le: "whole \<le> length (fingerprints_preparsed to_writer (r_config r) body (Some m))"
    using continued_chain [OF assms(4,5), of to_writer body "r_config r" body' extra]
    by (simp_all add: whole_def follow_def)
  have "whole \<le> length follow" using arg_cong [OF eq, of length] le by simp
  moreover have "set (take whole follow) \<subseteq> set (fingerprints_preparsed to_writer (r_config r) body (Some m))"
    unfolding eq by (rule set_take_subset)
  ultimately show ?thesis
    unfolding r'_def by (rule observed_blocks_credited [OF assms(1-3,6,7)])
qed

section \<open>A concrete conversation\<close>

definition plain_writer :: "nat json \<Rightarrow> string" where
  "plain_writer v = (case v of JString s \<Rightarrow> s | _ \<Rightarrow> ''?'')"

definition first_turn :: "nat json_map" where
  "first_turn = [(''model'', JString ''m''), (''messages'', JArray [JObject [(''role'', JString ''user'')]])]"

definition second_turn :: "nat json list" where
  "second_turn = [JObject [(''role'', JString ''assistant'')], JObject [(''role'', JString ''user'')]]"

definition chunk_router :: "(nat \<times> (u64 \<times> nat) list) router" where
  "chunk_router = (sample_router Enforce Spec_Off)\<lparr>r_config := (sample_config Enforce Spec_Off)\<lparr>rc_chunk_bytes := 18\<rparr>\<rparr>"

theorem fingerprints_order_independent_witness:
  "fingerprints_preparsed plain_writer (sample_config Enforce Spec_Off) ''a'' (Some first_turn) =
   fingerprints_preparsed plain_writer (sample_config Enforce Spec_Off) ''b'' (Some (rev first_turn))"
proof (rule fingerprints_order_independent)
  show "map_ok first_turn" "prompt_messages first_turn \<noteq> None" by (simp_all add: first_turn_def prompt_messages_def)
  show "same_map first_turn (rev first_turn)"
    by (rule same_object [of _ first_turn]) (auto simp: list_all2_refl same_refl)
qed

lemma first_turn_prompt:
  "canonical_prompt plain_writer ''a'' (Some first_turn) 65536 = ''message'' @ nul @ ''role'' @ nul @ ''user'' @ nul"
  by (simp add: canonical_prompt_def prompt_messages_def first_turn_def full_prompt_def system_prompt_def prompt_keys_def
      append_field_def append_message_def message_keys_def is_null_def plain_writer_def nul_def get_str_def)

theorem follow_up_turn_credited_witness:
  "let fps = fingerprints_preparsed plain_writer (r_config chunk_router) ''a'' (Some first_turn);
       r = observe_at list_lru 1 fps None 5 chunk_router;
       follow = fingerprints_preparsed plain_writer (r_config chunk_router) ''b''
         (Some (continued first_turn ([JObject [(''role'', JString ''user'')]] @ second_turn)))
   in 1 \<le> raw_overlap (locality_of list_lru (r_config r) follow 9 (in_states (r_inner r) ! 1))"
proof -
  let ?fps = "fingerprints_preparsed plain_writer (r_config chunk_router) ''a'' (Some first_turn)"
  have conf: "rc_max_prefix_bytes (r_config chunk_router) = 65536" "rc_chunk_bytes (r_config chunk_router) = 18"
    "rc_affinity (r_config chunk_router) = Affinity_Prefix"
    "r_inner chunk_router = r_inner (sample_router Enforce Spec_Off)"
    by (simp_all add: chunk_router_def sample_config_def)
  have len: "length ?fps = 1"
    unfolding fingerprints_preparsed_def conf chain_length first_turn_prompt by (simp add: nul_def div_ceil_def)
  then have dist: "distinct ?fps" by (cases ?fps) auto
  have room: "length ?fps \<le> fst (us_lru (in_states (r_inner chunk_router) ! 1))"
    unfolding len conf by (simp add: sample_router_def fresh_state_def list_lru_def)
  have "length (canonical_prompt plain_writer ''a'' (Some first_turn) 65536) div 18 = 1"
    unfolding first_turn_prompt by (simp add: nul_def)
  moreover have turn: "map_of first_turn ''messages'' = Some (JArray [JObject [(''role'', JString ''user'')]])"
    "\<not> list_all leading_message [JObject [(''role'', JString ''user'')] :: nat json]"
    by (simp_all add: first_turn_def get_str_def)
  moreover have "1 < length (in_states (r_inner chunk_router))" unfolding conf sample_router_fields by simp
  ultimately show ?thesis
    using follow_up_turn_credited [OF list_lru_laws _ conf(3) turn dist room, where now = 5 and tokens = None and later = 9
        and extra = second_turn and body' = "''b''"]
    by (simp add: Let_def conf(1,2))
qed

end
