(* ===== verification/Shims.thy ===== *)
theory Shims
  imports Json "HOL-Library.Sublist"
begin

text \<open>
  Request and response shims (\<^verbatim>\<open>src/src/shims.rs\<close>) with the content classification they share with the
  tokenizer (\<^verbatim>\<open>src/src/model/mod.rs\<close>).  The JSON parser, the writer and the integer view of a number
  are the parameters \<open>from_slice\<close>, \<open>to_vec\<close>, \<open>as_i64\<close> and \<open>from_i64\<close>.
\<close>

section \<open>Endpoints\<close>

datatype endpoint_kind = Chat | Messages | Responses | Completions | SystemOne | States | Decisions | Other

fun endpoint_label :: "endpoint_kind \<Rightarrow> string" where
  "endpoint_label Chat = ''chat''"
| "endpoint_label Messages = ''messages''"
| "endpoint_label Responses = ''responses''"
| "endpoint_label Completions = ''completions''"
| "endpoint_label SystemOne = ''systemone''"
| "endpoint_label States = ''states''"
| "endpoint_label Decisions = ''decisions''"
| "endpoint_label Other = ''other''"

definition is_generation :: "endpoint_kind \<Rightarrow> bool" where
  "is_generation e \<longleftrightarrow> e \<in> {Chat, Messages, Responses, Completions, SystemOne}"

definition strip_prefix :: "string \<Rightarrow> string \<Rightarrow> string option" where
  "strip_prefix pre s = (if prefix pre s then Some (drop (length pre) s) else None)"

definition strip_suffix :: "string \<Rightarrow> string \<Rightarrow> string option" where
  "strip_suffix suf s = (if suffix suf s then Some (take (length s - length suf) s) else None)"

definition state_decide_id :: "string \<Rightarrow> string option" where
  "state_decide_id path =
    Option.bind (strip_prefix ''/states/'' path) (\<lambda>rest.
    Option.bind (strip_suffix ''/decide'' rest) (\<lambda>middle.
      if middle \<noteq> [] \<and> CHR ''/'' \<notin> set middle then Some middle else None))"

definition endpoint :: "string \<Rightarrow> endpoint_kind" where
  "endpoint path =
    (if path = ''/states'' \<or> path = ''/states/'' then States
     else if path = ''/v1/decide'' \<or> path = ''/v1/decide/'' \<or> state_decide_id path \<noteq> None then Decisions
     else if prefix ''/v1/chat/completions'' path then Chat
     else if prefix ''/v1/messages'' path then Messages
     else if prefix ''/v1/responses'' path then Responses
     else if prefix ''/v1/completions'' path then Completions
     else if path = ''/v1/systemone'' \<or> prefix ''/v1/systemone/'' path then SystemOne
     else Other)"

definition finish_reason :: "string \<Rightarrow> string" where
  "finish_reason reason =
    (if reason \<in> {''stop'', ''end_turn'', ''completed''} then ''stop''
     else if reason \<in> {''length'', ''max_tokens'', ''incomplete''} then ''length''
     else if reason \<in> {''tool_calls'', ''tool_use''} then ''tool_calls''
     else if reason \<in> {''cancelled'', ''canceled''} then ''cancelled''
     else ''other'')"

section \<open>Content shapes\<close>

datatype content_shape_kind = Scalar | TextParts | NonTextParts

definition is_text_part :: "'n json \<Rightarrow> bool" where
  "is_text_part part =
    (if as_str part \<noteq> None then True
     else case as_object part of None \<Rightarrow> False
     | Some m \<Rightarrow> (case get_str m ''type'' of
          Some t \<Rightarrow> t = ''text''
        | None \<Rightarrow> get_str m ''text'' \<noteq> None))"

definition content_shape :: "'n json_map \<Rightarrow> content_shape_kind" where
  "content_shape message = (case get_array message ''content'' of
      None \<Rightarrow> Scalar
    | Some parts \<Rightarrow> if list_all is_text_part parts then TextParts else NonTextParts)"

definition has_non_text_parts :: "'n json_map \<Rightarrow> bool" where
  "has_non_text_parts m = (case get_array m ''messages'' of
      None \<Rightarrow> False
    | Some messages \<Rightarrow> list_ex (\<lambda>message. case as_object message of
         None \<Rightarrow> False | Some msg \<Rightarrow> content_shape msg = NonTextParts) messages)"

section \<open>Requests\<close>

definition part_text :: "'n json \<Rightarrow> string" where
  "part_text part = (case as_str part of
      Some s \<Rightarrow> s
    | None \<Rightarrow> (case Option.bind (as_object part) (\<lambda>m. get_str m ''text'') of Some s \<Rightarrow> s | None \<Rightarrow> []))"

definition flatten_message :: "'n json \<Rightarrow> 'n json \<times> bool" where
  "flatten_message message = (case as_object message of
      None \<Rightarrow> (message, False)
    | Some m \<Rightarrow>
       if content_shape m \<noteq> TextParts then (message, False)
       else case get_array m ''content'' of None \<Rightarrow> (message, False)
       | Some parts \<Rightarrow>
          (JObject (AList.update ''content'' (JString (concat (map part_text parts))) m), True))"

definition flatten_content_parts :: "'n json_map \<Rightarrow> 'n json_map \<times> bool" where
  "flatten_content_parts m = (case get_array m ''messages'' of
      None \<Rightarrow> (m, False)
    | Some messages \<Rightarrow>
       (AList.update ''messages'' (JArray (map (fst \<circ> flatten_message) messages)) m,
        list_ex (snd \<circ> flatten_message) messages))"

definition oversized :: "('n \<Rightarrow> int option) \<Rightarrow> int \<Rightarrow> 'n json_map \<Rightarrow> string \<Rightarrow> bool" where
  "oversized as_i64 threshold m field = (case Option.bind (Option.bind (map_of m field) as_number) as_i64 of
      None \<Rightarrow> False | Some v \<Rightarrow> 0 < threshold \<and> threshold \<le> v)"

definition drop_oversized :: "('n \<Rightarrow> int option) \<Rightarrow> int \<Rightarrow> string \<Rightarrow> 'n json_map \<times> bool \<Rightarrow> 'n json_map \<times> bool" where
  "drop_oversized as_i64 threshold field = (\<lambda>(m, changed).
     if oversized as_i64 threshold m field then (AList.delete field m, True) else (m, changed))"

definition efforts :: "string list" where
  "efforts = [''none'', ''minimal'', ''low'', ''medium'', ''high'', ''xhigh'', ''max'']"

definition valid_effort :: "'n json_map \<Rightarrow> bool" where
  "valid_effort m = (case map_of m ''reasoning_effort'' of
      None \<Rightarrow> True
    | Some effort \<Rightarrow> (case as_str effort of None \<Rightarrow> False | Some s \<Rightarrow> s \<in> set efforts))"

definition sanitize_object :: "('n \<Rightarrow> int option) \<Rightarrow> endpoint_kind \<Rightarrow> int \<Rightarrow> 'n json_map \<Rightarrow> 'n json_map \<times> bool" where
  "sanitize_object as_i64 ep threshold m =
    (if ep \<notin> {Chat, Completions} then (m, False)
     else
       let (m1, changed1) = fold (drop_oversized as_i64 threshold) [''max_tokens'', ''max_completion_tokens''] (m, False);
           (m2, changed2) = flatten_content_parts m1
       in if valid_effort m2 then (m2, changed1 \<or> changed2)
          else (AList.delete ''reasoning_effort'' m2, True))"

definition sanitize_request ::
  "(string \<Rightarrow> 'n json option) \<Rightarrow> ('n json \<Rightarrow> string option) \<Rightarrow> ('n \<Rightarrow> int option) \<Rightarrow> endpoint_kind \<Rightarrow> string \<Rightarrow> int \<Rightarrow> string" where
  "sanitize_request from_slice to_vec as_i64 ep body threshold =
    (if ep \<notin> {Chat, Completions} \<or> body = [] then body
     else case Option.bind (from_slice body) as_object of None \<Rightarrow> body
     | Some m \<Rightarrow>
        let (m', changed) = sanitize_object as_i64 ep threshold m
        in if \<not> changed then body
           else case to_vec (JObject m') of None \<Rightarrow> body | Some bytes \<Rightarrow> bytes)"

section \<open>Advertised context lengths\<close>

definition context_keys :: "string list" where
  "context_keys = [''max_model_len'', ''context_length'', ''max_context_length'']"

definition shrink_value :: "('n \<Rightarrow> int option) \<Rightarrow> (int \<Rightarrow> 'n) \<Rightarrow> int \<Rightarrow> 'n json \<Rightarrow> 'n json \<times> bool" where
  "shrink_value as_i64 from_i64 margin v = (case Option.bind (as_number v) as_i64 of
      None \<Rightarrow> (v, False)
    | Some current \<Rightarrow> if margin < current then (JNumber (from_i64 (current - margin)), True) else (v, False))"

text \<open>A member under one of the three keys is shrunk; its value is then visited like every other value.\<close>

fun shrink_map :: "('n \<Rightarrow> int option) \<Rightarrow> (int \<Rightarrow> 'n) \<Rightarrow> int \<Rightarrow> 'n json \<Rightarrow> 'n json \<times> bool" where
  "shrink_map as_i64 from_i64 margin (JObject m) =
    (let members = map (\<lambda>p.
           let (v, changed) = (if fst p \<in> set context_keys then shrink_value as_i64 from_i64 margin (snd p) else (snd p, False));
               (w, below) = shrink_map as_i64 from_i64 margin (snd p)
           in ((fst p, if changed then v else w), changed \<or> below)) m
     in (JObject (map fst members), list_ex snd members))"
| "shrink_map as_i64 from_i64 margin v = (v, False)"

definition shrink_advertised_context ::
  "(string \<Rightarrow> 'n json option) \<Rightarrow> ('n json \<Rightarrow> string option) \<Rightarrow> ('n \<Rightarrow> int option) \<Rightarrow> (int \<Rightarrow> 'n) \<Rightarrow> string \<Rightarrow> int \<Rightarrow> string" where
  "shrink_advertised_context from_slice to_vec as_i64 from_i64 body margin =
    (if margin \<le> 0 then body
     else case Option.bind (from_slice body) as_object of None \<Rightarrow> body
     | Some doc \<Rightarrow> (case get_array doc ''data'' of None \<Rightarrow> body
        | Some data \<Rightarrow>
           let shrunk = map (shrink_map as_i64 from_i64 margin) data
           in if \<not> list_ex snd shrunk then body
              else case to_vec (JObject (AList.update ''data'' (JArray (map fst shrunk)) doc)) of
                None \<Rightarrow> body | Some bytes \<Rightarrow> bytes))"

section \<open>What sanitizing keeps\<close>

lemma update_same: "map_of m k = Some v \<Longrightarrow> AList.update k v m = m"
  by (induction m) (auto split: if_splits)

lemma get_array_Some: "get_array m k = Some vs \<longleftrightarrow> map_of m k = Some (JArray vs)"
proof -
  have "as_array v = Some vs \<longleftrightarrow> v = JArray vs" for v by (cases v) auto
  then show ?thesis by (auto simp: get_array_def bind_eq_Some_conv)
qed

lemma as_object_Some [simp]: "as_object v = Some m \<longleftrightarrow> v = JObject m"
  by (cases v) auto

lemma flatten_message_cases:
  obtains (kept) "flatten_message v = (v, False)"
  | (flat) m parts where "v = JObject m" "map_of m ''content'' = Some (JArray parts)" "list_all is_text_part parts"
      "flatten_message v = (JObject (AList.update ''content'' (JString (concat (map part_text parts))) m), True)"
proof (cases "as_object v")
  case None
  then show thesis using kept by (simp add: flatten_message_def)
next
  case (Some m)
  show thesis
  proof (cases "get_array m ''content''")
    case None
    then show thesis using Some kept by (simp add: flatten_message_def)
  next
    case (Some parts)
    then show thesis using \<open>as_object v = Some m\<close> kept flat get_array_Some [of m "''content''" parts]
      by (cases "list_all is_text_part parts") (simp_all add: flatten_message_def content_shape_def)
  qed
qed

lemma flatten_message_stable: "flatten_message (fst (flatten_message v)) = (fst (flatten_message v), False)"
proof (cases v rule: flatten_message_cases)
  case (flat m parts)
  then show ?thesis by (simp add: flatten_message_def content_shape_def get_array_def update_conv')
qed simp

lemma flatten_message_unchanged: "\<not> snd (flatten_message v) \<Longrightarrow> fst (flatten_message v) = v"
  by (cases v rule: flatten_message_cases) simp_all

lemma flatten_message_shape:
  "(case as_object (fst (flatten_message v)) of None \<Rightarrow> False | Some m \<Rightarrow> content_shape m = NonTextParts) \<longleftrightarrow>
   (case as_object v of None \<Rightarrow> False | Some m \<Rightarrow> content_shape m = NonTextParts)"
proof (cases v rule: flatten_message_cases)
  case (flat m parts)
  then show ?thesis by (simp add: content_shape_def get_array_def update_conv')
qed simp

lemma flatten_content_parts_unchanged:
  assumes "\<not> snd (flatten_content_parts m)"
  shows "fst (flatten_content_parts m) = m"
proof (cases "get_array m ''messages''")
  case (Some ms)
  then have "map (fst \<circ> flatten_message) ms = ms"
    using assms by (intro map_idI) (auto simp: flatten_content_parts_def list_ex_iff flatten_message_unchanged)
  then show ?thesis using Some get_array_Some [of m "''messages''" ms] by (simp add: flatten_content_parts_def update_same)
qed (simp add: flatten_content_parts_def)

lemma flatten_content_parts_lookup:
  "map_of (fst (flatten_content_parts m)) k =
    (if k = ''messages'' then map_option (\<lambda>v. case as_array v of None \<Rightarrow> v
        | Some ms \<Rightarrow> JArray (map (fst \<circ> flatten_message) ms)) (map_of m k) else map_of m k)"
  by (cases "map_of m ''messages''") (auto simp: flatten_content_parts_def get_array_def update_conv' split: option.split)

lemma oversized_cong: "map_of m f = map_of n f \<Longrightarrow> oversized as_i64 t m f = oversized as_i64 t n f"
  by (simp add: oversized_def)

lemma oversized_None: "map_of m f = None \<Longrightarrow> \<not> oversized as_i64 t m f"
  by (simp add: oversized_def)

lemma drop_oversized_pair: "drop_oversized as_i64 t f (m, ch) =
    (if oversized as_i64 t m f then (AList.delete f m, True) else (m, ch))"
  by (simp add: drop_oversized_def)

lemma drop_oversized_lookup:
  "map_of (fst (fold (drop_oversized as_i64 t) fs (m, ch))) k =
    (if k \<in> set fs \<and> oversized as_i64 t m k then None else map_of m k)"
proof (induction fs arbitrary: m ch)
  case (Cons f fs)
  have "oversized as_i64 t (AList.delete f m) k \<longleftrightarrow> k \<noteq> f \<and> oversized as_i64 t m k"
    by (cases "k = f") (simp_all add: oversized_def delete_conv')
  then show ?case by (auto simp: Cons drop_oversized_pair delete_conv')
qed simp

lemma drop_oversized_marks: "snd (fold (drop_oversized as_i64 t) fs (m, True))"
  by (induction fs arbitrary: m) (auto simp: drop_oversized_pair)

lemma drop_oversized_unchanged:
  "\<not> snd (fold (drop_oversized as_i64 t) fs (m, ch)) \<Longrightarrow> fold (drop_oversized as_i64 t) fs (m, ch) = (m, ch)"
proof (induction fs)
  case (Cons f fs)
  have "\<not> oversized as_i64 t m f"
    using Cons.prems drop_oversized_marks [of as_i64 t fs "AList.delete f m"] by (auto simp: drop_oversized_pair)
  then show ?case using Cons by (simp add: drop_oversized_pair)
qed simp

lemma drop_oversized_stable:
  "\<forall>f \<in> set fs. \<not> oversized as_i64 t m f \<Longrightarrow> fold (drop_oversized as_i64 t) fs (m, ch) = (m, ch)"
  by (induction fs) (auto simp: drop_oversized_pair)

lemma sanitize_object_eq:
  fixes as_i64 :: "'n \<Rightarrow> int option" and t :: int and m :: "'n json_map"
  assumes "ep \<in> {Chat, Completions}"
  defines "m1 \<equiv> fst (fold (drop_oversized as_i64 t) [''max_tokens'', ''max_completion_tokens''] (m, False))"
    and "ch1 \<equiv> snd (fold (drop_oversized as_i64 t) [''max_tokens'', ''max_completion_tokens''] (m, False))"
  defines "m2 \<equiv> fst (flatten_content_parts m1)"
  shows "sanitize_object as_i64 ep t m = (if valid_effort m2 then (m2, ch1 \<or> snd (flatten_content_parts m1))
    else (AList.delete ''reasoning_effort'' m2, True))"
  using assms(1) by (simp add: sanitize_object_def m1_def ch1_def m2_def Let_def split_def)

lemma sanitize_lookup:
  assumes "ep \<in> {Chat, Completions}" "sanitize_object as_i64 ep t m = (m', ch)"
  shows "map_of m' k =
    (if k \<in> {''max_tokens'', ''max_completion_tokens''}
     then (if oversized as_i64 t m k then None else map_of m k)
     else if k = ''reasoning_effort'' then (if valid_effort m then map_of m k else None)
     else if k = ''messages'' then map_option (\<lambda>v. case as_array v of None \<Rightarrow> v
        | Some ms \<Rightarrow> JArray (map (fst \<circ> flatten_message) ms)) (map_of m k)
     else map_of m k)"
proof -
  define m1 where "m1 = fst (fold (drop_oversized as_i64 t) [''max_tokens'', ''max_completion_tokens''] (m, False))"
  have m1: "map_of m1 k = (if k \<in> {''max_tokens'', ''max_completion_tokens''} \<and> oversized as_i64 t m k then None else map_of m k)" for k
    unfolding m1_def drop_oversized_lookup by simp
  have "valid_effort (fst (flatten_content_parts m1)) = valid_effort m"
    by (simp add: valid_effort_def flatten_content_parts_lookup m1)
  then have m': "m' = (if valid_effort m then fst (flatten_content_parts m1)
      else AList.delete ''reasoning_effort'' (fst (flatten_content_parts m1)))"
    using assms(2) unfolding sanitize_object_eq [OF assms(1)] m1_def [symmetric] by (auto split: if_splits)
  show ?thesis
    unfolding m' by (simp add: flatten_content_parts_lookup m1 delete_conv')
qed

lemma sanitize_unchanged:
  assumes "ep \<in> {Chat, Completions}" "sanitize_object as_i64 ep t m = (m', False)"
  shows "m' = m"
proof -
  let ?fold = "fold (drop_oversized as_i64 t) [''max_tokens'', ''max_completion_tokens''] (m, False)"
  have no: "\<not> snd ?fold" "\<not> snd (flatten_content_parts (fst ?fold))" "m' = fst (flatten_content_parts (fst ?fold))"
    using assms(2) unfolding sanitize_object_eq [OF assms(1)] by (auto split: if_splits)
  have "fst ?fold = m" using drop_oversized_unchanged [OF no(1)] by (simp only: fst_conv)
  then show ?thesis using flatten_content_parts_unchanged [OF no(2)] no(3) by (simp only:)
qed

lemma sanitize_stable:
  assumes "ep \<in> {Chat, Completions}"
    and "\<forall>f \<in> {''max_tokens'', ''max_completion_tokens''}. \<not> oversized as_i64 t m f"
    and "valid_effort m" "\<forall>ms. get_array m ''messages'' = Some ms \<longrightarrow> (\<forall>v \<in> set ms. \<not> snd (flatten_message v))"
  shows "sanitize_object as_i64 ep t m = (m, False)"
proof -
  have "fold (drop_oversized as_i64 t) [''max_tokens'', ''max_completion_tokens''] (m, False) = (m, False)"
    using assms(2) by (intro drop_oversized_stable) simp
  moreover have no: "\<not> snd (flatten_content_parts m)"
    using assms(4) by (auto simp: flatten_content_parts_def list_ex_iff split: option.split)
  ultimately show ?thesis
    using assms(3) flatten_content_parts_unchanged [OF no] unfolding sanitize_object_eq [OF assms(1)] by simp
qed



end
