(* ===== verification/Decision_State.thy ===== *)
theory Decision_State
  imports Shims Router_Decision Lru_Cache
begin

text \<open>
  Replica affinity for reusable decision states (\<^verbatim>\<open>src/src/decision_state.rs\<close>).  The cache of owners, SHA-256
  and the JSON parser are the parameters \<open>ops\<close>, \<open>sha256\<close> and \<open>from_slice\<close>.
\<close>

section \<open>State and operations\<close>

definition state_id_domain :: string where
  "state_id_domain = ''ramjet structured decision state v1'' @ [CHR 0x00]"

definition max_state_id_bytes :: nat where
  "max_state_id_bytes = 256"

datatype state_request = Create | Reuse string

fun is_reuse :: "state_request \<Rightarrow> bool" where
  "is_reuse (Reuse _) \<longleftrightarrow> True"
| "is_reuse Create \<longleftrightarrow> False"

record 'c decision_state_affinity =
  ds_enabled :: bool
  ds_owners :: 'c

definition is_ascii_control :: "char \<Rightarrow> bool" where
  "is_ascii_control c \<longleftrightarrow> (of_char c :: nat) < 32 \<or> (of_char c :: nat) = 127"

definition state_key :: "(string \<Rightarrow> string) \<Rightarrow> string \<Rightarrow> string option" where
  "state_key sha256 state_id =
    (if state_id = [] \<or> max_state_id_bytes < length state_id \<or> list_ex is_ascii_control state_id then None
     else Some (sha256 (state_id_domain @ state_id)))"

text \<open>\<open>None\<close> is the panic on a zero capacity.\<close>

definition decision_state_new :: "('c, string, nat) lru_ops \<Rightarrow> bool \<Rightarrow> nat \<Rightarrow> 'c decision_state_affinity option" where
  "decision_state_new ops enabled capacity =
    (if capacity = 0 then None else Some \<lparr>ds_enabled = enabled, ds_owners = lru_new ops capacity\<rparr>)"

definition state_id_spelling :: string where
  "state_id_spelling = [CHR 0x22] @ ''state_id'' @ [CHR 0x22]"

definition state_request_of ::
  "(string \<Rightarrow> string) \<Rightarrow> (string \<Rightarrow> 'n json option) \<Rightarrow> string \<Rightarrow> string \<Rightarrow> string \<Rightarrow> 'c decision_state_affinity
     \<Rightarrow> state_request option" where
  "state_request_of sha256 from_slice http_method path body s =
    (if \<not> ds_enabled s \<or> http_method \<noteq> ''POST'' then None
     else if path = ''/states'' \<or> path = ''/states/'' then Some Create
     else case state_decide_id path of
       Some state_id \<Rightarrow> map_option Reuse (state_key sha256 state_id)
     | None \<Rightarrow>
        if path \<noteq> ''/v1/decide'' \<and> path \<noteq> ''/v1/decide/'' then None
        else if \<not> sublist state_id_spelling body then Some Create
        else Option.bind (from_slice body) (\<lambda>v. Option.bind (as_object v) (\<lambda>m.
          case map_of m ''state_id'' of
            Some (JString state_id) \<Rightarrow> map_option Reuse (state_key sha256 state_id)
          | Some _ \<Rightarrow> None
          | None \<Rightarrow> Some Create)))"

definition state_route ::
  "('c, string, nat) lru_ops \<Rightarrow> state_request option \<Rightarrow> decision \<Rightarrow> 'c decision_state_affinity
     \<Rightarrow> decision \<times> 'c decision_state_affinity" where
  "state_route ops req d s = (case req of
      Some (Reuse key) \<Rightarrow>
        let (owner, owners) = lru_get ops key (ds_owners s); s' = s\<lparr>ds_owners := owners\<rparr>
        in (case owner of None \<Rightarrow> (d, s') | Some u \<Rightarrow> (fst (prefer_upstream u d), s'))
    | _ \<Rightarrow> (d, s))"

definition forget_not_found ::
  "('c, string, nat) lru_ops \<Rightarrow> state_request option \<Rightarrow> nat \<Rightarrow> 'c decision_state_affinity \<Rightarrow> 'c decision_state_affinity" where
  "forget_not_found ops req upstream s = (case req of
      Some (Reuse key) \<Rightarrow>
        if lru_peek ops (ds_owners s) key = Some upstream then s\<lparr>ds_owners := lru_pop ops key (ds_owners s)\<rparr> else s
    | _ \<Rightarrow> s)"

definition learn_response ::
  "('c, string, nat) lru_ops \<Rightarrow> (string \<Rightarrow> string) \<Rightarrow> (string \<Rightarrow> 'n json option) \<Rightarrow> state_request option \<Rightarrow> nat \<Rightarrow> string
     \<Rightarrow> 'c decision_state_affinity \<Rightarrow> 'c decision_state_affinity" where
  "learn_response ops sha256 from_slice req upstream response s = (case req of
      None \<Rightarrow> s
    | Some r \<Rightarrow>
      (case Option.bind (from_slice response) (\<lambda>v. Option.bind (as_object v) (\<lambda>m. get_str m ''state_id'')) of
         None \<Rightarrow> s
       | Some state_id \<Rightarrow> (case state_key sha256 state_id of
            None \<Rightarrow> s
          | Some key \<Rightarrow>
             if (case r of Reuse expected \<Rightarrow> expected \<noteq> key | Create \<Rightarrow> False) then s
             else s\<lparr>ds_owners := lru_push ops key upstream (ds_owners s)\<rparr>)))"

section \<open>Ownership\<close>

text \<open>A response that names an identifier.\<close>

definition names_state :: "(string \<Rightarrow> 'n json option) \<Rightarrow> string \<Rightarrow> string \<Rightarrow> bool" where
  "names_state from_slice response state_id \<longleftrightarrow>
     (\<exists>m. from_slice response = Some (JObject m) \<and> get_str m ''state_id'' = Some state_id)"

lemma learn_owner:
  assumes "lru_laws ops entries capacity" "0 < capacity (ds_owners s)"
    and "names_state from_slice response sid" "state_key sha256 sid = Some key" "req = Create \<or> req = Reuse key"
  shows "map_of (entries (ds_owners (learn_response ops sha256 from_slice (Some req) u response s))) key = Some u"
  using assms(2-5)
  by (cases "capacity (ds_owners s)")
    (auto simp: learn_response_def names_state_def lru_lawsD [OF assms(1)] split: state_request.splits)

lemma route_owner:
  assumes "lru_laws ops entries capacity"
  shows "fst (state_route ops (Some (Reuse key)) d s) =
    (case map_of (entries (ds_owners s)) key of None \<Rightarrow> d | Some u \<Rightarrow> fst (prefer_upstream u d))"
    "map_of (entries (ds_owners (snd (state_route ops (Some (Reuse key)) d s)))) = map_of (entries (ds_owners s))"
  using lru_lawsD(4,5) [OF assms, of key "ds_owners s"]
  by (auto simp: state_route_def Let_def split_def delete_conv' fun_eq_iff split: option.splits)

lemma prefer_upstream_front:
  assumes "decision_wf d" "u \<in> set (candidates d)" "\<exists>s \<in> set (candidate_states d). cs_index s = u \<and> cs_healthy s"
  shows "decision_wf (fst (prefer_upstream u d)) \<and> hd (candidates (fst (prefer_upstream u d))) = u \<and>
    mset (candidates (fst (prefer_upstream u d))) = mset (candidates d)"
proof -
  obtain d1 where run: "promote u d = (d1, True)" using promote_serving [OF assms(2,3)] by blast
  show ?thesis
    using promote_wf [OF assms(1) run] run by (auto simp: prefer_upstream_def decision_wf_def)
qed

lemma forget_owner:
  assumes "lru_laws ops entries capacity" "map_of (entries (ds_owners s)) key = Some u"
  shows "map_of (entries (ds_owners (forget_not_found ops (Some (Reuse key)) u s))) key = None"
  using assms(2) by (simp add: forget_not_found_def lru_lawsD [OF assms(1)] delete_conv')



end
