(* ===== verification/Warmup_Admission.thy ===== *)
theory Warmup_Admission
  imports Ramjet_Prelude
begin

text \<open>
  Passive warm-up admission of recovering replicas (\<^verbatim>\<open>src/src/warmup_admission.rs\<close>).  The
  replicas under the mutex are a list; \<^verbatim>\<open>Duration\<close> is a count of nanoseconds.  A run is the
  sequence of probe and serving observations of the process.
\<close>

section \<open>State and operations\<close>

datatype warmup_admission_mode = Warm_Off | Warm_Shadow | Warm_Enforce

fun warmup_mode_label :: "warmup_admission_mode \<Rightarrow> string" where
  "warmup_mode_label Warm_Off = ''off''"
| "warmup_mode_label Warm_Shadow = ''shadow''"
| "warmup_mode_label Warm_Enforce = ''enforce''"

record warmup_config =
  warm_mode :: warmup_admission_mode
  required_successes :: nat
  stable_for :: nat
  warm_replicas :: nat

record replica_state =
  rep_ready :: bool
  rep_successes :: nat
  first_success :: "nat option"

datatype warmup_outcome = Warm_Stable | Pending | Admitted | Warm_Reset | Serving

fun warmup_label :: "warmup_outcome \<Rightarrow> string" where
  "warmup_label Warm_Stable = ''stable''"
| "warmup_label Pending = ''pending''"
| "warmup_label Admitted = ''admitted''"
| "warmup_label Warm_Reset = ''reset''"
| "warmup_label Serving = ''serving''"

record warmup_admission =
  warm_config :: warmup_config
  warm_states :: "replica_state list"

text \<open>\<open>None\<close> is the panic of an assertion.\<close>

definition warmup_new :: "warmup_config \<Rightarrow> warmup_admission option" where
  "warmup_new c = (if warm_replicas c = 0 \<or> required_successes c = 0 then None
     else Some \<lparr>warm_config = c,
       warm_states = replicate (warm_replicas c) \<lparr>rep_ready = True, rep_successes = 0, first_success = None\<rparr>\<rparr>)"

definition probe_state :: "warmup_config \<Rightarrow> bool \<Rightarrow> nat \<Rightarrow> replica_state \<Rightarrow> warmup_outcome \<times> replica_state" where
  "probe_state c healthy now st =
    (if \<not> healthy then (Warm_Reset, \<lparr>rep_ready = False, rep_successes = 0, first_success = None\<rparr>)
     else if rep_ready st then (Warm_Stable, st)
     else
       let first = (case first_success st of None \<Rightarrow> now | Some t \<Rightarrow> t);
           st1 = st\<lparr>first_success := Some first, rep_successes := sat_add (rep_successes st) 1\<rparr>
       in if required_successes c \<le> rep_successes st1 \<and> stable_for c \<le> now - first
          then (Admitted, st1\<lparr>rep_ready := True\<rparr>) else (Pending, st1))"

definition observe_probe :: "nat \<Rightarrow> bool \<Rightarrow> nat \<Rightarrow> warmup_admission \<Rightarrow> warmup_outcome \<times> warmup_admission" where
  "observe_probe replica healthy now w = (case get (warm_states w) replica of
      None \<Rightarrow> (Warm_Reset, w)
    | Some st \<Rightarrow> let (oc, st') = probe_state (warm_config w) healthy now st
                in (oc, w\<lparr>warm_states := (warm_states w)[replica := st']\<rparr>))"

definition observe_serving :: "nat \<Rightarrow> warmup_admission \<Rightarrow> warmup_outcome \<times> warmup_admission" where
  "observe_serving replica w = (case get (warm_states w) replica of
      None \<Rightarrow> (Warm_Reset, w)
    | Some st \<Rightarrow> (Serving, w\<lparr>warm_states := (warm_states w)[replica :=
        \<lparr>rep_ready = True, rep_successes = 0, first_success = None\<rparr>]\<rparr>))"

definition warm_ready :: "nat \<Rightarrow> warmup_admission \<Rightarrow> bool" where
  "warm_ready replica w = (case get (warm_states w) replica of None \<Rightarrow> False | Some st \<Rightarrow> rep_ready st)"

definition routing_ready :: "nat \<Rightarrow> warmup_admission \<Rightarrow> bool" where
  "routing_ready replica w \<longleftrightarrow> warm_mode (warm_config w) \<noteq> Warm_Enforce \<or> warm_ready replica w"

section \<open>Runs\<close>

datatype warm_event = Probe nat bool nat | Served nat

fun warm_step :: "warm_event \<Rightarrow> warmup_admission \<Rightarrow> warmup_admission" where
  "warm_step (Probe i healthy now) w = snd (observe_probe i healthy now w)"
| "warm_step (Served i) w = snd (observe_serving i w)"

definition warm_run :: "warm_event list \<Rightarrow> warmup_admission \<Rightarrow> warmup_admission" where
  "warm_run es w = fold warm_step es w"

lemma warm_run_simps [simp]:
  "warm_run [] w = w"
  "warm_run (es @ es') w = warm_run es' (warm_run es w)"
  "warm_run (e # es) w = warm_run es (warm_step e w)"
  by (simp_all add: warm_run_def)

text \<open>The part of a run that concerns one replica acts on that replica's entry only.\<close>

fun entry_step :: "warmup_config \<Rightarrow> nat \<Rightarrow> warm_event \<Rightarrow> replica_state \<Rightarrow> replica_state" where
  "entry_step c r (Probe i healthy now) st = (if i = r then snd (probe_state c healthy now st) else st)"
| "entry_step c r (Served i) st = (if i = r then \<lparr>rep_ready = True, rep_successes = 0, first_success = None\<rparr> else st)"

lemma warm_step_frame [simp]:
  "warm_config (warm_step e w) = warm_config w"
  "length (warm_states (warm_step e w)) = length (warm_states w)"
  by (cases e; auto simp: observe_probe_def observe_serving_def split: option.splits prod.splits)+

lemma warm_step_entry:
  "r < length (warm_states w) \<Longrightarrow>
     warm_states (warm_step e w) ! r = entry_step (warm_config w) r e (warm_states w ! r)"
  by (cases e; auto simp: observe_probe_def observe_serving_def get_def nth_list_update split: option.splits prod.splits)

lemma warm_run_frame [simp]:
  "warm_config (warm_run es w) = warm_config w"
  "length (warm_states (warm_run es w)) = length (warm_states w)"
  by (induction es arbitrary: w) simp_all

lemma warm_run_entry:
  "r < length (warm_states w) \<Longrightarrow>
     warm_states (warm_run es w) ! r = fold (entry_step (warm_config w) r) es (warm_states w ! r)"
  by (induction es arbitrary: w) (simp_all add: warm_step_entry)

lemma warmup_new_shape:
  "warmup_new c = Some w \<Longrightarrow> warm_config w = c \<and> length (warm_states w) = warm_replicas c \<and> 0 < required_successes c"
  by (auto simp: warmup_new_def split: if_splits)

section \<open>Admission\<close>

fun success_times :: "nat \<Rightarrow> warm_event list \<Rightarrow> nat list" where
  "success_times r [] = []"
| "success_times r (Probe i healthy now # es) = (if i = r \<and> healthy then now # success_times r es else success_times r es)"
| "success_times r (Served i # es) = success_times r es"

definition failed :: "nat \<Rightarrow> warm_event \<Rightarrow> bool" where
  "failed r e \<longleftrightarrow> (case e of Probe i healthy now \<Rightarrow> i = r \<and> \<not> healthy | Served i \<Rightarrow> False)"

text \<open>The admission rule as documented: enough successes in a row, spanning the stability period.\<close>

definition proven :: "warmup_config \<Rightarrow> nat list \<Rightarrow> bool" where
  "proven c ts \<longleftrightarrow> (\<exists>k < length ts. required_successes c \<le> Suc k \<and> stable_for c \<le> ts ! k - ts ! 0)"

lemma success_times_append [simp]: "success_times r (es @ es') = success_times r es @ success_times r es'"
  by (induction r es rule: success_times.induct) simp_all

lemma proven_snoc:
  "proven c (ts @ [t]) \<longleftrightarrow>
     proven c ts \<or> (required_successes c \<le> Suc (length ts) \<and> stable_for c \<le> t - (case ts of [] \<Rightarrow> t | s # _ \<Rightarrow> s))"
proof -
  have "(ts @ [t]) ! 0 = (case ts of [] \<Rightarrow> t | s # _ \<Rightarrow> s)" by (cases ts) simp_all
  moreover have "k < length ts \<Longrightarrow> (ts @ [t]) ! k = ts ! k \<and> (case ts of [] \<Rightarrow> t | s # _ \<Rightarrow> s) = ts ! 0" for k
    by (auto simp: nth_append split: list.split)
  ultimately show ?thesis unfolding proven_def by (auto simp: less_Suc_eq)
qed

lemma proven_code:
  "proven c ts \<longleftrightarrow> list_ex (\<lambda>k. required_successes c \<le> Suc k \<and> stable_for c \<le> ts ! k - ts ! 0) [0..<length ts]"
  by (auto simp: proven_def list_ex_iff)

text \<open>The entry of a recovering replica counts the successes since the failure.\<close>

definition counted :: "nat list \<Rightarrow> replica_state \<Rightarrow> bool" where
  "counted ts st \<longleftrightarrow> rep_successes st = min (length ts) usize_max \<and>
     first_success st = (case ts of [] \<Rightarrow> None | t # _ \<Rightarrow> Some t)"

lemma success_step:
  assumes "\<not> rep_ready st" "counted ts st" "\<not> proven c ts" "required_successes c \<le> usize_max"
  shows "rep_ready (snd (probe_state c True now st)) = proven c (ts @ [now]) \<and>
         counted (ts @ [now]) (snd (probe_state c True now st))"
proof -
  have first: "(case first_success st of None \<Rightarrow> now | Some t \<Rightarrow> t) = (case ts of [] \<Rightarrow> now | s # _ \<Rightarrow> s)"
    using assms(2) by (simp add: counted_def split: list.splits)
  have n: "sat_add (rep_successes st) 1 = min (length (ts @ [now])) usize_max"
    using assms(2) by (auto simp: counted_def sat_add_def)
  have "required_successes c \<le> sat_add (rep_successes st) 1 \<longleftrightarrow> required_successes c \<le> Suc (length ts)"
    unfolding n using assms(4) by auto
  moreover have "proven c (ts @ [now]) \<longleftrightarrow> required_successes c \<le> Suc (length ts) \<and>
      stable_for c \<le> now - (case ts of [] \<Rightarrow> now | s # _ \<Rightarrow> s)"
    using assms(3) by (simp add: proven_snoc)
  moreover have "Some (case ts of [] \<Rightarrow> now | s # _ \<Rightarrow> s) = (case ts @ [now] of [] \<Rightarrow> None | t # _ \<Rightarrow> Some t)"
    by (cases ts) simp_all
  ultimately show ?thesis
    using assms(1) n by (simp add: probe_state_def counted_def Let_def first)
qed

lemma recovering_entry:
  fixes c r post
  defines "st \<equiv> fold (entry_step c r) post \<lparr>rep_ready = False, rep_successes = 0, first_success = None\<rparr>"
    and "ts \<equiv> success_times r post"
  assumes "\<forall>e \<in> set post. \<not> failed r e" "required_successes c \<le> usize_max"
  shows "if Served r \<in> set post then rep_ready st
         else rep_ready st = proven c ts \<and>
              (\<not> rep_ready st \<longrightarrow> counted ts st)"
  using assms(3) unfolding st_def ts_def
proof (induction post rule: rev_induct)
  case Nil
  then show ?case by (simp add: proven_def counted_def)
next
  case (snoc e post)
  let ?st = "fold (entry_step c r) post \<lparr>rep_ready = False, rep_successes = 0, first_success = None\<rparr>"
  let ?ts = "success_times r post"
  have IH: "if Served r \<in> set post then rep_ready ?st
         else rep_ready ?st = proven c ?ts \<and> (\<not> rep_ready ?st \<longrightarrow> counted ?ts ?st)"
    using snoc by simp
  consider (other) "entry_step c r e ?st = ?st" "success_times r [e] = []" "e \<noteq> Served r"
    | (serving) "e = Served r" | (success) now where "e = Probe r True now"
  proof (cases e)
    case (Probe i healthy now)
    then show thesis using that snoc.prems by (cases "i = r") (auto simp: failed_def)
  qed (use that in auto)
  then show ?case
  proof cases
    case success
    have ready: "snd (probe_state c True now ?st) = ?st" if "rep_ready ?st"
      using that by (simp add: probe_state_def)
    show ?thesis
    proof (cases "rep_ready ?st")
      case True
      then show ?thesis using IH ready success by (simp add: proven_snoc split: if_splits)
    next
      case False
      then show ?thesis using IH success success_step [of ?st ?ts c now] assms(4) by (simp split: if_splits)
    qed
  qed (use IH in \<open>auto simp: counted_def\<close>)
qed

text \<open>
  After its last failed probe a replica is ready again exactly if it has completed a request
  since, or if the required number of successive probes has succeeded and the one that completes them
  comes at least the stability period after the first; observations of other replicas do not matter, and
  only the enforcing mode lets this keep a replica out of routing.
\<close>

theorem admission_after_recovery:
  assumes "warmup_new c = Some w" "r < warm_replicas c" "required_successes c \<le> usize_max"
    and "\<forall>e \<in> set post. \<not> failed r e"
  shows "routing_ready r (warm_run (pre @ Probe r False t # post) w) \<longleftrightarrow>
           warm_mode c \<noteq> Warm_Enforce \<or> Served r \<in> set post \<or> proven c (success_times r post)"
proof -
  let ?w = "warm_run pre w"
  let ?run = "warm_run (pre @ Probe r False t # post) w"
  have shape: "warm_config w = c" "r < length (warm_states w)" using warmup_new_shape [OF assms(1)] assms(2) by auto
  have "warm_states ?run ! r = fold (entry_step c r) (Probe r False t # post) (warm_states ?w ! r)"
    using warm_run_entry [of r ?w "Probe r False t # post"] shape by (simp only: warm_run_simps(2) warm_run_frame)
  then have "rep_ready (warm_states ?run ! r) \<longleftrightarrow> Served r \<in> set post \<or> proven c (success_times r post)"
    using recovering_entry [OF assms(4,3)]
    by (auto simp: probe_state_def simp del: warm_run_simps split: if_splits)
  then show ?thesis
    using shape by (simp add: routing_ready_def warm_ready_def get_def del: warm_run_simps)
qed

theorem admission_after_recovery_witness:
  "let c = \<lparr>warm_mode = Warm_Enforce, required_successes = 2, stable_for = 10, warm_replicas = 2\<rparr>;
       w = the (warmup_new c);
       es = [Served 0, Probe 1 False 3, Probe 1 True 5, Probe 0 False 6]
   in \<not> routing_ready 1 (warm_run (es @ [Probe 1 True 14]) w) \<and>
      routing_ready 1 (warm_run (es @ [Probe 1 True 14, Probe 1 True 15]) w)"
proof -
  let ?c = "\<lparr>warm_mode = Warm_Enforce, required_successes = 2, stable_for = 10, warm_replicas = 2\<rparr>"
  have new: "warmup_new ?c = Some (the (warmup_new ?c))" by (simp add: warmup_new_def)
  have side: "1 < warm_replicas ?c" "required_successes ?c \<le> usize_max" by (simp_all add: usize_max_eq)
  note rule = admission_after_recovery [OF new side, of _ "[Served 0]" 3]
  show ?thesis
    using rule [of "[Probe 1 True 5, Probe 0 False 6, Probe 1 True 14]"]
      rule [of "[Probe 1 True 5, Probe 0 False 6, Probe 1 True 14, Probe 1 True 15]"]
    by (simp add: failed_def proven_code)
qed

end
