(* ===== verification/Session_Affinity.thy ===== *)
theory Session_Affinity
  imports Shims Router_Decision F64
begin

text \<open>
  Session affinity in shadow mode (\<^verbatim>\<open>src/src/session_affinity.rs\<close>) with the keyed hash of
  \<^verbatim>\<open>src/src/session.rs\<close>.  SHA-256 is the parameter \<open>sha256\<close>; nothing below depends on what it computes.
  The counter of an observation is not modelled.
\<close>

unbundle bit_operations_syntax

section \<open>Keyed hash\<close>

datatype opaque_session = Session_Missing | Session_Invalid | Session_Valid "u8 list"

definition hmac_sha256 :: "(u8 list \<Rightarrow> u8 list) \<Rightarrow> u8 list \<Rightarrow> u8 list list \<Rightarrow> u8 list" where
  "hmac_sha256 sha256 key parts =
    (let block_bytes = 64;
         short = (if block_bytes < length key then sha256 key else key);
         normalized = short @ replicate (block_bytes - length short) 0;
         inner_pad = map (\<lambda>b. 0x36 XOR b) normalized;
         outer_pad = map (\<lambda>b. 0x5c XOR b) normalized
     in sha256 (outer_pad @ sha256 (inner_pad @ concat parts)))"

section \<open>Outcomes\<close>

datatype session_affinity_mode = SA_Off | SA_Shadow

datatype session_outcome =
    MissingSession | InvalidSession
  | ApproximateAlreadyPrimary | ApproximateAlreadySecondaryHealth | ApproximateAlreadySecondaryLoad
  | WouldPreferPrimary | WouldPreferSecondaryHealth | WouldPreferSecondaryLoad
  | KeptPairLoad | KeptScore | NoHealthyAssigned | NoHealthyUpstream | InvalidDecision

fun session_label :: "session_outcome \<Rightarrow> string" where
  "session_label MissingSession = ''missing_session''"
| "session_label InvalidSession = ''invalid_session''"
| "session_label ApproximateAlreadyPrimary = ''approximate_already_primary''"
| "session_label ApproximateAlreadySecondaryHealth = ''approximate_already_secondary_primary_unhealthy''"
| "session_label ApproximateAlreadySecondaryLoad = ''approximate_already_secondary_primary_load_gated''"
| "session_label WouldPreferPrimary = ''would_prefer_primary''"
| "session_label WouldPreferSecondaryHealth = ''would_prefer_secondary_primary_unhealthy''"
| "session_label WouldPreferSecondaryLoad = ''would_prefer_secondary_primary_load_gated''"
| "session_label KeptPairLoad = ''kept_assigned_pair_load_gated''"
| "session_label KeptScore = ''kept_score''"
| "session_label NoHealthyAssigned = ''no_healthy_assigned_pair''"
| "session_label NoHealthyUpstream = ''no_healthy_upstream''"
| "session_label InvalidDecision = ''invalid_decision''"

record session_observation =
  so_policy_version :: nat
  so_bonus_blocks :: nat
  so_max_load_delta :: nat
  so_outcome :: session_outcome
  so_primary :: "nat option"
  so_secondary :: "nat option"
  so_target :: "nat option"

record session_affinity =
  sa_mode :: session_affinity_mode
  sa_key :: "u8 list option"
  sa_bonus_blocks :: nat
  sa_max_load_delta :: nat
  sa_alpha :: f64
  sa_upstream_count :: nat

datatype target_kind = Target_Primary | SecondaryPrimaryUnhealthy | SecondaryPrimaryLoadGated

fun already_outcome :: "target_kind \<Rightarrow> session_outcome" where
  "already_outcome Target_Primary = ApproximateAlreadyPrimary"
| "already_outcome SecondaryPrimaryUnhealthy = ApproximateAlreadySecondaryHealth"
| "already_outcome SecondaryPrimaryLoadGated = ApproximateAlreadySecondaryLoad"

fun prefer_outcome :: "target_kind \<Rightarrow> session_outcome" where
  "prefer_outcome Target_Primary = WouldPreferPrimary"
| "prefer_outcome SecondaryPrimaryUnhealthy = WouldPreferSecondaryHealth"
| "prefer_outcome SecondaryPrimaryLoadGated = WouldPreferSecondaryLoad"

section \<open>Rendezvous hashing\<close>

definition session_affinity_domain :: "u8 list" where
  "session_affinity_domain = map of_char ''mini-dynamo session affinity rendezvous v1'' @ [0]"

definition to_be_bytes :: "nat \<Rightarrow> u8 list" where
  "to_be_bytes x = map (\<lambda>i. of_nat (x div 256 ^ (7 - i))) [0..<8]"

definition from_be_bytes :: "u8 list \<Rightarrow> nat" where
  "from_be_bytes bytes = foldl (\<lambda>acc b. acc * 256 + unat b) 0 bytes"

definition rendezvous_score :: "(u8 list \<Rightarrow> u8 list) \<Rightarrow> u8 list \<Rightarrow> u8 list \<Rightarrow> nat \<Rightarrow> nat" where
  "rendezvous_score sha256 session_id key index =
     from_be_bytes (take 16 (hmac_sha256 sha256 key [session_affinity_domain, session_id, to_be_bytes index]))"

definition ranked_after :: "nat \<times> nat \<Rightarrow> nat \<times> nat \<Rightarrow> bool" where
  "ranked_after left right \<longleftrightarrow> fst left < fst right \<or> (fst left = fst right \<and> snd right < snd left)"

definition rendezvous_pair :: "(u8 list \<Rightarrow> u8 list) \<Rightarrow> u8 list \<Rightarrow> u8 list \<Rightarrow> nat \<Rightarrow> (nat \<times> nat) option" where
  "rendezvous_pair sha256 session_id key upstream_count =
    (if upstream_count < 2 \<or> session_id = [] \<or> key = [] then None
     else let ranked = sort_by ranked_after (map (\<lambda>i. (rendezvous_score sha256 session_id key i, i)) [0..<upstream_count])
          in Some (snd (ranked ! 0), snd (ranked ! 1)))"

section \<open>Evaluation\<close>

fun place_states :: "nat \<Rightarrow> candidate_state list \<Rightarrow> candidate_state option list \<Rightarrow> candidate_state option list option" where
  "place_states n [] slots = Some slots"
| "place_states n (c # cs) slots =
    (if n \<le> cs_index c \<or> slots ! cs_index c \<noteq> None then None else place_states n cs (slots[cs_index c := Some c]))"

fun all_fresh :: "nat \<Rightarrow> nat list \<Rightarrow> bool list \<Rightarrow> bool" where
  "all_fresh n [] seen \<longleftrightarrow> True"
| "all_fresh n (c # cs) seen \<longleftrightarrow> c < n \<and> \<not> seen ! c \<and> all_fresh n cs (seen[c := True])"

definition validated_states :: "decision \<Rightarrow> nat \<Rightarrow> candidate_state list option" where
  "validated_states d upstream_count =
    (if length (candidates d) \<noteq> upstream_count \<or> length (candidate_states d) \<noteq> upstream_count then None
     else case place_states upstream_count (candidate_states d) (replicate upstream_count None) of
       None \<Rightarrow> None
     | Some slots \<Rightarrow>
        if list_ex (\<lambda>s. s = None) slots then None
        else if all_fresh upstream_count (candidates d) (replicate upstream_count False) then Some (map the slots)
        else None)"

definition base_score :: "candidate_state \<Rightarrow> f64 \<Rightarrow> f64" where
  "base_score c alpha = f64_sub (f64_of_nat (cs_affinity_blocks c)) (f64_mul alpha (f64_of_nat (cs_load_units c)))"

definition target_wins_with_bonus ::
  "candidate_state \<Rightarrow> candidate_state \<Rightarrow> f64 \<Rightarrow> nat \<Rightarrow> nat \<Rightarrow> nat \<Rightarrow> bool" where
  "target_wins_with_bonus tgt selected alpha bonus_blocks rotation candidate_count =
    (if cs_healthy tgt \<noteq> cs_healthy selected then cs_healthy tgt
     else
       let target_score = f64_add (base_score tgt alpha) (f64_of_nat bonus_blocks);
           selected_score = base_score selected alpha
       in if \<not> f64_eq target_score selected_score then f64_less selected_score target_score
          else if cs_overlap_blocks tgt \<noteq> cs_overlap_blocks selected then cs_overlap_blocks selected < cs_overlap_blocks tgt
          else (cs_index tgt + rotation) mod candidate_count < (cs_index selected + rotation) mod candidate_count)"

definition session_observation_of :: "session_affinity \<Rightarrow> session_outcome \<Rightarrow> nat option \<Rightarrow> session_observation" where
  "session_observation_of sa oc tgt = \<lparr>so_policy_version = 1, so_bonus_blocks = sa_bonus_blocks sa,
     so_max_load_delta = sa_max_load_delta sa, so_outcome = oc, so_primary = None, so_secondary = None, so_target = tgt\<rparr>"

definition assigned_observation :: "session_affinity \<Rightarrow> session_outcome \<Rightarrow> nat \<Rightarrow> nat \<Rightarrow> nat option \<Rightarrow> session_observation" where
  "assigned_observation sa oc primary secondary tgt = \<lparr>so_policy_version = 1, so_bonus_blocks = sa_bonus_blocks sa,
     so_max_load_delta = sa_max_load_delta sa, so_outcome = oc, so_primary = Some primary,
     so_secondary = Some secondary, so_target = tgt\<rparr>"

definition admissible :: "candidate_state list \<Rightarrow> nat \<Rightarrow> nat \<Rightarrow> bool" where
  "admissible states admitted_load i \<longleftrightarrow> cs_healthy (states ! i) \<and> cs_load_units (states ! i) \<le> admitted_load"

definition session_target :: "candidate_state list \<Rightarrow> nat \<Rightarrow> nat \<Rightarrow> nat \<Rightarrow> (nat \<times> target_kind) option" where
  "session_target states admitted_load primary secondary =
    (if admissible states admitted_load primary then Some (primary, Target_Primary)
     else if admissible states admitted_load secondary then
       Some (secondary, if cs_healthy (states ! primary) then SecondaryPrimaryLoadGated else SecondaryPrimaryUnhealthy)
     else None)"

definition session_decide ::
  "session_affinity \<Rightarrow> decision \<Rightarrow> candidate_state list \<Rightarrow> nat \<Rightarrow> nat \<Rightarrow> nat \<Rightarrow> candidate_state \<Rightarrow> session_observation" where
  "session_decide sa d states primary secondary selected selected_state =
    (case map cs_load_units (filter cs_healthy states) of
       [] \<Rightarrow> assigned_observation sa NoHealthyUpstream primary secondary None
     | l # ls \<Rightarrow>
       let admitted_load = sat_add (min_list (l # ls)) (sa_max_load_delta sa) in
       (case session_target states admitted_load primary secondary of
          None \<Rightarrow> assigned_observation sa
            (if \<not> cs_healthy (states ! primary) \<and> \<not> cs_healthy (states ! secondary) then NoHealthyAssigned else KeptPairLoad)
            primary secondary None
        | Some (tgt, kind) \<Rightarrow>
           if selected = tgt then assigned_observation sa (already_outcome kind) primary secondary (Some tgt)
           else if \<not> target_wins_with_bonus (states ! tgt) selected_state (sa_alpha sa) (sa_bonus_blocks sa) (d_rotation d) (sa_upstream_count sa)
           then assigned_observation sa KeptScore primary secondary (Some tgt)
           else assigned_observation sa (prefer_outcome kind) primary secondary (Some tgt)))"

definition session_evaluate :: "(u8 list \<Rightarrow> u8 list) \<Rightarrow> session_affinity \<Rightarrow> u8 list \<Rightarrow> decision \<Rightarrow> session_observation" where
  "session_evaluate sha256 sa session_id d =
    (let invalid = session_observation_of sa InvalidDecision None in
     case sa_key sa of None \<Rightarrow> invalid | Some key \<Rightarrow>
    (case rendezvous_pair sha256 session_id key (sa_upstream_count sa) of None \<Rightarrow> invalid
     | Some (primary, secondary) \<Rightarrow>
    (case validated_states d (sa_upstream_count sa) of None \<Rightarrow> invalid | Some states \<Rightarrow>
    (case candidates d of [] \<Rightarrow> invalid | selected # _ \<Rightarrow>
    (case get states selected of None \<Rightarrow> invalid | Some selected_state \<Rightarrow>
       session_decide sa d states primary secondary selected selected_state)))))"

definition session_observe ::
  "(u8 list \<Rightarrow> u8 list) \<Rightarrow> session_affinity \<Rightarrow> endpoint_kind \<Rightarrow> opaque_session \<Rightarrow> decision \<Rightarrow> session_observation option" where
  "session_observe sha256 sa ep sess d =
    (if sa_mode sa = SA_Off \<or> \<not> is_generation ep then None
     else Some (case sess of
         Session_Missing \<Rightarrow> session_observation_of sa MissingSession None
       | Session_Invalid \<Rightarrow> session_observation_of sa InvalidSession None
       | Session_Valid session_id \<Rightarrow> session_evaluate sha256 sa session_id d))"

section \<open>The rendezvous assignment\<close>

text \<open>The order of two upstreams for one session: a higher keyed score, or the same with a lower ordinal.\<close>

definition outranks :: "(nat \<Rightarrow> nat) \<Rightarrow> nat \<Rightarrow> nat \<Rightarrow> bool" where
  "outranks score i j \<longleftrightarrow> score j < score i \<or> (score i = score j \<and> i < j)"

lemma ranked_after_outranks: "ranked_after (score j, j) (score i, i) \<longleftrightarrow> outranks score i j"
  by (auto simp: ranked_after_def outranks_def)

lemma outranks_total: "i \<noteq> j \<Longrightarrow> outranks score i j \<or> outranks score j i"
  by (auto simp: outranks_def)

lemma outranks_asym: "outranks score i j \<Longrightarrow> \<not> outranks score j i"
  by (auto simp: outranks_def)

lemma ranked_sorted: "sorted_wrt (\<lambda>a b. \<not> ranked_after a b) (sort_by ranked_after xs)"
  by (rule sorted_sort_by) (auto simp: asymp_on_def transp_def ranked_after_def)

lemma rendezvous_spec:
  assumes "rendezvous_pair sha256 sid key n = Some (p, s)"
  defines "score \<equiv> rendezvous_score sha256 sid key"
  shows "p < n \<and> s < n \<and> p \<noteq> s \<and> (\<forall>i < n. i \<noteq> p \<longrightarrow> outranks score p i) \<and> (\<forall>i < n. i \<noteq> p \<and> i \<noteq> s \<longrightarrow> outranks score s i)"
proof -
  let ?xs = "map (\<lambda>i. (score i, i)) [0..<n]"
  let ?rk = "sort_by ranked_after ?xs"
  have n: "2 \<le> n" and ps: "p = snd (?rk ! 0)" "s = snd (?rk ! 1)"
    using assms(1) by (auto simp: rendezvous_pair_def Let_def score_def split: if_splits)
  obtain a b rest where rk: "?rk = a # b # rest"
    using n by (metis (no_types, lifting) One_nat_def Suc_1 diff_zero length_map length_sort_by length_upt
        Suc_le_length_iff)
  have set: "set (a # b # rest) = (\<lambda>i. (score i, i)) ` {..<n}" using set_sort_by [of ranked_after ?xs] rk by auto
  have dist: "distinct (map snd (a # b # rest))"
    using distinct_map_sort_by [of snd ?xs ranked_after] rk by (simp add: comp_def)
  have elem: "x = (score (snd x), snd x) \<and> snd x < n" if "x \<in> set (a # b # rest)" for x
    using that unfolding set by auto
  have "sorted_wrt (\<lambda>a b. \<not> ranked_after a b) (a # b # rest)" using ranked_sorted [of ?xs] rk by simp
  then have best: "\<not> outranks score (snd x) (snd a)" if "x \<in> set (b # rest)" for x
    using that elem by (metis list.set_intros(1,2) ranked_after_outranks sorted_wrt.simps(2))
  have nxt: "\<not> outranks score (snd x) (snd b)" if "x \<in> set rest" for x
    using that elem \<open>sorted_wrt _ (a # b # rest)\<close> by (metis list.set_intros(1,2) ranked_after_outranks sorted_wrt.simps(2))
  have "p = snd a" "s = snd b" using ps rk by simp_all
  moreover have "(score i, i) \<in> set (a # b # rest)" if "i < n" for i using that unfolding set by auto
  ultimately show ?thesis using elem dist best nxt outranks_total
    by (auto, (metis snd_conv)+)
qed

text \<open>
  The rendezvous assignment is minimally disruptive. Every session has two distinct upstreams, the
  best and the second best of all under its keyed order; with one upstream more, the primary stays unless
  the new upstream takes its place, and then the old primary is the new secondary; and a pair that does not
  contain the new upstream is the pair as it was.
\<close>

theorem rendezvous_minimal_disruption:
  assumes "rendezvous_pair sha256 session_id key (Suc n) = Some (p, s)" "2 \<le> n"
  shows "\<exists>p' s'. rendezvous_pair sha256 session_id key n = Some (p', s') \<and> p' < n \<and> s' < n \<and> p' \<noteq> s' \<and>
    (p < n \<longrightarrow> p' = p) \<and> (p = n \<longrightarrow> p' = s) \<and> (p < n \<and> s < n \<longrightarrow> s' = s) \<and>
    (\<forall>i < n. i \<noteq> p' \<longrightarrow> outranks (rendezvous_score sha256 session_id key) p' i)"
proof -
  let ?score = "rendezvous_score sha256 session_id key"
  obtain p' s' where pair: "rendezvous_pair sha256 session_id key n = Some (p', s')"
    using assms by (auto simp: rendezvous_pair_def Let_def split: if_splits)
  note more = rendezvous_spec [OF assms(1)] and less = rendezvous_spec [OF pair]
  have first: "p < n \<longrightarrow> p' = p"
    using more less outranks_asym [of ?score p p'] by (metis less_SucI)
  have moved: "p = n \<longrightarrow> p' = s"
    using more less outranks_asym [of ?score s p'] by (metis less_SucI less_antisym less_irrefl)
  have second: "p < n \<and> s < n \<longrightarrow> s' = s"
    using more less first outranks_asym [of ?score s s'] by (metis less_SucI)
  show ?thesis using pair less first moved second by blast
qed

theorem rendezvous_minimal_disruption_witness:
  "\<exists>p s p' s'. rendezvous_pair (\<lambda>x. x) [7] [1] 3 = Some (p, s) \<and> rendezvous_pair (\<lambda>x. x) [7] [1] 2 = Some (p', s') \<and>
     (p < 2 \<longrightarrow> p' = p)"
proof -
  obtain p s where "rendezvous_pair (\<lambda>x. x) [7] [1] (Suc 2) = Some (p, s)" by (simp add: rendezvous_pair_def Let_def)
  from rendezvous_minimal_disruption [OF this] this show ?thesis by (auto simp: numeral_3_eq_3 numeral_2_eq_2)
qed

section \<open>The proposed target\<close>

lemma place_states_spec:
  "place_states n cs slots = Some slots' \<Longrightarrow> length slots = n \<Longrightarrow>
    length slots' = n \<and> (\<forall>i < n. \<forall>c. slots' ! i = Some c \<longrightarrow> slots ! i = Some c \<or> (c \<in> set cs \<and> cs_index c = i)) \<and>
    (\<forall>c \<in> set cs. cs_index c < n \<and> slots' ! cs_index c = Some c) \<and> (\<forall>i < n. \<forall>c. slots ! i = Some c \<longrightarrow> slots' ! i = Some c)"
proof (induction cs arbitrary: slots)
  case (Cons c cs)
  then have step: "cs_index c < n" "slots ! cs_index c = None" "place_states n cs (slots[cs_index c := Some c]) = Some slots'"
    by (auto split: if_splits)
  show ?case using Cons.IH [OF step(3)] Cons.prems(2) step(1,2) by (fastforce simp: nth_list_update split: if_splits)
qed simp

lemma validated_states_spec:
  assumes "validated_states d n = Some states"
  shows "length states = n \<and> set states = set (candidate_states d) \<and> (\<forall>i < n. cs_index (states ! i) = i)"
proof -
  obtain slots where slots: "place_states n (candidate_states d) (replicate n None) = Some slots"
    "\<not> list_ex (\<lambda>s. s = None) slots" "states = map the slots"
    using assms by (auto simp: validated_states_def split: if_splits option.splits)
  note spec = place_states_spec [OF slots(1) length_replicate]
  have len: "length slots = n" "length states = n" using spec slots(3) by auto
  have slot: "states ! i \<in> set (candidate_states d) \<and> cs_index (states ! i) = i" if "i < n" for i
  proof -
    have "slots ! i \<noteq> None" using slots(2) that len by (auto simp: list_ex_iff in_set_conv_nth)
    then obtain c where c: "slots ! i = Some c" by blast
    then have "c \<in> set (candidate_states d) \<and> cs_index c = i" using spec that by fastforce
    then show ?thesis using c slots(3) that len by simp
  qed
  have "c \<in> set states" if "c \<in> set (candidate_states d)" for c
  proof -
    have "slots ! cs_index c = Some c" "cs_index c < n" using spec that by auto
    then have "states ! cs_index c = c" using slots(3) len by simp
    then show ?thesis using \<open>cs_index c < n\<close> len by (metis nth_mem)
  qed
  moreover have "c \<in> set (candidate_states d)" if "c \<in> set states" for c
    using that slot len unfolding in_set_conv_nth [of c states] by auto
  ultimately show ?thesis using len slot by blast
qed

lemma session_target_cases:
  assumes "session_target states admitted p s = Some (tgt, kind)"
  shows "admissible states admitted tgt \<and> (kind = Target_Primary \<and> tgt = p \<or>
    tgt = s \<and> \<not> admissible states admitted p \<and> kind = (if cs_healthy (states ! p) then SecondaryPrimaryLoadGated else SecondaryPrimaryUnhealthy))"
  using assms by (auto simp: session_target_def split: if_splits)

text \<open>What a would-prefer outcome says about the pair, the target and the selected replica.\<close>

definition would_prefer :: "session_outcome \<Rightarrow> bool" where
  "would_prefer oc \<longleftrightarrow> oc \<in> {WouldPreferPrimary, WouldPreferSecondaryHealth, WouldPreferSecondaryLoad}"

lemma would_prefer_outcomes [simp]:
  "\<not> would_prefer (already_outcome kind)" "would_prefer (prefer_outcome kind)" "\<not> would_prefer KeptScore"
  "\<not> would_prefer KeptPairLoad" "\<not> would_prefer NoHealthyAssigned" "\<not> would_prefer NoHealthyUpstream"
  "\<not> would_prefer InvalidDecision"
  by (cases kind; simp add: would_prefer_def)+

lemma assigned_fields [simp]:
  "so_outcome (assigned_observation sa oc p s t) = oc" "so_primary (assigned_observation sa oc p s t) = Some p"
  "so_secondary (assigned_observation sa oc p s t) = Some s" "so_target (assigned_observation sa oc p s t) = t"
  by (simp_all add: assigned_observation_def)

lemma min_load:
  assumes "map cs_load_units (filter cs_healthy states) = l # ls"
  shows "\<exists>c \<in> set states. cs_healthy c \<and> min_list (l # ls) = cs_load_units c"
    "c \<in> set states \<Longrightarrow> cs_healthy c \<Longrightarrow> min_list (l # ls) \<le> cs_load_units c"
proof -
  have eq: "min_list (l # ls) = Min (set (l # ls))" by (rule min_list_Min) simp
  have set: "set (l # ls) = cs_load_units ` {c \<in> set states. cs_healthy c}"
    using arg_cong [OF assms, of set] by simp
  have "Min (set (l # ls)) \<in> set (l # ls)" by (rule Min_in) simp_all
  then show "\<exists>c \<in> set states. cs_healthy c \<and> min_list (l # ls) = cs_load_units c" unfolding eq unfolding set by auto
  show "min_list (l # ls) \<le> cs_load_units c" if "c \<in> set states" "cs_healthy c"
    unfolding eq unfolding set using that by (intro Min_le) auto
qed

lemma decide_prefers:
  assumes "would_prefer (so_outcome (session_decide sa d states p s selected sel))"
  shows "\<exists>tgt kind admitted. session_decide sa d states p s selected sel = assigned_observation sa (prefer_outcome kind) p s (Some tgt) \<and>
    session_target states admitted p s = Some (tgt, kind) \<and> selected \<noteq> tgt \<and>
    (\<forall>c \<in> set states. cs_healthy c \<longrightarrow> admitted \<le> sat_add (cs_load_units c) (sa_max_load_delta sa)) \<and>
    (\<exists>c \<in> set states. cs_healthy c \<and> admitted = sat_add (cs_load_units c) (sa_max_load_delta sa)) \<and>
    target_wins_with_bonus (states ! tgt) sel (sa_alpha sa) (sa_bonus_blocks sa) (d_rotation d) (sa_upstream_count sa)"
proof (cases "map cs_load_units (filter cs_healthy states)")
  case Nil
  then show ?thesis using assms by (simp add: session_decide_def)
next
  case (Cons l ls)
  let ?admitted = "sat_add (min_list (l # ls)) (sa_max_load_delta sa)"
  have le: "\<forall>c \<in> set states. cs_healthy c \<longrightarrow> ?admitted \<le> sat_add (cs_load_units c) (sa_max_load_delta sa)"
    using min_load(2) [OF Cons] by (auto simp: sat_add_def simp del: min_list.simps intro!: min.coboundedI1)
  have ex: "\<exists>c \<in> set states. cs_healthy c \<and> ?admitted = sat_add (cs_load_units c) (sa_max_load_delta sa)"
    using min_load(1) [OF Cons] by (auto simp del: min_list.simps)
  define admitted where "admitted = ?admitted"
  have decide: "session_decide sa d states p s selected sel =
    (case session_target states admitted p s of
       None \<Rightarrow> assigned_observation sa
            (if \<not> cs_healthy (states ! p) \<and> \<not> cs_healthy (states ! s) then NoHealthyAssigned else KeptPairLoad) p s None
     | Some (tgt, kind) \<Rightarrow>
           if selected = tgt then assigned_observation sa (already_outcome kind) p s (Some tgt)
           else if \<not> target_wins_with_bonus (states ! tgt) sel (sa_alpha sa) (sa_bonus_blocks sa) (d_rotation d) (sa_upstream_count sa)
           then assigned_observation sa KeptScore p s (Some tgt)
           else assigned_observation sa (prefer_outcome kind) p s (Some tgt))"
    unfolding session_decide_def Cons admitted_def by (simp only: list.case Let_def)
  show ?thesis
  proof (cases "session_target states admitted p s")
    case None
    then show ?thesis using assms by (simp add: decide split: if_splits)
  next
    case (Some tk)
    obtain tgt kind where "tk = (tgt, kind)" by (cases tk)
    then show ?thesis using assms Some le ex unfolding admitted_def [symmetric]
      by (intro exI [of _ tgt] exI [of _ kind] exI [of _ admitted]) (simp add: decide split: if_splits)
  qed
qed

text \<open>
  A session is only ever proposed a replica that may take it. A would-prefer observation names the
  session's assigned pair and as target one of the two, not the one routing selected: it is serving, its load
  exceeds that of no serving replica by more than the allowed delta, and it beats the selected replica with the
  bonus added; and if it is the secondary, then the primary is not serving, or is serving with a load above that
  bound, as the outcome says.
\<close>

theorem session_target_admissible:
  assumes "would_prefer (so_outcome (session_evaluate sha256 sa session_id d))"
  shows "\<exists>key p s t c sel. sa_key sa = Some key \<and>
    rendezvous_pair sha256 session_id key (sa_upstream_count sa) = Some (p, s) \<and>
    so_primary (session_evaluate sha256 sa session_id d) = Some p \<and> so_secondary (session_evaluate sha256 sa session_id d) = Some s \<and>
    so_target (session_evaluate sha256 sa session_id d) = Some t \<and> t \<noteq> hd (candidates d) \<and>
    c \<in> set (candidate_states d) \<and> cs_index c = t \<and> cs_healthy c \<and>
    (\<forall>e \<in> set (candidate_states d). cs_healthy e \<longrightarrow> cs_load_units c \<le> sat_add (cs_load_units e) (sa_max_load_delta sa)) \<and>
    sel \<in> set (candidate_states d) \<and> cs_index sel = hd (candidates d) \<and>
    target_wins_with_bonus c sel (sa_alpha sa) (sa_bonus_blocks sa) (d_rotation d) (sa_upstream_count sa) \<and>
    (t = p \<and> so_outcome (session_evaluate sha256 sa session_id d) = WouldPreferPrimary \<or>
     t = s \<and> (\<exists>q \<in> set (candidate_states d). cs_index q = p \<and>
       (if cs_healthy q then so_outcome (session_evaluate sha256 sa session_id d) = WouldPreferSecondaryLoad \<and>
          (\<exists>e \<in> set (candidate_states d). cs_healthy e \<and> sat_add (cs_load_units e) (sa_max_load_delta sa) < cs_load_units q)
        else so_outcome (session_evaluate sha256 sa session_id d) = WouldPreferSecondaryHealth)))"
proof -
  let ?n = "sa_upstream_count sa"
  obtain key p s states selected where run: "sa_key sa = Some key" "rendezvous_pair sha256 session_id key ?n = Some (p, s)"
    "validated_states d ?n = Some states" "selected = hd (candidates d)" "selected < length states"
    "session_evaluate sha256 sa session_id d = session_decide sa d states p s selected (states ! selected)"
    using assms by (auto simp: session_evaluate_def session_observation_of_def Let_def get_def split: option.splits list.splits if_splits)
  have st: "length states = ?n" "set states = set (candidate_states d)" "\<And>i. i < ?n \<Longrightarrow> cs_index (states ! i) = i"
    using validated_states_spec [OF run(3)] by auto
  have pair: "p < ?n" "s < ?n" using rendezvous_spec [OF run(2)] by auto
  obtain tgt kind admitted where pick:
    "session_evaluate sha256 sa session_id d = assigned_observation sa (prefer_outcome kind) p s (Some tgt)"
    "session_target states admitted p s = Some (tgt, kind)" "selected \<noteq> tgt"
    "\<forall>c \<in> set states. cs_healthy c \<longrightarrow> admitted \<le> sat_add (cs_load_units c) (sa_max_load_delta sa)"
    "\<exists>c \<in> set states. cs_healthy c \<and> admitted = sat_add (cs_load_units c) (sa_max_load_delta sa)"
    "target_wins_with_bonus (states ! tgt) (states ! selected) (sa_alpha sa) (sa_bonus_blocks sa) (d_rotation d) ?n"
    using decide_prefers assms run(6) by metis
  note tgt = session_target_cases [OF pick(2)]
  have lt: "tgt < ?n" using tgt pair by auto
  have mem: "states ! i \<in> set (candidate_states d)" if "i < ?n" for i using that st(1,2) by (metis nth_mem)
  have load: "\<forall>e \<in> set (candidate_states d). cs_healthy e \<longrightarrow> cs_load_units (states ! tgt) \<le> sat_add (cs_load_units e) (sa_max_load_delta sa)"
    using pick(4) tgt unfolding st(2) admissible_def by (auto intro: order_trans)
  have secondary: "if cs_healthy (states ! p) then kind = SecondaryPrimaryLoadGated \<and>
      (\<exists>e \<in> set (candidate_states d). cs_healthy e \<and> sat_add (cs_load_units e) (sa_max_load_delta sa) < cs_load_units (states ! p))
      else kind = SecondaryPrimaryUnhealthy" if "kind \<noteq> Target_Primary"
    using tgt that pick(5) unfolding st(2) admissible_def by auto
  have last: "tgt = p \<and> prefer_outcome kind = WouldPreferPrimary \<or>
     tgt = s \<and> (\<exists>q \<in> set (candidate_states d). cs_index q = p \<and>
       (if cs_healthy q then prefer_outcome kind = WouldPreferSecondaryLoad \<and>
          (\<exists>e \<in> set (candidate_states d). cs_healthy e \<and> sat_add (cs_load_units e) (sa_max_load_delta sa) < cs_load_units q)
        else prefer_outcome kind = WouldPreferSecondaryHealth))"
  proof (cases "kind = Target_Primary")
    case True
    then show ?thesis using tgt by (auto split: if_splits)
  next
    case False
    have "tgt = s" using tgt False by blast
    moreover have "if cs_healthy (states ! p) then prefer_outcome kind = WouldPreferSecondaryLoad \<and>
          (\<exists>e \<in> set (candidate_states d). cs_healthy e \<and> sat_add (cs_load_units e) (sa_max_load_delta sa) < cs_load_units (states ! p))
        else prefer_outcome kind = WouldPreferSecondaryHealth"
      using secondary [OF False] by (cases "cs_healthy (states ! p)") simp_all
    ultimately show ?thesis using mem [OF pair(1)] st(3) [OF pair(1)] by blast
  qed
  have sel: "selected < ?n" using run(5) st(1) by simp
  have healthy: "cs_healthy (states ! tgt)" using tgt by (simp add: admissible_def)
  show ?thesis unfolding pick(1) assigned_fields
    by (rule exI [of _ key], rule exI [of _ p], rule exI [of _ s], rule exI [of _ tgt], rule exI [of _ "states ! tgt"],
        rule exI [of _ "states ! selected"])
      (use run(1,2,4) pick(3,6) healthy load last mem [OF lt] mem [OF sel] st(3) [OF lt] st(3) [OF sel] in \<open>intro conjI, simp_all only: option.inject\<close>)
qed

section \<open>A concrete session\<close>

definition flat_sha256 :: "u8 list \<Rightarrow> u8 list" where
  "flat_sha256 x = replicate 32 0"

definition session_config :: session_affinity where
  "session_config = \<lparr>sa_mode = SA_Shadow, sa_key = Some [1], sa_bonus_blocks = 3, sa_max_load_delta = 1,
     sa_alpha = Finite 4, sa_upstream_count = 3\<rparr>"

definition session_decision :: decision where
  "session_decision = sample_decision\<lparr>candidates := [2, 0, 1],
     candidate_states := [sample_candidate 2 True, sample_candidate 0 True, sample_candidate 1 True]\<rparr>"

lemma session_pair: "rendezvous_pair flat_sha256 [7] [1] 3 = Some (0, 1)"
proof -
  have "rendezvous_score flat_sha256 [7] [1] i = 0" for i
    by (simp add: rendezvous_score_def hmac_sha256_def flat_sha256_def from_be_bytes_def Let_def)
      (simp add: numeral_eq_Suc)
  then show ?thesis by (simp add: rendezvous_pair_def Let_def ranked_after_def upt_rec)
qed

lemma session_base: "i < 2 ^ 53 \<Longrightarrow> base_score (sample_candidate i h) (Finite 4) = Finite (of_nat i)"
  using f64_of_nat_exact [of i] f64_of_nat_exact [of 0]
  by (simp add: base_score_def sample_candidate_def f64_sub_def f64_of_nat_def f64_round_def)

lemma session_prefers: "so_outcome (session_evaluate flat_sha256 session_config [7] session_decision) = WouldPreferPrimary"
proof -
  have states: "validated_states session_decision 3 = Some [sample_candidate 0 True, sample_candidate 1 True, sample_candidate 2 True]"
    by (simp add: validated_states_def session_decision_def sample_candidate_def numeral_3_eq_3 numeral_2_eq_2)
  have bonus: "f64_add (Finite 0) (f64_of_nat 3) = Finite 3"
    using f64_of_nat_exact [of 3] f64_round_int_exact [of 3] by simp
  have "target_wins_with_bonus (sample_candidate 0 True) (sample_candidate 2 True) (Finite 4) 3 0 3"
    using session_base [of 0 True] session_base [of 2 True] bonus
    by (simp add: target_wins_with_bonus_def sample_candidate_def Let_def f64_eq_def)
  then show ?thesis
    using session_pair states
    by (simp add: session_evaluate_def session_config_def session_decision_def session_decide_def session_target_def
        admissible_def get_def sample_candidate_def sample_decision_def sat_add_def usize_max_eq)
qed

theorem session_target_admissible_witness:
  "\<exists>t c. so_target (session_evaluate flat_sha256 session_config [7] session_decision) = Some t \<and> t \<noteq> 2 \<and>
     c \<in> set (candidate_states session_decision) \<and> cs_index c = t \<and> cs_healthy c"
proof -
  have "hd (candidates session_decision) = 2" by (simp add: session_decision_def)
  moreover have "would_prefer (so_outcome (session_evaluate flat_sha256 session_config [7] session_decision))"
    unfolding session_prefers by (simp add: would_prefer_def)
  from session_target_admissible [OF this] show ?thesis unfolding \<open>hd _ = 2\<close> by blast
qed

end
