(* ===== verification/Idle_Drain.thy ===== *)
theory Idle_Drain
  imports F64
begin

text \<open>
  The idle-driven drain policy (\<^verbatim>\<open>src/src/idle_drain.rs\<close>): which replicas are parked, when a parked one is
  safe to stop and when it is resumed.  Millisecond counters are natural numbers, durations nanoseconds.
\<close>

section \<open>Configuration and state\<close>

datatype idle_drain_mode = Drain_Off | Drain_Observe | Drain_Enforce

fun idle_drain_mode_label :: "idle_drain_mode \<Rightarrow> string" where
  "idle_drain_mode_label Drain_Off = ''off''"
| "idle_drain_mode_label Drain_Observe = ''observe''"
| "idle_drain_mode_label Drain_Enforce = ''drain''"

definition fences_routing :: "idle_drain_mode \<Rightarrow> bool" where
  "fences_routing m \<longleftrightarrow> m = Drain_Enforce"

definition drain_enabled :: "idle_drain_mode \<Rightarrow> bool" where
  "drain_enabled m \<longleftrightarrow> m \<noteq> Drain_Off"

datatype idle_drain_release = FleetIdle | Utilization

fun release_label :: "idle_drain_release \<Rightarrow> string" where
  "release_label FleetIdle = ''fleet_idle''"
| "release_label Utilization = ''utilization''"

record idle_drain_config =
  idc_mode :: idle_drain_mode
  idc_release :: idle_drain_release
  idle_after :: duration
  min_warm :: nat
  cooldown :: duration
  drain_grace :: duration
  upstream_idle_after :: duration
  resume_load_per_replica :: nat

definition idle_drain_default :: idle_drain_config where
  "idle_drain_default = \<lparr>idc_mode = Drain_Off, idc_release = FleetIdle, idle_after = duration_from_secs (15 * 60),
     min_warm = 1, cooldown = duration_from_secs (5 * 60), drain_grace = duration_from_secs 30,
     upstream_idle_after = duration_from_secs (5 * 60), resume_load_per_replica = 4\<rparr>"

definition effective_min_warm :: "idle_drain_config \<Rightarrow> nat" where
  "effective_min_warm c = max (min_warm c) 1"

datatype drain_state = Warm | Draining | Drained

fun drain_state_label :: "drain_state \<Rightarrow> string" where
  "drain_state_label Warm = ''warm''"
| "drain_state_label Draining = ''draining''"
| "drain_state_label Drained = ''drained''"

fun drain_state_code :: "drain_state \<Rightarrow> f64" where
  "drain_state_code Warm = Finite 0"
| "drain_state_code Draining = Finite 1"
| "drain_state_code Drained = Finite 2"

definition fenced :: "drain_state \<Rightarrow> bool" where
  "fenced s \<longleftrightarrow> s = Draining \<or> s = Drained"

record upstream_observation =
  ob_healthy :: bool
  ob_inflight :: nat

record upstream_intent =
  in_state :: drain_state
  in_fenced :: bool
  desired_running :: bool
  safe_to_stop :: bool

definition intent_warm :: upstream_intent where
  "intent_warm = \<lparr>in_state = Warm, in_fenced = False, desired_running = True, safe_to_stop = False\<rparr>"

record idle_drain_decision =
  dd_load_per_serving_replica :: nat
  dd_upstreams :: "upstream_intent list"
  dd_transitions :: "(nat \<times> drain_state) list"
  dd_idle :: bool

definition desired_running_count :: "idle_drain_decision \<Rightarrow> nat" where
  "desired_running_count d = length (filter desired_running (dd_upstreams d))"

record idle_drain_policy =
  dp_config :: idle_drain_config
  dp_states :: "drain_state list"
  busy_since_ms :: "nat list"
  idle_since_ms :: "nat list"
  last_activity_ms :: nat
  last_drain_transition_ms :: "nat option"

definition duration_to_ms :: "duration \<Rightarrow> nat" where
  "duration_to_ms d = min (d div 1000000) (2 ^ 64 - 1)"

section \<open>Operations\<close>

text \<open>\<open>None\<close> is the panic of the assertion.\<close>

definition policy_new :: "idle_drain_config \<Rightarrow> nat \<Rightarrow> nat \<Rightarrow> idle_drain_policy option" where
  "policy_new c upstreams now = (if upstreams = 0 then None
     else Some \<lparr>dp_config = c, dp_states = replicate upstreams Warm, busy_since_ms = replicate upstreams now,
       idle_since_ms = replicate upstreams now, last_activity_ms = now, last_drain_transition_ms = None\<rparr>)"

definition observe_activity :: "nat \<Rightarrow> idle_drain_policy \<Rightarrow> idle_drain_policy" where
  "observe_activity now p = p\<lparr>last_activity_ms := max (last_activity_ms p) now\<rparr>"

definition policy_state :: "nat \<Rightarrow> idle_drain_policy \<Rightarrow> drain_state option" where
  "policy_state upstream p = get (dp_states p) upstream"

definition observed_inflight :: "upstream_observation list \<Rightarrow> nat \<Rightarrow> nat" where
  "observed_inflight obs i = (case get obs i of None \<Rightarrow> usize_max | Some ob \<Rightarrow> ob_inflight ob)"

definition observed_healthy :: "upstream_observation list \<Rightarrow> nat \<Rightarrow> bool" where
  "observed_healthy obs i = (case get obs i of None \<Rightarrow> False | Some ob \<Rightarrow> ob_healthy ob)"

definition record_upstream_activity :: "nat \<Rightarrow> upstream_observation list \<Rightarrow> idle_drain_policy \<Rightarrow> idle_drain_policy" where
  "record_upstream_activity now obs p = p\<lparr>idle_since_ms :=
     map (\<lambda>(i, since). if 0 < observed_inflight obs i then now else since)
       (zip [0..<length (idle_since_ms p)] (idle_since_ms p))\<rparr>"

definition warm_serving :: "upstream_observation list \<Rightarrow> drain_state list \<Rightarrow> nat \<Rightarrow> bool" where
  "warm_serving obs sts i \<longleftrightarrow> \<not> fenced (sts ! i) \<and> observed_healthy obs i"

definition warm_serving_count :: "upstream_observation list \<Rightarrow> drain_state list \<Rightarrow> nat" where
  "warm_serving_count obs sts = length (filter (warm_serving obs sts) [0..<length sts])"

text \<open>A \<open>usize\<close> sum; it wraps in a release build.\<close>

definition serving_inflight :: "upstream_observation list \<Rightarrow> drain_state list \<Rightarrow> nat" where
  "serving_inflight obs sts =
     sum_list (map (\<lambda>i. case get obs i of None \<Rightarrow> 0 | Some ob \<Rightarrow> ob_inflight ob)
       (filter (\<lambda>i. \<not> fenced (sts ! i)) [0..<length sts])) mod 2 ^ 64"

definition load_per_serving_replica :: "upstream_observation list \<Rightarrow> drain_state list \<Rightarrow> nat" where
  "load_per_serving_replica obs sts =
    (let n = warm_serving_count obs sts in
     if n = 0 then usize_max else div_ceil (serving_inflight obs sts) n)"

definition projected_load_after_release :: "upstream_observation list \<Rightarrow> drain_state list \<Rightarrow> nat \<Rightarrow> nat" where
  "projected_load_after_release obs sts n =
    (let remaining = n - 1 in if remaining = 0 then usize_max else div_ceil (serving_inflight obs sts) remaining)"

definition quiet_candidates :: "nat \<Rightarrow> upstream_observation list \<Rightarrow> idle_drain_policy \<Rightarrow> (nat \<times> nat) list" where
  "quiet_candidates now obs p =
     filter (\<lambda>(i, quiet_ms). duration_to_ms (upstream_idle_after (dp_config p)) \<le> quiet_ms)
       (map (\<lambda>i. (i, now - idle_since_ms p ! i))
         (filter (\<lambda>i. warm_serving obs (dp_states p) i \<and> observed_inflight obs i = 0) [0..<length (dp_states p)]))"

text \<open>\<open>max_by_key\<close> on the pair of the quiet time and the index.\<close>

fun max_quiet :: "(nat \<times> nat) list \<Rightarrow> (nat \<times> nat) option" where
  "max_quiet [] = None"
| "max_quiet (c # cs) = (case max_quiet cs of None \<Rightarrow> Some c
     | Some b \<Rightarrow> if snd b < snd c \<or> (snd b = snd c \<and> fst b < fst c) then Some c else Some b)"

definition select_quietest :: "nat \<Rightarrow> upstream_observation list \<Rightarrow> idle_drain_policy \<Rightarrow> nat option" where
  "select_quietest now obs p = map_option fst (max_quiet (quiet_candidates now obs p))"

definition fleet_idle :: "nat \<Rightarrow> upstream_observation list \<Rightarrow> idle_drain_policy \<Rightarrow> bool" where
  "fleet_idle now obs p \<longleftrightarrow> \<not> list_ex (\<lambda>ob. 0 < ob_inflight ob) obs \<and>
     duration_to_ms (idle_after (dp_config p)) \<le> now - last_activity_ms p"

definition select_target :: "upstream_observation list \<Rightarrow> drain_state list \<Rightarrow> nat option" where
  "select_target obs sts = List.find (warm_serving obs sts) (rev [0..<length sts])"

definition cooldown_elapsed :: "nat \<Rightarrow> idle_drain_policy \<Rightarrow> bool" where
  "cooldown_elapsed now p = (case last_drain_transition_ms p of None \<Rightarrow> True
     | Some last_ms \<Rightarrow> duration_to_ms (cooldown (dp_config p)) \<le> now - last_ms)"

text \<open>One replica of \<open>promote_drained\<close>: its state and the last moment it was busy.\<close>

definition promote_one :: "nat \<Rightarrow> nat \<Rightarrow> nat \<Rightarrow> drain_state \<times> nat \<Rightarrow> drain_state \<times> nat" where
  "promote_one now grace_ms inflight = (\<lambda>(st, busy).
     if st \<noteq> Draining then (st, busy)
     else if 0 < inflight then (st, now)
     else if grace_ms \<le> now - busy then (Drained, busy) else (st, busy))"

definition promote_drained :: "nat \<Rightarrow> upstream_observation list \<Rightarrow> idle_drain_policy \<Rightarrow> idle_drain_policy" where
  "promote_drained now obs p =
    (let r = map (\<lambda>i. promote_one now (duration_to_ms (drain_grace (dp_config p))) (observed_inflight obs i)
                   (dp_states p ! i, busy_since_ms p ! i)) [0..<length (dp_states p)]
     in p\<lparr>dp_states := map fst r, busy_since_ms := map snd r\<rparr>)"

definition park :: "nat \<Rightarrow> nat \<Rightarrow> idle_drain_policy \<Rightarrow> idle_drain_policy" where
  "park now t p = p\<lparr>dp_states := (dp_states p)[t := Draining], busy_since_ms := (busy_since_ms p)[t := now],
     last_drain_transition_ms := Some now\<rparr>"

definition resume_all :: "idle_drain_policy \<Rightarrow> idle_drain_policy" where
  "resume_all p = p\<lparr>dp_states := replicate (length (dp_states p)) Warm\<rparr>"

definition advance_drain :: "nat \<Rightarrow> upstream_observation list \<Rightarrow> idle_drain_policy \<Rightarrow> idle_drain_policy" where
  "advance_drain now obs p =
    (let p1 = promote_drained now obs p in
     if warm_serving_count obs (dp_states p1) \<le> effective_min_warm (dp_config p1) then p1
     else if \<not> cooldown_elapsed now p1 then p1
     else case select_target obs (dp_states p1) of None \<Rightarrow> p1 | Some t \<Rightarrow> park now t p1)"

definition advance_utilization :: "nat \<Rightarrow> upstream_observation list \<Rightarrow> idle_drain_policy \<Rightarrow> idle_drain_policy" where
  "advance_utilization now obs p =
    (let p1 = promote_drained now obs p;
         resume_at = resume_load_per_replica (dp_config p1);
         n = warm_serving_count obs (dp_states p1) in
     if resume_at \<le> load_per_serving_replica obs (dp_states p1)
     then (resume_all p1)\<lparr>last_drain_transition_ms := Some now\<rparr>
     else if n \<le> effective_min_warm (dp_config p1) then p1
     else if \<not> cooldown_elapsed now p1 then p1
     else if resume_at \<le> projected_load_after_release obs (dp_states p1) n then p1
     else case select_quietest now obs p1 of None \<Rightarrow> p1 | Some t \<Rightarrow> park now t p1)"

definition restorable :: "upstream_observation list \<Rightarrow> drain_state list \<Rightarrow> nat option" where
  "restorable obs sts = List.find (\<lambda>i. fenced (sts ! i) \<and> observed_healthy obs i) [0..<length sts]"

lemma restorable_Some:
  "restorable obs sts = Some i \<Longrightarrow> i < length sts \<and> fenced (sts ! i) \<and> observed_healthy obs i"
  by (auto simp: restorable_def find_Some_iff)

lemma length_fenced_update:
  "i < length sts \<Longrightarrow> fenced (sts ! i) \<Longrightarrow> length (filter fenced (sts[i := Warm])) < length (filter fenced sts)"
proof (induction sts arbitrary: i)
  case (Cons s sts)
  then show ?case by (cases i) (auto simp: fenced_def)
qed simp

function restore_warm_floor :: "nat \<Rightarrow> upstream_observation list \<Rightarrow> idle_drain_policy \<Rightarrow> idle_drain_policy" where
  "restore_warm_floor now obs p =
    (if effective_min_warm (dp_config p) \<le> warm_serving_count obs (dp_states p) then p
     else case restorable obs (dp_states p) of None \<Rightarrow> p
     | Some i \<Rightarrow> restore_warm_floor now obs
         (p\<lparr>dp_states := (dp_states p)[i := Warm], last_drain_transition_ms := Some now\<rparr>))"
  by pat_completeness auto
termination
  by (relation "measure (\<lambda>(now, obs, p). length (filter fenced (dp_states p)))")
    (auto dest!: restorable_Some intro: length_fenced_update)

declare restore_warm_floor.simps [simp del]

definition intent_of :: "bool \<Rightarrow> upstream_observation list \<Rightarrow> nat \<Rightarrow> drain_state \<Rightarrow> upstream_intent" where
  "intent_of fences obs i st =
    (if st = Warm then intent_warm
     else let quiet = (case get obs i of None \<Rightarrow> False | Some ob \<Rightarrow> ob_inflight ob = 0)
          in \<lparr>in_state = st, in_fenced = fences, desired_running = False,
              safe_to_stop = (fences \<and> st = Drained \<and> quiet)\<rparr>)"

definition decide ::
  "upstream_observation list \<Rightarrow> drain_state list \<Rightarrow> bool \<Rightarrow> idle_drain_policy \<Rightarrow> idle_drain_decision \<times> idle_drain_policy" where
  "decide obs previous idle p =
    (let fences = fences_routing (idc_mode (dp_config p));
         sts = dp_states p;
         p' = (if list_all (\<lambda>s. s = Warm) sts then p\<lparr>last_drain_transition_ms := None\<rparr> else p)
     in (\<lparr>dd_load_per_serving_replica = load_per_serving_replica obs sts,
          dd_upstreams = map (\<lambda>i. intent_of fences obs i (sts ! i)) [0..<length sts],
          dd_transitions = map (\<lambda>i. (i, sts ! i)) (filter (\<lambda>i. get previous i \<noteq> Some (sts ! i)) [0..<length sts]),
          dd_idle = idle\<rparr>, p'))"

definition release_step :: "nat \<Rightarrow> upstream_observation list \<Rightarrow> idle_drain_policy \<Rightarrow> idle_drain_policy" where
  "release_step now obs p = (case idc_release (dp_config p) of
     FleetIdle \<Rightarrow> if fleet_idle now obs p then advance_drain now obs p else resume_all p
   | Utilization \<Rightarrow> advance_utilization now obs p)"

definition advance :: "nat \<Rightarrow> upstream_observation list \<Rightarrow> idle_drain_policy \<Rightarrow> idle_drain_policy" where
  "advance now obs p = restore_warm_floor now obs (release_step now obs (record_upstream_activity now obs p))"

definition drain_tick :: "nat \<Rightarrow> upstream_observation list \<Rightarrow> idle_drain_policy \<Rightarrow> idle_drain_decision \<times> idle_drain_policy" where
  "drain_tick now obs p =
    (if \<not> drain_enabled (idc_mode (dp_config p)) then decide obs (dp_states p) False (resume_all p)
     else decide obs (dp_states p) (fleet_idle now obs (record_upstream_activity now obs p)) (advance now obs p))"

section \<open>Which replicas are fenced\<close>

lemma length_decide [simp]: "dp_states (snd (decide obs prev idle p)) = dp_states p"
  by (simp add: decide_def Let_def)

lemma busy_decide [simp]:
  "busy_since_ms (snd (decide obs prev idle p)) = busy_since_ms p"
  "dp_config (snd (decide obs prev idle p)) = dp_config p"
  "idle_since_ms (snd (decide obs prev idle p)) = idle_since_ms p"
  by (simp_all add: decide_def Let_def)

lemma record_upstream_activity_simps [simp]:
  "dp_states (record_upstream_activity now obs p) = dp_states p"
  "dp_config (record_upstream_activity now obs p) = dp_config p"
  "busy_since_ms (record_upstream_activity now obs p) = busy_since_ms p"
  by (simp_all add: record_upstream_activity_def)

lemma promote_drained_simps [simp]:
  "length (dp_states (promote_drained now obs p)) = length (dp_states p)"
  "length (busy_since_ms (promote_drained now obs p)) = length (dp_states p)"
  "dp_config (promote_drained now obs p) = dp_config p"
  "i < length (dp_states p) \<Longrightarrow> (dp_states (promote_drained now obs p) ! i, busy_since_ms (promote_drained now obs p) ! i)
     = promote_one now (duration_to_ms (drain_grace (dp_config p))) (observed_inflight obs i) (dp_states p ! i, busy_since_ms p ! i)"
  by (simp_all add: promote_drained_def Let_def)

lemma promote_drained_fenced [simp]:
  assumes "i < length (dp_states p)"
  shows "fenced (dp_states (promote_drained now obs p) ! i) = fenced (dp_states p ! i)"
proof -
  have "dp_states (promote_drained now obs p) ! i =
    fst (promote_one now (duration_to_ms (drain_grace (dp_config p))) (observed_inflight obs i) (dp_states p ! i, busy_since_ms p ! i))"
    using promote_drained_simps(4) [OF assms, of now obs] by (metis fst_conv)
  then show ?thesis by (auto simp: promote_one_def fenced_def)
qed

definition fenced_pattern :: "drain_state list \<Rightarrow> bool list" where
  "fenced_pattern sts = map fenced sts"

lemma fenced_pattern_promote [simp]:
  "fenced_pattern (dp_states (promote_drained now obs p)) = fenced_pattern (dp_states p)"
  by (auto simp: fenced_pattern_def list_eq_iff_nth_eq)

lemma fenced_pattern_eq:
  assumes "fenced_pattern a = fenced_pattern b"
  shows "length a = length b" and "i < length b \<Longrightarrow> fenced (a ! i) = fenced (b ! i)"
proof -
  show "length a = length b" using assms unfolding fenced_pattern_def by (rule map_eq_imp_length_eq)
  then show "i < length b \<Longrightarrow> fenced (a ! i) = fenced (b ! i)"
    using assms unfolding fenced_pattern_def by (metis nth_map)
qed

text \<open>The serving count and the load depend only on which replicas are fenced.\<close>

lemma serving_cong:
  assumes "fenced_pattern a = fenced_pattern b"
  shows "warm_serving_count obs a = warm_serving_count obs b" and "serving_inflight obs a = serving_inflight obs b"
    and "load_per_serving_replica obs a = load_per_serving_replica obs b"
    and "projected_load_after_release obs a = projected_load_after_release obs b"
proof -
  note L = fenced_pattern_eq [OF assms]
  show c: "warm_serving_count obs a = warm_serving_count obs b"
    unfolding warm_serving_count_def L(1) by (rule arg_cong [of _ _ length], rule filter_cong) (auto simp: warm_serving_def L(2))
  have f: "filter (\<lambda>i. \<not> fenced (a ! i)) [0..<length b] = filter (\<lambda>i. \<not> fenced (b ! i)) [0..<length b]"
    by (rule filter_cong) (auto simp: L(2))
  show s: "serving_inflight obs a = serving_inflight obs b"
    unfolding serving_inflight_def L(1) f ..
  show "load_per_serving_replica obs a = load_per_serving_replica obs b"
    unfolding load_per_serving_replica_def c s ..
  show "projected_load_after_release obs a = projected_load_after_release obs b"
    by (rule ext) (simp add: projected_load_after_release_def s)
qed

lemma length_filter_remove:
  assumes "distinct xs" "t \<in> set xs" "P t"
  shows "length (filter P xs) = Suc (length (filter (\<lambda>i. P i \<and> i \<noteq> t) xs))"
  using assms
proof (induction xs)
  case (Cons x xs)
  show ?case
  proof (cases "x = t")
    case True
    then have "filter (\<lambda>i. P i \<and> i \<noteq> t) xs = filter P xs" using Cons.prems by (intro filter_cong) auto
    then show ?thesis using True Cons.prems by simp
  qed (use Cons in auto)
qed simp

lemma length_filter_mono:
  "(\<And>x. x \<in> set xs \<Longrightarrow> P x \<Longrightarrow> Q x) \<Longrightarrow> length (filter P xs) \<le> length (filter Q xs)"
  by (induction xs) (auto simp: le_SucI)

lemma warm_serving_count_fence:
  assumes "t < length sts" "warm_serving obs sts t"
  shows "warm_serving_count obs sts = Suc (warm_serving_count obs (sts[t := Draining]))"
proof -
  have "filter (\<lambda>i. warm_serving obs sts i \<and> i \<noteq> t) [0..<length sts] =
      filter (warm_serving obs (sts[t := Draining])) [0..<length sts]"
  proof (rule filter_cong)
    fix i assume "i \<in> set [0..<length sts]"
    then show "(warm_serving obs sts i \<and> i \<noteq> t) = warm_serving obs (sts[t := Draining]) i"
      by (cases "i = t") (auto simp: warm_serving_def fenced_def)
  qed simp
  then show ?thesis
    using length_filter_remove [of "[0..<length sts]" t "warm_serving obs sts"] assms
    by (simp add: warm_serving_count_def)
qed

section \<open>The warm floor\<close>

lemma restore_warm_floor_simps [simp]:
  "length (dp_states (restore_warm_floor now obs p)) = length (dp_states p)"
  "busy_since_ms (restore_warm_floor now obs p) = busy_since_ms p"
  "dp_config (restore_warm_floor now obs p) = dp_config p"
proof -
  have "length (dp_states (restore_warm_floor now obs p)) = length (dp_states p) \<and>
    busy_since_ms (restore_warm_floor now obs p) = busy_since_ms p \<and>
    dp_config (restore_warm_floor now obs p) = dp_config p"
  proof (induction now obs p rule: restore_warm_floor.induct)
    case (1 now obs p)
    then show ?case by (subst (1 2 3) restore_warm_floor.simps) (auto split: option.splits)
  qed
  then show "length (dp_states (restore_warm_floor now obs p)) = length (dp_states p)"
    "busy_since_ms (restore_warm_floor now obs p) = busy_since_ms p"
    "dp_config (restore_warm_floor now obs p) = dp_config p" by auto
qed

lemma restore_warm_floor_nth:
  "i < length (dp_states p) \<Longrightarrow>
   dp_states (restore_warm_floor now obs p) ! i = dp_states p ! i \<or> dp_states (restore_warm_floor now obs p) ! i = Warm"
proof (induction now obs p rule: restore_warm_floor.induct)
  case (1 now obs p)
  show ?case
  proof (cases "effective_min_warm (dp_config p) \<le> warm_serving_count obs (dp_states p) \<or> restorable obs (dp_states p) = None")
    case True
    then show ?thesis by (subst (1 2) restore_warm_floor.simps) auto
  next
    case False
    then obtain j where j: "restorable obs (dp_states p) = Some j" by auto
    have "i < length (dp_states (p\<lparr>dp_states := (dp_states p)[j := Warm], last_drain_transition_ms := Some now\<rparr>))"
      using 1(2) by simp
    from 1(1) [OF _ j this] 1(2) False j show ?thesis
      by (subst (1 2) restore_warm_floor.simps) (cases "i = j", auto)
  qed
qed

lemma restore_warm_floor_id:
  "effective_min_warm (dp_config p) \<le> warm_serving_count obs (dp_states p) \<Longrightarrow> restore_warm_floor now obs p = p"
  by (subst restore_warm_floor.simps) simp

lemma restore_warm_floor_floor:
  "min (effective_min_warm (dp_config p)) (length (filter (observed_healthy obs) [0..<length (dp_states p)]))
     \<le> warm_serving_count obs (dp_states (restore_warm_floor now obs p))"
proof (induction now obs p rule: restore_warm_floor.induct)
  case (1 now obs p)
  show ?case
  proof (cases "effective_min_warm (dp_config p) \<le> warm_serving_count obs (dp_states p)")
    case True
    then show ?thesis by (simp add: restore_warm_floor_id)
  next
    case floor: False
    show ?thesis
    proof (cases "restorable obs (dp_states p)")
      case None
      then have "filter (warm_serving obs (dp_states p)) [0..<length (dp_states p)] =
          filter (observed_healthy obs) [0..<length (dp_states p)]"
        by (intro filter_cong) (auto simp: restorable_def find_None_iff warm_serving_def)
      then show ?thesis using None
        by (subst restore_warm_floor.simps) (auto simp: warm_serving_count_def)
    next
      case (Some j)
      then show ?thesis using 1 [OF floor Some] floor
        by (subst restore_warm_floor.simps) simp
    qed
  qed
qed

lemma park_simps [simp]:
  "length (dp_states (park now t p)) = length (dp_states p)"
  "length (busy_since_ms (park now t p)) = length (busy_since_ms p)"
  "dp_states (park now t p) = (dp_states p)[t := Draining]"
  "busy_since_ms (park now t p) = (busy_since_ms p)[t := now]"
  "dp_config (park now t p) = dp_config p"
  by (simp_all add: park_def)

lemma resume_all_simps [simp]:
  "dp_states (resume_all p) = replicate (length (dp_states p)) Warm"
  "busy_since_ms (resume_all p) = busy_since_ms p"
  "dp_config (resume_all p) = dp_config p"
  by (simp_all add: resume_all_def)

lemma max_quiet_in: "max_quiet cs = Some c \<Longrightarrow> c \<in> set cs"
  by (induction cs arbitrary: c) (auto split: option.splits if_splits)

lemma select_quietest_Some:
  assumes "select_quietest now obs p = Some t"
  shows "t < length (dp_states p) \<and> warm_serving obs (dp_states p) t \<and> observed_inflight obs t = 0"
  using assms by (auto simp: select_quietest_def quiet_candidates_def dest!: max_quiet_in)

lemma select_target_Some:
  assumes "select_target obs sts = Some t"
  shows "t < length sts \<and> warm_serving obs sts t"
  using assms by (auto simp: select_target_def find_Some_iff rev_nth)

text \<open>
  What the release step of a tick may do to the fleet: resume everything, change nothing but quiet promotions, or
  park one serving replica while the floor still holds.
\<close>

lemma release_cases:
  fixes now obs p
  defines "p1 \<equiv> record_upstream_activity now obs p"
  assumes r: "release_step now obs p1 = r"
  obtains (resume) "dp_states r = replicate (length (dp_states p)) Warm"
      "dp_config r = dp_config p"
      "idc_release (dp_config p) = Utilization \<Longrightarrow>
         resume_load_per_replica (dp_config p) \<le> load_per_serving_replica obs (dp_states p)"
    | (keep) "r = promote_drained now obs p1"
    | (park) t where "r = park now t (promote_drained now obs p1)" "t < length (dp_states p)"
      "warm_serving obs (dp_states (promote_drained now obs p1)) t"
      "effective_min_warm (dp_config p) < warm_serving_count obs (dp_states p)"
      "idc_release (dp_config p) = Utilization \<Longrightarrow> observed_inflight obs t = 0 \<and>
         projected_load_after_release obs (dp_states p) (warm_serving_count obs (dp_states p))
           < resume_load_per_replica (dp_config p)"
proof -
  define q where "q = promote_drained now obs p1"
  have pat: "fenced_pattern (dp_states q) = fenced_pattern (dp_states p)" by (simp add: q_def p1_def)
  note C = serving_cong [OF pat]
  have cfg: "dp_config q = dp_config p" "dp_config p1 = dp_config p" "length (dp_states q) = length (dp_states p)"
    "dp_states p1 = dp_states p"
    by (simp_all add: q_def p1_def)
  show thesis
  proof (cases "idc_release (dp_config p)")
    case FleetIdle
    show thesis
      by (cases "fleet_idle now obs p1"; cases "select_target obs (dp_states q)")
        (use FleetIdle r that select_target_Some [of obs "dp_states q"] in
          \<open>auto simp: release_step_def advance_drain_def Let_def C cfg q_def [symmetric] split: if_splits\<close>)
  next
    case Utilization
    show thesis
      by (cases "select_quietest now obs q")
        (use Utilization r that select_quietest_Some [of now obs q] in
          \<open>auto simp: release_step_def advance_utilization_def Let_def C cfg q_def [symmetric] not_le split: if_splits\<close>)
  qed
qed

lemma release_step_config [simp]:
  "dp_config (release_step now obs (record_upstream_activity now obs p)) = dp_config p"
  "length (dp_states (release_step now obs (record_upstream_activity now obs p))) = length (dp_states p)"
  by (rule release_cases [of now obs p, OF refl]; simp)+

lemma advance_config [simp]:
  "dp_config (advance now obs p) = dp_config p"
  "length (dp_states (advance now obs p)) = length (dp_states p)"
  by (simp_all add: advance_def)

lemma advance_floor:
  "min (effective_min_warm (dp_config p)) (length (filter (observed_healthy obs) [0..<length (dp_states p)]))
     \<le> warm_serving_count obs (dp_states (advance now obs p))"
  using restore_warm_floor_floor [of "release_step now obs (record_upstream_activity now obs p)" obs now]
  by (simp add: advance_def)

lemma drain_tick_config [simp]:
  "dp_config (snd (drain_tick now obs p)) = dp_config p"
  "length (dp_states (snd (drain_tick now obs p))) = length (dp_states p)"
  by (simp_all add: drain_tick_def)

lemma drain_tick_upstreams:
  "dd_upstreams (fst (drain_tick now obs p)) =
     map (\<lambda>i. intent_of (fences_routing (idc_mode (dp_config p))) obs i (dp_states (snd (drain_tick now obs p)) ! i))
       [0..<length (dp_states p)]"
  by (simp add: drain_tick_def decide_def Let_def)

lemma intent_of_fenced: "in_fenced (intent_of f obs i st) \<longleftrightarrow> f \<and> fenced st"
  by (cases st) (auto simp: intent_of_def intent_warm_def fenced_def Let_def)

text \<open>
  C24. Draining never eats into the warm floor: whatever the policy state, the trigger and the observations, the
  intents published by a tick leave at least \<open>min_warm\<close> (never less than one) healthy replicas unfenced, or all
  healthy replicas when there are fewer.  In particular the loop that restores the floor terminates and does so on
  the same tick.
\<close>

theorem warm_floor_published:
  "min (effective_min_warm (dp_config p)) (length (filter (observed_healthy obs) [0..<length (dp_states p)]))
     \<le> length (filter (\<lambda>i. observed_healthy obs i \<and> \<not> in_fenced (dd_upstreams (fst (drain_tick now obs p)) ! i))
          [0..<length (dp_states p)])"
proof -
  define sts where "sts = dp_states (snd (drain_tick now obs p))"
  have len: "length sts = length (dp_states p)" by (simp add: sts_def)
  have floor: "min (effective_min_warm (dp_config p)) (length (filter (observed_healthy obs) [0..<length (dp_states p)]))
      \<le> warm_serving_count obs sts"
  proof (cases "drain_enabled (idc_mode (dp_config p))")
    case True
    then show ?thesis using advance_floor [of p obs now] by (simp add: sts_def drain_tick_def)
  next
    case False
    then have "filter (warm_serving obs sts) [0..<length (dp_states p)] = filter (observed_healthy obs) [0..<length (dp_states p)]"
      by (intro filter_cong) (auto simp: sts_def drain_tick_def warm_serving_def fenced_def)
    then show ?thesis by (simp add: warm_serving_count_def len)
  qed
  have "length (filter (warm_serving obs sts) [0..<length (dp_states p)])
      \<le> length (filter (\<lambda>i. observed_healthy obs i \<and> \<not> in_fenced (dd_upstreams (fst (drain_tick now obs p)) ! i))
          [0..<length (dp_states p)])"
    by (rule length_filter_mono) (auto simp: drain_tick_upstreams intent_of_fenced warm_serving_def sts_def)
  with floor show ?thesis by (simp add: warm_serving_count_def len)
qed

section \<open>No flapping under the utilization trigger\<close>

lemma serving_inflight_fence:
  assumes "t < length sts" "\<not> fenced (sts ! t)" "observed_inflight obs t = 0"
  shows "serving_inflight obs (sts[t := Draining]) = serving_inflight obs sts"
proof -
  let ?f = "\<lambda>i. case get obs i of None \<Rightarrow> 0 | Some ob \<Rightarrow> ob_inflight ob"
  have z: "?f t = 0" using assms(3) by (auto simp: observed_inflight_def split: option.splits)
  have "sum_list (map ?f (filter (\<lambda>i. \<not> fenced (sts[t := Draining] ! i)) xs)) = sum_list (map ?f (filter (\<lambda>i. \<not> fenced (sts ! i)) xs))"
    if "set xs \<subseteq> {..<length sts}" for xs
    using that
  proof (induction xs)
    case (Cons x xs)
    then show ?case using z assms(1,2) by (cases "x = t") (auto simp: fenced_def)
  qed simp
  from this [of "[0..<length sts]"] show ?thesis by (simp add: serving_inflight_def atLeast0LessThan)
qed

text \<open>A fleet whose load is below the resume threshold with the floor held.\<close>

definition calm :: "upstream_observation list \<Rightarrow> idle_drain_policy \<Rightarrow> bool" where
  "calm obs p \<longleftrightarrow> load_per_serving_replica obs (dp_states p) < resume_load_per_replica (dp_config p) \<and>
     effective_min_warm (dp_config p) \<le> warm_serving_count obs (dp_states p)"

text \<open>Under the utilization trigger a calm fleet, or one that just parked a replica, is calm after the tick.\<close>

lemma advance_utilization_cases:
  fixes now obs p
  defines "q \<equiv> promote_drained now obs (record_upstream_activity now obs p)"
  assumes u: "idc_release (dp_config p) = Utilization"
  obtains (resume) "dp_states (advance now obs p) = replicate (length (dp_states p)) Warm" "\<not> calm obs p"
    | (keep) "dp_states (advance now obs p) = dp_states (restore_warm_floor now obs q)"
        "calm obs p \<Longrightarrow> advance now obs p = q \<and> calm obs q"
    | (park) t where "advance now obs p = park now t q" "t < length (dp_states p)" "calm obs (park now t q)"
proof (rule release_cases [of now obs p, OF refl])
  let ?p1 = "record_upstream_activity now obs p"
  have pat: "fenced_pattern (dp_states q) = fenced_pattern (dp_states p)" by (simp add: q_def)
  {
    assume s: "dp_states (release_step now obs ?p1) = replicate (length (dp_states p)) Warm"
      and l: "idc_release (dp_config p) = Utilization \<Longrightarrow>
         resume_load_per_replica (dp_config p) \<le> load_per_serving_replica obs (dp_states p)"
    have "dp_states (advance now obs p) = replicate (length (dp_states p)) Warm"
      using restore_warm_floor_nth [of _ "release_step now obs ?p1" now obs]
      by (intro nth_equalityI) (auto simp: advance_def s)
    then show thesis using l [OF u] by (intro resume) (auto simp: calm_def)
  next
    assume "release_step now obs ?p1 = promote_drained now obs ?p1"
    then show thesis
      by (intro keep) (auto simp: advance_def q_def calm_def serving_cong [OF pat, unfolded q_def] restore_warm_floor_id)
  next
    fix t
    assume r: "release_step now obs ?p1 = park now t (promote_drained now obs ?p1)" and t: "t < length (dp_states p)"
      and w: "warm_serving obs (dp_states (promote_drained now obs ?p1)) t"
      and n: "effective_min_warm (dp_config p) < warm_serving_count obs (dp_states p)"
      and l: "idc_release (dp_config p) = Utilization \<Longrightarrow> observed_inflight obs t = 0 \<and>
         projected_load_after_release obs (dp_states p) (warm_serving_count obs (dp_states p))
           < resume_load_per_replica (dp_config p)"
    have c: "warm_serving_count obs (dp_states p) = Suc (warm_serving_count obs ((dp_states q)[t := Draining]))"
      using warm_serving_count_fence [OF _ w] t serving_cong(1) [OF pat] by (simp add: q_def)
    have e: "advance now obs p = park now t q"
      using n c by (simp add: advance_def r restore_warm_floor_id q_def)
    have "serving_inflight obs ((dp_states q)[t := Draining]) = serving_inflight obs (dp_states p)"
      using serving_inflight_fence [of t "dp_states q" obs] t w l [OF u] serving_cong(2) [OF pat]
      by (simp add: warm_serving_def q_def)
    moreover have "0 < warm_serving_count obs ((dp_states q)[t := Draining])"
      using n c by (simp add: effective_min_warm_def)
    ultimately have "calm obs (park now t q)"
      using l [OF u] c n
      by (simp add: calm_def load_per_serving_replica_def projected_load_after_release_def Let_def q_def)
    then show thesis using e t by (intro park)
  }
qed

lemma advance_calm:
  assumes "idc_release (dp_config p) = Utilization" "calm obs p"
  shows "calm obs (advance now obs p) \<and>
    (\<forall>i < length (dp_states p). fenced (dp_states p ! i) \<longrightarrow> fenced (dp_states (advance now obs p) ! i))"
proof (rule advance_utilization_cases [OF assms(1), of now obs])
  let ?q = "promote_drained now obs (record_upstream_activity now obs p)"
  assume "calm obs p \<Longrightarrow> advance now obs p = ?q \<and> calm obs ?q"
  then have "advance now obs p = ?q" "calm obs ?q" using assms(2) by auto
  then show ?thesis by simp
qed (use assms(2) in \<open>auto simp: nth_list_update fenced_def [of Draining]\<close>)

lemma advance_new_fence:
  assumes "i < length (dp_states p)" "\<not> fenced (dp_states p ! i)" "fenced (dp_states (advance now obs p) ! i)"
    and u: "idc_release (dp_config p) = Utilization"
  shows "calm obs (advance now obs p)"
proof (rule advance_utilization_cases [OF u, of now obs])
  let ?q = "promote_drained now obs (record_upstream_activity now obs p)"
  assume "dp_states (advance now obs p) = dp_states (restore_warm_floor now obs ?q)"
  then show ?thesis
    using restore_warm_floor_nth [of i ?q now obs] promote_drained_fenced [of i "record_upstream_activity now obs p" now obs]
      assms(1-3) by (auto simp: fenced_def [of Warm])
qed (use assms(1,3) in \<open>auto simp: fenced_def [of Warm]\<close>)

lemma drain_tick_states:
  "drain_enabled (idc_mode (dp_config p)) \<Longrightarrow> dp_states (snd (drain_tick now obs p)) = dp_states (advance now obs p)"
  by (simp add: drain_tick_def)

lemma drain_tick_calm:
  assumes "drain_enabled (idc_mode (dp_config p))" "idc_release (dp_config p) = Utilization" "calm obs p"
  shows "calm obs (snd (drain_tick now obs p)) \<and>
    (\<forall>i < length (dp_states p). fenced (dp_states p ! i) \<longrightarrow> fenced (dp_states (snd (drain_tick now obs p)) ! i))"
  using advance_calm [OF assms(2,3), of now] drain_tick_states [OF assms(1), of now obs] by (simp add: calm_def)

lemma drain_ticks_calm:
  assumes "drain_enabled (idc_mode (dp_config p))" "idc_release (dp_config p) = Utilization" "calm obs p"
    "i < length (dp_states p)" "fenced (dp_states p ! i)"
  shows "fenced (dp_states (fold (\<lambda>t q. snd (drain_tick t obs q)) ts p) ! i)"
  using assms
proof (induction ts arbitrary: p)
  case (Cons t ts)
  then show ?case using drain_tick_calm [OF Cons.prems(1-3), of t] by simp
qed simp

text \<open>
  Under the utilization trigger a release is never undone by an unchanged fleet: when a tick fences a serving
  replica, no sequence of later ticks that see the same observations, at whatever times, lifts that fence again.  This
  is the guard against parking a replica and waking it on the next tick forever.
\<close>

theorem utilization_release_sticks:
  assumes "idc_release (dp_config p) = Utilization" "drain_enabled (idc_mode (dp_config p))" "i < length (dp_states p)"
    "\<not> fenced (dp_states p ! i)" "fenced (dp_states (snd (drain_tick now obs p)) ! i)"
  shows "fenced (dp_states (fold (\<lambda>t q. snd (drain_tick t obs q)) ts (snd (drain_tick now obs p))) ! i)"
proof (rule drain_ticks_calm)
  have st: "dp_states (snd (drain_tick now obs p)) = dp_states (advance now obs p)"
    by (rule drain_tick_states [OF assms(2)])
  have "calm obs (advance now obs p)"
    by (rule advance_new_fence [OF assms(3,4) _ assms(1)]) (use assms(5) st in simp)
  then show "calm obs (snd (drain_tick now obs p))" using st by (simp add: calm_def)
qed (use assms in simp_all)

definition busy_pair :: idle_drain_policy where
  "busy_pair = \<lparr>dp_config = idle_drain_default\<lparr>idc_mode := Drain_Enforce, idc_release := Utilization,
       cooldown := 0, upstream_idle_after := 0\<rparr>,
     dp_states = [Warm, Warm], busy_since_ms = [0, 0], idle_since_ms = [0, 0], last_activity_ms = 0,
     last_drain_transition_ms = None\<rparr>"

definition one_busy :: "upstream_observation list" where
  "one_busy = [\<lparr>ob_healthy = True, ob_inflight = 1\<rparr>, \<lparr>ob_healthy = True, ob_inflight = 0\<rparr>]"

lemmas drain_eval = drain_tick_def advance_def release_step_def record_upstream_activity_def advance_utilization_def
  advance_drain_def promote_drained_def promote_one_def load_per_serving_replica_def warm_serving_count_def warm_serving_def
  serving_inflight_def projected_load_after_release_def select_quietest_def quiet_candidates_def cooldown_elapsed_def
  observed_inflight_def observed_healthy_def fenced_def effective_min_warm_def div_ceil_def duration_to_ms_def
  drain_enabled_def idle_drain_default_def get_def park_def Let_def

lemma busy_pair_parks: "dp_states (snd (drain_tick 10 one_busy busy_pair)) = [Warm, Draining]"
  by (simp add: drain_eval busy_pair_def one_busy_def restore_warm_floor_id)

theorem utilization_release_sticks_witness:
  "fenced (dp_states (fold (\<lambda>t q. snd (drain_tick t one_busy q)) [20, 400000] (snd (drain_tick 10 one_busy busy_pair))) ! 1)"
  by (rule utilization_release_sticks [of busy_pair 1 10 one_busy "[20, 400000]"])
    (simp_all only: busy_pair_parks, simp_all add: busy_pair_def fenced_def drain_enabled_def)

section \<open>Safe to stop\<close>

datatype drain_event = Activity nat | Tick nat "upstream_observation list"

fun drain_step :: "drain_event \<Rightarrow> idle_drain_policy \<Rightarrow> idle_drain_policy" where
  "drain_step (Activity now) p = observe_activity now p"
| "drain_step (Tick now obs) p = snd (drain_tick now obs p)"

text \<open>A run over a trace of events, newest first.\<close>

primrec drain_run :: "idle_drain_policy \<Rightarrow> drain_event list \<Rightarrow> idle_drain_policy" where
  "drain_run p0 [] = p0"
| "drain_run p0 (e # es) = drain_step e (drain_run p0 es)"

definition fenced_now :: "idle_drain_policy \<Rightarrow> nat \<Rightarrow> drain_event list \<Rightarrow> bool" where
  "fenced_now p0 i es \<longleftrightarrow> fenced (dp_states (drain_run p0 es) ! i)"

text \<open>
  \<open>quiet_since p0 i b es\<close>: there was a tick at time \<open>b\<close> from which on replica \<open>i\<close> has been fenced and after
  which every tick saw it without work.
\<close>

primrec quiet_since :: "idle_drain_policy \<Rightarrow> nat \<Rightarrow> nat \<Rightarrow> drain_event list \<Rightarrow> bool" where
  "quiet_since p0 i b [] = False"
| "quiet_since p0 i b (e # es) \<longleftrightarrow> fenced_now p0 i (e # es) \<and>
     (case e of Activity _ \<Rightarrow> quiet_since p0 i b es
      | Tick t obs \<Rightarrow> t = b \<or> (observed_inflight obs i = 0 \<and> quiet_since p0 i b es))"

text \<open>
  \<open>grace_served p0 i g es\<close>: replica \<open>i\<close> is fenced, has been since, and at some tick had been fenced and idle for
  at least \<open>g\<close> milliseconds.
\<close>

primrec grace_served :: "idle_drain_policy \<Rightarrow> nat \<Rightarrow> nat \<Rightarrow> drain_event list \<Rightarrow> bool" where
  "grace_served p0 i g [] = False"
| "grace_served p0 i g (e # es) \<longleftrightarrow> fenced_now p0 i (e # es) \<and>
     (grace_served p0 i g es \<or>
      (case e of Activity _ \<Rightarrow> False
       | Tick t obs \<Rightarrow> observed_inflight obs i = 0 \<and> (\<exists>b. g \<le> t - b \<and> quiet_since p0 i b es)))"

lemma observe_activity_simps [simp]:
  "dp_states (observe_activity now p) = dp_states p" "busy_since_ms (observe_activity now p) = busy_since_ms p"
  "dp_config (observe_activity now p) = dp_config p"
  by (simp_all add: observe_activity_def)

text \<open>How one tick moves a single replica.\<close>

lemma tick_replica:
  fixes now obs
  assumes "i < length (dp_states p)" "length (busy_since_ms p) = length (dp_states p)"
  defines "p' \<equiv> snd (drain_tick now obs p)"
  shows "dp_states p' ! i = Warm \<or>
    (dp_states p' ! i, busy_since_ms p' ! i) =
       promote_one now (duration_to_ms (drain_grace (dp_config p))) (observed_inflight obs i) (dp_states p ! i, busy_since_ms p ! i) \<or>
    (dp_states p' ! i = Draining \<and> busy_since_ms p' ! i = now)"
proof (cases "drain_enabled (idc_mode (dp_config p))")
  case False
  then show ?thesis using assms(1) by (simp add: p'_def drain_tick_def)
next
  case True
  let ?p1 = "record_upstream_activity now obs p"
  define r where "r = release_step now obs ?p1"
  have "dp_states r ! i = Warm \<or> (dp_states r ! i, busy_since_ms r ! i) =
       promote_one now (duration_to_ms (drain_grace (dp_config p))) (observed_inflight obs i) (dp_states p ! i, busy_since_ms p ! i) \<or>
    (dp_states r ! i = Draining \<and> busy_since_ms r ! i = now)"
    using promote_drained_simps(4) [of i ?p1 now obs] assms(1)
    by (rule_tac release_cases [of now obs p, OF r_def [symmetric]]) (auto simp: nth_list_update)
  then show ?thesis
    using restore_warm_floor_nth [of i r now obs] assms(1) True
    by (auto simp: p'_def drain_tick_def advance_def r_def)
qed

lemma tick_lengths:
  "length (busy_since_ms p) = length (dp_states p) \<Longrightarrow>
   length (busy_since_ms (snd (drain_tick now obs p))) = length (dp_states p)"
  by (cases "drain_enabled (idc_mode (dp_config p))")
    (simp_all add: drain_tick_def advance_def release_step_def advance_drain_def advance_utilization_def Let_def
      split: idle_drain_release.splits option.splits if_splits)

lemma drain_run_simps [simp]:
  "dp_config (drain_run p0 es) = dp_config p0"
  "length (dp_states (drain_run p0 es)) = length (dp_states p0)"
proof -
  have "dp_config (drain_step e p) = dp_config p \<and> length (dp_states (drain_step e p)) = length (dp_states p)" for e p
    by (cases e) simp_all
  then show "dp_config (drain_run p0 es) = dp_config p0" "length (dp_states (drain_run p0 es)) = length (dp_states p0)"
    by (induction es) auto
qed

lemma drain_run_lengths:
  "length (busy_since_ms p0) = length (dp_states p0) \<Longrightarrow>
   length (busy_since_ms (drain_run p0 es)) = length (dp_states p0)"
proof (induction es)
  case (Cons e es)
  then show ?case by (cases e) (auto simp: tick_lengths)
qed simp

text \<open>The invariant of the drain history of one replica.\<close>

definition drain_history :: "idle_drain_policy \<Rightarrow> nat \<Rightarrow> drain_event list \<Rightarrow> bool" where
  "drain_history p0 i es \<longleftrightarrow> (case dp_states (drain_run p0 es) ! i of
     Warm \<Rightarrow> True
   | Draining \<Rightarrow> quiet_since p0 i (busy_since_ms (drain_run p0 es) ! i) es
   | Drained \<Rightarrow> grace_served p0 i (duration_to_ms (drain_grace (dp_config p0))) es)"

lemma drain_history_tick:
  assumes "i < length (dp_states p0)" "length (busy_since_ms p0) = length (dp_states p0)" "drain_history p0 i es"
  shows "drain_history p0 i (Tick now obs # es)"
proof -
  let ?p = "drain_run p0 es" and ?p' = "snd (drain_tick now obs (drain_run p0 es))"
  have F: "fenced_now p0 i (Tick now obs # es) = fenced (dp_states ?p' ! i)" by (simp add: fenced_now_def)
  consider "dp_states ?p' ! i = Warm"
    | "(dp_states ?p' ! i, busy_since_ms ?p' ! i) = promote_one now (duration_to_ms (drain_grace (dp_config p0)))
         (observed_inflight obs i) (dp_states ?p ! i, busy_since_ms ?p ! i)"
    | "dp_states ?p' ! i = Draining" "busy_since_ms ?p' ! i = now"
    using tick_replica [of i ?p now obs] drain_run_lengths [OF assms(2), of es] assms(1) by auto
  then show ?thesis
  proof cases
    case 2
    then show ?thesis using assms(3) F
      by (cases "dp_states ?p ! i")
        (auto simp: drain_history_def promote_one_def fenced_def split: if_splits drain_state.splits)
  qed (simp_all add: drain_history_def fenced_now_def fenced_def)
qed

lemma drain_history_run:
  assumes "i < length (dp_states p0)" "length (busy_since_ms p0) = length (dp_states p0)" "dp_states p0 ! i = Warm"
  shows "drain_history p0 i es"
proof (induction es)
  case Nil
  then show ?case using assms by (simp add: drain_history_def)
next
  case (Cons e es)
  show ?case
  proof (cases e)
    case (Activity t)
    then show ?thesis using Cons
      by (auto simp: drain_history_def fenced_now_def fenced_def split: drain_state.splits)
  next
    case (Tick now obs)
    then show ?thesis using drain_history_tick [OF assms(1,2) Cons] by simp
  qed
qed

text \<open>
  C25. Stopping an engine never interrupts a request the balancer dispatched: in every run from a new policy, an intent
  that a tick publishes as safe to stop is fenced from routing, the replica is observed with nothing in flight on that
  very tick, and at some tick of the run it had been fenced and idle for at least the grace period, with the fence
  held ever since.
\<close>

theorem safe_to_stop_sound:
  assumes "policy_new c n t0 = Some p0" "i < n"
    "safe_to_stop (dd_upstreams (fst (drain_tick now obs (drain_run p0 es))) ! i)"
  shows "fences_routing (idc_mode c) \<and> in_fenced (dd_upstreams (fst (drain_tick now obs (drain_run p0 es))) ! i) \<and>
    observed_inflight obs i = 0 \<and> grace_served p0 i (duration_to_ms (drain_grace c)) (Tick now obs # es)"
proof -
  have p0: "dp_config p0 = c" "dp_states p0 = replicate n Warm" "length (busy_since_ms p0) = n"
    using assms(1) by (auto simp: policy_new_def split: if_splits)
  have D: "safe_to_stop (intent_of (fences_routing (idc_mode c)) obs i (dp_states (drain_run p0 (Tick now obs # es)) ! i))"
    using assms(2,3) p0 by (simp add: drain_tick_upstreams)
  then have S: "dp_states (drain_run p0 (Tick now obs # es)) ! i = Drained" "fences_routing (idc_mode c)"
    "get obs i = Some ob \<Longrightarrow> ob_inflight ob = 0" "get obs i \<noteq> None" for ob
    by (auto simp: intent_of_def intent_warm_def Let_def split: if_splits option.splits)
  moreover have "drain_history p0 i (Tick now obs # es)"
    by (rule drain_history_run) (use p0 assms(2) in simp_all)
  ultimately have "grace_served p0 i (duration_to_ms (drain_grace c)) (Tick now obs # es)"
    by (simp add: drain_history_def p0(1) del: grace_served.simps drain_run.simps)
  moreover have "observed_inflight obs i = 0"
    using S(3,4) by (auto simp: observed_inflight_def split: option.splits)
  moreover have "in_fenced (dd_upstreams (fst (drain_tick now obs (drain_run p0 es))) ! i)"
    using S(1,2) assms(2) p0 by (simp add: drain_tick_upstreams intent_of_fenced fenced_def)
  ultimately show ?thesis using S(2) by blast
qed

definition quiet_config :: idle_drain_config where
  "quiet_config = idle_drain_default\<lparr>idc_mode := Drain_Enforce, idle_after := 0, drain_grace := 1000000\<rparr>"

definition quiet_pair :: idle_drain_policy where
  "quiet_pair = \<lparr>dp_config = quiet_config, dp_states = [Warm, Warm], busy_since_ms = [0, 0], idle_since_ms = [0, 0],
     last_activity_ms = 0, last_drain_transition_ms = None\<rparr>"

definition none_busy :: "upstream_observation list" where
  "none_busy = [\<lparr>ob_healthy = True, ob_inflight = 0\<rparr>, \<lparr>ob_healthy = True, ob_inflight = 0\<rparr>]"

lemma quiet_pair_parks:
  "snd (drain_tick 10 none_busy quiet_pair) =
     quiet_pair\<lparr>dp_states := [Warm, Draining], busy_since_ms := [0, 10], last_drain_transition_ms := Some 10\<rparr>"
  by (simp add: drain_eval quiet_pair_def quiet_config_def none_busy_def restore_warm_floor_id decide_def fleet_idle_def
      select_target_def)

lemma quiet_pair_drains:
  "dp_states (snd (drain_tick 20 none_busy
     (quiet_pair\<lparr>dp_states := [Warm, Draining], busy_since_ms := [0, 10], last_drain_transition_ms := Some 10\<rparr>))) = [Warm, Drained]"
  by (simp add: drain_eval quiet_pair_def quiet_config_def none_busy_def restore_warm_floor_id fleet_idle_def)

theorem safe_to_stop_sound_witness:
  "fences_routing (idc_mode quiet_config) \<and>
   in_fenced (dd_upstreams (fst (drain_tick 20 none_busy (drain_run quiet_pair [Tick 10 none_busy]))) ! 1) \<and>
   observed_inflight none_busy 1 = 0 \<and>
   grace_served quiet_pair 1 (duration_to_ms (drain_grace quiet_config)) [Tick 20 none_busy, Tick 10 none_busy]"
  by (rule safe_to_stop_sound [of quiet_config 2 0])
    (simp_all add: policy_new_def quiet_pair_parks drain_tick_upstreams quiet_pair_drains,
      simp_all add: quiet_pair_def numeral_2_eq_2 intent_of_def quiet_config_def fences_routing_def none_busy_def get_def Let_def)

end
