(* ===== verification/Engine_Park.thy ===== *)
theory Engine_Park
  imports Idle_Drain Json
begin

text \<open>
  Engine parking actuation (\<^verbatim>\<open>src/src/engine_park.rs\<close>): the believed sleep state of a replica, the routing fence it
  adds, and the plan of sleep, wake and reconcile calls of a round; with the reading of an actuation response by
  \<^verbatim>\<open>actuate_park\<close> of \<^verbatim>\<open>src/src/proxy.rs\<close>.
\<close>

section \<open>Types\<close>

datatype park_actuator = Park_Off | Park_Sleep

fun park_actuator_label :: "park_actuator \<Rightarrow> string" where
  "park_actuator_label Park_Off = ''off''"
| "park_actuator_label Park_Sleep = ''sleep''"

definition actuates :: "park_actuator \<Rightarrow> bool" where
  "actuates a \<longleftrightarrow> a = Park_Sleep"

datatype sleep_level = Offload | Discard

fun sleep_level_wire :: "sleep_level \<Rightarrow> nat" where
  "sleep_level_wire Offload = 1"
| "sleep_level_wire Discard = 2"

fun sleep_level_label :: "sleep_level \<Rightarrow> string" where
  "sleep_level_label Offload = ''offload''"
| "sleep_level_label Discard = ''discard''"

record engine_park_config =
  ep_actuator :: park_actuator
  ep_level :: sleep_level
  max_parked :: nat

definition engine_park_default :: engine_park_config where
  "engine_park_default = \<lparr>ep_actuator = Park_Sleep, ep_level = Offload, max_parked = 1\<rparr>"

datatype park_state = Awake | Parking | Parked | Waking | Unknown

fun park_state_label :: "park_state \<Rightarrow> string" where
  "park_state_label Awake = ''awake''"
| "park_state_label Parking = ''parking''"
| "park_state_label Parked = ''parked''"
| "park_state_label Waking = ''waking''"
| "park_state_label Unknown = ''unknown''"

fun park_state_code :: "park_state \<Rightarrow> f64" where
  "park_state_code Awake = Finite 0"
| "park_state_code Parking = Finite 1"
| "park_state_code Parked = Finite 2"
| "park_state_code Waking = Finite 3"
| "park_state_code Unknown = Finite 4"

definition must_fence :: "park_state \<Rightarrow> bool" where
  "must_fence s \<longleftrightarrow> s = Parking \<or> s = Parked \<or> s = Waking \<or> s = Unknown"

definition occupies_park_slot :: "park_state \<Rightarrow> bool" where
  "occupies_park_slot s \<longleftrightarrow> s = Parking \<or> s = Parked"

datatype park_action = Sleep | Wake | Reconcile

fun park_action_label :: "park_action \<Rightarrow> string" where
  "park_action_label Sleep = ''sleep''"
| "park_action_label Wake = ''wake''"
| "park_action_label Reconcile = ''reconcile''"

definition park_fenced :: "upstream_intent \<Rightarrow> park_state \<Rightarrow> bool" where
  "park_fenced intent st \<longleftrightarrow> in_fenced intent \<or> must_fence st"

section \<open>The plan of a round\<close>

fun resume_action :: "park_state \<Rightarrow> park_action option" where
  "resume_action Parked = Some Wake"
| "resume_action Parking = Some Wake"
| "resume_action Unknown = Some Reconcile"
| "resume_action Awake = None"
| "resume_action Waking = None"

definition resume_pass :: "upstream_intent list \<Rightarrow> park_state list \<Rightarrow> park_action option list" where
  "resume_pass intents states =
     map (\<lambda>i. case get states i of None \<Rightarrow> None
            | Some st \<Rightarrow> if \<not> desired_running (intents ! i) then None else resume_action st)
       [0..<length intents]"

definition may_sleep :: "upstream_intent list \<Rightarrow> park_state list \<Rightarrow> nat \<Rightarrow> bool" where
  "may_sleep intents states i =
    (case get states i of None \<Rightarrow> False
     | Some st \<Rightarrow> \<not> (desired_running (intents ! i) \<or> \<not> safe_to_stop (intents ! i) \<or> st \<noteq> Awake))"

text \<open>The parking loop from index \<open>i\<close>; \<open>occupied\<close> is the number of slots taken so far.\<close>

primrec park_pass ::
  "nat \<Rightarrow> upstream_intent list \<Rightarrow> park_state list \<Rightarrow> nat list \<Rightarrow> nat \<Rightarrow> park_action option list \<Rightarrow> park_action option list" where
  "park_pass cap intents states [] occupied actions = actions"
| "park_pass cap intents states (i # is) occupied actions =
    (if actions ! i \<noteq> None then park_pass cap intents states is occupied actions
     else if \<not> may_sleep intents states i then park_pass cap intents states is occupied actions
     else if cap \<le> occupied then park_pass cap intents states is occupied actions
     else park_pass cap intents states is (occupied + 1) (actions[i := Some Sleep]))"

definition slots :: "park_state list \<Rightarrow> nat" where
  "slots states = length (filter occupies_park_slot states)"

definition plan :: "upstream_intent list \<Rightarrow> park_state list \<Rightarrow> engine_park_config \<Rightarrow> park_action option list" where
  "plan intents states config =
    (if \<not> actuates (ep_actuator config) then replicate (length intents) None
     else park_pass (max_parked config) intents states [0..<length intents] (slots states) (resume_pass intents states))"

text \<open>The believed states published before any call is issued.\<close>

definition mark_one :: "park_state \<Rightarrow> park_action option \<Rightarrow> park_state" where
  "mark_one st a = (case a of Some Sleep \<Rightarrow> Parking | Some Wake \<Rightarrow> Waking | _ \<Rightarrow> st)"

definition mark_actions :: "park_action option list \<Rightarrow> park_state list \<Rightarrow> park_state list" where
  "mark_actions actions states =
     map (\<lambda>i. mark_one (states ! i) (if i < length actions then actions ! i else None)) [0..<length states]"

section \<open>Actuation\<close>

text \<open>
  What the HTTP client reports for one call: no response within the time limit, or a status with the body, if it could
  be read.
\<close>

datatype park_response = No_Response | Park_Response (resp_success: bool) (resp_body: "string option")

definition max_probe_body :: nat where
  "max_probe_body = 65536"

definition reconcile_body :: "(string \<Rightarrow> 'n json option) \<Rightarrow> string \<Rightarrow> park_state" where
  "reconcile_body parse body =
    (case parse body of None \<Rightarrow> Unknown
     | Some v \<Rightarrow> (case Option.bind (json_get ''is_sleeping'' v) as_bool of
         Some True \<Rightarrow> Parked
       | Some False \<Rightarrow> Awake
       | None \<Rightarrow> Unknown))"

definition actuate_park :: "(string \<Rightarrow> 'n json option) \<Rightarrow> park_action \<Rightarrow> park_response \<Rightarrow> park_state" where
  "actuate_park parse action response =
    (case response of No_Response \<Rightarrow> Unknown
     | Park_Response success body \<Rightarrow>
         if \<not> success then Unknown
         else (case action of Sleep \<Rightarrow> Parked | Wake \<Rightarrow> Awake
           | Reconcile \<Rightarrow> (case body of None \<Rightarrow> Unknown
               | Some bytes \<Rightarrow> if max_probe_body < length bytes then Unknown else reconcile_body parse bytes)))"

section \<open>What a plan may do\<close>

lemma length_resume_pass [simp]: "length (resume_pass intents states) = length intents"
  by (simp add: resume_pass_def)

lemma length_park_pass [simp]: "length (park_pass cap intents states is occ acts) = length acts"
  by (induction "is" arbitrary: occ acts) simp_all

lemma length_plan [simp]: "length (plan intents states c) = length intents"
  by (simp add: plan_def)

lemma resume_pass_not_sleep: "i < length intents \<Longrightarrow> resume_pass intents states ! i \<noteq> Some Sleep"
proof -
  have "resume_action st \<noteq> Some Sleep" for st by (cases st) simp_all
  then show "i < length intents \<Longrightarrow> resume_pass intents states ! i \<noteq> Some Sleep"
    by (auto simp: resume_pass_def split: option.splits)
qed

lemma resume_pass_Some:
  "i < length intents \<Longrightarrow> resume_pass intents states ! i = Some a \<longleftrightarrow>
     (\<exists>st. get states i = Some st \<and> desired_running (intents ! i) \<and> resume_action st = Some a)"
  by (auto simp: resume_pass_def split: option.splits)

text \<open>The parking loop only turns an empty slot of a replica that may sleep into a sleep.\<close>

lemma park_pass_nth:
  assumes "i < length acts"
  shows "park_pass cap intents states is occ acts ! i = acts ! i \<or>
    (acts ! i = None \<and> may_sleep intents states i \<and> park_pass cap intents states is occ acts ! i = Some Sleep)"
  using assms
proof (induction "is" arbitrary: occ acts)
  case (Cons j js)
  show ?case
  proof (cases "acts ! j \<noteq> None \<or> \<not> may_sleep intents states j \<or> cap \<le> occ")
    case True
    then show ?thesis using Cons.IH [OF Cons.prems, of occ] by auto
  next
    case False
    have "i < length (acts[j := Some Sleep])" using Cons.prems by simp
    from Cons.IH [OF this, of "occ + 1"] show ?thesis using False Cons.prems by (cases "i = j") auto
  qed
qed simp

definition sleeps :: "park_action option list \<Rightarrow> nat" where
  "sleeps acts = length (filter (\<lambda>a. a = Some Sleep) acts)"

lemma sleeps_update:
  "i < length acts \<Longrightarrow> acts ! i = None \<Longrightarrow> sleeps (acts[i := Some Sleep]) = Suc (sleeps acts)"
  unfolding sleeps_def
proof (induction acts arbitrary: i)
  case (Cons a acts)
  then show ?case by (cases i) auto
qed simp

lemma park_pass_sleeps:
  "\<forall>i \<in> set is. i < length acts \<Longrightarrow>
   sleeps (park_pass cap intents states is occ acts) \<le> sleeps acts + (cap - occ)"
proof (induction "is" arbitrary: occ acts)
  case (Cons j js)
  have j: "j < length acts" and js: "\<forall>i \<in> set js. i < length acts" using Cons.prems by auto
  have "sleeps (park_pass cap intents states js (occ + 1) (acts[j := Some Sleep]))
      \<le> sleeps (acts[j := Some Sleep]) + (cap - (occ + 1))"
    by (rule Cons.IH) (use js in simp)
  then show ?case using Cons.IH [OF js, of occ] j by (auto simp: sleeps_update)
qed simp

lemma plan_sleeps: "sleeps (plan intents states c) \<le> max_parked c - slots states"
proof -
  have "filter (\<lambda>a. a = Some Sleep) (resume_pass intents states) = []"
    using resume_pass_not_sleep [of _ intents states] by (auto simp: filter_empty_conv in_set_conv_nth)
  then have "sleeps (resume_pass intents states) = 0" by (simp add: sleeps_def)
  moreover have "sleeps (replicate n None) = 0" for n by (simp add: sleeps_def)
  ultimately show ?thesis
    using park_pass_sleeps [of "[0..<length intents]" "resume_pass intents states" "max_parked c" intents states "slots states"]
    by (simp add: plan_def)
qed

lemma plan_cases:
  assumes "i < length intents" "plan intents states c ! i = Some a"
  shows "actuates (ep_actuator c) \<and>
    (if a = Sleep then may_sleep intents states i
     else \<exists>st. get states i = Some st \<and> desired_running (intents ! i) \<and> resume_action st = Some a)"
proof -
  have act: "actuates (ep_actuator c)"
    using assms by (auto simp: plan_def split: if_splits)
  have "resume_pass intents states ! i = Some a \<or> (may_sleep intents states i \<and> a = Sleep)"
    using park_pass_nth [of i "resume_pass intents states" "max_parked c" intents states "[0..<length intents]" "slots states"]
      assms act by (auto simp: plan_def)
  then show ?thesis
    using act resume_pass_not_sleep [OF assms(1), of states] resume_pass_Some [OF assms(1), of states a] by auto
qed

lemma plan_resumes:
  assumes "i < length intents" "actuates (ep_actuator c)" "desired_running (intents ! i)" "get states i = Some st"
  shows "plan intents states c ! i = resume_action st"
proof -
  have "resume_pass intents states ! i = resume_action st"
    using assms by (simp add: resume_pass_def)
  moreover have "\<not> may_sleep intents states i" using assms by (simp add: may_sleep_def)
  ultimately show ?thesis
    using park_pass_nth [of i "resume_pass intents states" "max_parked c" intents states "[0..<length intents]" "slots states"] assms
    by (auto simp: plan_def)
qed

lemma length_mark_actions [simp]: "length (mark_actions acts states) = length states"
  by (simp add: mark_actions_def)

lemma slots_mark_le:
  assumes "length acts = length states"
  shows "slots (mark_actions acts states) \<le> slots states + sleeps acts"
proof -
  have m: "mark_actions acts states = map2 mark_one states acts"
    using assms by (intro nth_equalityI) (simp_all add: mark_actions_def)
  have one: "of_bool (occupies_park_slot (mark_one st a)) \<le> (of_bool (occupies_park_slot st) + of_bool (a = Some Sleep) :: nat)"
    for st a by (cases a) (auto simp: mark_one_def occupies_park_slot_def split: park_action.splits)
  have "length (filter occupies_park_slot (map2 mark_one states acts)) \<le> slots states + sleeps acts"
    using assms [symmetric] unfolding slots_def sleeps_def
  proof (induction states acts rule: list_induct2)
    case (Cons st states a acts)
    then show ?case using one [of st a] by (auto split: if_splits)
  qed simp
  then show ?thesis unfolding m slots_def [of "map2 mark_one states acts"] .
qed

text \<open>
  C26. The memory cap on parking. Whatever the intents and the believed states, marking the planned actions leaves at
  most \<open>max_parked\<close> replicas parking or parked, or no more than there already were; and resuming is never held back by
  the cap: every replica the policy wants running that is parked or parking gets its wake call.
\<close>

theorem park_cap:
  assumes "length intents = length states"
  shows "slots (mark_actions (plan intents states c) states) \<le> max (max_parked c) (slots states) \<and>
    (\<forall>i < length intents. actuates (ep_actuator c) \<and> desired_running (intents ! i) \<and> occupies_park_slot (states ! i)
       \<longrightarrow> plan intents states c ! i = Some Wake)"
proof -
  have "slots (mark_actions (plan intents states c) states) \<le> slots states + sleeps (plan intents states c)"
    by (rule slots_mark_le) (simp add: assms)
  moreover have "plan intents states c ! i = Some Wake"
    if "i < length intents" "actuates (ep_actuator c)" "desired_running (intents ! i)" "occupies_park_slot (states ! i)" for i
    using plan_resumes [OF that(1,2,3), of states "states ! i"] that(1,4) assms
    by (auto simp: get_def occupies_park_slot_def)
  ultimately show ?thesis using plan_sleeps [of intents states c] by auto
qed

definition stop_intent :: upstream_intent where
  "stop_intent = \<lparr>in_state = Drained, in_fenced = True, desired_running = False, safe_to_stop = True\<rparr>"

theorem park_cap_witness:
  "slots (mark_actions (plan [stop_intent, stop_intent, intent_warm] [Awake, Awake, Parked] (engine_park_default\<lparr>max_parked := 2\<rparr>))
     [Awake, Awake, Parked]) \<le> max 2 1 \<and>
   plan [stop_intent, stop_intent, intent_warm] [Awake, Awake, Parked] (engine_park_default\<lparr>max_parked := 2\<rparr>) ! 2 = Some Wake"
  using park_cap [of "[stop_intent, stop_intent, intent_warm]" "[Awake, Awake, Parked]" "engine_park_default\<lparr>max_parked := 2\<rparr>"]
  by (simp add: slots_def occupies_park_slot_def engine_park_default_def actuates_def intent_warm_def All_less_Suc numeral_3_eq_3 numeral_2_eq_2)

text \<open>
  A sleep call that got no answer leaves the replica \<open>Unknown\<close>, which takes no slot although the engine may have
  fallen asleep: the next round then puts a second replica to sleep under a cap of one.
\<close>

lemma unanswered_sleep_frees_its_slot:
  assumes "plan [stop_intent, stop_intent] [Awake, Awake] engine_park_default = acts"
  shows "acts = [Some Sleep, None] \<and>
    plan [stop_intent, stop_intent] [actuate_park parse Sleep No_Response, Awake] engine_park_default = [None, Some Sleep]"
  using assms by (auto simp: plan_def engine_park_default_def actuates_def slots_def occupies_park_slot_def resume_pass_def
      may_sleep_def get_def stop_intent_def actuate_park_def)

end
