(* ===== verification/Attestation.thy ===== *)
theory Attestation
  imports Ramjet_Prelude
begin

text \<open>
  The runtime attestation of \<^verbatim>\<open>src/src/tokenizer.rs\<close>: which replicas are attested, which must be, and the revision
  counter by which a request detects that the evidence it routed on has moved.
\<close>

section \<open>State and operations\<close>

record attestation =
  at_ready :: "bool list"
  at_required :: "bool list"
  admission_ready :: "bool list"
  incarnation_commitments :: "string option list"
  at_revision :: u64

definition attestation_new :: "nat \<Rightarrow> attestation" where
  "attestation_new n = \<lparr>at_ready = replicate n False, at_required = replicate n True, admission_ready = replicate n False,
     incarnation_commitments = replicate n None, at_revision = 0\<rparr>"

definition is_required :: "attestation \<Rightarrow> nat \<Rightarrow> bool" where
  "is_required a u = (get (at_required a) u = Some True)"

fun all_ready_from :: "(bool \<times> bool) list \<Rightarrow> bool \<Rightarrow> bool" where
  "all_ready_from [] any_required = any_required"
| "all_ready_from ((ready, required) # rest) any_required =
    (if required then if \<not> ready then False else all_ready_from rest True
     else all_ready_from rest any_required)"

definition all_ready :: "attestation \<Rightarrow> bool" where
  "all_ready a = all_ready_from (zip (at_ready a) (at_required a)) False"

definition bump :: "attestation \<Rightarrow> attestation" where
  "bump a = a\<lparr>at_revision := at_revision a + 1\<rparr>"

text \<open>\<open>None\<close> is the panic of the length assertion.\<close>

definition set_required :: "bool list \<Rightarrow> attestation \<Rightarrow> attestation option" where
  "set_required required a =
    (if length required \<noteq> length (at_ready a) then None
     else if at_required a = required then Some a
     else Some ((bump a)\<lparr>at_required := required\<rparr>))"

text \<open>\<open>marker\<close> reads the revision in the state \<open>before\<close>, the readiness in \<open>mid\<close> and the revision again in \<open>after\<close>.\<close>

definition marker :: "attestation \<Rightarrow> attestation \<Rightarrow> attestation \<Rightarrow> u64 option" where
  "marker before mid after =
    (if \<not> all_ready mid then None
     else if at_revision before = at_revision after then Some (at_revision after) else None)"

text \<open>\<open>still_ready\<close> reads the revision in the state \<open>now\<close> and then the readiness in \<open>then'\<close>.\<close>

definition still_ready :: "attestation \<Rightarrow> attestation \<Rightarrow> u64 \<Rightarrow> bool" where
  "still_ready now then' revision \<longleftrightarrow> at_revision now = revision \<and> all_ready then'"

definition set_ready :: "nat \<Rightarrow> bool \<Rightarrow> attestation \<Rightarrow> attestation" where
  "set_ready u ready a = (case get (at_ready a) u of None \<Rightarrow> a | Some _ \<Rightarrow> a\<lparr>at_ready := (at_ready a)[u := ready]\<rparr>)"

definition invalidate_ready :: "nat \<Rightarrow> attestation \<Rightarrow> attestation" where
  "invalidate_ready u a = set_ready u False (if is_required a u then bump a else a)"

text \<open>The result is false when the replica does not exist.\<close>

definition begin_check :: "nat \<Rightarrow> attestation \<Rightarrow> bool \<times> attestation" where
  "begin_check u a = (case get (at_ready a) u of None \<Rightarrow> (False, a)
     | Some _ \<Rightarrow> (True, set_ready u False (if is_required a u then bump a else a)))"

definition clear_commitment :: "nat \<Rightarrow> attestation \<Rightarrow> attestation" where
  "clear_commitment u a = a\<lparr>incarnation_commitments := (incarnation_commitments a)[u := None]\<rparr>"

definition publish_admission :: "nat \<Rightarrow> bool \<Rightarrow> attestation \<Rightarrow> attestation" where
  "publish_admission u ready a = (case get (admission_ready a) u of None \<Rightarrow> a
     | Some _ \<Rightarrow> let a1 = a\<lparr>admission_ready := (admission_ready a)[u := ready]\<rparr>
                 in if \<not> ready then clear_commitment u a1 else a1)"

definition compatibility_attested :: "nat \<Rightarrow> attestation \<Rightarrow> bool option" where
  "compatibility_attested u a = get (admission_ready a) u"

definition incarnation_commitment :: "nat \<Rightarrow> attestation \<Rightarrow> string option" where
  "incarnation_commitment u a = Option.bind (get (incarnation_commitments a) u) id"

datatype compatibility_admission = NotConfigured | Unavailable | Admission_Match | Admission_Mismatch

text \<open>
  The evaluation of one identity response: \<open>None\<close> when the replica did not answer, otherwise whether the evidence
  matches the manifest and the commitment it carries.
\<close>

definition evaluate_admission ::
  "bool \<Rightarrow> nat \<Rightarrow> (bool \<times> string option) option \<Rightarrow> attestation \<Rightarrow> compatibility_admission \<times> attestation" where
  "evaluate_admission configured u evidence a =
    (if \<not> configured \<or> get (admission_ready a) u = None then (NotConfigured, a)
     else case evidence of
       None \<Rightarrow> (Unavailable, clear_commitment u a)
     | Some (matches, commitment) \<Rightarrow>
         (if matches then Admission_Match else Admission_Mismatch,
          case commitment of
            Some c \<Rightarrow> a\<lparr>incarnation_commitments := (incarnation_commitments a)[u := Some c]\<rparr>
          | None \<Rightarrow> clear_commitment u a))"

section \<open>The revision detects every change of the evidence\<close>

lemma all_ready_from_iff:
  "all_ready_from ps any \<longleftrightarrow> (\<forall>(ready, required) \<in> set ps. required \<longrightarrow> ready) \<and> (any \<or> (\<exists>(ready, required) \<in> set ps. required))"
  by (induction ps any rule: all_ready_from.induct) auto

text \<open>Every required replica is ready, and at least one is required.\<close>

lemma all_ready_iff:
  assumes "length (at_ready a) = length (at_required a)"
  shows "all_ready a \<longleftrightarrow> (\<exists>u. is_required a u) \<and> (\<forall>u. is_required a u \<longrightarrow> at_ready a ! u)"
proof -
  have "(\<forall>(ready, required) \<in> set (zip (at_ready a) (at_required a)). required \<longrightarrow> ready) \<longleftrightarrow>
      (\<forall>u. is_required a u \<longrightarrow> at_ready a ! u)"
    using assms by (auto simp: set_zip is_required_def get_def)
  moreover have "(\<exists>(ready, required) \<in> set (zip (at_ready a) (at_required a)). required) \<longleftrightarrow> (\<exists>u. is_required a u)"
    using assms by (auto simp: set_zip is_required_def get_def)
  ultimately show ?thesis by (auto simp: all_ready_def all_ready_from_iff)
qed

datatype attestation_event =
    Begin_Check nat
  | Set_Ready nat bool
  | Invalidate nat
  | Set_Required "bool list"

fun attestation_step :: "attestation_event \<Rightarrow> attestation \<Rightarrow> attestation option" where
  "attestation_step (Begin_Check u) a = Some (snd (begin_check u a))"
| "attestation_step (Set_Ready u b) a = Some (set_ready u b a)"
| "attestation_step (Invalidate u) a = Some (invalidate_ready u a)"
| "attestation_step (Set_Required req) a = set_required req a"

primrec attestation_run :: "attestation_event list \<Rightarrow> attestation \<Rightarrow> attestation option" where
  "attestation_run [] a = Some a"
| "attestation_run (e # es) a = Option.bind (attestation_step e a) (attestation_run es)"

text \<open>An event that withdraws or redefines evidence a request may have routed on.\<close>

fun disturbs :: "attestation \<Rightarrow> attestation_event \<Rightarrow> bool" where
  "disturbs a (Begin_Check u) \<longleftrightarrow> is_required a u"
| "disturbs a (Invalidate u) \<longleftrightarrow> is_required a u"
| "disturbs a (Set_Required req) \<longleftrightarrow> req \<noteq> at_required a"
| "disturbs a (Set_Ready _ _) \<longleftrightarrow> False"

primrec disturbances :: "attestation_event list \<Rightarrow> attestation \<Rightarrow> nat" where
  "disturbances [] a = 0"
| "disturbances (e # es) a = of_bool (disturbs a e) + (case attestation_step e a of None \<Rightarrow> 0 | Some b \<Rightarrow> disturbances es b)"

lemma set_ready_simps [simp]:
  "at_revision (set_ready u b a) = at_revision a" "at_required (set_ready u b a) = at_required a"
  "length (at_ready (set_ready u b a)) = length (at_ready a)"
  by (simp_all add: set_ready_def split: option.splits)

lemma bump_simps [simp]:
  "at_revision (bump a) = at_revision a + 1" "at_required (bump a) = at_required a" "at_ready (bump a) = at_ready a"
  by (simp_all add: bump_def)

lemma attestation_step_revision:
  assumes "attestation_step e a = Some b" "length (at_ready a) = length (at_required a)"
  shows "at_revision b = at_revision a + of_bool (disturbs a e) \<and> length (at_ready b) = length (at_required b) \<and>
    (\<not> disturbs a e \<longrightarrow> at_required b = at_required a)"
proof (cases e)
  case (Begin_Check u)
  then have "b = snd (begin_check u a)" using assms(1) by simp
  then show ?thesis using assms(2) Begin_Check
    by (cases "get (at_ready a) u") (simp_all add: begin_check_def is_required_def get_def split: if_splits)
next
  case (Set_Ready u r)
  then have "b = set_ready u r a" using assms(1) by simp
  then show ?thesis using assms(2) Set_Ready by simp
next
  case (Invalidate u)
  then have "b = invalidate_ready u a" using assms(1) by simp
  then show ?thesis using assms(2) Invalidate by (simp add: invalidate_ready_def)
next
  case (Set_Required req)
  then have s: "set_required req a = Some b" using assms(1) by simp
  show ?thesis
  proof (cases "at_required a = req")
    case True
    then have "b = a" using s by (simp add: set_required_def split: if_splits)
    then show ?thesis using assms(2) Set_Required True by simp
  next
    case False
    then have "b = (bump a)\<lparr>at_required := req\<rparr>" "length req = length (at_ready a)"
      using s by (auto simp: set_required_def split: if_splits)
    then show ?thesis using Set_Required False by auto
  qed
qed

lemma attestation_run_revision:
  assumes "attestation_run es a = Some b" "length (at_ready a) = length (at_required a)"
  shows "at_revision b = at_revision a + of_nat (disturbances es a) \<and>
    (disturbances es a = 0 \<longrightarrow> at_required b = at_required a)"
  using assms
proof (induction es arbitrary: a)
  case (Cons e es)
  then obtain c where c: "attestation_step e a = Some c" "attestation_run es c = Some b"
    by (auto simp: bind_eq_Some_conv)
  note s = attestation_step_revision [OF c(1) Cons.prems(2)]
  show ?case using Cons.IH [OF c(2)] s c(1) by (auto simp: algebra_simps)
qed simp

lemma disturbances_le: "disturbances es a \<le> length es"
proof (induction es arbitrary: a)
  case (Cons e es)
  then show ?case by (auto split: option.splits intro: le_SucI)
qed simp

text \<open>
  C27. The attestation marker is sound. If a request obtained marker \<open>v\<close> and later finds it still ready, with fewer than
  \<open>2^64\<close> events in between, then since the first read of the revision no required replica was invalidated or put back
  under check, the set of required replicas is the same, and at the end every required replica is ready.
\<close>

theorem marker_still_ready_sound:
  assumes "length (at_ready a) = length (at_required a)"
    and "attestation_run es a = Some b" "length es < 2 ^ 64"
    and "attestation_run es' b = Some c"
    and "marker a mid after = Some v" "still_ready b c v"
  shows "disturbances es a = 0 \<and> at_required b = at_required a \<and> (\<exists>u. is_required c u) \<and> (\<forall>u. is_required c u \<longrightarrow> at_ready c ! u)"
proof -
  have v: "v = at_revision a" "at_revision b = v" "all_ready c"
    using assms(5,6) by (auto simp: marker_def still_ready_def split: if_splits)
  have r: "at_revision b = at_revision a + of_nat (disturbances es a)"
    "disturbances es a = 0 \<longrightarrow> at_required b = at_required a"
    using attestation_run_revision [OF assms(2,1)] by auto
  have "(of_nat (disturbances es a) :: u64) = 0" using r(1) v by simp
  then have "2 ^ 64 dvd disturbances es a" by (simp add: word_of_nat_eq_0_iff)
  moreover have "disturbances es a < 2 ^ 64" using disturbances_le [of es a] assms(3) by simp
  ultimately have "disturbances es a = 0" by (auto dest: nat_dvd_not_less)
  moreover have "length (at_ready c) = length (at_required c)"
  proof -
    have "length (at_ready y) = length (at_required y)"
      if "attestation_run fs x = Some y" "length (at_ready x) = length (at_required x)" for fs x y
      using that by (induction fs arbitrary: x) (auto simp: bind_eq_Some_conv dest: attestation_step_revision)
    then show ?thesis using assms(1,2,4) by blast
  qed
  ultimately show ?thesis using r(2) all_ready_iff [of c] v(3) by blast
qed

theorem marker_still_ready_sound_witness:
  "let a = (attestation_new 1)\<lparr>at_ready := [True]\<rparr> in
   disturbances [Set_Ready 0 True] a = 0 \<and> at_required a = at_required a \<and>
   (\<exists>u. is_required a u) \<and> is_required a 0 \<and> at_ready a ! 0"
proof -
  define a where "a = (attestation_new 1)\<lparr>at_ready := [True]\<rparr>"
  have q: "is_required a 0" by (simp add: a_def attestation_new_def is_required_def get_def)
  have "set_ready 0 True a = a" by (simp add: a_def attestation_new_def set_ready_def get_def)
  with q show ?thesis
    using marker_still_ready_sound [of a "[Set_Ready 0 True]" a "[]" a a a 0]
    by (simp add: a_def [symmetric] Let_def, simp add: a_def attestation_new_def marker_def still_ready_def all_ready_def is_required_def get_def)
qed

end
