(* ===== verification/Fleet_Drain.thy ===== *)
theory Fleet_Drain
  imports Router_Load Engine_Park Attestation
begin

text \<open>
  The idle-drain rounds of \<^verbatim>\<open>src/src/proxy.rs\<close>, where the drain policy, the engine park actuator, the topology
  membership and the router meet. A round samples the router, ticks the policy, publishes the fences, plans and marks
  the park actions, issues the calls and publishes the outcome. It is interleaved with request dispatch, activity
  stamps and topology changes; the steps are the sections between which the code releases its locks. The routing
  authority lock is held while a round publishes or applies fences and while a topology change is being installed.
\<close>

section \<open>State\<close>

datatype phase =
    Resting
  | Sampling "upstream_observation list"
  | Ticked idle_drain_decision
  | Publishing idle_drain_decision nat
  | Marked idle_drain_decision "park_action option list"
  | Applying idle_drain_decision "park_action option list" nat
  | Calling idle_drain_decision "park_action option list"
  | Returned idle_drain_decision
  | Reapplying idle_drain_decision nat

record 'c fleet =
  fl_park_config :: engine_park_config
  fl_router :: "'c router"
  fl_guards :: "load_guard list"
  fl_policy :: idle_drain_policy
  fl_fenced :: "bool list"
  fl_park :: "park_state list"
  fl_active :: "bool list"
  fl_attestation :: attestation
  fl_topology :: "(bool list \<times> bool list) option"
  fl_phase :: phase

abbreviation fl_mode :: "'c fleet \<Rightarrow> idle_drain_mode" where
  "fl_mode fl \<equiv> idc_mode (dp_config (fl_policy fl))"

abbreviation upstream_count :: "'c fleet \<Rightarrow> nat" where
  "upstream_count fl \<equiv> length (in_states (r_inner (fl_router fl)))"

definition fleet_new :: "'c router \<Rightarrow> idle_drain_policy \<Rightarrow> engine_park_config \<Rightarrow> 'c fleet" where
  "fleet_new r p c = (let n = length (in_states (r_inner r)) in
     \<lparr>fl_park_config = c, fl_router = r, fl_guards = [], fl_policy = p, fl_fenced = replicate n False,
      fl_park = replicate n Awake, fl_active = replicate n True, fl_attestation = attestation_new n,
      fl_topology = None, fl_phase = Resting\<rparr>)"

section \<open>Routing authority\<close>

definition topology_active :: "nat \<Rightarrow> 'c fleet \<Rightarrow> bool" where
  "topology_active u fl = (case get (fl_active fl) u of None \<Rightarrow> False | Some b \<Rightarrow> b)"

definition park_actuates :: "'c fleet \<Rightarrow> bool" where
  "park_actuates fl \<longleftrightarrow> actuates (ep_actuator (fl_park_config fl)) \<and> fences_routing (fl_mode fl)"

definition park_state_of :: "nat \<Rightarrow> 'c fleet \<Rightarrow> park_state" where
  "park_state_of u fl = (if \<not> park_actuates fl then Awake
     else case get (fl_park fl) u of None \<Rightarrow> Awake | Some s \<Rightarrow> s)"

definition routing_fenced :: "nat \<Rightarrow> upstream_intent \<Rightarrow> 'c fleet \<Rightarrow> bool" where
  "routing_fenced u intent fl \<longleftrightarrow> \<not> topology_active u fl \<or> park_fenced intent (park_state_of u fl)"

section \<open>A round\<close>

definition sample_upstream :: "('c, u64, nat) lru_ops \<Rightarrow> nat \<Rightarrow> 'c fleet \<Rightarrow> upstream_observation" where
  "sample_upstream ops u fl = (case router_state ops u (fl_router fl) of
     None \<Rightarrow> \<lparr>ob_healthy = False, ob_inflight = 0\<rparr>
   | Some (n, _, _, h) \<Rightarrow> \<lparr>ob_healthy = h, ob_inflight = n\<rparr>)"

definition publish_fenced :: "idle_drain_decision \<Rightarrow> 'c fleet \<Rightarrow> 'c fleet" where
  "publish_fenced d fl = fl\<lparr>fl_fenced := map (\<lambda>i. if i < length (dd_upstreams d) then in_fenced (dd_upstreams d ! i)
     else fl_fenced fl ! i) [0..<length (fl_fenced fl)]\<rparr>"

definition publish_one :: "idle_drain_decision \<Rightarrow> nat \<Rightarrow> 'c fleet \<Rightarrow> 'c fleet" where
  "publish_one d u fl = (if fences_routing (fl_mode fl)
     then fl\<lparr>fl_router := set_drained u (routing_fenced u (dd_upstreams d ! u) fl) (fl_router fl)\<rparr> else fl)"

definition apply_one :: "idle_drain_decision \<Rightarrow> nat \<Rightarrow> 'c fleet \<Rightarrow> 'c fleet" where
  "apply_one d u fl = (if \<not> park_actuates fl then fl
     else fl\<lparr>fl_router := set_drained u (routing_fenced u (dd_upstreams d ! u) fl) (fl_router fl)\<rparr>)"

definition converge_mark :: "idle_drain_decision \<Rightarrow> 'c fleet \<Rightarrow> 'c fleet" where
  "converge_mark d fl = (if \<not> park_actuates fl then fl\<lparr>fl_phase := Resting\<rparr>
     else let acts = plan (dd_upstreams d) (fl_park fl) (fl_park_config fl)
          in fl\<lparr>fl_park := mark_actions acts (fl_park fl), fl_phase := Marked d acts\<rparr>)"

definition issue_calls :: "idle_drain_decision \<Rightarrow> park_action option list \<Rightarrow> 'c fleet \<Rightarrow> 'c fleet" where
  "issue_calls d acts fl = (if list_all (\<lambda>a. a = None) acts then fl\<lparr>fl_phase := Resting\<rparr>
     else fl\<lparr>fl_phase := Calling d acts\<rparr>)"

text \<open>The outcome of each issued call, given the responses of the engines.\<close>

definition settle_calls :: "(string \<Rightarrow> 'n json option) \<Rightarrow> park_action option list \<Rightarrow> (nat \<Rightarrow> park_response) \<Rightarrow> park_state list \<Rightarrow> park_state list" where
  "settle_calls parse acts resp states = map (\<lambda>i. case (if i < length acts then acts ! i else None) of
     None \<Rightarrow> states ! i | Some a \<Rightarrow> actuate_park parse a (resp i)) [0..<length states]"

text \<open>The handlers as they run when nothing else is scheduled in between.\<close>

definition publish_idle_drain :: "idle_drain_decision \<Rightarrow> 'c fleet \<Rightarrow> 'c fleet" where
  "publish_idle_drain d fl = fold (publish_one d) [0..<length (dd_upstreams d)] (publish_fenced d fl)"

definition apply_park_fences :: "idle_drain_decision \<Rightarrow> 'c fleet \<Rightarrow> 'c fleet" where
  "apply_park_fences d fl = fold (apply_one d) [0..<length (dd_upstreams d)] fl"

definition converge_engine_parking ::
  "(string \<Rightarrow> 'n json option) \<Rightarrow> (nat \<Rightarrow> park_response) \<Rightarrow> idle_drain_decision \<Rightarrow> 'c fleet \<Rightarrow> 'c fleet" where
  "converge_engine_parking parse resp d fl =
    (if \<not> park_actuates fl then fl
     else let acts = plan (dd_upstreams d) (fl_park fl) (fl_park_config fl);
              fl1 = apply_park_fences d (fl\<lparr>fl_park := mark_actions acts (fl_park fl)\<rparr>)
          in if list_all (\<lambda>a. a = None) acts then fl1
             else apply_park_fences d (fl1\<lparr>fl_park := settle_calls parse acts resp (fl_park fl1)\<rparr>))"

definition idle_drain_round ::
  "('c, u64, nat) lru_ops \<Rightarrow> (string \<Rightarrow> 'n json option) \<Rightarrow> nat \<Rightarrow> (nat \<Rightarrow> park_response) \<Rightarrow> 'c fleet \<Rightarrow> 'c fleet" where
  "idle_drain_round ops parse now resp fl =
    (let obs = map (\<lambda>u. sample_upstream ops u fl) [0..<upstream_count fl];
         (d, p) = drain_tick now obs (fl_policy fl)
     in converge_engine_parking parse resp d (publish_idle_drain d (fl\<lparr>fl_policy := p\<rparr>)))"

section \<open>Topology changes\<close>

datatype topology_error = Out_Of_Range nat | Duplicated nat

fun topology_next :: "nat list \<Rightarrow> bool list \<Rightarrow> topology_error + bool list" where
  "topology_next [] flags = Inr flags"
| "topology_next (u # us) flags = (case get flags u of
     None \<Rightarrow> Inl (Out_Of_Range u)
   | Some b \<Rightarrow> if b then Inl (Duplicated u) else topology_next us (flags[u := True]))"

definition topology_mask :: "bool list \<Rightarrow> 'c fleet \<Rightarrow> bool list" where
  "topology_mask flags fl = map (\<lambda>u. \<not> flags ! u \<or> (case get (fl_fenced fl) u of None \<Rightarrow> False | Some b \<Rightarrow> b)
     \<or> must_fence (park_state_of u fl)) [0..<length flags]"

definition topology_prepare :: "bool list \<Rightarrow> 'c fleet \<Rightarrow> 'c fleet option" where
  "topology_prepare flags fl = map_option
     (\<lambda>a. fl\<lparr>fl_attestation := a, fl_topology := Some (flags, topology_mask flags fl)\<rparr>)
     (set_required (replicate (length flags) False) (fl_attestation fl))"

definition topology_commit :: "bool list \<Rightarrow> bool list \<Rightarrow> 'c fleet \<Rightarrow> 'c fleet option" where
  "topology_commit flags msk fl = (let (r, ok) = set_drained_mask msk (fl_router fl) in
     if \<not> ok then Some (fl\<lparr>fl_topology := None\<rparr>)
     else map_option (\<lambda>a. fl\<lparr>fl_router := r, fl_attestation := a, fl_active := flags, fl_topology := None\<rparr>)
       (set_required flags (fl_attestation fl)))"

section \<open>Interleaving\<close>

fun holds_authority :: "phase \<Rightarrow> bool" where
  "holds_authority (Publishing d k) = True"
| "holds_authority (Applying d acts k) = True"
| "holds_authority (Reapplying d k) = True"
| "holds_authority _ = False"

inductive fleet_step :: "('c, u64, nat) lru_ops \<Rightarrow> (string \<Rightarrow> 'n json option) \<Rightarrow> 'c fleet \<Rightarrow> 'c fleet \<Rightarrow> bool" for ops parse where
  fs_request: "dispatch_step ops (fl_router fl, fl_guards fl) (r, gs) \<Longrightarrow>
    map us_drained (in_states (r_inner r)) = map us_drained (in_states (r_inner (fl_router fl))) \<Longrightarrow>
    fleet_step ops parse fl (fl\<lparr>fl_router := r, fl_guards := gs\<rparr>)"
| fs_activity: "fleet_step ops parse fl (fl\<lparr>fl_policy := observe_activity now (fl_policy fl)\<rparr>)"
| fs_start: "fl_phase fl = Resting \<Longrightarrow> fleet_step ops parse fl (fl\<lparr>fl_phase := Sampling []\<rparr>)"
| fs_sample: "fl_phase fl = Sampling obs \<Longrightarrow> length obs < upstream_count fl \<Longrightarrow>
    fleet_step ops parse fl (fl\<lparr>fl_phase := Sampling (obs @ [sample_upstream ops (length obs) fl])\<rparr>)"
| fs_tick: "fl_phase fl = Sampling obs \<Longrightarrow> length obs = upstream_count fl \<Longrightarrow> drain_tick now obs (fl_policy fl) = (d, p) \<Longrightarrow>
    fleet_step ops parse fl (fl\<lparr>fl_policy := p, fl_phase := Ticked d\<rparr>)"
| fs_publish: "fl_phase fl = Ticked d \<Longrightarrow> fl_topology fl = None \<Longrightarrow>
    fleet_step ops parse fl ((publish_fenced d fl)\<lparr>fl_phase := Publishing d 0\<rparr>)"
| fs_publish_one: "fl_phase fl = Publishing d k \<Longrightarrow> k < length (dd_upstreams d) \<Longrightarrow>
    fleet_step ops parse fl ((publish_one d k fl)\<lparr>fl_phase := Publishing d (Suc k)\<rparr>)"
| fs_converge: "fl_phase fl = Publishing d (length (dd_upstreams d)) \<Longrightarrow> fleet_step ops parse fl (converge_mark d fl)"
| fs_apply: "fl_phase fl = Marked d acts \<Longrightarrow> fl_topology fl = None \<Longrightarrow>
    fleet_step ops parse fl (fl\<lparr>fl_phase := Applying d acts 0\<rparr>)"
| fs_apply_one: "fl_phase fl = Applying d acts k \<Longrightarrow> k < length (dd_upstreams d) \<Longrightarrow>
    fleet_step ops parse fl ((apply_one d k fl)\<lparr>fl_phase := Applying d acts (Suc k)\<rparr>)"
| fs_issue: "fl_phase fl = Applying d acts (length (dd_upstreams d)) \<Longrightarrow> fleet_step ops parse fl (issue_calls d acts fl)"
| fs_results: "fl_phase fl = Calling d acts \<Longrightarrow>
    fleet_step ops parse fl (fl\<lparr>fl_park := settle_calls parse acts resp (fl_park fl), fl_phase := Returned d\<rparr>)"
| fs_reapply: "fl_phase fl = Returned d \<Longrightarrow> fl_topology fl = None \<Longrightarrow>
    fleet_step ops parse fl (fl\<lparr>fl_phase := Reapplying d 0\<rparr>)"
| fs_reapply_one: "fl_phase fl = Reapplying d k \<Longrightarrow> k < length (dd_upstreams d) \<Longrightarrow>
    fleet_step ops parse fl ((apply_one d k fl)\<lparr>fl_phase := Reapplying d (Suc k)\<rparr>)"
| fs_rest: "fl_phase fl = Reapplying d (length (dd_upstreams d)) \<Longrightarrow> fleet_step ops parse fl (fl\<lparr>fl_phase := Resting\<rparr>)"
| fs_topology: "fl_topology fl = None \<Longrightarrow> \<not> holds_authority (fl_phase fl) \<Longrightarrow>
    topology_next us (replicate (upstream_count fl) False) = Inr flags \<Longrightarrow> topology_prepare flags fl = Some fl' \<Longrightarrow>
    fleet_step ops parse fl fl'"
| fs_install: "fl_topology fl = Some (flags, msk) \<Longrightarrow> topology_commit flags msk fl = Some fl' \<Longrightarrow> fleet_step ops parse fl fl'"

section \<open>Invariant\<close>

fun decision_of :: "phase \<Rightarrow> idle_drain_decision option" where
  "decision_of Resting = None"
| "decision_of (Sampling obs) = None"
| "decision_of (Ticked d) = Some d"
| "decision_of (Publishing d k) = Some d"
| "decision_of (Marked d acts) = Some d"
| "decision_of (Applying d acts k) = Some d"
| "decision_of (Calling d acts) = Some d"
| "decision_of (Returned d) = Some d"
| "decision_of (Reapplying d k) = Some d"

fun actions_of :: "phase \<Rightarrow> park_action option list option" where
  "actions_of (Marked d acts) = Some acts"
| "actions_of (Applying d acts k) = Some acts"
| "actions_of (Calling d acts) = Some acts"
| "actions_of _ = None"

fun published_upto :: "phase \<Rightarrow> nat \<Rightarrow> nat" where
  "published_upto (Publishing d k) n = k"
| "published_upto _ n = n"

fun observations_of :: "phase \<Rightarrow> upstream_observation list" where
  "observations_of (Sampling obs) = obs"
| "observations_of _ = []"

definition is_ticked :: "phase \<Rightarrow> bool" where
  "is_ticked ph \<longleftrightarrow> (case ph of Ticked d \<Rightarrow> True | _ \<Rightarrow> False)"

definition policy_fences :: "'c fleet \<Rightarrow> nat \<Rightarrow> bool" where
  "policy_fences fl i \<longleftrightarrow> fences_routing (fl_mode fl) \<and> fenced (dp_states (fl_policy fl) ! i)"

text \<open>What routing must withhold: a published fence or an engine that may be asleep.\<close>

definition covered :: "'c fleet \<Rightarrow> nat \<Rightarrow> bool" where
  "covered fl i \<longleftrightarrow> fl_fenced fl ! i \<or> must_fence (fl_park fl ! i)"

definition lengths_inv :: "'c fleet \<Rightarrow> bool" where
  "lengths_inv fl \<longleftrightarrow> length (dp_states (fl_policy fl)) = upstream_count fl \<and>
     length (busy_since_ms (fl_policy fl)) = upstream_count fl \<and> length (fl_fenced fl) = upstream_count fl \<and>
     length (fl_park fl) = upstream_count fl"

definition fence_at :: "'c fleet \<Rightarrow> nat \<Rightarrow> bool" where
  "fence_at fl i \<longleftrightarrow>
     (must_fence (fl_park fl ! i) \<longrightarrow> park_actuates fl \<and> drained i (fl_router fl)) \<and>
     (fl_fenced fl ! i \<and> i < published_upto (fl_phase fl) (upstream_count fl) \<longrightarrow> drained i (fl_router fl)) \<and>
     (\<not> is_ticked (fl_phase fl) \<longrightarrow> fl_fenced fl ! i = policy_fences fl i) \<and>
     (i < length (observations_of (fl_phase fl)) \<and> fl_fenced fl ! i \<longrightarrow>
        inflight i (fl_router fl) \<le> ob_inflight (observations_of (fl_phase fl) ! i))"

definition topology_inv :: "'c fleet \<Rightarrow> bool" where
  "topology_inv fl \<longleftrightarrow> (\<forall>flags msk. fl_topology fl = Some (flags, msk) \<longrightarrow> \<not> holds_authority (fl_phase fl) \<and>
     length msk = upstream_count fl \<and> (\<forall>i < upstream_count fl. covered fl i \<longrightarrow> msk ! i))"

definition decision_at :: "'c fleet \<Rightarrow> idle_drain_decision \<Rightarrow> nat \<Rightarrow> bool" where
  "decision_at fl d i \<longleftrightarrow> in_fenced (dd_upstreams d ! i) = policy_fences fl i \<and>
     (safe_to_stop (dd_upstreams d ! i) \<longrightarrow>
        in_fenced (dd_upstreams d ! i) \<and> fl_fenced fl ! i \<and> drained i (fl_router fl) \<and> inflight i (fl_router fl) = 0)"

definition actions_at :: "'c fleet \<Rightarrow> idle_drain_decision \<Rightarrow> park_action option list \<Rightarrow> nat \<Rightarrow> bool" where
  "actions_at fl d acts i \<longleftrightarrow> (acts ! i = Some Sleep \<longrightarrow> safe_to_stop (dd_upstreams d ! i)) \<and>
     (acts ! i \<noteq> None \<longrightarrow> must_fence (fl_park fl ! i))"

definition decision_inv :: "'c fleet \<Rightarrow> bool" where
  "decision_inv fl \<longleftrightarrow> (\<forall>d. decision_of (fl_phase fl) = Some d \<longrightarrow> length (dd_upstreams d) = upstream_count fl \<and>
     (\<forall>i < upstream_count fl. decision_at fl d i) \<and>
     (\<forall>acts. actions_of (fl_phase fl) = Some acts \<longrightarrow> length acts = upstream_count fl \<and>
        (\<forall>i < upstream_count fl. actions_at fl d acts i)))"

definition fleet_inv :: "'c fleet \<Rightarrow> bool" where
  "fleet_inv fl \<longleftrightarrow> lengths_inv fl \<and> (\<forall>i < upstream_count fl. fence_at fl i) \<and> topology_inv fl \<and> decision_inv fl \<and>
     load_inv (fl_router fl, fl_guards fl)"

lemmas inv_defs = fleet_inv_def lengths_inv_def fence_at_def topology_inv_def decision_inv_def decision_at_def actions_at_def
  covered_def park_actuates_def policy_fences_def is_ticked_def

subsection \<open>Frames of the router operations\<close>

lemma set_drained_frame [simp]:
  "length (in_states (r_inner (set_drained u b r))) = length (in_states (r_inner r))"
  "inflight i (set_drained u b r) = inflight i r"
  "i < length (in_states (r_inner r)) \<Longrightarrow> drained i (set_drained u b r) = (if i = u then b else drained i r)"
  by (auto simp: set_drained_def update_state_def inflight_def drained_def get_def nth_list_update split: option.splits)

lemma set_drained_mask_frame:
  assumes "length msk = length (in_states (r_inner r))"
  shows "snd (set_drained_mask msk r)"
    "length (in_states (r_inner (fst (set_drained_mask msk r)))) = length (in_states (r_inner r))"
    "inflight i (fst (set_drained_mask msk r)) = inflight i r"
    "i < length msk \<Longrightarrow> drained i (fst (set_drained_mask msk r)) = msk ! i"
  using assms by (auto simp: set_drained_mask_def inflight_def drained_def get_def split_beta)

lemma request_frame:
  assumes "dispatch_step ops (r, gs) (r', gs')" "map us_drained (in_states (r_inner r')) = map us_drained (in_states (r_inner r))"
  shows "length (in_states (r_inner r')) = length (in_states (r_inner r))" "drained i r' = drained i r"
    "drained i r \<Longrightarrow> inflight i r' \<le> inflight i r"
proof -
  show l: "length (in_states (r_inner r')) = length (in_states (r_inner r))"
    using assms(2) by (rule map_eq_imp_length_eq)
  show "drained i r' = drained i r"
    using assms(2) l by (auto simp: drained_def get_def list_eq_iff_nth_eq)
  show "drained i r \<Longrightarrow> inflight i r' \<le> inflight i r"
    using dispatch_step_drained [OF assms(1), of i] by simp
qed

lemma observing_is_published: "observations_of ph \<noteq> [] \<Longrightarrow> published_upto ph n = n"
  by (cases ph) simp_all

text \<open>A router change that keeps every covered fence up and admits nothing behind it keeps the invariant.\<close>

lemma inv_router:
  assumes inv: "fleet_inv fl" and len: "length (in_states (r_inner r)) = upstream_count fl" and load: "load_inv (r, gs)"
    and keep: "\<And>i. i < upstream_count fl \<Longrightarrow> covered fl i \<Longrightarrow> drained i (fl_router fl) \<Longrightarrow>
           drained i r \<and> inflight i r \<le> inflight i (fl_router fl)"
  shows "fleet_inv (fl\<lparr>fl_router := r, fl_guards := gs\<rparr>)" (is "fleet_inv ?fl")
proof -
  have "fence_at ?fl i" if i: "i < upstream_count fl" for i
  proof -
    have "fence_at fl i" using inv i by (simp add: fleet_inv_def)
    then show ?thesis
      using len keep [OF i] i observing_is_published [of "fl_phase fl" "upstream_count fl"]
      by (fastforce simp: fence_at_def covered_def park_actuates_def policy_fences_def)
  qed
  moreover have "decision_at ?fl d i" if "i < upstream_count fl" "decision_at fl d i" for d i
    using that keep [OF that(1)] by (fastforce simp: decision_at_def covered_def policy_fences_def)
  moreover have "actions_at ?fl d acts i = actions_at fl d acts i" for d acts i
    by (simp add: actions_at_def)
  ultimately show ?thesis
    using inv len load by (simp add: fleet_inv_def decision_inv_def lengths_inv_def topology_inv_def covered_def)
qed

lemma inv_request:
  assumes "fleet_inv fl" "dispatch_step ops (fl_router fl, fl_guards fl) (r, gs)"
    "map us_drained (in_states (r_inner r)) = map us_drained (in_states (r_inner (fl_router fl)))"
  shows "fleet_inv (fl\<lparr>fl_router := r, fl_guards := gs\<rparr>)"
proof (rule inv_router [OF assms(1)])
  show "load_inv (r, gs)"
    using dispatch_step_inv [OF assms(2)] assms(1) by (simp add: fleet_inv_def)
qed (use request_frame [OF assms(2,3)] in auto)

lemma inv_set_drained:
  assumes "fleet_inv fl" "covered fl u \<longrightarrow> b"
  shows "fleet_inv (fl\<lparr>fl_router := set_drained u b (fl_router fl)\<rparr>)"
proof -
  have "load_inv (set_drained u b (fl_router fl), fl_guards fl)"
    using dispatch_step_inv [OF step_drained] assms(1) by (fastforce simp: fleet_inv_def)
  then have "fleet_inv (fl\<lparr>fl_router := set_drained u b (fl_router fl), fl_guards := fl_guards fl\<rparr>)"
    using assms(2) by (intro inv_router [OF assms(1)]) auto
  then show ?thesis by simp
qed

lemma routing_fenced_covers:
  assumes "fleet_inv fl" "decision_of (fl_phase fl) = Some d" "\<not> is_ticked (fl_phase fl)" "u < upstream_count fl" "covered fl u"
  shows "routing_fenced u (dd_upstreams d ! u) fl"
proof -
  have "decision_at fl d u" "fence_at fl u" "length (fl_park fl) = upstream_count fl"
    using assms by (auto simp: fleet_inv_def decision_inv_def lengths_inv_def)
  then show ?thesis
    using assms(3-5) by (auto simp: routing_fenced_def park_fenced_def park_state_of_def decision_at_def fence_at_def covered_def get_def)
qed

text \<open>A step that only moves to another phase.\<close>

lemma inv_phase:
  assumes "fleet_inv fl" "topology_inv (fl\<lparr>fl_phase := ph\<rparr>)" "decision_inv (fl\<lparr>fl_phase := ph\<rparr>)"
    "\<And>i. i < upstream_count fl \<Longrightarrow> fence_at (fl\<lparr>fl_phase := ph\<rparr>) i"
  shows "fleet_inv (fl\<lparr>fl_phase := ph\<rparr>)"
  using assms by (simp add: fleet_inv_def lengths_inv_def)

lemma inv_activity: "fleet_inv fl \<Longrightarrow> fleet_inv (fl\<lparr>fl_policy := observe_activity now (fl_policy fl)\<rparr>)"
  by (simp add: fleet_inv_def lengths_inv_def fence_at_def topology_inv_def decision_inv_def covered_def park_actuates_def
      policy_fences_def decision_at_def actions_at_def cong: conj_cong)

lemma inv_start: "fleet_inv fl \<Longrightarrow> fl_phase fl = Resting \<Longrightarrow> fleet_inv (fl\<lparr>fl_phase := Sampling []\<rparr>)"
  by (simp add: inv_defs)

lemma sample_inflight:
  "i < upstream_count fl \<Longrightarrow> ob_inflight (sample_upstream ops i fl) = inflight i (fl_router fl)"
  by (simp add: sample_upstream_def router_state_def inflight_def get_def)

lemma inv_sample:
  assumes "fleet_inv fl" "fl_phase fl = Sampling obs" "length obs < upstream_count fl"
  shows "fleet_inv (fl\<lparr>fl_phase := Sampling (obs @ [sample_upstream ops (length obs) fl])\<rparr>)"
  using assms by (auto simp: inv_defs nth_append sample_inflight less_Suc_eq)

text \<open>A replica that is drained after a tick was fenced before it.\<close>

lemma tick_drained_was_fenced:
  assumes "i < length (dp_states p)" "length (busy_since_ms p) = length (dp_states p)"
    "dp_states (snd (drain_tick now obs p)) ! i = Drained"
  shows "fenced (dp_states p ! i)"
  using tick_replica [OF assms(1,2), of now obs] assms(3) by (auto simp: promote_one_def fenced_def split: if_splits)

lemma inv_tick:
  assumes "fleet_inv fl" "fl_phase fl = Sampling obs" "length obs = upstream_count fl" "drain_tick now obs (fl_policy fl) = (d, p)"
  shows "fleet_inv (fl\<lparr>fl_policy := p, fl_phase := Ticked d\<rparr>)" (is "fleet_inv ?fl")
proof -
  have p: "p = snd (drain_tick now obs (fl_policy fl))" and d: "d = fst (drain_tick now obs (fl_policy fl))"
    using assms(4) by auto
  have L: "length (dp_states (fl_policy fl)) = upstream_count fl" "length (busy_since_ms (fl_policy fl)) = upstream_count fl"
    using assms(1) by (auto simp: fleet_inv_def lengths_inv_def)
  have "decision_at ?fl d i" if i: "i < upstream_count fl" for i
  proof -
    let ?st = "dp_states p ! i"
    have D: "dd_upstreams d ! i = intent_of (fences_routing (fl_mode fl)) obs i ?st"
      using i L by (simp add: d p drain_tick_upstreams)
    have "fl_fenced fl ! i \<and> drained i (fl_router fl) \<and> inflight i (fl_router fl) = 0" if "safe_to_stop (dd_upstreams d ! i)"
    proof -
      have S: "fences_routing (fl_mode fl)" "?st = Drained" "ob_inflight (obs ! i) = 0"
        using that i assms(3) by (auto simp: D intent_of_def intent_warm_def get_def Let_def split: if_splits)
      have "fenced (dp_states (fl_policy fl) ! i)"
        by (rule tick_drained_was_fenced [of _ _ now obs]) (use S i L p in auto)
      moreover have "fence_at fl i" using assms(1) i by (simp add: fleet_inv_def)
      ultimately show ?thesis using S(1,3) i assms(2,3) by (auto simp: fence_at_def policy_fences_def is_ticked_def)
    qed
    moreover have "safe_to_stop (dd_upstreams d ! i) \<longrightarrow> in_fenced (dd_upstreams d ! i)"
      by (cases ?st) (auto simp: D intent_of_def intent_warm_def Let_def)
    moreover have "in_fenced (dd_upstreams d ! i) = policy_fences ?fl i"
      by (simp add: D intent_of_fenced policy_fences_def p)
    ultimately show ?thesis by (simp add: decision_at_def)
  qed
  moreover have "length (dd_upstreams d) = upstream_count fl" using L by (simp add: d drain_tick_upstreams)
  ultimately have "decision_inv ?fl" by (simp add: decision_inv_def)
  moreover have "lengths_inv ?fl"
    using assms(1) L tick_lengths [of "fl_policy fl" now obs] by (simp add: fleet_inv_def lengths_inv_def p)
  moreover have "fence_at ?fl i" if "i < upstream_count fl" for i
    using assms(1,2) that by (auto simp: fleet_inv_def fence_at_def park_actuates_def is_ticked_def p)
  ultimately show ?thesis
    using assms(1) by (simp add: fleet_inv_def topology_inv_def covered_def)
qed

lemma inv_publish:
  assumes "fleet_inv fl" "fl_phase fl = Ticked d" "fl_topology fl = None"
  shows "fleet_inv ((publish_fenced d fl)\<lparr>fl_phase := Publishing d 0\<rparr>)" (is "fleet_inv ?fl")
proof -
  have n: "length (dd_upstreams d) = upstream_count fl" "length (fl_fenced fl) = upstream_count fl"
    and D: "\<And>i. i < upstream_count fl \<Longrightarrow> decision_at fl d i"
    using assms(1,2) by (auto simp: fleet_inv_def decision_inv_def lengths_inv_def)
  have F: "fl_fenced ?fl ! i = in_fenced (dd_upstreams d ! i)" if "i < upstream_count fl" for i
    using that n by (simp add: publish_fenced_def)
  have "fence_at ?fl i" if i: "i < upstream_count fl" for i
    using assms(1) i D [OF i] F [OF i]
    by (auto simp: fleet_inv_def fence_at_def decision_at_def publish_fenced_def park_actuates_def policy_fences_def)
  moreover have "decision_at ?fl d i" if i: "i < upstream_count fl" for i
    using D [OF i] F [OF i] by (auto simp: decision_at_def policy_fences_def publish_fenced_def)
  ultimately show ?thesis
    using assms(1,3) n by (simp add: fleet_inv_def lengths_inv_def decision_inv_def topology_inv_def publish_fenced_def)
qed

text \<open>Publishing or applying the fence of one upstream, within the loop that holds the routing authority.\<close>

lemma inv_fence_one:
  assumes "fleet_inv fl" "decision_of (fl_phase fl) = Some d" "\<not> is_ticked (fl_phase fl)" "u < upstream_count fl"
    "fl' = fl \<or> fl' = fl\<lparr>fl_router := set_drained u (routing_fenced u (dd_upstreams d ! u) fl) (fl_router fl)\<rparr>"
  shows "fleet_inv fl'"
  using assms(5) routing_fenced_covers [OF assms(1-4)] inv_set_drained [OF assms(1), of u] assms(1) by auto

lemma inv_publish_one:
  assumes "fleet_inv fl" "fl_phase fl = Publishing d k" "k < length (dd_upstreams d)"
  shows "fleet_inv ((publish_one d k fl)\<lparr>fl_phase := Publishing d (Suc k)\<rparr>)"
proof -
  let ?fl = "publish_one d k fl"
  have k: "k < upstream_count fl" using assms by (auto simp: fleet_inv_def decision_inv_def)
  have inv: "fleet_inv ?fl"
    by (rule inv_fence_one [OF assms(1) _ _ k]) (use assms(2) in \<open>auto simp: publish_one_def is_ticked_def\<close>)
  have ph: "fl_phase ?fl = Publishing d k" "upstream_count ?fl = upstream_count fl"
    using assms(2) by (simp_all add: publish_one_def)
  have "fl_fenced ?fl ! k \<longrightarrow> drained k (fl_router ?fl)"
  proof
    assume f: "fl_fenced ?fl ! k"
    then have f': "fl_fenced fl ! k" by (simp add: publish_one_def split: if_splits)
    then have "fences_routing (fl_mode fl)"
      using assms(1,2) k by (auto simp: fleet_inv_def fence_at_def is_ticked_def policy_fences_def)
    moreover have "routing_fenced k (dd_upstreams d ! k) fl"
      by (rule routing_fenced_covers [OF assms(1) _ _ k]) (use f' assms(2) in \<open>auto simp: is_ticked_def covered_def\<close>)
    ultimately show "drained k (fl_router ?fl)" using k by (simp add: publish_one_def)
  qed
  then show ?thesis
    using inv ph by (auto simp: inv_defs less_Suc_eq)
qed

lemma inv_apply_one:
  assumes "fleet_inv fl" "decision_of (fl_phase fl) = Some d" "\<not> is_ticked (fl_phase fl)" "k < length (dd_upstreams d)"
  shows "fleet_inv (apply_one d k fl)"
proof -
  have k: "k < upstream_count fl" using assms by (auto simp: fleet_inv_def decision_inv_def)
  show ?thesis
    by (rule inv_fence_one [OF assms(1-3) k]) (auto simp: apply_one_def)
qed

lemma plan_marks:
  assumes "length intents = length states" "i < length states" "plan intents states c ! i = Some a"
  shows "must_fence (mark_one (states ! i) (Some a)) \<and> (a = Sleep \<longrightarrow> safe_to_stop (intents ! i)) \<and>
    (a \<noteq> Sleep \<longrightarrow> must_fence (states ! i))"
proof -
  have i: "i < length intents" "get states i = Some (states ! i)" using assms(1,2) by (simp_all add: get_def)
  show ?thesis
    using plan_cases [OF i(1) assms(3)] i(2)
    by (cases "states ! i"; cases a) (auto simp: mark_one_def must_fence_def may_sleep_def)
qed

lemma inv_converge:
  assumes "fleet_inv fl" "fl_phase fl = Publishing d (length (dd_upstreams d))"
  shows "fleet_inv (converge_mark d fl)"
proof -
  have n: "length (dd_upstreams d) = upstream_count fl" "length (fl_park fl) = upstream_count fl"
    and D: "\<And>i. i < upstream_count fl \<Longrightarrow> decision_at fl d i"
    and F: "\<And>i. i < upstream_count fl \<Longrightarrow> fence_at fl i" and T: "fl_topology fl = None"
    using assms by (auto simp: fleet_inv_def decision_inv_def lengths_inv_def topology_inv_def) (metis option.exhaust prod.exhaust)
  show ?thesis
  proof (cases "park_actuates fl")
    case False
    have "fence_at (fl\<lparr>fl_phase := Resting\<rparr>) i" if "i < upstream_count fl" for i
      using F [OF that] assms(2) n that by (auto simp: fence_at_def park_actuates_def policy_fences_def is_ticked_def)
    then show ?thesis
      using assms(1) False T by (simp add: converge_mark_def fleet_inv_def lengths_inv_def topology_inv_def decision_inv_def)
  next
    case True
    define acts where "acts = plan (dd_upstreams d) (fl_park fl) (fl_park_config fl)"
    let ?fl = "fl\<lparr>fl_park := mark_actions acts (fl_park fl), fl_phase := Marked d acts\<rparr>"
    have len: "length acts = upstream_count fl" by (simp add: acts_def n)
    have m: "mark_actions acts (fl_park fl) ! i = mark_one (fl_park fl ! i) (acts ! i)" if "i < upstream_count fl" for i
      using that n len by (simp add: mark_actions_def)
    have A: "must_fence (mark_actions acts (fl_park fl) ! i) \<and> (acts ! i = Some Sleep \<longrightarrow> safe_to_stop (dd_upstreams d ! i)) \<and>
        (acts ! i \<noteq> Some Sleep \<longrightarrow> must_fence (fl_park fl ! i))"
      if "i < upstream_count fl" "acts ! i = Some a" for i a
      using plan_marks [of "dd_upstreams d" "fl_park fl" i "fl_park_config fl" a] that n m [OF that(1)] by (simp add: acts_def)
    have "fence_at ?fl i" if i: "i < upstream_count fl" for i
      using F [OF i] D [OF i] A [OF i] m [OF i] True assms(2) n i
      by (cases "acts ! i") (auto simp: fence_at_def decision_at_def park_actuates_def policy_fences_def is_ticked_def mark_one_def)
    moreover have "decision_at ?fl d i" if "i < upstream_count fl" for i
      using D [OF that] by (auto simp: decision_at_def policy_fences_def)
    moreover have "actions_at ?fl d acts i" if "i < upstream_count fl" for i
      using A [OF that] by (auto simp: actions_at_def)
    ultimately have "fleet_inv ?fl"
      using assms(1) T n len by (simp add: fleet_inv_def lengths_inv_def topology_inv_def decision_inv_def)
    then show ?thesis using True by (simp add: converge_mark_def acts_def Let_def)
  qed
qed

lemma inv_results:
  assumes "fleet_inv fl" "fl_phase fl = Calling d acts"
  shows "fleet_inv (fl\<lparr>fl_park := settle_calls parse acts resp (fl_park fl), fl_phase := Returned d\<rparr>)" (is "fleet_inv ?fl")
proof -
  have n: "length (dd_upstreams d) = upstream_count fl" "length (fl_park fl) = upstream_count fl" "length acts = upstream_count fl"
    and D: "\<And>i. i < upstream_count fl \<Longrightarrow> decision_at fl d i" and A: "\<And>i. i < upstream_count fl \<Longrightarrow> actions_at fl d acts i"
    and F: "\<And>i. i < upstream_count fl \<Longrightarrow> fence_at fl i" and T: "topology_inv fl"
    using assms by (auto simp: fleet_inv_def decision_inv_def lengths_inv_def)
  have S: "must_fence (settle_calls parse acts resp (fl_park fl) ! i) \<Longrightarrow> must_fence (fl_park fl ! i)" if "i < upstream_count fl" for i
    using A [OF that] that n by (auto simp: settle_calls_def actions_at_def split: option.splits)
  have "fence_at ?fl i" if i: "i < upstream_count fl" for i
    using F [OF i] S [OF i] assms(2) i by (auto simp: fence_at_def park_actuates_def policy_fences_def is_ticked_def)
  moreover have "decision_at ?fl d i" if "i < upstream_count fl" for i
    using D [OF that] by (auto simp: decision_at_def policy_fences_def)
  moreover have "topology_inv ?fl" using T S assms(2) by (auto simp: topology_inv_def covered_def)
  ultimately show ?thesis
    using assms(1) n by (simp add: fleet_inv_def lengths_inv_def decision_inv_def settle_calls_def)
qed

lemma length_topology_next: "topology_next us flags = Inr flags' \<Longrightarrow> length flags' = length flags"
  by (induction us flags rule: topology_next.induct) (auto split: option.splits if_splits)

lemma inv_topology:
  assumes "fleet_inv fl" "\<not> holds_authority (fl_phase fl)" "length flags = upstream_count fl" "topology_prepare flags fl = Some fl'"
  shows "fleet_inv fl'"
proof -
  obtain a where fl': "fl' = fl\<lparr>fl_attestation := a, fl_topology := Some (flags, topology_mask flags fl)\<rparr>"
    using assms(4) by (auto simp: topology_prepare_def)
  have L: "length (fl_fenced fl) = upstream_count fl" "length (fl_park fl) = upstream_count fl"
    using assms(1) by (auto simp: fleet_inv_def lengths_inv_def)
  have "topology_mask flags fl ! i" if i: "i < upstream_count fl" "covered fl i" for i
  proof -
    have "fence_at fl i" using assms(1) i by (simp add: fleet_inv_def)
    then show ?thesis using i assms(3) L
      by (auto simp: topology_mask_def covered_def park_state_of_def fence_at_def get_def)
  qed
  then have "topology_inv fl'"
    using assms(2,3) by (simp add: fl' topology_inv_def covered_def) (simp add: topology_mask_def)
  moreover have "fence_at fl' i = fence_at fl i" for i
    by (simp add: fl' fence_at_def park_actuates_def policy_fences_def)
  moreover have "decision_at fl' d i = decision_at fl d i" "actions_at fl' d acts i = actions_at fl d acts i" for d i acts
    by (simp_all add: fl' decision_at_def actions_at_def policy_fences_def)
  ultimately show ?thesis
    using assms(1) by (simp add: fleet_inv_def lengths_inv_def decision_inv_def) (simp add: fl')
qed

lemma inv_install:
  assumes "fleet_inv fl" "fl_topology fl = Some (flags, msk)" "topology_commit flags msk fl = Some fl'"
  shows "fleet_inv fl'"
proof -
  have msk: "length msk = upstream_count fl" "\<And>i. i < upstream_count fl \<Longrightarrow> covered fl i \<Longrightarrow> msk ! i"
    using assms(1,2) by (auto simp: fleet_inv_def topology_inv_def)
  define r where "r = fst (set_drained_mask msk (fl_router fl))"
  note M = set_drained_mask_frame [OF msk(1)]
  obtain a where fl': "fl' = (fl\<lparr>fl_router := r, fl_guards := fl_guards fl\<rparr>)\<lparr>fl_attestation := a, fl_active := flags, fl_topology := None\<rparr>"
    using assms(3) M(1) by (auto simp: topology_commit_def r_def split_beta)
  have "load_inv (r, fl_guards fl)"
    using dispatch_step_inv [OF step_mask] assms(1) by (fastforce simp: fleet_inv_def r_def)
  then have "fleet_inv (fl\<lparr>fl_router := r, fl_guards := fl_guards fl\<rparr>)" (is "fleet_inv ?g")
    using M msk by (intro inv_router [OF assms(1)]) (auto simp: r_def)
  moreover have "fence_at fl' i = fence_at ?g i" for i
    by (simp add: fl' fence_at_def park_actuates_def policy_fences_def)
  moreover have "decision_at fl' d i = decision_at ?g d i" "actions_at fl' d acts i = actions_at ?g d acts i" for d i acts
    by (simp_all add: fl' decision_at_def actions_at_def policy_fences_def)
  ultimately show ?thesis
    by (simp add: fleet_inv_def lengths_inv_def decision_inv_def topology_inv_def) (simp add: fl')
qed

lemma fleet_step_inv: "fleet_step ops parse fl fl' \<Longrightarrow> fleet_inv fl \<Longrightarrow> fleet_inv fl'"
proof (induction rule: fleet_step.induct)
  case (fs_request fl r gs)
  then show ?case by (intro inv_request) auto
next
  case (fs_apply fl d acts)
  then show ?case by (auto simp: inv_defs)
next
  case (fs_apply_one fl d acts k)
  then have "fleet_inv (apply_one d k fl)" by (intro inv_apply_one) (auto simp: is_ticked_def)
  moreover have "fl_phase (apply_one d k fl) = Applying d acts k" using fs_apply_one by (simp add: apply_one_def)
  ultimately show ?case by (auto simp: inv_defs)
next
  case (fs_issue fl d acts)
  then show ?case by (auto simp: issue_calls_def inv_defs)
next
  case (fs_reapply fl d)
  then show ?case by (auto simp: inv_defs)
next
  case (fs_reapply_one fl d k)
  then have "fleet_inv (apply_one d k fl)" by (intro inv_apply_one) (auto simp: is_ticked_def)
  moreover have "fl_phase (apply_one d k fl) = Reapplying d k" using fs_reapply_one by (simp add: apply_one_def)
  ultimately show ?case by (auto simp: inv_defs)
next
  case (fs_rest fl d)
  then show ?case by (auto simp: inv_defs)
next
  case (fs_topology fl us flags fl')
  show ?case
    by (rule inv_topology [OF fs_topology(5,2) _ fs_topology(4)]) (use length_topology_next [OF fs_topology(3)] in simp)
next
  case (fs_activity fl now)
  then show ?case by (rule inv_activity)
next
  case (fs_start fl)
  show ?case by (rule inv_start [OF fs_start(2,1)])
next
  case (fs_sample fl obs)
  show ?case by (rule inv_sample [OF fs_sample(3,1,2)])
next
  case (fs_tick fl obs now d p)
  show ?case by (rule inv_tick [OF fs_tick(4,1,2,3)])
next
  case (fs_publish fl d)
  show ?case by (rule inv_publish [OF fs_publish(3,1,2)])
next
  case (fs_publish_one fl d k)
  show ?case by (rule inv_publish_one [OF fs_publish_one(3,1,2)])
next
  case (fs_converge fl d)
  show ?case by (rule inv_converge [OF fs_converge(2,1)])
next
  case (fs_results fl d acts resp)
  show ?case by (rule inv_results [OF fs_results(2,1)])
next
  case (fs_install fl flags msk fl')
  show ?case by (rule inv_install [OF fs_install(3,1,2)])
qed

lemma fleet_run_inv: "(fleet_step ops parse)\<^sup>*\<^sup>* fl fl' \<Longrightarrow> fleet_inv fl \<Longrightarrow> fleet_inv fl'"
  by (induction rule: rtranclp_induct) (auto intro: fleet_step_inv)

lemma fleet_new_inv:
  assumes "router_new ops rc = Some r" "policy_new c (length (in_states (r_inner r))) now = Some p"
  shows "fleet_inv (fleet_new r p pc)"
proof -
  have p: "dp_states p = replicate (length (in_states (r_inner r))) Warm"
    "length (busy_since_ms p) = length (in_states (r_inner r))"
    using assms(2) by (auto simp: policy_new_def split: if_splits)
  show ?thesis
    using p router_new_inv [OF assms(1)] by (simp add: fleet_new_def Let_def inv_defs must_fence_def fenced_def)
qed

section \<open>An uninterrupted round is a run\<close>

lemma fleet_loop:
  assumes "\<And>k g. k < n \<Longrightarrow> step (g\<lparr>fl_phase := P k\<rparr>) ((f k g)\<lparr>fl_phase := P (Suc k)\<rparr>)"
  shows "step\<^sup>*\<^sup>* (g\<lparr>fl_phase := P 0\<rparr>) ((fold f [0..<n] g)\<lparr>fl_phase := P n\<rparr>)"
  using assms
proof (induction n)
  case (Suc n)
  then have "step\<^sup>*\<^sup>* (g\<lparr>fl_phase := P 0\<rparr>) ((fold f [0..<n] g)\<lparr>fl_phase := P n\<rparr>)" by simp
  moreover have "step ((fold f [0..<n] g)\<lparr>fl_phase := P n\<rparr>) ((fold f [0..<Suc n] g)\<lparr>fl_phase := P (Suc n)\<rparr>)"
    using Suc.prems [of n "fold f [0..<n] g"] by simp
  ultimately show ?case by (rule rtranclp.rtrancl_into_rtrancl)
qed simp

lemma fence_one_phase [simp]:
  "publish_one d k (g\<lparr>fl_phase := x\<rparr>) = (publish_one d k g)\<lparr>fl_phase := x\<rparr>"
  "apply_one d k (g\<lparr>fl_phase := x\<rparr>) = (apply_one d k g)\<lparr>fl_phase := x\<rparr>"
  by (simp_all add: publish_one_def apply_one_def routing_fenced_def topology_active_def park_state_of_def park_actuates_def)

lemma publish_fenced_frame [simp]:
  "publish_fenced d (g\<lparr>fl_phase := x\<rparr>) = (publish_fenced d g)\<lparr>fl_phase := x\<rparr>"
  "fl_topology (publish_fenced d g) = fl_topology g" "fl_phase (publish_fenced d g) = fl_phase g"
  by (cases g, simp add: publish_fenced_def)+

lemma resting_id: "fl_phase g = Resting \<Longrightarrow> g\<lparr>fl_phase := Resting\<rparr> = g"
  by (cases g) simp

text \<open>What publishing and applying fences leave alone: everything but the drain flags of the router.\<close>

definition same_but_fences :: "'c fleet \<Rightarrow> 'c fleet \<Rightarrow> bool" where
  "same_but_fences g h \<longleftrightarrow> fl_topology h = fl_topology g \<and> fl_park h = fl_park g \<and> fl_phase h = fl_phase g \<and>
     fl_policy h = fl_policy g \<and> fl_park_config h = fl_park_config g \<and> upstream_count h = upstream_count g \<and>
     (\<forall>u. map_option (\<lambda>s. (us_inflight s, us_healthy s)) (get (in_states (r_inner (fl_router h))) u) =
        map_option (\<lambda>s. (us_inflight s, us_healthy s)) (get (in_states (r_inner (fl_router g))) u))"

lemma same_but_fences_trans: "same_but_fences g h \<Longrightarrow> same_but_fences h k \<Longrightarrow> same_but_fences g k"
  by (simp add: same_but_fences_def)

lemma same_but_fences_router: "same_but_fences g (g\<lparr>fl_router := set_drained u b (fl_router g)\<rparr>)"
  by (auto simp: same_but_fences_def set_drained_def update_state_def get_def nth_list_update split: option.splits)

lemma same_but_fences_one: "same_but_fences g (publish_one d k g)" "same_but_fences g (apply_one d k g)"
  using same_but_fences_router [of g] by (auto simp: publish_one_def apply_one_def same_but_fences_def [of g g])

lemma same_but_fences_fold:
  "(\<And>k g. same_but_fences g (f k g)) \<Longrightarrow> same_but_fences g (fold f ks g)"
proof (induction ks arbitrary: g)
  case (Cons k ks)
  then show ?case using same_but_fences_trans [of g "f k g"] by simp
qed (simp add: same_but_fences_def)

lemma fences_same: "same_but_fences g (publish_idle_drain d g)" "same_but_fences g (apply_park_fences d g)"
proof -
  have "same_but_fences g (publish_fenced d g)" by (simp add: same_but_fences_def publish_fenced_def)
  then show "same_but_fences g (publish_idle_drain d g)"
    unfolding publish_idle_drain_def by (rule same_but_fences_trans) (rule same_but_fences_fold, rule same_but_fences_one)
  show "same_but_fences g (apply_park_fences d g)"
    unfolding apply_park_fences_def by (rule same_but_fences_fold, rule same_but_fences_one)
qed

lemma fences_frame [simp]:
  "fl_topology (publish_idle_drain d g) = fl_topology g" "fl_topology (apply_park_fences d g) = fl_topology g"
  "fl_park (apply_park_fences d g) = fl_park g" "fl_park (publish_idle_drain d g) = fl_park g"
  "fl_phase (apply_park_fences d g) = fl_phase g" "fl_phase (publish_idle_drain d g) = fl_phase g"
  "fl_policy (apply_park_fences d g) = fl_policy g" "fl_policy (publish_idle_drain d g) = fl_policy g"
  "fl_park_config (apply_park_fences d g) = fl_park_config g" "fl_park_config (publish_idle_drain d g) = fl_park_config g"
  using fences_same [of g d] by (simp_all add: same_but_fences_def)

lemma sample_same:
  assumes "same_but_fences g h"
  shows "sample_upstream ops u h = sample_upstream ops u g"
proof -
  have "map_option (\<lambda>s. (us_inflight s, us_healthy s)) (get (in_states (r_inner (fl_router h))) u) =
      map_option (\<lambda>s. (us_inflight s, us_healthy s)) (get (in_states (r_inner (fl_router g))) u)"
    using assms by (simp add: same_but_fences_def)
  then show ?thesis
    by (cases "get (in_states (r_inner (fl_router g))) u"; cases "get (in_states (r_inner (fl_router h))) u")
      (auto simp: sample_upstream_def router_state_def)
qed

lemma run_sampling:
  assumes "fl_phase fl = Resting" "k \<le> upstream_count fl"
  shows "(fleet_step ops parse)\<^sup>*\<^sup>* fl (fl\<lparr>fl_phase := Sampling (map (\<lambda>u. sample_upstream ops u fl) [0..<k])\<rparr>)"
  using assms(2)
proof (induction k)
  case 0
  then show ?case using fs_start [OF assms(1), of ops parse] by auto
next
  case (Suc k)
  let ?g = "fl\<lparr>fl_phase := Sampling (map (\<lambda>u. sample_upstream ops u fl) [0..<k])\<rparr>"
  have "fleet_step ops parse ?g (fl\<lparr>fl_phase := Sampling (map (\<lambda>u. sample_upstream ops u fl) [0..<Suc k])\<rparr>)"
    using fs_sample [of ?g "map (\<lambda>u. sample_upstream ops u fl) [0..<k]" ops parse] Suc.prems
    by (simp add: sample_upstream_def)
  then show ?case using Suc by (meson Suc_leD rtranclp.rtrancl_into_rtrancl)
qed

text \<open>The part of a round before the park actions are planned.\<close>

lemma run_publish:
  assumes "fl_phase fl = Resting" "fl_topology fl = None"
    "drain_tick now (map (\<lambda>u. sample_upstream ops u fl) [0..<upstream_count fl]) (fl_policy fl) = (d, p)"
  shows "(fleet_step ops parse)\<^sup>*\<^sup>* fl
     ((publish_idle_drain d (fl\<lparr>fl_policy := p\<rparr>))\<lparr>fl_phase := Publishing d (length (dd_upstreams d))\<rparr>)"
proof -
  let ?obs = "map (\<lambda>u. sample_upstream ops u fl) [0..<upstream_count fl]"
  let ?s = "fl\<lparr>fl_phase := Sampling ?obs\<rparr>" and ?p = "fl\<lparr>fl_policy := p\<rparr>"
  have 1: "(fleet_step ops parse)\<^sup>*\<^sup>* fl ?s" by (rule run_sampling [OF assms(1) order_refl])
  have 2: "fleet_step ops parse ?s (?p\<lparr>fl_phase := Ticked d\<rparr>)"
    using fs_tick [of ?s ?obs now d p ops parse] assms(3) by simp
  have 3: "fleet_step ops parse (?p\<lparr>fl_phase := Ticked d\<rparr>) ((publish_fenced d ?p)\<lparr>fl_phase := Publishing d 0\<rparr>)"
    using fs_publish [of "?p\<lparr>fl_phase := Ticked d\<rparr>" d ops parse] assms(2) by simp
  have 4: "(fleet_step ops parse)\<^sup>*\<^sup>* ((publish_fenced d ?p)\<lparr>fl_phase := Publishing d 0\<rparr>)
      ((publish_idle_drain d ?p)\<lparr>fl_phase := Publishing d (length (dd_upstreams d))\<rparr>)"
    unfolding publish_idle_drain_def
  proof (rule fleet_loop)
    fix k and g :: "'a fleet" assume "k < length (dd_upstreams d)"
    then show "fleet_step ops parse (g\<lparr>fl_phase := Publishing d k\<rparr>) ((publish_one d k g)\<lparr>fl_phase := Publishing d (Suc k)\<rparr>)"
      using fs_publish_one [of "g\<lparr>fl_phase := Publishing d k\<rparr>" d k ops parse] by simp
  qed
  from 1 2 3 4 show ?thesis by (meson rtranclp.rtrancl_into_rtrancl rtranclp_trans)
qed

lemma run_apply:
  assumes "fl_topology g = None"
  shows "(fleet_step ops parse)\<^sup>*\<^sup>* (g\<lparr>fl_phase := Marked d acts\<rparr>) (issue_calls d acts (apply_park_fences d g))"
proof -
  have 1: "fleet_step ops parse (g\<lparr>fl_phase := Marked d acts\<rparr>) (g\<lparr>fl_phase := Applying d acts 0\<rparr>)"
    using fs_apply [of "g\<lparr>fl_phase := Marked d acts\<rparr>" d acts ops parse] assms by simp
  have 2: "(fleet_step ops parse)\<^sup>*\<^sup>* (g\<lparr>fl_phase := Applying d acts 0\<rparr>)
      ((apply_park_fences d g)\<lparr>fl_phase := Applying d acts (length (dd_upstreams d))\<rparr>)"
    unfolding apply_park_fences_def
  proof (rule fleet_loop)
    fix k and g :: "'a fleet" assume "k < length (dd_upstreams d)"
    then show "fleet_step ops parse (g\<lparr>fl_phase := Applying d acts k\<rparr>) ((apply_one d k g)\<lparr>fl_phase := Applying d acts (Suc k)\<rparr>)"
      using fs_apply_one [of "g\<lparr>fl_phase := Applying d acts k\<rparr>" d acts k ops parse] by simp
  qed
  have 3: "fleet_step ops parse ((apply_park_fences d g)\<lparr>fl_phase := Applying d acts (length (dd_upstreams d))\<rparr>)
      (issue_calls d acts (apply_park_fences d g))"
    using fs_issue [of "(apply_park_fences d g)\<lparr>fl_phase := Applying d acts (length (dd_upstreams d))\<rparr>" d acts ops parse]
    by (simp add: issue_calls_def split: if_splits)
  from 1 2 3 show ?thesis by (meson converse_rtranclp_into_rtranclp rtranclp.rtrancl_into_rtrancl)
qed

lemma run_reapply:
  assumes "fl_topology g = None"
  shows "(fleet_step ops parse)\<^sup>*\<^sup>* (g\<lparr>fl_phase := Returned d\<rparr>) ((apply_park_fences d g)\<lparr>fl_phase := Resting\<rparr>)"
proof -
  have 1: "fleet_step ops parse (g\<lparr>fl_phase := Returned d\<rparr>) (g\<lparr>fl_phase := Reapplying d 0\<rparr>)"
    using fs_reapply [of "g\<lparr>fl_phase := Returned d\<rparr>" d ops parse] assms by simp
  have 2: "(fleet_step ops parse)\<^sup>*\<^sup>* (g\<lparr>fl_phase := Reapplying d 0\<rparr>)
      ((apply_park_fences d g)\<lparr>fl_phase := Reapplying d (length (dd_upstreams d))\<rparr>)"
    unfolding apply_park_fences_def
  proof (rule fleet_loop)
    fix k and g :: "'a fleet" assume "k < length (dd_upstreams d)"
    then show "fleet_step ops parse (g\<lparr>fl_phase := Reapplying d k\<rparr>) ((apply_one d k g)\<lparr>fl_phase := Reapplying d (Suc k)\<rparr>)"
      using fs_reapply_one [of "g\<lparr>fl_phase := Reapplying d k\<rparr>" d k ops parse] by simp
  qed
  have 3: "fleet_step ops parse ((apply_park_fences d g)\<lparr>fl_phase := Reapplying d (length (dd_upstreams d))\<rparr>)
      ((apply_park_fences d g)\<lparr>fl_phase := Resting\<rparr>)"
    using fs_rest [of "(apply_park_fences d g)\<lparr>fl_phase := Reapplying d (length (dd_upstreams d))\<rparr>" d ops parse] by simp
  from 1 2 3 show ?thesis by (meson converse_rtranclp_into_rtranclp rtranclp.rtrancl_into_rtrancl)
qed

lemma converge_mark_phase:
  "converge_mark d (g\<lparr>fl_phase := x\<rparr>) =
    (if \<not> park_actuates g then g\<lparr>fl_phase := Resting\<rparr>
     else let acts = plan (dd_upstreams d) (fl_park g) (fl_park_config g)
          in (g\<lparr>fl_park := mark_actions acts (fl_park g)\<rparr>)\<lparr>fl_phase := Marked d acts\<rparr>)"
  by (simp add: converge_mark_def park_actuates_def Let_def)

lemma run_marked:
  assumes "fl_phase fl = Resting" "fl_topology fl = None"
    "drain_tick now (map (\<lambda>u. sample_upstream ops u fl) [0..<upstream_count fl]) (fl_policy fl) = (d, p)"
  shows "(fleet_step ops parse)\<^sup>*\<^sup>* fl
     (converge_mark d ((publish_idle_drain d (fl\<lparr>fl_policy := p\<rparr>))\<lparr>fl_phase := Publishing d (length (dd_upstreams d))\<rparr>))"
  by (rule rtranclp.rtrancl_into_rtrancl [OF run_publish [OF assms]], rule fs_converge) simp

lemma round_is_run:
  assumes "fl_phase fl = Resting" "fl_topology fl = None"
  shows "(fleet_step ops parse)\<^sup>*\<^sup>* fl (idle_drain_round ops parse now resp fl)"
proof -
  obtain d p where dp: "drain_tick now (map (\<lambda>u. sample_upstream ops u fl) [0..<upstream_count fl]) (fl_policy fl) = (d, p)"
    by (metis prod.exhaust)
  define g where "g = publish_idle_drain d (fl\<lparr>fl_policy := p\<rparr>)"
  have g: "fl_phase g = Resting" "fl_topology g = None" "g\<lparr>fl_phase := Resting\<rparr> = g"
    using assms by (simp_all add: g_def resting_id)
  have pre: "(fleet_step ops parse)\<^sup>*\<^sup>* fl (converge_mark d (g\<lparr>fl_phase := Publishing d (length (dd_upstreams d))\<rparr>))"
    unfolding g_def by (rule run_marked [OF assms dp])
  have "(fleet_step ops parse)\<^sup>*\<^sup>* fl (converge_engine_parking parse resp d g)"
  proof (cases "park_actuates g")
    case False
    then show ?thesis using pre g(3) by (simp add: converge_mark_phase converge_engine_parking_def)
  next
    case True
    define acts where "acts = plan (dd_upstreams d) (fl_park g) (fl_park_config g)"
    define h where "h = apply_park_fences d (g\<lparr>fl_park := mark_actions acts (fl_park g)\<rparr>)"
    have h: "fl_phase h = Resting" "fl_topology h = None" using g by (simp_all add: h_def)
    have m: "(fleet_step ops parse)\<^sup>*\<^sup>* fl (issue_calls d acts h)"
      using pre run_apply [of "g\<lparr>fl_park := mark_actions acts (fl_park g)\<rparr>" ops parse d acts] True g
      by (simp add: converge_mark_phase acts_def [symmetric] h_def Let_def)
    show ?thesis
    proof (cases "list_all (\<lambda>a. a = None) acts")
      case none: True
      then have "issue_calls d acts h = h" using h by (simp add: issue_calls_def resting_id)
      then show ?thesis using m True none by (simp add: converge_engine_parking_def acts_def [symmetric] h_def [symmetric] Let_def)
    next
      case False
      let ?h = "h\<lparr>fl_park := settle_calls parse acts resp (fl_park h)\<rparr>"
      have "fleet_step ops parse (issue_calls d acts h) (?h\<lparr>fl_phase := Returned d\<rparr>)"
        using fs_results [of "h\<lparr>fl_phase := Calling d acts\<rparr>" d acts ops parse resp] False by (simp add: issue_calls_def)
      moreover have "(fleet_step ops parse)\<^sup>*\<^sup>* (?h\<lparr>fl_phase := Returned d\<rparr>) (apply_park_fences d ?h)"
        using run_reapply [of ?h ops parse d] h resting_id [of "apply_park_fences d ?h"] by simp
      ultimately show ?thesis
        using m True False
        by (simp add: converge_engine_parking_def acts_def [symmetric] h_def [symmetric] Let_def)
    qed
  qed
  then show ?thesis by (simp add: idle_drain_round_def dp g_def)
qed

section \<open>Properties\<close>

text \<open>
  C20. No request is dispatched to an engine that may be asleep. In every interleaving of idle-drain rounds, engine
  responses (including lost ones), topology changes and request traffic, a replica whose believed sleep state is not
  awake carries the drain fence of the router, and the router grants no reservation on it, failing open or not.
\<close>

theorem parked_engine_gets_no_request:
  assumes "router_new ops rc = Some r" "policy_new c (length (in_states (r_inner r))) t0 = Some p"
    and "(fleet_step ops parse)\<^sup>*\<^sup>* (fleet_new r p pc) fl"
    and "i < length (fl_park fl)" "fl_park fl ! i \<noteq> Awake"
  shows "drained i (fl_router fl) \<and> acquire_gated i units require_healthy (fl_router fl) = (None, fl_router fl)"
proof -
  have inv: "fleet_inv fl" by (rule fleet_run_inv [OF assms(3) fleet_new_inv [OF assms(1,2)]])
  then have "i < upstream_count fl" using assms(4) by (simp add: fleet_inv_def lengths_inv_def)
  moreover have "must_fence (fl_park fl ! i)" using assms(5) by (cases "fl_park fl ! i") (auto simp: must_fence_def)
  ultimately have "drained i (fl_router fl)" using inv by (simp add: fleet_inv_def fence_at_def)
  then show ?thesis by (auto simp: drained_def acquire_gated_def Let_def split: option.splits)
qed

text \<open>
  C21. A sleep call never aborts a request. While the calls of a round are outstanding, and already when they are
  marked, a replica that is being put to sleep has no request in flight and no live reservation, although requests,
  topology changes and engine calls interleave with the round that sampled it.
\<close>

theorem sleep_call_aborts_nothing:
  assumes "router_new ops rc = Some r" "policy_new c (length (in_states (r_inner r))) t0 = Some p"
    and "(fleet_step ops parse)\<^sup>*\<^sup>* (fleet_new r p pc) fl"
    and "actions_of (fl_phase fl) = Some acts" "i < length acts" "acts ! i = Some Sleep"
  shows "inflight i (fl_router fl) = 0 \<and> live i (fl_guards fl) = 0"
proof -
  have inv: "fleet_inv fl" by (rule fleet_run_inv [OF assms(3) fleet_new_inv [OF assms(1,2)]])
  obtain d where d: "decision_of (fl_phase fl) = Some d" using assms(4) by (cases "fl_phase fl") auto
  then have i: "i < upstream_count fl" and A: "actions_at fl d acts i" "decision_at fl d i"
    using inv assms(4,5) by (auto simp: fleet_inv_def decision_inv_def)
  then have "inflight i (fl_router fl) = 0" using assms(6) by (simp add: actions_at_def decision_at_def)
  moreover have "us_inflight (in_states (r_inner (fl_router fl)) ! i) = live i (fl_guards fl)"
    using inv i by (simp add: fleet_inv_def load_inv_def)
  ultimately show ?thesis using i by (simp add: inflight_def get_def)
qed

section \<open>A concrete run\<close>

definition fleet_a :: "(nat \<times> (u64 \<times> nat) list) fleet" where
  "fleet_a = fleet_new load_router quiet_pair engine_park_default"

definition draining_pair :: idle_drain_policy where
  "draining_pair = quiet_pair\<lparr>dp_states := [Warm, Draining], busy_since_ms := [0, 10], last_drain_transition_ms := Some 10\<rparr>"

definition sleeps_well :: "nat \<Rightarrow> park_response" where
  "sleeps_well i = Park_Response True None"

definition no_json :: "string \<Rightarrow> unit json option" where
  "no_json s = None"

definition fleet_b :: "(nat \<times> (u64 \<times> nat) list) fleet" where
  "fleet_b = idle_drain_round list_lru no_json 10 sleeps_well fleet_a"

definition first_decision :: idle_drain_decision where
  "first_decision = fst (drain_tick 10 none_busy quiet_pair)"

definition second_decision :: idle_drain_decision where
  "second_decision = fst (drain_tick 20 none_busy draining_pair)"

lemma fleet_a_simps: "upstream_count fleet_a = 2" "fl_phase fleet_a = Resting" "fl_topology fleet_a = None"
  "fl_policy fleet_a = quiet_pair" "fl_park fleet_a = [Awake, Awake]" "fl_park_config fleet_a = engine_park_default"
  by (simp_all add: fleet_a_def fleet_new_def load_router_def Let_def)

lemma fleet_a_samples: "map (\<lambda>u. sample_upstream list_lru u fleet_a) [0..<2] = none_busy"
  by (simp add: fleet_a_def fleet_new_def load_router_def none_busy_def sample_upstream_def router_state_def
      fresh_state_def get_def upt_rec Let_def)

lemma first_upstreams:
  "dd_upstreams first_decision =
     [intent_warm, \<lparr>in_state = Draining, in_fenced = True, desired_running = False, safe_to_stop = False\<rparr>]"
  unfolding first_decision_def drain_tick_upstreams quiet_pair_parks
  by (simp add: quiet_pair_def quiet_config_def idle_drain_default_def intent_of_def fences_routing_def intent_warm_def Let_def)

lemma second_upstreams:
  "dd_upstreams second_decision =
     [intent_warm, \<lparr>in_state = Drained, in_fenced = True, desired_running = False, safe_to_stop = True\<rparr>]"
  unfolding second_decision_def drain_tick_upstreams draining_pair_def quiet_pair_drains
  by (simp add: quiet_pair_def quiet_config_def idle_drain_default_def intent_of_def fences_routing_def intent_warm_def
      none_busy_def get_def Let_def)

lemmas plan_eval = plan_def resume_pass_def may_sleep_def engine_park_default_def actuates_def slots_def
  occupies_park_slot_def intent_warm_def get_def

lemma first_plan: "plan (dd_upstreams first_decision) [Awake, Awake] engine_park_default = [None, None]"
  unfolding first_upstreams by (simp add: plan_eval)

lemma second_plan: "plan (dd_upstreams second_decision) [Awake, Awake] engine_park_default = [None, Some Sleep]"
  unfolding second_upstreams by (simp add: plan_eval)

lemma fleet_b_eq: "fleet_b = publish_idle_drain first_decision (fleet_a\<lparr>fl_policy := draining_pair\<rparr>) \<or>
  fleet_b = apply_park_fences first_decision (publish_idle_drain first_decision (fleet_a\<lparr>fl_policy := draining_pair\<rparr>))"
proof -
  define g where "g = publish_idle_drain first_decision (fleet_a\<lparr>fl_policy := draining_pair\<rparr>)"
  have dt: "drain_tick 10 none_busy quiet_pair = (first_decision, draining_pair)"
    by (rule prod_eqI) (simp_all add: first_decision_def quiet_pair_parks draining_pair_def)
  have b: "fleet_b = converge_engine_parking no_json sleeps_well first_decision g"
    unfolding fleet_b_def idle_drain_round_def fleet_a_simps fleet_a_samples by (simp add: dt g_def)
  have "fl_park g = [Awake, Awake]" "fl_park_config g = engine_park_default" by (simp_all add: fleet_a_simps g_def)
  moreover have "apply_park_fences first_decision (g\<lparr>fl_park := [Awake, Awake]\<rparr>) = apply_park_fences first_decision g"
    using calculation(1) by (intro arg_cong [of _ _ "apply_park_fences first_decision"]) (cases g, simp)
  ultimately show ?thesis
    unfolding b converge_engine_parking_def by (simp add: g_def [symmetric] first_plan mark_actions_def mark_one_def)
qed

lemma fleet_b_same: "same_but_fences (fleet_a\<lparr>fl_policy := draining_pair\<rparr>) fleet_b"
  using fleet_b_eq fences_same same_but_fences_trans by metis

lemma fleet_b_simps: "upstream_count fleet_b = 2" "fl_phase fleet_b = Resting" "fl_topology fleet_b = None"
  "fl_policy fleet_b = draining_pair" "fl_park fleet_b = [Awake, Awake]" "fl_park_config fleet_b = engine_park_default"
  using fleet_b_same fleet_a_simps by (simp_all add: same_but_fences_def)

lemma fleet_b_samples: "map (\<lambda>u. sample_upstream list_lru u fleet_b) [0..<2] = none_busy"
proof -
  have "sample_upstream list_lru u fleet_b = sample_upstream list_lru u fleet_a" for u
    using sample_same [OF fleet_b_same, of list_lru u] by (simp add: sample_upstream_def)
  then show ?thesis using fleet_a_samples by simp
qed

lemma second_tick:
  "drain_tick 20 (map (\<lambda>u. sample_upstream list_lru u fleet_b) [0..<upstream_count fleet_b]) (fl_policy fleet_b) =
     (second_decision, snd (drain_tick 20 none_busy draining_pair))"
  unfolding fleet_b_simps fleet_b_samples second_decision_def by simp

lemma draining_pair_mode: "fences_routing (idc_mode (dp_config (snd (drain_tick t obs draining_pair))))"
  by (simp add: draining_pair_def quiet_pair_def quiet_config_def fences_routing_def)

definition fleet_marked :: "(nat \<times> (u64 \<times> nat) list) fleet" where
  "fleet_marked = converge_mark second_decision ((publish_idle_drain second_decision
     (fleet_b\<lparr>fl_policy := snd (drain_tick 20 none_busy draining_pair)\<rparr>))\<lparr>fl_phase := Publishing second_decision 2\<rparr>)"

lemma engine_park_actuates: "actuates (ep_actuator engine_park_default)"
  by (simp add: engine_park_default_def actuates_def)

lemma fleet_marked_simps: "fl_park fleet_marked = [Awake, Parking]" "fl_phase fleet_marked = Marked second_decision [None, Some Sleep]"
  using draining_pair_mode [of 20 none_busy]
  by (simp_all add: fleet_marked_def converge_mark_phase park_actuates_def fleet_b_simps second_plan mark_actions_def mark_one_def
      engine_park_actuates Let_def)

lemma fleet_marked_run: "(fleet_step list_lru no_json)\<^sup>*\<^sup>* (fleet_new load_router quiet_pair engine_park_default) fleet_marked"
proof -
  have "(fleet_step list_lru no_json)\<^sup>*\<^sup>* fleet_a fleet_b"
    unfolding fleet_b_def by (rule round_is_run) (simp_all add: fleet_a_simps)
  moreover have "(fleet_step list_lru no_json)\<^sup>*\<^sup>* fleet_b fleet_marked"
    using run_marked [OF fleet_b_simps(2,3) second_tick, of no_json] by (simp add: fleet_marked_def second_upstreams numeral_2_eq_2)
  ultimately show ?thesis unfolding fleet_a_def by (rule rtranclp_trans)
qed

lemma quiet_pair_new: "policy_new quiet_config (length (in_states (r_inner load_router))) 0 = Some quiet_pair"
  by (simp add: policy_new_def load_router_def quiet_pair_def)

theorem parked_engine_gets_no_request_witness:
  "drained 1 (fl_router fleet_marked) \<and> acquire_gated 1 3 False (fl_router fleet_marked) = (None, fl_router fleet_marked)"
  by (rule parked_engine_gets_no_request [OF load_router_new quiet_pair_new fleet_marked_run])
    (simp_all add: fleet_marked_simps)

theorem sleep_call_aborts_nothing_witness:
  "inflight 1 (fl_router fleet_marked) = 0 \<and> live 1 (fl_guards fleet_marked) = 0"
  by (rule sleep_call_aborts_nothing [OF load_router_new quiet_pair_new fleet_marked_run, of "[None, Some Sleep]"])
    (simp_all add: fleet_marked_simps)

end
