(* ===== verification/Dspark_Guard.thy ===== *)
theory Dspark_Guard
  imports Ramjet_Prelude
begin

text \<open>
  The degeneration detector of \<^verbatim>\<open>src/src/dspark_guard.rs\<close>: consecutive windows of speculative decoding without an
  accepted token, the sticky quarantine and its release by a changed engine incarnation.
\<close>

section \<open>Types\<close>

datatype metric_kind = DraftSteps | ProposedTokens | AcceptedTokens | AcceptedPerPosition

record series_key =
  sk_kind :: metric_kind
  sk_labels :: "(string \<times> string) list"

record dspark_counters =
  draft_steps :: u64
  proposed_tokens :: u64
  accepted_tokens :: u64
  accepted_per_position :: "u64 list"
  series_identity :: "series_key list"

datatype parse_failure =
    Oversized | InvalidUtf8 | TooManyLines | LineTooLong | InvalidExpectedPositions | PF_Malformed | Missing | Partial
  | NonFinite | PF_Duplicate | MultipleSeries | MismatchedLabels | UnexpectedPosition | PF_Capacity | PF_Overflow

fun parse_failure_label :: "parse_failure \<Rightarrow> string" where
  "parse_failure_label Oversized = ''oversized''"
| "parse_failure_label InvalidUtf8 = ''invalid_utf8''"
| "parse_failure_label TooManyLines = ''too_many_lines''"
| "parse_failure_label LineTooLong = ''line_too_long''"
| "parse_failure_label InvalidExpectedPositions = ''invalid_expected_positions''"
| "parse_failure_label PF_Malformed = ''malformed''"
| "parse_failure_label Missing = ''missing''"
| "parse_failure_label Partial = ''partial''"
| "parse_failure_label NonFinite = ''non_finite''"
| "parse_failure_label PF_Duplicate = ''duplicate''"
| "parse_failure_label MultipleSeries = ''multiple_series''"
| "parse_failure_label MismatchedLabels = ''mismatched_labels''"
| "parse_failure_label UnexpectedPosition = ''unexpected_position''"
| "parse_failure_label PF_Capacity = ''capacity''"
| "parse_failure_label PF_Overflow = ''overflow''"

datatype window_outcome = Baseline | Clean | ZeroAcceptance | Idle_Window | CounterReset | Inconsistent | Parse parse_failure

fun window_outcome_label :: "window_outcome \<Rightarrow> string" where
  "window_outcome_label Baseline = ''baseline''"
| "window_outcome_label Clean = ''clean''"
| "window_outcome_label ZeroAcceptance = ''zero_acceptance''"
| "window_outcome_label Idle_Window = ''idle''"
| "window_outcome_label CounterReset = ''counter_reset''"
| "window_outcome_label Inconsistent = ''inconsistent''"
| "window_outcome_label (Parse f) = parse_failure_label f"

record window_measurement =
  wm_draft_steps :: u64
  wm_proposed_tokens :: u64
  wm_accepted_tokens :: u64
  wm_accepted_per_position :: "u64 list"

record observation =
  obs_outcome :: window_outcome
  obs_consecutive_zero_windows :: nat
  obs_threshold_met :: bool
  newly_met :: bool
  obs_quarantined :: bool
  measurement :: "window_measurement option"

datatype guard_config_error = ExpectedPositions | ConsecutiveWindows | MinimumProposedTokens

datatype quarantine_outcome = Entered | AlreadyQuarantined | ThresholdNotMet | IncarnationUnavailable

datatype incarnation_outcome = Established | Unchanged_Incarnation | Changed | Rearmed

text \<open>The attested commitment of an engine incarnation, 32 bytes.\<close>

type_synonym commitment = "u8 list"

record dspark_guard =
  expected_positions :: nat
  required_zero_windows :: nat
  minimum_proposed_tokens :: u64
  previous :: "dspark_counters option"
  consecutive_zero_windows :: nat
  threshold_met :: bool
  quarantined :: bool
  incarnation :: "commitment option"

section \<open>Operations\<close>

definition max_expected_positions :: nat where
  "max_expected_positions = 64"

definition guard_new :: "nat \<Rightarrow> nat \<Rightarrow> u64 \<Rightarrow> guard_config_error + dspark_guard" where
  "guard_new positions windows minimum =
    (if \<not> (1 \<le> positions \<and> positions \<le> max_expected_positions) then Inl ExpectedPositions
     else if windows < 2 then Inl ConsecutiveWindows
     else if minimum = 0 then Inl MinimumProposedTokens
     else Inr \<lparr>expected_positions = positions, required_zero_windows = windows, minimum_proposed_tokens = minimum,
       previous = None, consecutive_zero_windows = 0, threshold_met = False, quarantined = False, incarnation = None\<rparr>)"

definition clear_streak :: "dspark_guard \<Rightarrow> dspark_guard" where
  "clear_streak g = g\<lparr>consecutive_zero_windows := 0, threshold_met := False\<rparr>"

definition guard_observation :: "window_outcome \<Rightarrow> bool \<Rightarrow> window_measurement option \<Rightarrow> dspark_guard \<Rightarrow> observation" where
  "guard_observation outcome newly m g = \<lparr>obs_outcome = outcome, obs_consecutive_zero_windows = consecutive_zero_windows g,
     obs_threshold_met = threshold_met g, newly_met = newly, obs_quarantined = quarantined g, measurement = m\<rparr>"

definition u64_checked_sub :: "u64 \<Rightarrow> u64 \<Rightarrow> u64 option" where
  "u64_checked_sub a b = (if b \<le> a then Some (a - b) else None)"

text \<open>The loop over the positions: a reset, an overflowing sum, or the deltas with their sum.\<close>

datatype position_deltas = Position_Reset | Position_Overflow | Deltas "u64 list" u64

fun position_loop :: "(u64 \<times> u64) list \<Rightarrow> u64 list \<Rightarrow> u64 \<Rightarrow> position_deltas" where
  "position_loop [] deltas total_delta = Deltas (rev deltas) total_delta"
| "position_loop ((current, prior) # rest) deltas total_delta =
    (case u64_checked_sub current prior of
       None \<Rightarrow> Position_Reset
     | Some delta \<Rightarrow> (case u64_checked_add total_delta delta of
         None \<Rightarrow> Position_Overflow
       | Some next_sum \<Rightarrow> position_loop rest (delta # deltas) next_sum))"

text \<open>The classification of a window between two samples, as \<open>observe\<close> performs it.\<close>

definition classify_window :: "dspark_guard \<Rightarrow> dspark_counters \<Rightarrow> dspark_counters \<Rightarrow> window_outcome \<times> window_measurement option" where
  "classify_window g prior sample =
    (if series_identity sample \<noteq> series_identity prior then (Inconsistent, None)
     else case u64_checked_sub (draft_steps sample) (draft_steps prior) of None \<Rightarrow> (CounterReset, None)
     | Some steps \<Rightarrow> (case u64_checked_sub (proposed_tokens sample) (proposed_tokens prior) of None \<Rightarrow> (CounterReset, None)
       | Some proposed \<Rightarrow> (case u64_checked_sub (accepted_tokens sample) (accepted_tokens prior) of None \<Rightarrow> (CounterReset, None)
         | Some accepted \<Rightarrow>
           (case position_loop (zip (accepted_per_position sample) (accepted_per_position prior)) [] 0 of
              Position_Reset \<Rightarrow> (CounterReset, None)
            | Position_Overflow \<Rightarrow> (Inconsistent, None)
            | Deltas deltas position_sum \<Rightarrow>
                if proposed < accepted \<or> position_sum \<noteq> accepted then (Inconsistent, None)
                else (if steps = 0 \<or> proposed < minimum_proposed_tokens g then Idle_Window
                      else if accepted \<noteq> 0 \<or> \<not> list_all (\<lambda>d. d = 0) deltas then Clean else ZeroAcceptance,
                  Some \<lparr>wm_draft_steps = steps, wm_proposed_tokens = proposed, wm_accepted_tokens = accepted,
                    wm_accepted_per_position = deltas\<rparr>)))))"

text \<open>The effect of a classified window on the detector; only an inconsistent window also drops the new baseline.\<close>

definition settle_window :: "window_outcome \<times> window_measurement option \<Rightarrow> dspark_guard \<Rightarrow> observation \<times> dspark_guard" where
  "settle_window w g = (case w of (outcome, m) \<Rightarrow>
    (if outcome = ZeroAcceptance then
       let streak = min (sat_add (consecutive_zero_windows g) 1) (required_zero_windows g);
           newly = (\<not> threshold_met g \<and> streak = required_zero_windows g);
           g1 = g\<lparr>consecutive_zero_windows := streak, threshold_met := (streak = required_zero_windows g)\<rparr>
       in (guard_observation outcome newly m g1, g1)
     else let g1 = clear_streak (if outcome = Inconsistent then g\<lparr>previous := None\<rparr> else g)
          in (guard_observation outcome False m g1, g1)))"

definition observe_sample :: "parse_failure + dspark_counters \<Rightarrow> dspark_guard \<Rightarrow> observation \<times> dspark_guard" where
  "observe_sample result g = (case result of
     Inl failure \<Rightarrow> let g1 = clear_streak (g\<lparr>previous := None\<rparr>) in (guard_observation (Parse failure) False None g1, g1)
   | Inr sample \<Rightarrow>
      if length (accepted_per_position sample) \<noteq> expected_positions g then
        let g1 = clear_streak (g\<lparr>previous := None\<rparr>)
        in (guard_observation (Parse InvalidExpectedPositions) False None g1, g1)
      else (case previous g of
         None \<Rightarrow> let g1 = clear_streak (g\<lparr>previous := Some sample\<rparr>) in (guard_observation Baseline False None g1, g1)
       | Some prior \<Rightarrow> settle_window (classify_window g prior sample) (g\<lparr>previous := Some sample\<rparr>)))"

definition quarantine :: "dspark_guard \<Rightarrow> quarantine_outcome \<times> dspark_guard" where
  "quarantine g =
    (if quarantined g then (AlreadyQuarantined, g)
     else if \<not> threshold_met g then (ThresholdNotMet, g)
     else if incarnation g = None then (IncarnationUnavailable, g)
     else (Entered, g\<lparr>quarantined := True\<rparr>))"

definition attest_incarnation :: "commitment \<Rightarrow> dspark_guard \<Rightarrow> incarnation_outcome \<times> dspark_guard" where
  "attest_incarnation c g = (case incarnation g of
     None \<Rightarrow> (Established, clear_streak (g\<lparr>incarnation := Some c, previous := None\<rparr>))
   | Some prior \<Rightarrow>
      if prior = c then (Unchanged_Incarnation, g)
      else let g1 = clear_streak (g\<lparr>incarnation := Some c, previous := None\<rparr>)
           in if quarantined g1 then (Rearmed, g1\<lparr>quarantined := False\<rparr>) else (Changed, g1))"

definition restore_quarantine :: "commitment \<Rightarrow> dspark_guard \<Rightarrow> dspark_guard" where
  "restore_quarantine c g = (clear_streak (g\<lparr>incarnation := Some c, previous := None\<rparr>))\<lparr>quarantined := True\<rparr>"

section \<open>What a streak is evidence of\<close>

datatype guard_event =
    Observed "parse_failure + dspark_counters"
  | Attested commitment
  | Quarantine_Request
  | Restored commitment

fun guard_step :: "guard_event \<Rightarrow> dspark_guard \<Rightarrow> dspark_guard" where
  "guard_step (Observed r) g = snd (observe_sample r g)"
| "guard_step (Attested c) g = snd (attest_incarnation c g)"
| "guard_step Quarantine_Request g = snd (quarantine g)"
| "guard_step (Restored c) g = restore_quarantine c g"

text \<open>A run over a trace of events, newest first.\<close>

primrec guard_run :: "dspark_guard \<Rightarrow> guard_event list \<Rightarrow> dspark_guard" where
  "guard_run g0 [] = g0"
| "guard_run g0 (e # es) = guard_step e (guard_run g0 es)"

text \<open>The last incarnation attested or restored in a trace.\<close>

fun attested_core :: "guard_event list \<Rightarrow> commitment option" where
  "attested_core [] = None"
| "attested_core (Attested c # es) = Some c"
| "attested_core (Restored c # es) = Some c"
| "attested_core (_ # es) = attested_core es"

text \<open>
  A window in which the engine proposed at least the configured number of tokens and none was accepted at any position,
  with no counter going backwards.
\<close>

definition zero_window :: "dspark_guard \<Rightarrow> dspark_counters \<Rightarrow> dspark_counters \<Rightarrow> bool" where
  "zero_window g prior sample \<longleftrightarrow> series_identity sample = series_identity prior \<and>
     length (accepted_per_position sample) = expected_positions g \<and>
     draft_steps prior < draft_steps sample \<and>
     unat (proposed_tokens prior) + unat (minimum_proposed_tokens g) \<le> unat (proposed_tokens sample) \<and>
     accepted_tokens sample = accepted_tokens prior \<and>
     accepted_per_position sample = accepted_per_position prior"

text \<open>
  \<open>zero_run g0 k s es\<close>: the latest sample of the trace is \<open>s\<close>, it ends \<open>k\<close> adjacent zero windows, no sample in between
  was rejected, and the engine incarnation did not change since the first of them.
\<close>

fun zero_run :: "dspark_guard \<Rightarrow> nat \<Rightarrow> dspark_counters \<Rightarrow> guard_event list \<Rightarrow> bool" where
  "zero_run g0 k s [] = False"
| "zero_run g0 k s (Observed r # es) \<longleftrightarrow> r = Inr s \<and> (k = 0 \<or> (\<exists>prior. zero_window g0 prior s \<and> zero_run g0 (k - 1) prior es))"
| "zero_run g0 k s (Attested c # es) \<longleftrightarrow> attested_core es = Some c \<and> zero_run g0 k s es"
| "zero_run g0 k s (Quarantine_Request # es) \<longleftrightarrow> zero_run g0 k s es"
| "zero_run g0 k s (Restored c # es) \<longleftrightarrow> False"

lemma position_loop_Deltas:
  "position_loop ps ds t = Deltas deltas u \<Longrightarrow>
   deltas = rev ds @ map (\<lambda>(a, b). a - b) ps \<and> (\<forall>(a, b) \<in> set ps. b \<le> a)"
  by (induction ps ds t rule: position_loop.induct) (auto simp: u64_checked_sub_def split: option.splits if_splits)

lemma position_loop_zero:
  assumes "position_loop (zip xs ys) [] 0 = Deltas deltas u" "length xs = length ys" "list_all (\<lambda>d. d = 0) deltas"
  shows "xs = ys"
proof -
  have "deltas = map (\<lambda>(a, b). a - b) (zip xs ys)" using position_loop_Deltas [OF assms(1)] by simp
  then have "\<forall>i < length ys. xs ! i - ys ! i = 0" using assms(2,3) by (simp add: list_all_length)
  then show ?thesis using assms(2) by (intro nth_equalityI) auto
qed

lemma u64_checked_sub_Some: "u64_checked_sub a b = Some c \<longleftrightarrow> b \<le> a \<and> c = a - b"
  by (auto simp: u64_checked_sub_def)

lemma classify_zero:
  assumes "fst (classify_window g prior sample) = ZeroAcceptance" "length (accepted_per_position sample) = expected_positions g"
    "length (accepted_per_position prior) = expected_positions g"
  shows "zero_window g prior sample"
proof -
  from assms(1) obtain steps proposed accepted deltas position_sum where
    S: "series_identity sample = series_identity prior"
      "draft_steps prior \<le> draft_steps sample" "steps = draft_steps sample - draft_steps prior"
      "proposed_tokens prior \<le> proposed_tokens sample" "proposed = proposed_tokens sample - proposed_tokens prior"
      "accepted_tokens prior \<le> accepted_tokens sample" "accepted = accepted_tokens sample - accepted_tokens prior"
      "position_loop (zip (accepted_per_position sample) (accepted_per_position prior)) [] 0 = Deltas deltas position_sum"
      "steps \<noteq> 0" "\<not> proposed < minimum_proposed_tokens g" "accepted = 0" "list_all (\<lambda>d. d = 0) deltas"
    by (auto simp: classify_window_def u64_checked_sub_Some split: if_splits option.splits position_deltas.splits)
  have "accepted_per_position sample = accepted_per_position prior"
    by (rule position_loop_zero [OF S(8) _ S(12)]) (simp add: assms(2,3))
  moreover have "draft_steps prior < draft_steps sample" using S(2,3,9) by (simp add: order_le_less)
  moreover have "accepted_tokens sample = accepted_tokens prior" using S(7,11) by simp
  moreover have "unat proposed = unat (proposed_tokens sample) - unat (proposed_tokens prior)"
    using S(4,5) by (simp add: unat_sub)
  then have "unat (proposed_tokens prior) + unat (minimum_proposed_tokens g) \<le> unat (proposed_tokens sample)"
    using S(4,10) by (simp add: word_less_nat_alt word_le_nat_alt not_less)
  ultimately show ?thesis using S(1) assms(2) by (simp add: zero_window_def)
qed

lemma clear_streak_simps [simp]:
  "previous (clear_streak g) = previous g" "consecutive_zero_windows (clear_streak g) = 0" "\<not> threshold_met (clear_streak g)"
  "quarantined (clear_streak g) = quarantined g" "incarnation (clear_streak g) = incarnation g"
  "expected_positions (clear_streak g) = expected_positions g" "required_zero_windows (clear_streak g) = required_zero_windows g"
  "minimum_proposed_tokens (clear_streak g) = minimum_proposed_tokens g"
  by (simp_all add: clear_streak_def)

text \<open>What an observation leaves of the detector.\<close>

lemma observe_frame [simp]:
  "quarantined (snd (observe_sample r g)) = quarantined g" "incarnation (snd (observe_sample r g)) = incarnation g"
  "expected_positions (snd (observe_sample r g)) = expected_positions g"
  "required_zero_windows (snd (observe_sample r g)) = required_zero_windows g"
  "minimum_proposed_tokens (snd (observe_sample r g)) = minimum_proposed_tokens g"
  by (auto simp: observe_sample_def settle_window_def Let_def split: sum.splits option.splits prod.splits)

lemma observe_streak:
  assumes "consecutive_zero_windows g \<le> required_zero_windows g" "required_zero_windows g \<le> usize_max"
  obtains (broken) "consecutive_zero_windows (snd (observe_sample r g)) = 0" "\<not> threshold_met (snd (observe_sample r g))"
      "\<And>s. previous (snd (observe_sample r g)) = Some s \<Longrightarrow>
         r = Inr s \<and> length (accepted_per_position s) = expected_positions g"
    | (zero) prior s where "r = Inr s" "previous g = Some prior" "previous (snd (observe_sample r g)) = Some s"
      "length (accepted_per_position s) = expected_positions g"
      "length (accepted_per_position prior) = expected_positions g \<Longrightarrow> zero_window g prior s"
      "consecutive_zero_windows (snd (observe_sample r g)) = min (Suc (consecutive_zero_windows g)) (required_zero_windows g)"
      "threshold_met (snd (observe_sample r g)) \<longleftrightarrow>
         consecutive_zero_windows (snd (observe_sample r g)) = required_zero_windows g"
proof (cases r)
  case (Inl f)
  then show thesis by (intro broken) (auto simp: observe_sample_def Let_def)
next
  case (Inr s)
  show thesis
  proof (cases "length (accepted_per_position s) = expected_positions g")
    case False
    then show thesis using Inr by (intro broken) (auto simp: observe_sample_def Let_def)
  next
    case len: True
    show thesis
    proof (cases "previous g")
      case None
      then show thesis using Inr len by (intro broken) (auto simp: observe_sample_def Let_def)
    next
      case (Some prior)
      let ?g = "g\<lparr>previous := Some s\<rparr>"
      have e: "snd (observe_sample (Inr s) g) = snd (settle_window (classify_window g prior s) ?g)"
        using len Some by (simp add: observe_sample_def)
      obtain out m where c: "classify_window g prior s = (out, m)" by (cases "classify_window g prior s")
      show thesis
      proof (cases "out = ZeroAcceptance")
        case True
        have "sat_add (consecutive_zero_windows g) 1 = Suc (consecutive_zero_windows g) \<or>
            (consecutive_zero_windows g = required_zero_windows g \<and> sat_add (consecutive_zero_windows g) 1 \<ge> required_zero_windows g)"
          using assms by (auto simp: sat_add_def)
        then have "min (sat_add (consecutive_zero_windows g) 1) (required_zero_windows g) =
            min (Suc (consecutive_zero_windows g)) (required_zero_windows g)"
          by auto
        then show thesis
          using classify_zero [of g prior s] True c len Inr Some by (intro zero) (auto simp: e settle_window_def Let_def)
      next
        case False
        then show thesis using Inr len by (intro broken) (auto simp: e c settle_window_def Let_def split: if_splits)
      qed
    qed
  qed
qed

text \<open>The invariant of a run of the detector.\<close>

definition guard_inv :: "dspark_guard \<Rightarrow> guard_event list \<Rightarrow> dspark_guard \<Rightarrow> bool" where
  "guard_inv g0 es g \<longleftrightarrow> expected_positions g = expected_positions g0 \<and>
     minimum_proposed_tokens g = minimum_proposed_tokens g0 \<and> required_zero_windows g = required_zero_windows g0 \<and>
     incarnation g = attested_core es \<and> consecutive_zero_windows g \<le> required_zero_windows g \<and>
     (threshold_met g \<longleftrightarrow> consecutive_zero_windows g = required_zero_windows g) \<and>
     (previous g = None \<longrightarrow> consecutive_zero_windows g = 0) \<and>
     (\<forall>s. previous g = Some s \<longrightarrow> length (accepted_per_position s) = expected_positions g0 \<and>
        zero_run g0 (consecutive_zero_windows g) s es)"

lemma zero_window_cong:
  "expected_positions g = expected_positions g0 \<Longrightarrow> minimum_proposed_tokens g = minimum_proposed_tokens g0 \<Longrightarrow>
   zero_window g = zero_window g0"
  by (simp add: zero_window_def fun_eq_iff)

lemma zero_run_less: "zero_run g0 k s es \<Longrightarrow> j \<le> k \<Longrightarrow> zero_run g0 j s es"
proof (induction g0 k s es arbitrary: j rule: zero_run.induct)
  case (2 g0 k s r es)
  show ?case
  proof (cases "j = 0")
    case False
    then obtain prior where "zero_window g0 prior s" "zero_run g0 (k - 1) prior es" using 2(2,3) by auto
    moreover have "zero_run g0 (j - 1) prior es" by (rule 2(1)) (use calculation False 2(3) in auto)
    ultimately show ?thesis using 2(2) by auto
  qed (use 2 in simp)
qed simp_all

lemma guard_inv_observe:
  assumes "guard_inv g0 es g" "2 \<le> required_zero_windows g0" "required_zero_windows g0 \<le> usize_max"
  shows "guard_inv g0 (Observed r # es) (snd (observe_sample r g))"
proof -
  note I = assms(1) [unfolded guard_inv_def]
  have b: "consecutive_zero_windows g \<le> required_zero_windows g" "required_zero_windows g \<le> usize_max" using I assms(3) by auto
  from b show ?thesis
  proof (cases rule: observe_streak [where r = r, case_names broken zero])
    case broken
    then show ?thesis using I assms(2) by (auto simp: guard_inv_def)
  next
    case (zero prior s)
    have "length (accepted_per_position prior) = expected_positions g0" "zero_run g0 (consecutive_zero_windows g) prior es"
      using I zero(2) by auto
    moreover from this have "zero_window g0 prior s"
      using zero(5) zero_window_cong [of g g0] I by simp
    ultimately have "zero_run g0 (min (Suc (consecutive_zero_windows g)) (required_zero_windows g)) s (Observed r # es)"
      using zero(1) zero_run_less [of g0 "consecutive_zero_windows g" prior es] by (auto simp: min_def intro!: exI [of _ prior])
    then show ?thesis using I zero by (auto simp: guard_inv_def simp del: zero_run.simps)
  qed
qed

lemma guard_inv_attest:
  assumes "guard_inv g0 es g" "2 \<le> required_zero_windows g0"
  shows "guard_inv g0 (Attested c # es) (snd (attest_incarnation c g))"
proof (cases "incarnation g = Some c")
  case True
  then have "snd (attest_incarnation c g) = g" by (simp add: attest_incarnation_def)
  then show ?thesis using assms True by (auto simp: guard_inv_def)
next
  case False
  then have "previous (snd (attest_incarnation c g)) = None \<and> consecutive_zero_windows (snd (attest_incarnation c g)) = 0 \<and>
      \<not> threshold_met (snd (attest_incarnation c g)) \<and> incarnation (snd (attest_incarnation c g)) = Some c \<and>
      expected_positions (snd (attest_incarnation c g)) = expected_positions g \<and>
      minimum_proposed_tokens (snd (attest_incarnation c g)) = minimum_proposed_tokens g \<and>
      required_zero_windows (snd (attest_incarnation c g)) = required_zero_windows g"
    by (auto simp: attest_incarnation_def Let_def split: option.splits)
  then show ?thesis using assms by (auto simp: guard_inv_def)
qed

lemma guard_run_inv:
  assumes "guard_new n w m = Inr g0" "w \<le> usize_max"
  shows "guard_inv g0 es (guard_run g0 es)"
proof (induction es)
  case Nil
  then show ?case using assms by (auto simp: guard_new_def guard_inv_def split: if_splits)
next
  case (Cons e es)
  have w: "2 \<le> required_zero_windows g0" "required_zero_windows g0 \<le> usize_max"
    using assms by (auto simp: guard_new_def split: if_splits)
  show ?case
  proof (cases e)
    case (Observed r)
    then show ?thesis using guard_inv_observe [OF Cons w] by simp
  next
    case (Attested c)
    then show ?thesis using guard_inv_attest [OF Cons w(1)] by simp
  next
    case Quarantine_Request
    then show ?thesis using Cons by (auto simp: guard_inv_def quarantine_def)
  next
    case (Restored c)
    then show ?thesis using Cons w by (auto simp: guard_inv_def restore_quarantine_def)
  qed
qed

text \<open>
  C22. Quarantine is only entered on evidence. In every run of a detector, a quarantine request succeeds only when the
  latest samples are at least the configured number of adjacent windows, none rejected, in each of which the engine
  proposed the minimum number of tokens, no counter went backwards and not one token was accepted at any position, all
  under one attested engine incarnation.
\<close>

theorem quarantine_needs_zero_run:
  assumes "guard_new n w m = Inr g0" "w \<le> usize_max" "fst (quarantine (guard_run g0 es)) = Entered"
  shows "2 \<le> w \<and> (\<exists>s c. zero_run g0 w s es \<and> attested_core es = Some c)"
proof -
  have w: "2 \<le> w" "required_zero_windows g0 = w" using assms(1) by (auto simp: guard_new_def split: if_splits)
  have I: "guard_inv g0 es (guard_run g0 es)" by (rule guard_run_inv [OF assms(1,2)])
  have q: "threshold_met (guard_run g0 es)" "incarnation (guard_run g0 es) \<noteq> None"
    using assms(3) by (auto simp: quarantine_def split: if_splits)
  then have k: "consecutive_zero_windows (guard_run g0 es) = w" using I w by (auto simp: guard_inv_def)
  then obtain s where "previous (guard_run g0 es) = Some s"
    using I w(1) by (cases "previous (guard_run g0 es)") (auto simp: guard_inv_def)
  then show ?thesis using I q(2) k w(1) by (auto simp: guard_inv_def)
qed

definition zero_sample :: "nat \<Rightarrow> dspark_counters" where
  "zero_sample k = \<lparr>draft_steps = of_nat k, proposed_tokens = of_nat (100 * k), accepted_tokens = 7,
     accepted_per_position = [7], series_identity = []\<rparr>"

definition zero_guard :: dspark_guard where
  "zero_guard = \<lparr>expected_positions = 1, required_zero_windows = 2, minimum_proposed_tokens = 100, previous = None,
     consecutive_zero_windows = 0, threshold_met = False, quarantined = False, incarnation = None\<rparr>"

lemma zero_guard_new: "guard_new 1 2 100 = Inr zero_guard"
  by (simp add: guard_new_def zero_guard_def max_expected_positions_def)

lemmas guard_eval = observe_sample_def settle_window_def classify_window_def u64_checked_sub_def u64_checked_add_def
  clear_streak_def guard_observation_def attest_incarnation_def sat_add_def usize_max_eq Let_def

theorem quarantine_needs_zero_run_witness:
  "2 \<le> (2::nat) \<and> (\<exists>s c. zero_run zero_guard 2 s
     [Observed (Inr (zero_sample 3)), Observed (Inr (zero_sample 2)), Observed (Inr (zero_sample 1)), Attested [1]] \<and>
     attested_core [Observed (Inr (zero_sample 3)), Observed (Inr (zero_sample 2)), Observed (Inr (zero_sample 1)), Attested [1]] = Some c)"
  by (rule quarantine_needs_zero_run [OF zero_guard_new])
    (simp add: usize_max_eq, simp add: guard_eval zero_sample_def zero_guard_def quarantine_def)

text \<open>Once entered, quarantine ends exactly when a different incarnation is attested.\<close>

lemma quarantine_sticky:
  assumes "quarantined g" "incarnation g = Some c"
    and "\<And>c'. Attested c' \<in> set es \<or> Restored c' \<in> set es \<Longrightarrow> c' = c"
  shows "quarantined (guard_run g es) \<and> incarnation (guard_run g es) = Some c"
  using assms(3)
proof (induction es)
  case (Cons e es)
  then show ?case
    by (cases e) (auto simp: attest_incarnation_def quarantine_def restore_quarantine_def assms)
qed (simp add: assms)

lemma quarantine_released:
  assumes "quarantined g" "incarnation g = Some c" "c' \<noteq> c"
  shows "fst (attest_incarnation c' g) = Rearmed \<and> \<not> quarantined (snd (attest_incarnation c' g)) \<and>
    previous (snd (attest_incarnation c' g)) = None"
  using assms by (auto simp: attest_incarnation_def Let_def)

end
