(* ===== verification/Dspark_Store.thy ===== *)
theory Dspark_Store
  imports Ramjet_Prelude
begin

unbundle bit_operations_syntax

text \<open>
  The durable quarantine store of \<^verbatim>\<open>src/src/dspark_guard_store.rs\<close>: its document codec, the checks on the protected
  file and its parents, publication by a synced rename, and the operations of a process lifetime. The JSON library is
  a parameter (\<open>serde\<close>); what the file system and the random source answer is an argument of each operation.
\<close>

section \<open>Types\<close>

type_synonym sha256 = "u8 list"

definition max_state_bytes :: nat where "max_state_bytes = 4 * 1024"
definition max_path_bytes :: nat where "max_path_bytes = 4096"
definition max_replicas :: nat where "max_replicas = 64"
definition schema_version :: u8 where "schema_version = 1"

record store_policy =
  owner_uid :: u32
  group_gid :: u32

datatype store_mutation = Added | Unchanged | Removed

datatype store_error =
    InvalidPath | UnsafeParent | DirectoryLocked | UnsafeFile | ReadFailed | SE_Malformed | NonCanonical
  | UnsupportedSchema | SE_Capacity | SE_Duplicate | InvalidReplica | UpstreamMismatch | RecordConflict | SameEngineCore
  | MissingRecord | EncodeFailed | PublishFailed | CommitUncertain

fun store_error_label :: "store_error \<Rightarrow> string" where
  "store_error_label InvalidPath = ''invalid_path''"
| "store_error_label UnsafeParent = ''unsafe_parent''"
| "store_error_label DirectoryLocked = ''directory_locked''"
| "store_error_label UnsafeFile = ''unsafe_file''"
| "store_error_label ReadFailed = ''read_failed''"
| "store_error_label SE_Malformed = ''malformed''"
| "store_error_label NonCanonical = ''non_canonical''"
| "store_error_label UnsupportedSchema = ''unsupported_schema''"
| "store_error_label SE_Capacity = ''capacity''"
| "store_error_label SE_Duplicate = ''duplicate''"
| "store_error_label InvalidReplica = ''invalid_replica''"
| "store_error_label UpstreamMismatch = ''upstream_mismatch''"
| "store_error_label RecordConflict = ''record_conflict''"
| "store_error_label SameEngineCore = ''same_engine_core''"
| "store_error_label MissingRecord = ''missing_record''"
| "store_error_label EncodeFailed = ''encode_failed''"
| "store_error_label PublishFailed = ''publish_failed''"
| "store_error_label CommitUncertain = ''commit_uncertain''"

record quarantine_record =
  qr_upstream :: sha256
  qr_core :: sha256

text \<open>A \<open>BTreeMap\<close> from replicas to records: an association list in key order.\<close>

type_synonym records = "(nat \<times> quarantine_record) list"

fun rec_insert :: "nat \<Rightarrow> quarantine_record \<Rightarrow> records \<Rightarrow> records" where
  "rec_insert k v [] = [(k, v)]"
| "rec_insert k v ((k', v') # rs) =
    (if k < k' then (k, v) # (k', v') # rs else if k = k' then (k, v) # rs else (k', v') # rec_insert k v rs)"

definition rec_remove :: "nat \<Rightarrow> records \<Rightarrow> records" where
  "rec_remove k rs = filter (\<lambda>(k', _). k' \<noteq> k) rs"

record wire_record =
  wr_replica :: nat
  wr_upstream :: string
  wr_core :: string

record wire_document =
  wd_schema :: u8
  wd_dirty :: bool
  wd_quarantines :: "wire_record list"

record serde =
  to_vec :: "wire_document \<Rightarrow> string option"
  from_slice :: "string \<Rightarrow> wire_document option"

section \<open>Document codec\<close>

definition hex_digits :: string where
  "hex_digits = ''0123456789abcdef''"

fun hex :: "u8 list \<Rightarrow> string" where
  "hex [] = []"
| "hex (b # bs) = (hex_digits ! unat (drop_bit 4 b)) # (hex_digits ! unat (b AND 15)) # hex bs"

definition nibble :: "char \<Rightarrow> store_error + u8" where
  "nibble c = (let v = (of_char c :: nat) in
     if 48 \<le> v \<and> v \<le> 57 then Inr (of_nat (v - 48))
     else if 97 \<le> v \<and> v \<le> 102 then Inr (of_nat (v - 97 + 10))
     else Inl SE_Malformed)"

definition is_hex :: "char \<Rightarrow> bool" where
  "is_hex c = (let v = (of_char c :: nat) in (48 \<le> v \<and> v \<le> 57) \<or> (97 \<le> v \<and> v \<le> 102))"

fun decode_pairs :: "string \<Rightarrow> store_error + u8 list" where
  "decode_pairs (a # b # rest) = (case nibble a of Inl e \<Rightarrow> Inl e
     | Inr x \<Rightarrow> (case nibble b of Inl e \<Rightarrow> Inl e
       | Inr y \<Rightarrow> map_sum id (\<lambda>bs. (push_bit 4 x OR y) # bs) (decode_pairs rest)))"
| "decode_pairs _ = Inr []"

definition decode_sha256 :: "string \<Rightarrow> store_error + sha256" where
  "decode_sha256 value = (if length value \<noteq> 64 \<or> \<not> list_all is_hex value then Inl SE_Malformed else decode_pairs value)"

definition encode_document :: "serde \<Rightarrow> records \<Rightarrow> bool \<Rightarrow> store_error + string" where
  "encode_document sd rs dirty =
    (case to_vec sd \<lparr>wd_schema = schema_version, wd_dirty = dirty, wd_quarantines =
        map (\<lambda>(replica, r). \<lparr>wr_replica = replica, wr_upstream = hex (qr_upstream r), wr_core = hex (qr_core r)\<rparr>) rs\<rparr> of
       None \<Rightarrow> Inl EncodeFailed | Some bytes \<Rightarrow> Inr bytes)"

fun decode_records :: "sha256 list \<Rightarrow> wire_record list \<Rightarrow> records \<Rightarrow> sha256 list \<Rightarrow> store_error + records" where
  "decode_records upstreams [] rs cores = Inr rs"
| "decode_records upstreams (w # ws) rs cores =
    (case get upstreams (wr_replica w) of None \<Rightarrow> Inl InvalidReplica
     | Some expected \<Rightarrow> (case decode_sha256 (wr_upstream w) of Inl e \<Rightarrow> Inl e
       | Inr up \<Rightarrow> (case decode_sha256 (wr_core w) of Inl e \<Rightarrow> Inl e
         | Inr core \<Rightarrow>
           if up \<noteq> expected then Inl UpstreamMismatch
           else if wr_replica w \<in> fst ` set rs \<or> core \<in> set cores then Inl SE_Duplicate
           else decode_records upstreams ws (rec_insert (wr_replica w) \<lparr>qr_upstream = up, qr_core = core\<rparr> rs) (core # cores))))"

definition decode_document :: "serde \<Rightarrow> string \<Rightarrow> sha256 list \<Rightarrow> store_error + records \<times> bool" where
  "decode_document sd bytes upstreams =
    (case from_slice sd bytes of None \<Rightarrow> Inl SE_Malformed
     | Some doc \<Rightarrow>
       if wd_schema doc \<noteq> schema_version then Inl UnsupportedSchema
       else if length upstreams < length (wd_quarantines doc) \<or> max_replicas < length (wd_quarantines doc) then Inl SE_Capacity
       else (case decode_records upstreams (wd_quarantines doc) [] [] of Inl e \<Rightarrow> Inl e
         | Inr rs \<Rightarrow> (case encode_document sd rs (wd_dirty doc) of Inl e \<Rightarrow> Inl e
           | Inr canonical \<Rightarrow> if canonical \<noteq> bytes then Inl NonCanonical else Inr (rs, wd_dirty doc))))"

section \<open>The protected file\<close>

record file_identity =
  fi_device :: u64
  fi_inode :: u64

record file_metadata =
  md_is_dir :: bool
  md_is_file :: bool
  md_nlink :: u64
  md_uid :: u32
  md_gid :: u32
  md_mode :: u32
  md_len :: u64
  md_identity :: file_identity

datatype component = RootDir | Normal string | CurDir | ParentDir | Prefix

text \<open>A path is its list of components, with its length in bytes.\<close>

definition validate_normalized_absolute_path :: "component list \<Rightarrow> nat \<Rightarrow> store_error + unit" where
  "validate_normalized_absolute_path cs bytes =
    (if (cs = [] \<or> hd cs \<noteq> RootDir) \<or> max_path_bytes < bytes
        \<or> (case last cs of Normal _ \<Rightarrow> False | _ \<Rightarrow> True)
        \<or> list_ex (\<lambda>c. case c of RootDir \<Rightarrow> False | Normal _ \<Rightarrow> False | _ \<Rightarrow> True) cs
     then Inl InvalidPath else Inr ())"

type_synonym file_system = "component list \<Rightarrow> file_metadata option"

definition component_ok :: "file_system \<Rightarrow> store_policy \<Rightarrow> component list \<Rightarrow> component list \<Rightarrow> bool" where
  "component_ok fs policy parent current = (case fs current of None \<Rightarrow> False
     | Some m \<Rightarrow> md_is_dir m \<and> (md_uid m = 0 \<or> md_uid m = owner_uid policy) \<and>
        (md_mode m AND 18 \<noteq> 0 \<longrightarrow> md_uid m = 0 \<and> md_mode m AND 512 \<noteq> 0 \<and> current \<noteq> parent))"

fun validate_components :: "file_system \<Rightarrow> store_policy \<Rightarrow> component list \<Rightarrow> component list \<Rightarrow> component list \<Rightarrow> store_error + unit" where
  "validate_components fs policy parent current [] = Inr ()"
| "validate_components fs policy parent current (c # cs) =
    (case c of
       CurDir \<Rightarrow> Inl InvalidPath | ParentDir \<Rightarrow> Inl InvalidPath | Prefix \<Rightarrow> Inl InvalidPath
     | _ \<Rightarrow> if component_ok fs policy parent (current @ [c]) then validate_components fs policy parent (current @ [c]) cs
            else Inl UnsafeParent)"

definition validate_parents :: "file_system \<Rightarrow> component list \<Rightarrow> store_policy \<Rightarrow> store_error + file_metadata" where
  "validate_parents fs parent policy =
    (case validate_components fs policy parent [] parent of Inl e \<Rightarrow> Inl e
     | Inr _ \<Rightarrow> (case fs parent of None \<Rightarrow> Inl UnsafeParent
       | Some m \<Rightarrow> if md_uid m \<noteq> owner_uid policy \<or> md_gid m \<noteq> group_gid policy \<or> md_mode m AND 511 \<noteq> 448
                   then Inl UnsafeParent else Inr m))"

definition validate_file_metadata :: "file_metadata \<Rightarrow> store_policy \<Rightarrow> bool" where
  "validate_file_metadata m policy \<longleftrightarrow> \<not> (\<not> md_is_file m \<or> md_nlink m \<noteq> 1 \<or> md_uid m \<noteq> owner_uid policy \<or>
     md_gid m \<noteq> group_gid policy \<or> md_mode m AND 511 \<noteq> 384 \<or> md_len m = 0 \<or> max_state_bytes < unat (md_len m))"

section \<open>Publication\<close>

record guard_store =
  gs_path :: "component list"
  gs_parent :: "component list"
  gs_parent_identity :: file_identity
  gs_policy :: store_policy
  gs_upstreams :: "sha256 list"
  gs_records :: records
  gs_target :: file_identity
  gs_dirty :: bool
  gs_uncertain :: "nat set"
  gs_poisoned :: "nat set"

definition revalidate :: "file_system \<Rightarrow> file_metadata option \<Rightarrow> guard_store \<Rightarrow> store_error + unit" where
  "revalidate fs locked st =
    (case validate_parents fs (gs_parent st) (gs_policy st) of Inl e \<Rightarrow> Inl e
     | Inr parent \<Rightarrow>
       if md_identity parent \<noteq> gs_parent_identity st then Inl UnsafeParent
       else (case locked of None \<Rightarrow> Inl UnsafeParent
         | Some l \<Rightarrow>
           if md_identity l \<noteq> gs_parent_identity st then Inl UnsafeParent
           else (case fs (gs_path st) of None \<Rightarrow> Inl UnsafeFile
             | Some m \<Rightarrow> if \<not> validate_file_metadata m (gs_policy st) then Inl UnsafeFile
                 else if md_identity m \<noteq> gs_target st then Inl UnsafeFile else Inr ())))"

text \<open>What the operating system answers during one publication, in the order of the calls.\<close>

record publish_env =
  pe_fs :: file_system
  pe_locked :: "file_metadata option"
  pe_random :: bool
  pe_create :: bool
  pe_write_sync :: bool
  pe_temporary :: "file_metadata option"
  pe_fs2 :: file_system
  pe_locked2 :: "file_metadata option"
  pe_rename :: bool
  pe_dir_sync :: bool
  pe_published :: "file_metadata option"

text \<open>The bytes that became the content of the file, if the rename took place.\<close>

type_synonym publication = "string option"

definition publish_replacement ::
  "serde \<Rightarrow> publish_env \<Rightarrow> records \<Rightarrow> bool \<Rightarrow> guard_store \<Rightarrow> (store_error + unit) \<times> guard_store \<times> publication" where
  "publish_replacement sd env rs dirty st =
    (case encode_document sd rs dirty of Inl e \<Rightarrow> (Inl e, st, None)
     | Inr encoded \<Rightarrow>
       if max_state_bytes < length encoded then (Inl SE_Capacity, st, None)
       else (case revalidate (pe_fs env) (pe_locked env) st of Inl e \<Rightarrow> (Inl e, st, None)
         | Inr _ \<Rightarrow>
           if \<not> pe_random env \<or> \<not> pe_create env \<or> \<not> pe_write_sync env then (Inl PublishFailed, st, None)
           else (case pe_temporary env of None \<Rightarrow> (Inl PublishFailed, st, None)
             | Some tmp \<Rightarrow>
               if \<not> validate_file_metadata tmp (gs_policy st) then (Inl PublishFailed, st, None)
               else (case revalidate (pe_fs2 env) (pe_locked2 env) st of Inl e \<Rightarrow> (Inl e, st, None)
                 | Inr _ \<Rightarrow>
                   if \<not> pe_rename env then (Inl PublishFailed, st, None)
                   else (case pe_published env of None \<Rightarrow> (Inl CommitUncertain, st, Some encoded)
                     | Some m \<Rightarrow>
                       if \<not> validate_file_metadata m (gs_policy st) then (Inl CommitUncertain, st, Some encoded)
                       else (if pe_dir_sync env then Inr () else Inl CommitUncertain,
                             st\<lparr>gs_target := md_identity m, gs_dirty := dirty\<rparr>, Some encoded))))))"

section \<open>Operations\<close>

definition quarantined_engine_core :: "nat \<Rightarrow> guard_store \<Rightarrow> sha256 option" where
  "quarantined_engine_core replica st = map_option qr_core (map_of (gs_records st) replica)"

definition requires_uncertain_fence :: "nat \<Rightarrow> guard_store \<Rightarrow> bool" where
  "requires_uncertain_fence replica st \<longleftrightarrow> replica \<in> gs_uncertain st"

definition poison :: "nat \<Rightarrow> guard_store \<Rightarrow> guard_store" where
  "poison replica st = st\<lparr>gs_poisoned := insert replica (gs_poisoned st)\<rparr>"

definition unpoison :: "nat \<Rightarrow> guard_store \<Rightarrow> guard_store" where
  "unpoison replica st = st\<lparr>gs_poisoned := gs_poisoned st - {replica}\<rparr>"

definition poison_runtime :: "nat \<Rightarrow> guard_store \<Rightarrow> (store_error + unit) \<times> guard_store" where
  "poison_runtime replica st = (case get (gs_upstreams st) replica of None \<Rightarrow> (Inl InvalidReplica, st)
     | Some _ \<Rightarrow> (Inr (), poison replica st))"

definition persist_quarantine ::
  "serde \<Rightarrow> publish_env \<Rightarrow> nat \<Rightarrow> sha256 \<Rightarrow> guard_store \<Rightarrow> (store_error + store_mutation) \<times> guard_store \<times> publication" where
  "persist_quarantine sd env replica core st =
    (case get (gs_upstreams st) replica of None \<Rightarrow> (Inl InvalidReplica, st, None)
     | Some up \<Rightarrow>
       let candidate = \<lparr>qr_upstream = up, qr_core = core\<rparr> in
       (case map_of (gs_records st) replica of
          Some existing \<Rightarrow>
            if existing = candidate then (Inr Unchanged, unpoison replica st, None)
            else (Inl RecordConflict, poison replica st, None)
        | None \<Rightarrow>
            if core \<in> qr_core ` snd ` set (gs_records st) then (Inl SE_Duplicate, poison replica st, None)
            else let rs = rec_insert replica candidate (gs_records st) in
              (case publish_replacement sd env rs True st of
                 (Inl e, st1, pub) \<Rightarrow> (Inl e, poison replica st1, pub)
               | (Inr _, st1, pub) \<Rightarrow> (Inr Added, unpoison replica (st1\<lparr>gs_records := rs\<rparr>), pub))))"

definition persist_uncertain_fence ::
  "serde \<Rightarrow> publish_env \<Rightarrow> nat \<Rightarrow> sha256 \<Rightarrow> guard_store \<Rightarrow> (store_error + store_mutation) \<times> guard_store \<times> publication" where
  "persist_uncertain_fence sd env replica core st =
    (case persist_quarantine sd env replica core st of
       (Inl e, st1, pub) \<Rightarrow> (Inl e, st1, pub)
     | (Inr m, st1, pub) \<Rightarrow> (Inr m, st1\<lparr>gs_uncertain := gs_uncertain st1 - {replica}\<rparr>, pub))"

definition persist_rearm ::
  "serde \<Rightarrow> publish_env \<Rightarrow> nat \<Rightarrow> sha256 \<Rightarrow> sha256 \<Rightarrow> guard_store \<Rightarrow> (store_error + store_mutation) \<times> guard_store \<times> publication" where
  "persist_rearm sd env replica quarantined replacement st =
    (if quarantined = replacement then (Inl SameEngineCore, st, None)
     else case get (gs_upstreams st) replica of None \<Rightarrow> (Inl InvalidReplica, st, None)
     | Some up \<Rightarrow> (case map_of (gs_records st) replica of None \<Rightarrow> (Inl MissingRecord, st, None)
       | Some existing \<Rightarrow>
          if qr_upstream existing \<noteq> up \<or> qr_core existing \<noteq> quarantined then (Inl RecordConflict, st, None)
          else let rs = rec_remove replica (gs_records st) in
            (case publish_replacement sd env rs True st of
               (Inl e, st1, pub) \<Rightarrow> (Inl e, poison replica st1, pub)
             | (Inr _, st1, pub) \<Rightarrow> (Inr Removed, unpoison replica (st1\<lparr>gs_records := rs\<rparr>), pub))))"

definition arm_runtime :: "serde \<Rightarrow> publish_env \<Rightarrow> guard_store \<Rightarrow> (store_error + unit) \<times> guard_store \<times> publication" where
  "arm_runtime sd env st = (if gs_dirty st then (Inr (), st, None) else publish_replacement sd env (gs_records st) True st)"

text \<open>What the operating system answers while the store is opened.\<close>

record open_env =
  oe_fs :: file_system
  oe_open :: bool
  oe_lock :: bool
  oe_locked :: "file_metadata option"
  oe_read :: "string option"
  oe_after :: "file_metadata option"
  oe_publish :: publish_env

definition store_loaded :: "component list \<Rightarrow> file_identity \<Rightarrow> file_identity \<Rightarrow> store_policy \<Rightarrow> sha256 list \<Rightarrow> records \<Rightarrow> bool \<Rightarrow> guard_store" where
  "store_loaded path parent_identity target policy upstreams rs dirty =
     \<lparr>gs_path = path, gs_parent = butlast path, gs_parent_identity = parent_identity, gs_policy = policy,
      gs_upstreams = upstreams, gs_records = rs, gs_target = target, gs_dirty = dirty,
      gs_uncertain = (if dirty then set (filter (\<lambda>i. map_of rs i = None) [0..<length upstreams]) else {}),
      gs_poisoned = {}\<rparr>"

text \<open>The last step of opening: the precommitted dirty marker.\<close>

definition arm_loaded :: "serde \<Rightarrow> publish_env \<Rightarrow> guard_store \<Rightarrow> (store_error + guard_store) \<times> publication" where
  "arm_loaded sd env st = (case arm_runtime sd env st of
     (Inl e, st1, pub) \<Rightarrow> (Inl e, pub) | (Inr _, st1, pub) \<Rightarrow> (Inr st1, pub))"

definition store_open ::
  "serde \<Rightarrow> open_env \<Rightarrow> component list \<Rightarrow> nat \<Rightarrow> store_policy \<Rightarrow> sha256 list \<Rightarrow> (store_error + guard_store) \<times> publication" where
  "store_open sd env path path_bytes policy upstreams =
    (if upstreams = [] \<or> max_replicas < length upstreams then (Inl SE_Capacity, None)
     else case validate_normalized_absolute_path path path_bytes of Inl e \<Rightarrow> (Inl e, None)
     | Inr _ \<Rightarrow> (case validate_parents (oe_fs env) (butlast path) policy of Inl e \<Rightarrow> (Inl e, None)
       | Inr parent \<Rightarrow>
         if \<not> oe_open env then (Inl UnsafeParent, None)
         else if \<not> oe_lock env then (Inl DirectoryLocked, None)
         else (case oe_locked env of None \<Rightarrow> (Inl UnsafeParent, None)
         | Some locked \<Rightarrow>
           if md_identity locked \<noteq> md_identity parent then (Inl UnsafeParent, None)
           else (case oe_fs env path of None \<Rightarrow> (Inl UnsafeFile, None)
           | Some target \<Rightarrow>
             if \<not> validate_file_metadata target policy then (Inl UnsafeFile, None)
             else (case oe_read env of None \<Rightarrow> (Inl ReadFailed, None)
             | Some bytes \<Rightarrow> (case oe_after env of None \<Rightarrow> (Inl UnsafeFile, None)
               | Some after_read \<Rightarrow>
                 if \<not> validate_file_metadata after_read policy then (Inl UnsafeFile, None)
                 else if md_identity after_read \<noteq> md_identity target then (Inl UnsafeFile, None)
                 else (case decode_document sd bytes upstreams of Inl e \<Rightarrow> (Inl e, None)
                 | Inr (rs, dirty) \<Rightarrow>
                   arm_loaded sd (oe_publish env)
                     (store_loaded path (md_identity parent) (md_identity target) policy upstreams rs dirty))))))))"

definition store_drop :: "serde \<Rightarrow> publish_env \<Rightarrow> guard_store \<Rightarrow> publication" where
  "store_drop sd env st =
    (if gs_poisoned st \<noteq> {} \<or> gs_uncertain st \<noteq> {} \<or> \<not> gs_dirty st then None
     else snd (snd (publish_replacement sd env (gs_records st) False st)))"

section \<open>The codec is exact\<close>

lemma less_16_cases:
  fixes n :: nat
  assumes "n < 16" "P 0" "P 1" "P 2" "P 3" "P 4" "P 5" "P 6" "P 7" "P 8" "P 9" "P 10" "P 11" "P 12" "P 13" "P 14" "P 15"
  shows "P n"
proof -
  have "n \<in> {0, 1, 2, 3, 4, 5, 6, 7, 8, 9, 10, 11, 12, 13, 14, 15}" using assms(1) by simp presburger
  then show ?thesis using assms by auto
qed

lemma nibble_digit: "n < 16 \<Longrightarrow> nibble (hex_digits ! n) = Inr (of_nat n) \<and> is_hex (hex_digits ! n)"
  by (erule less_16_cases) (simp_all add: nibble_def is_hex_def hex_digits_def)

lemma u8_halves:
  fixes b :: u8
  shows "unat (drop_bit 4 b) < 16" "unat (b AND 15) < 16" "push_bit 4 (drop_bit 4 b) OR (b AND 15) = b"
proof -
  have "unat b < 256" using unsigned_less [of b] by simp
  then show "unat (drop_bit 4 b) < 16" unfolding unat_drop_bit_eq by (simp add: drop_bit_eq_div)
  show "unat (b AND 15) < 16"
    using word_and_le1 [of b 15] by (simp add: word_le_nat_alt)
  have m: "(15 :: u8) = mask 4" by (simp add: mask_eq_exp_minus_1)
  show "push_bit 4 (drop_bit 4 b) OR (b AND 15) = b"
    unfolding m by (rule bit_eqI) (auto simp: bit_simps)
qed

lemma decode_pairs_hex: "decode_pairs (hex bs) = Inr bs"
  by (induction bs) (simp_all add: nibble_digit u8_halves)

lemma hex_shape: "length (hex bs) = 2 * length bs" "list_all is_hex (hex bs)"
  by (induction bs) (simp_all add: nibble_digit u8_halves)

lemma decode_sha256_hex: "length bs = 32 \<Longrightarrow> decode_sha256 (hex bs) = Inr bs"
  by (simp add: decode_sha256_def hex_shape decode_pairs_hex)

lemma length_decode_pairs: "decode_pairs cs = Inr bs \<Longrightarrow> length bs = length cs div 2"
proof (induction cs arbitrary: bs rule: decode_pairs.induct)
  case (1 a b rest)
  then show ?case by (cases "decode_pairs rest") (auto split: sum.splits)
qed auto

lemma decode_sha256_length: "decode_sha256 cs = Inr bs \<Longrightarrow> length bs = 32"
  by (auto simp: decode_sha256_def dest: length_decode_pairs split: if_splits)

text \<open>Records as the code keeps them: in key order, within the configured upstreams, no engine core twice.\<close>

definition records_ok :: "sha256 list \<Rightarrow> records \<Rightarrow> bool" where
  "records_ok upstreams rs \<longleftrightarrow> sorted_wrt (<) (map fst rs) \<and> distinct (map (qr_core \<circ> snd) rs) \<and>
     (\<forall>(k, r) \<in> set rs. k < length upstreams \<and> qr_upstream r = upstreams ! k \<and> length (qr_upstream r) = 32 \<and> length (qr_core r) = 32)"

lemma set_rec_insert: "k \<notin> fst ` set rs \<Longrightarrow> set (rec_insert k v rs) = insert (k, v) (set rs)"
  by (induction k v rs rule: rec_insert.induct) auto

lemma sorted_rec_insert:
  "sorted_wrt (<) (map fst rs) \<Longrightarrow> k \<notin> fst ` set rs \<Longrightarrow> sorted_wrt (<) (map fst (rec_insert k v rs))"
proof (induction k v rs rule: rec_insert.induct)
  case (2 k v k' v' rs)
  then show ?case by (auto simp: set_rec_insert)
qed simp

lemma distinct_rec_insert:
  "k \<notin> fst ` set rs \<Longrightarrow> qr_core v \<notin> qr_core ` snd ` set rs \<Longrightarrow> distinct (map (qr_core \<circ> snd) rs) \<Longrightarrow>
   distinct (map (qr_core \<circ> snd) (rec_insert k v rs))"
proof (induction k v rs rule: rec_insert.induct)
  case (2 k v k' v' rs)
  then show ?case by (auto simp: set_rec_insert)
qed simp

lemma map_of_rec_insert: "map_of (rec_insert k v rs) = (map_of rs)(k \<mapsto> v)"
  by (induction k v rs rule: rec_insert.induct) (auto simp: fun_eq_iff)

lemma map_of_rec_remove: "map_of (rec_remove k rs) = (map_of rs)(k := None)"
  by (induction rs) (auto simp: rec_remove_def fun_eq_iff)

lemma records_ok_insert:
  assumes "records_ok ups rs" "map_of rs k = None" "get ups k = Some up" "length up = 32" "length core = 32"
    "core \<notin> qr_core ` snd ` set rs"
  shows "records_ok ups (rec_insert k \<lparr>qr_upstream = up, qr_core = core\<rparr> rs)"
proof -
  have "k \<notin> fst ` set rs" using assms(2) by (simp add: map_of_eq_None_iff)
  then show ?thesis
    using assms by (auto simp: records_ok_def set_rec_insert sorted_rec_insert distinct_rec_insert get_def split: if_splits)
qed

lemma records_ok_remove: "records_ok ups rs \<Longrightarrow> records_ok ups (rec_remove k rs)"
  by (auto simp: records_ok_def rec_remove_def sorted_wrt_map sorted_wrt_filter distinct_map_filter)

definition wire_of :: "nat \<times> quarantine_record \<Rightarrow> wire_record" where
  "wire_of = (\<lambda>(replica, r). \<lparr>wr_replica = replica, wr_upstream = hex (qr_upstream r), wr_core = hex (qr_core r)\<rparr>)"

lemma rec_insert_last: "\<forall>(k', _) \<in> set rs. k' < k \<Longrightarrow> rec_insert k v rs = rs @ [(k, v)]"
  by (induction k v rs rule: rec_insert.induct) auto

lemma decode_records_wire:
  assumes "records_ok ups (acc @ rs)" "set cores = qr_core ` snd ` set acc"
  shows "decode_records ups (map wire_of rs) acc cores = Inr (acc @ rs)"
  using assms
proof (induction rs arbitrary: acc cores)
  case (Cons x rs)
  obtain k r where x: "x = (k, r)" by (cases x)
  have ok: "k < length ups" "qr_upstream r = ups ! k" "length (qr_upstream r) = 32" "length (qr_core r) = 32"
    and less: "\<forall>(k', _) \<in> set acc. k' < k" and new: "qr_core r \<notin> qr_core ` snd ` set acc"
    using Cons.prems(1) by (auto simp: records_ok_def x sorted_wrt_append)
  have "k \<notin> fst ` set acc" using less by auto
  moreover have "decode_records ups (map wire_of rs) (acc @ [(k, r)]) (qr_core r # cores) = Inr ((acc @ [(k, r)]) @ rs)"
    by (rule Cons.IH) (use Cons.prems x in auto)
  moreover have "rec_insert k \<lparr>qr_upstream = ups ! k, qr_core = qr_core r\<rparr> acc = acc @ [(k, r)]"
    using rec_insert_last [OF less, of "\<lparr>qr_upstream = ups ! k, qr_core = qr_core r\<rparr>"] ok(2) by (cases r) simp
  moreover have "wire_of x = \<lparr>wr_replica = k, wr_upstream = hex (qr_upstream r), wr_core = hex (qr_core r)\<rparr>"
    by (simp add: x wire_of_def)
  ultimately show ?case
    using ok new Cons.prems(2) by (simp add: x get_def decode_sha256_hex)
qed simp

lemma records_ok_length: "records_ok ups rs \<Longrightarrow> length rs \<le> length ups"
proof -
  assume ok: "records_ok ups rs"
  have "distinct (map fst rs)"
    using ok by (auto simp: records_ok_def strict_sorted_iff)
  moreover have "set (map fst rs) \<subseteq> {..<length ups}" using ok by (auto simp: records_ok_def)
  ultimately have "card (set (map fst rs)) = length rs" "card (set (map fst rs)) \<le> length ups"
    using card_mono [of "{..<length ups}" "set (map fst rs)"] by (simp_all only: distinct_card length_map card_lessThan finite_lessThan)
  then show ?thesis by simp
qed

definition serde_ok :: "serde \<Rightarrow> bool" where
  "serde_ok sd \<longleftrightarrow> (\<forall>doc bytes. to_vec sd doc = Some bytes \<longrightarrow> from_slice sd bytes = Some doc)"

lemma decode_encode:
  assumes "serde_ok sd" "records_ok ups rs" "length ups \<le> max_replicas" "encode_document sd rs dirty = Inr bytes"
  shows "decode_document sd bytes ups = Inr (rs, dirty)"
proof -
  have e: "to_vec sd \<lparr>wd_schema = schema_version, wd_dirty = dirty, wd_quarantines = map wire_of rs\<rparr> = Some bytes"
    using assms(4) by (auto simp: encode_document_def wire_of_def split: option.splits)
  then have "from_slice sd bytes = Some \<lparr>wd_schema = schema_version, wd_dirty = dirty, wd_quarantines = map wire_of rs\<rparr>"
    using assms(1) by (simp add: serde_ok_def)
  moreover have "decode_records ups (map wire_of rs) [] [] = Inr rs"
    using decode_records_wire [of ups "[]" rs "[]"] assms(2) by simp
  ultimately show ?thesis
    using records_ok_length [OF assms(2)] assms(3,4) by (simp add: decode_document_def)
qed

lemma decode_records_ok:
  assumes "decode_records ups ws acc cores = Inr rs" "records_ok ups acc" "set cores = qr_core ` snd ` set acc"
  shows "records_ok ups rs"
  using assms
proof (induction ups ws acc cores rule: decode_records.induct)
  case (2 upstreams w ws acc cores)
  from 2(2) obtain up core where g: "get upstreams (wr_replica w) = Some up"
    "decode_sha256 (wr_upstream w) = Inr up" "decode_sha256 (wr_core w) = Inr core"
    and n: "wr_replica w \<notin> fst ` set acc" "core \<notin> set cores"
    and d: "decode_records upstreams ws (rec_insert (wr_replica w) \<lparr>qr_upstream = up, qr_core = core\<rparr> acc) (core # cores) = Inr rs"
    by (auto split: option.splits sum.splits if_splits)
  have "map_of acc (wr_replica w) = None" using n(1) by (simp add: map_of_eq_None_iff)
  then have "records_ok upstreams (rec_insert (wr_replica w) \<lparr>qr_upstream = up, qr_core = core\<rparr> acc)"
    using records_ok_insert [OF 2(3) _ g(1)] decode_sha256_length g n 2(4) by simp
  moreover have "set (core # cores) = qr_core ` snd ` set (rec_insert (wr_replica w) \<lparr>qr_upstream = up, qr_core = core\<rparr> acc)"
    using 2(4) n(1) by (simp add: set_rec_insert)
  ultimately show ?case using 2(1) [of up up core] g n d by simp
qed simp

text \<open>
  C23. The store document round trips and is unique. With a JSON library that reads back what it wrote, decoding the
  encoding of a well-formed record set returns exactly that set and the runtime marker; and every byte string the
  decoder accepts is the canonical encoding of a well-formed record set.
\<close>

theorem store_document_round_trip:
  assumes "serde_ok sd" "length ups \<le> max_replicas"
  shows "(records_ok ups rs \<longrightarrow> encode_document sd rs dirty = Inr bytes \<longrightarrow> decode_document sd bytes ups = Inr (rs, dirty)) \<and>
    (decode_document sd bytes ups = Inr (rs, dirty) \<longrightarrow> records_ok ups rs \<and> encode_document sd rs dirty = Inr bytes)"
proof (intro conjI impI)
  show "decode_document sd bytes ups = Inr (rs, dirty)" if "records_ok ups rs" "encode_document sd rs dirty = Inr bytes"
    by (rule decode_encode [OF assms(1) that(1) assms(2) that(2)])
  assume d: "decode_document sd bytes ups = Inr (rs, dirty)"
  then show "encode_document sd rs dirty = Inr bytes"
    by (auto simp: decode_document_def split: option.splits sum.splits if_splits)
  obtain ws where "decode_records ups ws [] [] = Inr rs"
    using d by (auto simp: decode_document_def split: option.splits sum.splits if_splits)
  then show "records_ok ups rs" by (rule decode_records_ok) (simp_all add: records_ok_def)
qed

definition core_a :: sha256 where "core_a = replicate 32 7"
definition upstream_a :: sha256 where "upstream_a = replicate 32 9"

definition record_a :: records where
  "record_a = [(0, \<lparr>qr_upstream = upstream_a, qr_core = core_a\<rparr>)]"

definition wire_a :: "records \<Rightarrow> bool \<Rightarrow> wire_document" where
  "wire_a rs dirty = \<lparr>wd_schema = 1, wd_dirty = dirty, wd_quarantines = map wire_of rs\<rparr>"

text \<open>A library that serialises the four documents of a single replica.\<close>

definition small_serde :: serde where
  "small_serde = \<lparr>to_vec = (\<lambda>d. if d = wire_a [] False then Some ''a'' else if d = wire_a [] True then Some ''b''
       else if d = wire_a record_a False then Some ''c'' else if d = wire_a record_a True then Some ''d'' else None),
     from_slice = (\<lambda>b. if b = ''a'' then Some (wire_a [] False) else if b = ''b'' then Some (wire_a [] True)
       else if b = ''c'' then Some (wire_a record_a False) else if b = ''d'' then Some (wire_a record_a True) else None)\<rparr>"

lemma small_serde_ok: "serde_ok small_serde"
  by (auto simp: serde_ok_def small_serde_def split: if_splits)

lemma small_encode:
  "encode_document small_serde [] False = Inr ''a''" "encode_document small_serde [] True = Inr ''b''"
  "encode_document small_serde record_a False = Inr ''c''" "encode_document small_serde record_a True = Inr ''d''"
  by (simp_all add: encode_document_def small_serde_def wire_a_def wire_of_def record_a_def schema_version_def)

lemma record_a_ok: "records_ok [upstream_a] record_a"
  by (simp add: records_ok_def record_a_def upstream_a_def core_a_def)

theorem store_document_round_trip_witness:
  "decode_document small_serde ''d'' [upstream_a] = Inr (record_a, True) \<and> records_ok [upstream_a] record_a"
  using store_document_round_trip [OF small_serde_ok, of "[upstream_a]" record_a True "''d''"] record_a_ok small_encode(4)
  by (simp add: max_replicas_def)

end
