(* ===== verification/Dspark_Replica.thy ===== *)
theory Dspark_Replica
  imports Dspark_Guard Dspark_Store
begin

text \<open>
  The per-replica reliability fence of \<^verbatim>\<open>src/src/proxy.rs\<close>, which joins the detector (\<^verbatim>\<open>Dspark_Guard\<close>) with the
  durable store (\<^verbatim>\<open>Dspark_Store\<close>): reconciliation of an attested engine, enforcement of a quarantine, the state a
  sample leaves and the health published to the router. The lifetimes around it are in \<^verbatim>\<open>Dspark_World\<close>.
\<close>

section \<open>Types\<close>

datatype guard_mode = Guard_Off | Guard_Observe | Guard_Quarantine

datatype reliability_state =
  RS_Disabled | RS_Baseline | RS_Healthy | RS_Idle | RS_Suspect | RS_WouldQuarantine | RS_Quarantined | RS_PersistenceFailure | RS_Unavailable

fun reliability_label :: "reliability_state \<Rightarrow> string" where
  "reliability_label RS_Disabled = ''disabled''"
| "reliability_label RS_Baseline = ''baseline''"
| "reliability_label RS_Healthy = ''healthy''"
| "reliability_label RS_Idle = ''idle''"
| "reliability_label RS_Suspect = ''suspect''"
| "reliability_label RS_WouldQuarantine = ''would_quarantine''"
| "reliability_label RS_Quarantined = ''quarantined''"
| "reliability_label RS_PersistenceFailure = ''persistence_failure''"
| "reliability_label RS_Unavailable = ''unavailable''"

datatype durable_fence_state = Fence_Ready | StartupUncertain | AwaitingAttestation | PendingQuarantine commitment | RearmPersistenceFailure

definition blocks_serving :: "durable_fence_state \<Rightarrow> bool" where
  "blocks_serving f \<longleftrightarrow> f \<noteq> Fence_Ready"

definition persistence_failed :: "durable_fence_state \<Rightarrow> bool" where
  "persistence_failed f \<longleftrightarrow> (case f of StartupUncertain \<Rightarrow> True | PendingQuarantine _ \<Rightarrow> True | RearmPersistenceFailure \<Rightarrow> True | _ \<Rightarrow> False)"

record replica_inner =
  ri_guard :: dspark_guard
  probe_healthy :: bool
  ri_state :: reliability_state
  durable_fence :: durable_fence_state

record guard_transition =
  gt_rearmed :: bool
  quarantine_reason :: "string option"
  persistence_failure :: "string option"

definition no_transition :: guard_transition where
  "no_transition = \<lparr>gt_rearmed = False, quarantine_reason = None, persistence_failure = None\<rparr>"

definition transition_merge :: "guard_transition \<Rightarrow> guard_transition \<Rightarrow> guard_transition" where
  "transition_merge t n = \<lparr>gt_rearmed = (gt_rearmed t \<or> gt_rearmed n),
     quarantine_reason = (if quarantine_reason n \<noteq> None then quarantine_reason n else quarantine_reason t),
     persistence_failure = (if persistence_failure n \<noteq> None then persistence_failure n else persistence_failure t)\<rparr>"

record reliability_snapshot =
  sn_state :: reliability_state
  sn_quarantined :: bool
  effective_healthy :: bool

section \<open>Operations\<close>

definition replica_new ::
  "guard_mode \<Rightarrow> nat \<Rightarrow> nat \<Rightarrow> u64 \<Rightarrow> bool \<Rightarrow> commitment option \<Rightarrow> bool \<Rightarrow> guard_config_error + replica_inner" where
  "replica_new mode positions windows minimum healthy restored uncertain =
     map_sum id (\<lambda>g.
       \<lparr>ri_guard = (case restored of None \<Rightarrow> g | Some c \<Rightarrow> restore_quarantine c g),
        probe_healthy = healthy,
        ri_state = (if uncertain then RS_PersistenceFailure else if restored \<noteq> None then RS_Quarantined
          else if mode = Guard_Off then RS_Disabled else RS_Baseline),
        durable_fence = (if uncertain then StartupUncertain else Fence_Ready)\<rparr>)
     (guard_new positions windows minimum)"

definition replica_snapshot :: "replica_inner \<Rightarrow> reliability_snapshot" where
  "replica_snapshot r = (let q = (quarantined (ri_guard r) \<or> blocks_serving (durable_fence r)) in
     \<lparr>sn_state = ri_state r, sn_quarantined = q, effective_healthy = (probe_healthy r \<and> \<not> q)\<rparr>)"

text \<open>The health published to the router.\<close>

definition published_health :: "replica_inner \<Rightarrow> bool" where
  "published_health r \<longleftrightarrow> probe_healthy r \<and> \<not> quarantined (ri_guard r) \<and> \<not> blocks_serving (durable_fence r)"

definition publish_probe_health :: "bool \<Rightarrow> replica_inner \<Rightarrow> bool \<times> replica_inner" where
  "publish_probe_health healthy r = (let r1 = r\<lparr>probe_healthy := healthy\<rparr> in (published_health r1, r1))"

text \<open>Results carry the replica, the store and what was published to the state file.\<close>

type_synonym fence_result = "guard_transition \<times> replica_inner \<times> guard_store option \<times> publication"

definition failed_with :: "string \<Rightarrow> guard_transition" where
  "failed_with op = no_transition\<lparr>persistence_failure := Some op\<rparr>"

definition fenced_by :: "string \<Rightarrow> guard_transition" where
  "fenced_by reason = no_transition\<lparr>quarantine_reason := Some reason\<rparr>"

definition attest_replica :: "commitment \<Rightarrow> replica_inner \<Rightarrow> guard_transition \<times> replica_inner" where
  "attest_replica c r = (case attest_incarnation c (ri_guard r) of
     (out, g) \<Rightarrow> (no_transition\<lparr>gt_rearmed := (out = Rearmed)\<rparr>, r\<lparr>ri_guard := g\<rparr>))"

definition enforce_quarantine ::
  "serde \<Rightarrow> publish_env \<Rightarrow> nat \<Rightarrow> commitment option \<Rightarrow> replica_inner \<Rightarrow> guard_store option \<Rightarrow> fence_result" where
  "enforce_quarantine sd env u commitment r store = (case commitment of
     None \<Rightarrow> (fenced_by ''unattested_threshold'', r\<lparr>durable_fence := AwaitingAttestation\<rparr>,
              map_option (\<lambda>st. snd (poison_runtime u st)) store, None)
   | Some c \<Rightarrow> (case store of
       None \<Rightarrow> (failed_with ''quarantine'', r\<lparr>durable_fence := PendingQuarantine c\<rparr>, None, None)
     | Some st \<Rightarrow> (case persist_quarantine sd env u c st of
         (Inr _, st1, pub) \<Rightarrow> (fenced_by ''zero_acceptance'',
            r\<lparr>durable_fence := Fence_Ready, ri_guard := restore_quarantine c (ri_guard r)\<rparr>, Some st1, pub)
       | (Inl _, st1, pub) \<Rightarrow> (failed_with ''quarantine'', r\<lparr>durable_fence := PendingQuarantine c\<rparr>, Some st1, pub))))"

definition reconcile_uncertain ::
  "serde \<Rightarrow> publish_env \<Rightarrow> nat \<Rightarrow> commitment \<Rightarrow> replica_inner \<Rightarrow> guard_store option \<Rightarrow> fence_result" where
  "reconcile_uncertain sd env u c r store = (case store of
     None \<Rightarrow> (failed_with ''quarantine'', r, None, None)
   | Some st \<Rightarrow> (case persist_uncertain_fence sd env u c st of
       (Inr _, st1, pub) \<Rightarrow> (fenced_by ''unclean_restart'',
          r\<lparr>ri_guard := restore_quarantine c (ri_guard r), durable_fence := Fence_Ready\<rparr>, Some st1, pub)
     | (Inl _, st1, pub) \<Rightarrow> (failed_with ''quarantine'', r, Some st1, pub)))"

definition reconcile_pending ::
  "serde \<Rightarrow> publish_env \<Rightarrow> nat \<Rightarrow> commitment \<Rightarrow> commitment \<Rightarrow> replica_inner \<Rightarrow> guard_store option \<Rightarrow> fence_result" where
  "reconcile_pending sd env u pending c r store =
    (if pending \<noteq> c then (case attest_replica c (r\<lparr>durable_fence := Fence_Ready\<rparr>) of (t, r1) \<Rightarrow> (t, r1, store, None))
     else (case store of
       None \<Rightarrow> (failed_with ''quarantine'', r, None, None)
     | Some st \<Rightarrow> (case persist_quarantine sd env u c st of
         (Inr _, st1, pub) \<Rightarrow> (fenced_by ''zero_acceptance'',
            r\<lparr>ri_guard := restore_quarantine c (ri_guard r), durable_fence := Fence_Ready\<rparr>, Some st1, pub)
       | (Inl _, st1, pub) \<Rightarrow> (failed_with ''quarantine'', r, Some st1, pub))))"

definition reconcile_quarantined ::
  "serde \<Rightarrow> publish_env \<Rightarrow> nat \<Rightarrow> commitment \<Rightarrow> replica_inner \<Rightarrow> guard_store option \<Rightarrow> fence_result" where
  "reconcile_quarantined sd env u c r store =
    (case Option.bind store (\<lambda>st. map_option (Pair st) (quarantined_engine_core u st)) of
       None \<Rightarrow> (failed_with ''rearm'', r\<lparr>durable_fence := RearmPersistenceFailure\<rparr>, store, None)
     | Some (st, q) \<Rightarrow>
        if q = c then (no_transition, (snd (attest_replica c r))\<lparr>durable_fence := Fence_Ready\<rparr>, store, None)
        else (case persist_rearm sd env u q c st of
          (Inl _, st1, pub) \<Rightarrow> (failed_with ''rearm'', r\<lparr>durable_fence := RearmPersistenceFailure\<rparr>, Some st1, pub)
        | (Inr _, st1, pub) \<Rightarrow> (case attest_replica c (r\<lparr>durable_fence := Fence_Ready\<rparr>) of (t, r1) \<Rightarrow> (t, r1, Some st1, pub))))"

definition reconcile_engine_core ::
  "serde \<Rightarrow> publish_env \<Rightarrow> nat \<Rightarrow> commitment option \<Rightarrow> replica_inner \<Rightarrow> guard_store option \<Rightarrow> fence_result" where
  "reconcile_engine_core sd env u commitment r store = (case commitment of
     None \<Rightarrow> (no_transition, r, store, None)
   | Some c \<Rightarrow> (case durable_fence r of
       StartupUncertain \<Rightarrow> reconcile_uncertain sd env u c r store
     | AwaitingAttestation \<Rightarrow> enforce_quarantine sd env u (Some c) (r\<lparr>durable_fence := Fence_Ready\<rparr>) store
     | PendingQuarantine p \<Rightarrow> reconcile_pending sd env u p c r store
     | _ \<Rightarrow> if \<not> quarantined (ri_guard r) then (case attest_replica c r of (t, r1) \<Rightarrow> (t, r1, store, None))
           else reconcile_quarantined sd env u c r store))"

definition must_enforce :: "guard_mode \<Rightarrow> observation \<Rightarrow> replica_inner \<Rightarrow> bool" where
  "must_enforce mode ob r \<longleftrightarrow> mode = Guard_Quarantine \<and> obs_threshold_met ob \<and> \<not> quarantined (ri_guard r) \<and> durable_fence r = Fence_Ready"

definition state_after :: "observation \<Rightarrow> guard_transition \<Rightarrow> replica_inner \<Rightarrow> reliability_state" where
  "state_after ob t r =
    (if persistence_failed (durable_fence r) then RS_PersistenceFailure
     else if quarantined (ri_guard r) then RS_Quarantined
     else if gt_rearmed t \<or> obs_outcome ob = Baseline then RS_Baseline
     else (case obs_outcome ob of
       Clean \<Rightarrow> RS_Healthy | Idle_Window \<Rightarrow> RS_Idle
     | ZeroAcceptance \<Rightarrow> if obs_threshold_met ob then RS_WouldQuarantine else RS_Suspect
     | Baseline \<Rightarrow> RS_Baseline
     | _ \<Rightarrow> RS_Unavailable))"

text \<open>The environments are those of the publication in the reconciliation and of the one in the enforcement.\<close>

definition apply_sample ::
  "guard_mode \<Rightarrow> serde \<Rightarrow> publish_env \<Rightarrow> publish_env \<Rightarrow> nat \<Rightarrow> parse_failure + dspark_counters \<Rightarrow> commitment option \<Rightarrow>
   replica_inner \<Rightarrow> guard_store option \<Rightarrow> observation \<times> guard_transition \<times> replica_inner \<times> guard_store option \<times> publication list" where
  "apply_sample mode sd env1 env2 u sample commitment r store =
    (case reconcile_engine_core sd env1 u commitment r store of (t1, r1, store1, pub1) \<Rightarrow>
     (case observe_sample sample (ri_guard r1) of (ob, g2) \<Rightarrow>
      let r2 = r1\<lparr>ri_guard := g2\<rparr> in
      (case (if must_enforce mode ob r2 then
               (case enforce_quarantine sd env2 u commitment r2 store1 of (t2, r3, store3, pub2) \<Rightarrow>
                  (transition_merge t1 t2, r3, store3, [pub1, pub2]))
             else (t1, r2, store1, [pub1])) of (t3, r3, store3, pubs) \<Rightarrow>
         (ob, t3, r3\<lparr>ri_state := state_after ob t3 r3\<rparr>, store3, pubs))))"

end
