(* ===== verification/Dspark_World.thy ===== *)
theory Dspark_World
  imports Dspark_Replica
begin

text \<open>
  Process lifetimes around the durable reliability fence. A world is the content of the state file, the running
  process if there is one, and what the detector has concluded about each replica so far. Steps are a start, a sample
  applied to a replica, a probe, another component withdrawing health, a clean stop and a crash. A publication whose
  rename took place is taken to be confirmed (\<open>confirms\<close>).
\<close>

section \<open>Worlds\<close>

record fence_config =
  fc_upstreams :: "sha256 list"
  fc_path :: "component list"
  fc_path_bytes :: nat
  fc_policy :: store_policy
  fc_positions :: nat
  fc_windows :: nat
  fc_minimum :: u64
  fc_initial_health :: bool

text \<open>
  What the evidence says of a replica: nothing, that the engine that served when the detector tripped is degenerate but
  was not attested at that moment, or that the engine with this commitment is.
\<close>

datatype verdict = Fine | Unattested | Condemned commitment

record process =
  pr_store :: guard_store
  pr_replicas :: "replica_inner list"
  pr_published :: "bool list"

record world =
  w_disk :: string
  w_process :: "process option"
  w_verdict :: "nat \<Rightarrow> verdict"

definition published_bytes :: "publication list \<Rightarrow> string \<Rightarrow> string" where
  "published_bytes pubs disk = fold (\<lambda>p d. case p of None \<Rightarrow> d | Some b \<Rightarrow> b) pubs disk"

text \<open>A publication that was renamed into place is found valid and its directory entry is synced.\<close>

definition confirms :: "store_policy \<Rightarrow> publish_env \<Rightarrow> bool" where
  "confirms policy env \<longleftrightarrow> (pe_rename env \<longrightarrow> pe_dir_sync env \<and>
     (case pe_published env of None \<Rightarrow> False | Some m \<Rightarrow> validate_file_metadata m policy))"

definition replica_at_start :: "fence_config \<Rightarrow> guard_store \<Rightarrow> nat \<Rightarrow> guard_config_error + replica_inner" where
  "replica_at_start fc st u = replica_new Guard_Quarantine (fc_positions fc) (fc_windows fc) (fc_minimum fc) (fc_initial_health fc)
     (quarantined_engine_core u st) (requires_uncertain_fence u st)"

text \<open>An attestation settles an open verdict, or withdraws it when another engine is attested.\<close>

definition attest_verdict :: "commitment option \<Rightarrow> verdict \<Rightarrow> verdict" where
  "attest_verdict commitment v = (case commitment of None \<Rightarrow> v
     | Some c \<Rightarrow> (case v of Fine \<Rightarrow> Fine | Unattested \<Rightarrow> Condemned c | Condemned e \<Rightarrow> if e = c then Condemned e else Fine))"

definition trip_verdict :: "commitment option \<Rightarrow> verdict" where
  "trip_verdict commitment = (case commitment of None \<Rightarrow> Unattested | Some c \<Rightarrow> Condemned c)"

text \<open>The detector tripped on a replica that was in service, with the state it had after reconciliation.\<close>

definition tripped :: "serde \<Rightarrow> publish_env \<Rightarrow> nat \<Rightarrow> parse_failure + dspark_counters \<Rightarrow> commitment option \<Rightarrow> replica_inner \<Rightarrow> guard_store \<Rightarrow> bool" where
  "tripped sd env u sample commitment r st =
    (case reconcile_engine_core sd env u commitment r (Some st) of (t, r1, _, _) \<Rightarrow>
       obs_threshold_met (fst (observe_sample sample (ri_guard r1))) \<and> \<not> quarantined (ri_guard r1) \<and> \<not> blocks_serving (durable_fence r1))"

inductive world_step :: "serde \<Rightarrow> fence_config \<Rightarrow> world \<Rightarrow> world \<Rightarrow> bool" for sd fc where
  ws_start: "w_process w = None \<Longrightarrow> oe_read env = Some (w_disk w) \<Longrightarrow> confirms (fc_policy fc) (oe_publish env) \<Longrightarrow>
    store_open sd env (fc_path fc) (fc_path_bytes fc) (fc_policy fc) (fc_upstreams fc) = (Inr st, pub) \<Longrightarrow>
    length rs = length (fc_upstreams fc) \<Longrightarrow> (\<And>u. u < length rs \<Longrightarrow> replica_at_start fc st u = Inr (rs ! u)) \<Longrightarrow>
    world_step sd fc w (w\<lparr>w_disk := published_bytes [pub] (w_disk w),
      w_process := Some \<lparr>pr_store = st, pr_replicas = rs, pr_published = map published_health rs\<rparr>\<rparr>)"
| ws_refused: "w_process w = None \<Longrightarrow> oe_read env = Some (w_disk w) \<Longrightarrow> confirms (fc_policy fc) (oe_publish env) \<Longrightarrow>
    store_open sd env (fc_path fc) (fc_path_bytes fc) (fc_policy fc) (fc_upstreams fc) = (Inl e, pub) \<Longrightarrow>
    world_step sd fc w (w\<lparr>w_disk := published_bytes [pub] (w_disk w)\<rparr>)"
| ws_sample: "w_process w = Some p \<Longrightarrow> u < length (pr_replicas p) \<Longrightarrow> confirms (fc_policy fc) env1 \<Longrightarrow> confirms (fc_policy fc) env2 \<Longrightarrow>
    (\<And>c. commitment = Some c \<Longrightarrow> length c = 32) \<Longrightarrow>
    apply_sample Guard_Quarantine sd env1 env2 u sample commitment (pr_replicas p ! u) (Some (pr_store p)) = (ob, t, r, Some st, pubs) \<Longrightarrow>
    world_step sd fc w (w\<lparr>w_disk := published_bytes pubs (w_disk w),
      w_process := Some \<lparr>pr_store = st, pr_replicas = (pr_replicas p)[u := r], pr_published = (pr_published p)[u := published_health r]\<rparr>,
      w_verdict := (w_verdict w)(u :=
        if tripped sd env1 u sample commitment (pr_replicas p ! u) (pr_store p) then trip_verdict commitment
        else attest_verdict commitment (w_verdict w u))\<rparr>)"
| ws_probe: "w_process w = Some p \<Longrightarrow> u < length (pr_replicas p) \<Longrightarrow> publish_probe_health h (pr_replicas p ! u) = (eff, r) \<Longrightarrow>
    world_step sd fc w (w\<lparr>w_process := Some (p\<lparr>pr_replicas := (pr_replicas p)[u := r], pr_published := (pr_published p)[u := eff]\<rparr>)\<rparr>)"
| ws_withdraw: "w_process w = Some p \<Longrightarrow>
    world_step sd fc w (w\<lparr>w_process := Some (p\<lparr>pr_published := (pr_published p)[u := False]\<rparr>)\<rparr>)"
| ws_stop: "w_process w = Some p \<Longrightarrow> confirms (fc_policy fc) env \<Longrightarrow>
    world_step sd fc w (w\<lparr>w_disk := published_bytes [store_drop sd env (pr_store p)] (w_disk w), w_process := None\<rparr>)"
| ws_crash: "w_process w = Some p \<Longrightarrow> world_step sd fc w (w\<lparr>w_process := None\<rparr>)"

section \<open>Effects of the store operations under confirmed publications\<close>

lemma publish_confirmed:
  assumes "confirms (gs_policy st) env"
  obtains (done') b m where "publish_replacement sd env rs d st = (Inr (), st\<lparr>gs_target := m, gs_dirty := d\<rparr>, Some b)"
      "encode_document sd rs d = Inr b"
    | (failed) e where "publish_replacement sd env rs d st = (Inl e, st, None)"
proof -
  have "(\<exists>b m. publish_replacement sd env rs d st = (Inr (), st\<lparr>gs_target := m, gs_dirty := d\<rparr>, Some b) \<and> encode_document sd rs d = Inr b)
    \<or> (\<exists>e. publish_replacement sd env rs d st = (Inl e, st, None))"
    using assms by (auto simp: publish_replacement_def confirms_def split: sum.splits option.splits if_splits)
  then show thesis using that by blast
qed

lemma persist_quarantine_confirmed:
  assumes "confirms (gs_policy st) env" "get (gs_upstreams st) u = Some up" "map_of (gs_records st) u = None"
  obtains (done') b m where "persist_quarantine sd env u c st = (Inr Added,
        unpoison u (st\<lparr>gs_target := m, gs_dirty := True, gs_records := rec_insert u \<lparr>qr_upstream = up, qr_core = c\<rparr> (gs_records st)\<rparr>), Some b)"
      "encode_document sd (rec_insert u \<lparr>qr_upstream = up, qr_core = c\<rparr> (gs_records st)) True = Inr b"
      "c \<notin> qr_core ` snd ` set (gs_records st)"
    | (failed) e where "persist_quarantine sd env u c st = (Inl e, poison u st, None)"
proof (cases "c \<in> qr_core ` snd ` set (gs_records st)")
  case True
  then show thesis using failed assms(2,3) by (simp add: persist_quarantine_def Let_def)
next
  case False
  let ?rs = "rec_insert u \<lparr>qr_upstream = up, qr_core = c\<rparr> (gs_records st)"
  show thesis
  proof (rule publish_confirmed [OF assms(1), of sd ?rs True])
    fix b m assume "publish_replacement sd env ?rs True st = (Inr (), st\<lparr>gs_target := m, gs_dirty := True\<rparr>, Some b)"
      "encode_document sd ?rs True = Inr b"
    then show thesis using done' False assms(2,3) by (simp add: persist_quarantine_def Let_def)
  next
    fix e assume "publish_replacement sd env ?rs True st = (Inl e, st, None)"
    then show thesis using failed False assms(2,3) by (simp add: persist_quarantine_def Let_def)
  qed
qed

lemma persist_rearm_confirmed:
  assumes "confirms (gs_policy st) env" "get (gs_upstreams st) u = Some up" "map_of (gs_records st) u = Some existing"
    "qr_upstream existing = up" "qr_core existing \<noteq> c"
  obtains (done') b m where "persist_rearm sd env u (qr_core existing) c st = (Inr Removed,
        unpoison u (st\<lparr>gs_target := m, gs_dirty := True, gs_records := rec_remove u (gs_records st)\<rparr>), Some b)"
      "encode_document sd (rec_remove u (gs_records st)) True = Inr b"
    | (failed) e where "persist_rearm sd env u (qr_core existing) c st = (Inl e, poison u st, None)"
proof (rule publish_confirmed [OF assms(1), of sd "rec_remove u (gs_records st)" True])
  fix b m assume "publish_replacement sd env (rec_remove u (gs_records st)) True st = (Inr (), st\<lparr>gs_target := m, gs_dirty := True\<rparr>, Some b)"
    "encode_document sd (rec_remove u (gs_records st)) True = Inr b"
  then show thesis using done' assms(2-5) by (simp add: persist_rearm_def Let_def)
next
  fix e assume "publish_replacement sd env (rec_remove u (gs_records st)) True st = (Inl e, st, None)"
  then show thesis using failed assms(2-5) by (simp add: persist_rearm_def Let_def)
qed

section \<open>Invariant\<close>

definition fc_ok :: "fence_config \<Rightarrow> bool" where
  "fc_ok fc \<longleftrightarrow> length (fc_upstreams fc) \<le> max_replicas \<and> (\<forall>up \<in> set (fc_upstreams fc). length up = 32)"

definition store_inv :: "serde \<Rightarrow> fence_config \<Rightarrow> guard_store \<Rightarrow> string \<Rightarrow> bool" where
  "store_inv sd fc st disk \<longleftrightarrow> gs_upstreams st = fc_upstreams fc \<and> gs_policy st = fc_policy fc \<and> gs_dirty st \<and>
     records_ok (fc_upstreams fc) (gs_records st) \<and> encode_document sd (gs_records st) True = Inr disk"

text \<open>
  A replica with a durable record is quarantined for exactly that engine; without one it is not quarantined, and an
  open verdict is covered by a fence that survives a restart through the dirty marker.
\<close>

definition replica_inv :: "guard_store \<Rightarrow> nat \<Rightarrow> replica_inner \<Rightarrow> verdict \<Rightarrow> bool" where
  "replica_inv st u r v \<longleftrightarrow>
     (case map_of (gs_records st) u of
        Some q \<Rightarrow> quarantined (ri_guard r) \<and> incarnation (ri_guard r) = Some (qr_core q) \<and>
          (durable_fence r = Fence_Ready \<or> durable_fence r = RearmPersistenceFailure) \<and> (v = Fine \<or> v = Condemned (qr_core q))
      | None \<Rightarrow> \<not> quarantined (ri_guard r) \<and> durable_fence r \<noteq> RearmPersistenceFailure \<and>
          (v = Fine \<or> durable_fence r = StartupUncertain \<or> (durable_fence r = AwaitingAttestation \<and> v = Unattested) \<or>
           (\<exists>c. durable_fence r = PendingQuarantine c \<and> v = Condemned c))) \<and>
     (u \<in> gs_uncertain st \<longleftrightarrow> durable_fence r = StartupUncertain) \<and>
     (durable_fence r = AwaitingAttestation \<or> (\<exists>c. durable_fence r = PendingQuarantine c) \<longrightarrow> u \<in> gs_poisoned st)"

definition same_elsewhere :: "nat \<Rightarrow> guard_store \<Rightarrow> guard_store \<Rightarrow> bool" where
  "same_elsewhere u st st' \<longleftrightarrow> (\<forall>w. w \<noteq> u \<longrightarrow> map_of (gs_records st') w = map_of (gs_records st) w \<and>
     (w \<in> gs_uncertain st' \<longleftrightarrow> w \<in> gs_uncertain st) \<and> (w \<in> gs_poisoned st' \<longleftrightarrow> w \<in> gs_poisoned st))"

lemma replica_inv_elsewhere: "same_elsewhere u st st' \<Longrightarrow> w \<noteq> u \<Longrightarrow> replica_inv st' w r v = replica_inv st w r v"
  by (simp add: same_elsewhere_def replica_inv_def)

lemma replica_inv_fine: "replica_inv st u r v \<Longrightarrow> v \<noteq> Fine \<Longrightarrow> quarantined (ri_guard r) \<or> blocks_serving (durable_fence r)"
  by (auto simp: replica_inv_def blocks_serving_def split: option.splits)

lemma restore_simps [simp]: "quarantined (restore_quarantine c g)" "incarnation (restore_quarantine c g) = Some c"
  by (simp_all add: restore_quarantine_def)

text \<open>The shared outcome of a successful or failed attempt to write the record of replica \<open>u\<close>.\<close>

definition fence_ok :: "serde \<Rightarrow> fence_config \<Rightarrow> nat \<Rightarrow> guard_store \<Rightarrow> string \<Rightarrow> verdict \<Rightarrow> fence_result \<Rightarrow> bool" where
  "fence_ok sd fc u st disk v res \<longleftrightarrow> (\<exists>t r1 st1 pub. res = (t, r1, Some st1, pub) \<and>
     store_inv sd fc st1 (published_bytes [pub] disk) \<and> replica_inv st1 u r1 v \<and> same_elsewhere u st st1)"

lemma store_inv_poison [simp]: "store_inv sd fc (poison u st) disk = store_inv sd fc st disk"
  "store_inv sd fc (st\<lparr>gs_uncertain := x\<rparr>) disk = store_inv sd fc st disk"
  by (simp_all add: store_inv_def poison_def)

lemma same_elsewhere_poison [simp]: "same_elsewhere u st (poison u st)" "same_elsewhere u st st"
  by (simp_all add: same_elsewhere_def poison_def)

lemma store_inv_get:
  assumes "store_inv sd fc st disk" "fc_ok fc" "u < length (fc_upstreams fc)"
  shows "get (gs_upstreams st) u = Some (fc_upstreams fc ! u)" "length (fc_upstreams fc ! u) = 32"
  using assms by (auto simp: store_inv_def fc_ok_def get_def)

lemma store_inv_inserted:
  assumes "store_inv sd fc st disk" "fc_ok fc" "u < length (fc_upstreams fc)" "map_of (gs_records st) u = None" "length c = 32"
    "c \<notin> qr_core ` snd ` set (gs_records st)" "encode_document sd (rec_insert u \<lparr>qr_upstream = fc_upstreams fc ! u, qr_core = c\<rparr> (gs_records st)) True = Inr b"
    "st1 = unpoison u (st\<lparr>gs_target := m, gs_dirty := True,
       gs_records := rec_insert u \<lparr>qr_upstream = fc_upstreams fc ! u, qr_core = c\<rparr> (gs_records st)\<rparr>)"
  shows "store_inv sd fc st1 b" "same_elsewhere u st st1" "map_of (gs_records st1) u = Some \<lparr>qr_upstream = fc_upstreams fc ! u, qr_core = c\<rparr>"
proof -
  note g = store_inv_get [OF assms(1-3)]
  have "records_ok (fc_upstreams fc) (gs_records st)" using assms(1) by (simp add: store_inv_def)
  then have "records_ok (fc_upstreams fc) (rec_insert u \<lparr>qr_upstream = fc_upstreams fc ! u, qr_core = c\<rparr> (gs_records st))"
    by (rule records_ok_insert) (use assms g in \<open>auto simp: store_inv_def\<close>)
  then show "store_inv sd fc st1 b" using assms by (simp add: store_inv_def unpoison_def)
  show "same_elsewhere u st st1" by (simp add: assms(8) same_elsewhere_def unpoison_def map_of_rec_insert)
  show "map_of (gs_records st1) u = Some \<lparr>qr_upstream = fc_upstreams fc ! u, qr_core = c\<rparr>"
    by (simp add: assms(8) unpoison_def map_of_rec_insert)
qed

lemma enforce_inv:
  assumes S: "store_inv sd fc st disk" "fc_ok fc" "u < length (fc_upstreams fc)" "confirms (fc_policy fc) env"
    and R: "map_of (gs_records st) u = None" "u \<notin> gs_uncertain st" "\<not> quarantined (ri_guard r)"
    and C: "\<And>c. commitment = Some c \<Longrightarrow> length c = 32"
  shows "fence_ok sd fc u st disk (trip_verdict commitment) (enforce_quarantine sd env u commitment r (Some st))"
proof (cases commitment)
  case None
  then show ?thesis
    using S(1) R store_inv_get [OF S(1-3)]
    by (auto simp: fence_ok_def enforce_quarantine_def poison_runtime_def published_bytes_def replica_inv_def trip_verdict_def poison_def [of u st]
        store_inv_def same_elsewhere_def)
next
  case (Some c)
  have conf: "confirms (gs_policy st) env" using S(1,4) by (simp add: store_inv_def)
  show ?thesis
  proof (rule persist_quarantine_confirmed [OF conf store_inv_get(1) [OF S(1-3)] R(1), of sd c])
    fix b m
    let ?rs = "rec_insert u \<lparr>qr_upstream = fc_upstreams fc ! u, qr_core = c\<rparr> (gs_records st)"
    let ?st = "unpoison u (st\<lparr>gs_target := m, gs_dirty := True, gs_records := ?rs\<rparr>)"
    assume p: "persist_quarantine sd env u c st = (Inr Added, ?st, Some b)" "encode_document sd ?rs True = Inr b"
      "c \<notin> qr_core ` snd ` set (gs_records st)"
    note I = store_inv_inserted [OF S(1-3) R(1) C [OF Some] p(3,2) refl, of m]
    have "replica_inv ?st u (r\<lparr>durable_fence := Fence_Ready, ri_guard := restore_quarantine c (ri_guard r)\<rparr>) (Condemned c)"
      using I(3) R(2) by (simp add: replica_inv_def) (simp add: unpoison_def)
    then show ?thesis
      using I(1,2) p(1) Some by (auto simp: fence_ok_def enforce_quarantine_def published_bytes_def trip_verdict_def)
  next
    fix e assume "persist_quarantine sd env u c st = (Inl e, poison u st, None)"
    then show ?thesis
      using S(1) R Some by (auto simp: fence_ok_def enforce_quarantine_def published_bytes_def trip_verdict_def replica_inv_def poison_def [of u st] store_inv_def same_elsewhere_def)
  qed
qed

lemma uncertain_inv:
  assumes S: "store_inv sd fc st disk" "fc_ok fc" "u < length (fc_upstreams fc)" "confirms (fc_policy fc) env"
    and R: "replica_inv st u r v" "durable_fence r = StartupUncertain" and C: "length c = 32"
  shows "fence_ok sd fc u st disk (attest_verdict (Some c) v) (reconcile_uncertain sd env u c r (Some st))"
proof -
  have rec: "map_of (gs_records st) u = None" using R by (auto simp: replica_inv_def split: option.splits)
  have conf: "confirms (gs_policy st) env" using S(1,4) by (simp add: store_inv_def)
  have v: "attest_verdict (Some c) v = Fine \<or> attest_verdict (Some c) v = Condemned c"
    by (cases v) (auto simp: attest_verdict_def)
  show ?thesis
  proof (rule persist_quarantine_confirmed [OF conf store_inv_get(1) [OF S(1-3)] rec, of sd c])
    fix b m
    let ?rs = "rec_insert u \<lparr>qr_upstream = fc_upstreams fc ! u, qr_core = c\<rparr> (gs_records st)"
    let ?st = "unpoison u (st\<lparr>gs_target := m, gs_dirty := True, gs_records := ?rs\<rparr>)"
    assume p: "persist_quarantine sd env u c st = (Inr Added, ?st, Some b)" "encode_document sd ?rs True = Inr b"
      "c \<notin> qr_core ` snd ` set (gs_records st)"
    note I = store_inv_inserted [OF S(1-3) rec C p(3,2) refl, of m]
    let ?st' = "?st\<lparr>gs_uncertain := gs_uncertain ?st - {u}\<rparr>"
    have "replica_inv ?st' u (r\<lparr>ri_guard := restore_quarantine c (ri_guard r), durable_fence := Fence_Ready\<rparr>) (attest_verdict (Some c) v)"
      using I(3) v by (auto simp: replica_inv_def)
    moreover have "same_elsewhere u st ?st'" using I(2) by (simp add: same_elsewhere_def)
    ultimately show ?thesis
      using I(1) p(1) by (auto simp: fence_ok_def reconcile_uncertain_def persist_uncertain_fence_def published_bytes_def)
  next
    fix e assume "persist_quarantine sd env u c st = (Inl e, poison u st, None)"
    moreover have "replica_inv (poison u st) u r (attest_verdict (Some c) v)"
      using R rec by (simp add: replica_inv_def poison_def)
    ultimately show ?thesis
      using S(1) by (auto simp: fence_ok_def reconcile_uncertain_def persist_uncertain_fence_def published_bytes_def)
  qed
qed

lemma attest_unquarantined:
  "\<not> quarantined g \<Longrightarrow> \<not> quarantined (snd (attest_incarnation c g))"
  by (auto simp: attest_incarnation_def Let_def split: option.splits)

lemma pending_inv:
  assumes S: "store_inv sd fc st disk" "fc_ok fc" "u < length (fc_upstreams fc)" "confirms (fc_policy fc) env"
    and R: "replica_inv st u r v" "durable_fence r = PendingQuarantine p" and C: "length c = 32"
  shows "fence_ok sd fc u st disk (attest_verdict (Some c) v) (reconcile_pending sd env u p c r (Some st))"
proof -
  have rec: "map_of (gs_records st) u = None" "\<not> quarantined (ri_guard r)" "v = Fine \<or> v = Condemned p" "u \<notin> gs_uncertain st"
    "u \<in> gs_poisoned st"
    using R by (auto simp: replica_inv_def split: option.splits)
  have conf: "confirms (gs_policy st) env" using S(1,4) by (simp add: store_inv_def)
  show ?thesis
  proof (cases "p = c")
    case False
    then have "attest_verdict (Some c) v = Fine" using rec(3) by (auto simp: attest_verdict_def)
    then show ?thesis
      using False S(1) rec attest_unquarantined [OF rec(2), of c]
      by (auto simp: fence_ok_def reconcile_pending_def attest_replica_def published_bytes_def replica_inv_def split: prod.splits)
  next
    case True
    then have v: "attest_verdict (Some c) v = v" using rec(3) by (auto simp: attest_verdict_def)
    show ?thesis
    proof (rule persist_quarantine_confirmed [OF conf store_inv_get(1) [OF S(1-3)] rec(1), of sd c])
      fix b m
      let ?rs = "rec_insert u \<lparr>qr_upstream = fc_upstreams fc ! u, qr_core = c\<rparr> (gs_records st)"
      let ?st = "unpoison u (st\<lparr>gs_target := m, gs_dirty := True, gs_records := ?rs\<rparr>)"
      assume q: "persist_quarantine sd env u c st = (Inr Added, ?st, Some b)" "encode_document sd ?rs True = Inr b"
        "c \<notin> qr_core ` snd ` set (gs_records st)"
      note I = store_inv_inserted [OF S(1-3) rec(1) C q(3,2) refl, of m]
      have "replica_inv ?st u (r\<lparr>ri_guard := restore_quarantine c (ri_guard r), durable_fence := Fence_Ready\<rparr>) v"
        using I(3) rec(3,4) True by (auto simp: replica_inv_def) (simp_all add: unpoison_def)
      then show ?thesis
        using I(1,2) q(1) True v by (auto simp: fence_ok_def reconcile_pending_def published_bytes_def)
    next
      fix e assume "persist_quarantine sd env u c st = (Inl e, poison u st, None)"
      moreover have "replica_inv (poison u st) u r v" using R rec(1) by (simp add: replica_inv_def poison_def)
      ultimately show ?thesis
        using S(1) True v by (auto simp: fence_ok_def reconcile_pending_def published_bytes_def)
    qed
  qed
qed

lemma quarantined_inv:
  assumes S: "store_inv sd fc st disk" "fc_ok fc" "u < length (fc_upstreams fc)" "confirms (fc_policy fc) env"
    and R: "replica_inv st u r v" "quarantined (ri_guard r)"
  shows "fence_ok sd fc u st disk (attest_verdict (Some c) v) (reconcile_quarantined sd env u c r (Some st))"
proof -
  obtain q where q: "map_of (gs_records st) u = Some q" "incarnation (ri_guard r) = Some (qr_core q)"
    "durable_fence r = Fence_Ready \<or> durable_fence r = RearmPersistenceFailure" "v = Fine \<or> v = Condemned (qr_core q)" "u \<notin> gs_uncertain st"
    using R by (auto simp: replica_inv_def split: option.splits)
  have core: "quarantined_engine_core u st = Some (qr_core q)" by (simp add: quarantined_engine_core_def q(1))
  have conf: "confirms (gs_policy st) env" using S(1,4) by (simp add: store_inv_def)
  have "records_ok (fc_upstreams fc) (gs_records st)" using S(1) by (simp add: store_inv_def)
  then have up: "qr_upstream q = fc_upstreams fc ! u" and ok: "records_ok (fc_upstreams fc) (rec_remove u (gs_records st))"
    using map_of_SomeD [OF q(1)] records_ok_remove by (auto simp: records_ok_def [of "fc_upstreams fc" "gs_records st"])
  show ?thesis
  proof (cases "qr_core q = c")
    case True
    then have "attest_incarnation c (ri_guard r) = (Unchanged_Incarnation, ri_guard r)" "attest_verdict (Some c) v = v"
      using q(2,4) by (auto simp: attest_incarnation_def attest_verdict_def)
    then show ?thesis
      using True S(1) q R(2) core
      by (auto simp: fence_ok_def reconcile_quarantined_def attest_replica_def published_bytes_def replica_inv_def)
  next
    case False
    then have v: "attest_verdict (Some c) v = Fine" using q(4) by (auto simp: attest_verdict_def)
    show ?thesis
    proof (rule persist_rearm_confirmed [OF conf store_inv_get(1) [OF S(1-3)] q(1) up False, of sd])
      fix b m
      let ?st = "unpoison u (st\<lparr>gs_target := m, gs_dirty := True, gs_records := rec_remove u (gs_records st)\<rparr>)"
      assume p: "persist_rearm sd env u (qr_core q) c st = (Inr Removed, ?st, Some b)" "encode_document sd (rec_remove u (gs_records st)) True = Inr b"
      have "store_inv sd fc ?st b" using S(1) ok p(2) by (simp add: store_inv_def unpoison_def)
      moreover have "same_elsewhere u st ?st" by (simp add: same_elsewhere_def unpoison_def map_of_rec_remove)
      moreover have "replica_inv ?st u (r\<lparr>durable_fence := Fence_Ready, ri_guard := snd (attest_incarnation c (ri_guard r))\<rparr>) Fine"
        using quarantine_released [OF R(2) q(2), of c] False q(5) by (simp add: replica_inv_def unpoison_def map_of_rec_remove)
      ultimately show ?thesis
        using p(1) False core v
        by (auto simp: fence_ok_def reconcile_quarantined_def attest_replica_def published_bytes_def split: prod.splits)
    next
      fix e assume "persist_rearm sd env u (qr_core q) c st = (Inl e, poison u st, None)"
      moreover have "replica_inv (poison u st) u (r\<lparr>durable_fence := RearmPersistenceFailure\<rparr>) Fine"
        using q R(2) by (simp add: replica_inv_def poison_def)
      ultimately show ?thesis
        using S(1) False core v by (auto simp: fence_ok_def reconcile_quarantined_def published_bytes_def)
    qed
  qed
qed

lemma reconcile_inv:
  assumes S: "store_inv sd fc st disk" "fc_ok fc" "u < length (fc_upstreams fc)" "confirms (fc_policy fc) env"
    and R: "replica_inv st u r v" and C: "\<And>c. commitment = Some c \<Longrightarrow> length c = 32"
  shows "fence_ok sd fc u st disk (attest_verdict commitment v) (reconcile_engine_core sd env u commitment r (Some st))"
proof (cases commitment)
  case None
  then show ?thesis using S(1) R by (simp add: fence_ok_def reconcile_engine_core_def published_bytes_def attest_verdict_def)
next
  case (Some c)
  note C' = C [OF Some]
  show ?thesis
  proof (cases "durable_fence r = StartupUncertain \<or> durable_fence r = AwaitingAttestation \<or> (\<exists>p. durable_fence r = PendingQuarantine p)")
    case True
    then consider "durable_fence r = StartupUncertain" | "durable_fence r = AwaitingAttestation"
      | p where "durable_fence r = PendingQuarantine p" by blast
    then show ?thesis
    proof cases
      case 1
      then show ?thesis using uncertain_inv [OF S R 1 C'] Some by (simp add: reconcile_engine_core_def)
    next
      case 2
      have rec: "map_of (gs_records st) u = None" "\<not> quarantined (ri_guard r)" "u \<notin> gs_uncertain st" "v = Fine \<or> v = Unattested"
        using R 2 by (auto simp: replica_inv_def split: option.splits)
      have "fence_ok sd fc u st disk (trip_verdict (Some c)) (enforce_quarantine sd env u (Some c) (r\<lparr>durable_fence := Fence_Ready\<rparr>) (Some st))"
        by (rule enforce_inv [OF S rec(1,3)]) (use rec C' in auto)
      moreover have "replica_inv st' u r' (Condemned c) \<Longrightarrow> replica_inv st' u r' Fine" for st' r'
        by (auto simp: replica_inv_def split: option.splits)
      ultimately show ?thesis
        using rec(4) Some 2 by (auto simp: fence_ok_def reconcile_engine_core_def attest_verdict_def trip_verdict_def)
    next
      case 3
      then show ?thesis using pending_inv [OF S R 3 C'] Some by (simp add: reconcile_engine_core_def)
    qed
  next
    case False
    show ?thesis
    proof (cases "quarantined (ri_guard r)")
      case True
      then show ?thesis using quarantined_inv [OF S R True] Some False
        by (cases "durable_fence r") (auto simp: reconcile_engine_core_def)
    next
      case nq: False
      have "map_of (gs_records st) u = None" "v = Fine" "durable_fence r = Fence_Ready" "u \<notin> gs_uncertain st"
        using R False nq by (cases "durable_fence r"; auto simp: replica_inv_def split: option.splits)+
      then show ?thesis
        using S(1) Some nq attest_unquarantined [OF nq, of c]
        by (auto simp: fence_ok_def reconcile_engine_core_def attest_replica_def published_bytes_def attest_verdict_def replica_inv_def
            split: prod.splits)
    qed
  qed
qed

lemma replica_inv_observe:
  "replica_inv st u (r\<lparr>ri_guard := snd (observe_sample s (ri_guard r))\<rparr>) v = replica_inv st u r v"
  "replica_inv st u (r\<lparr>ri_state := x\<rparr>) v = replica_inv st u r v"
  "replica_inv st u (r\<lparr>probe_healthy := h\<rparr>) v = replica_inv st u r v"
  by (simp_all add: replica_inv_def split: option.split)

lemma published_bytes_append: "published_bytes (ps @ qs) d = published_bytes qs (published_bytes ps d)"
  by (simp add: published_bytes_def)

lemma same_elsewhere_trans: "same_elsewhere u a b \<Longrightarrow> same_elsewhere u b c \<Longrightarrow> same_elsewhere u a c"
  by (simp add: same_elsewhere_def)

text \<open>One applied sample keeps the invariant of the store and of its replica, with the verdict updated.\<close>

lemma sample_inv:
  assumes S: "store_inv sd fc st disk" "fc_ok fc" "u < length (fc_upstreams fc)" "confirms (fc_policy fc) env1" "confirms (fc_policy fc) env2"
    and R: "replica_inv st u r v" and C: "\<And>c. commitment = Some c \<Longrightarrow> length c = 32"
    and A: "apply_sample Guard_Quarantine sd env1 env2 u sample commitment r (Some st) = (ob, t, r', Some st', pubs)"
  shows "store_inv sd fc st' (published_bytes pubs disk) \<and> same_elsewhere u st st' \<and>
    replica_inv st' u r' (if tripped sd env1 u sample commitment r st then trip_verdict commitment else attest_verdict commitment v)"
proof -
  obtain t1 r1 st1 pub1 where rc: "reconcile_engine_core sd env1 u commitment r (Some st) = (t1, r1, Some st1, pub1)"
    and I1: "store_inv sd fc st1 (published_bytes [pub1] disk)" "replica_inv st1 u r1 (attest_verdict commitment v)" "same_elsewhere u st st1"
    using reconcile_inv [OF S(1-4) R, of commitment, OF C] by (auto simp: fence_ok_def)
  define ob2 where "ob2 = observe_sample sample (ri_guard r1)"
  define r2 where "r2 = r1\<lparr>ri_guard := snd ob2\<rparr>"
  have I2: "replica_inv st1 u r2 (attest_verdict commitment v)"
    using I1(2) replica_inv_observe(1) [where st = st1 and u = u and r = r1 and s = sample] by (simp add: r2_def ob2_def)
  have trip: "tripped sd env1 u sample commitment r st \<longleftrightarrow> must_enforce Guard_Quarantine (fst ob2) r2"
    by (simp add: tripped_def rc must_enforce_def ob2_def r2_def blocks_serving_def)
  show ?thesis
  proof (cases "must_enforce Guard_Quarantine (fst ob2) r2")
    case False
    then have "st' = st1" "pubs = [pub1]" "r' = r2\<lparr>ri_state := ri_state r'\<rparr>"
      using A rc by (auto simp: apply_sample_def ob2_def r2_def Let_def split: prod.splits)
    then show ?thesis using I1 I2 trip False replica_inv_observe(2) by metis
  next
    case True
    then have "\<not> quarantined (ri_guard r2)" "durable_fence r2 = Fence_Ready" by (auto simp: must_enforce_def)
    then have rec: "map_of (gs_records st1) u = None" "u \<notin> gs_uncertain st1" "\<not> quarantined (ri_guard r2)"
      using I2 by (auto simp: replica_inv_def split: option.splits)
    obtain t2 r3 st3 pub2 where e: "enforce_quarantine sd env2 u commitment r2 (Some st1) = (t2, r3, Some st3, pub2)"
      and I3: "store_inv sd fc st3 (published_bytes [pub2] (published_bytes [pub1] disk))" "replica_inv st3 u r3 (trip_verdict commitment)"
        "same_elsewhere u st1 st3"
      using enforce_inv [OF I1(1) S(2,3,5) rec, of commitment, OF C] by (auto simp: fence_ok_def)
    have "st' = st3" "pubs = [pub1] @ [pub2]" "r' = r3\<lparr>ri_state := ri_state r'\<rparr>"
      using A rc e True by (auto simp: apply_sample_def ob2_def r2_def Let_def split: prod.splits)
    then show ?thesis
      using I3 trip True same_elsewhere_trans [OF I1(3) I3(3)] published_bytes_append replica_inv_observe(2) by metis
  qed
qed

section \<open>Worlds keep their verdicts\<close>

definition process_inv :: "serde \<Rightarrow> fence_config \<Rightarrow> string \<Rightarrow> (nat \<Rightarrow> verdict) \<Rightarrow> process \<Rightarrow> bool" where
  "process_inv sd fc disk v p \<longleftrightarrow> store_inv sd fc (pr_store p) disk \<and> length (pr_replicas p) = length (fc_upstreams fc) \<and>
     length (pr_published p) = length (fc_upstreams fc) \<and>
     (\<forall>u < length (fc_upstreams fc). replica_inv (pr_store p) u (pr_replicas p ! u) (v u) \<and>
        (pr_published p ! u \<longrightarrow> published_health (pr_replicas p ! u)))"

text \<open>A verdict outlives the process in the file: as a record of that engine, or through the dirty marker.\<close>

definition disk_inv :: "serde \<Rightarrow> fence_config \<Rightarrow> string \<Rightarrow> (nat \<Rightarrow> verdict) \<Rightarrow> bool" where
  "disk_inv sd fc disk v \<longleftrightarrow> (\<exists>rs dirty. records_ok (fc_upstreams fc) rs \<and> encode_document sd rs dirty = Inr disk \<and>
     (\<forall>u < length (fc_upstreams fc). case map_of rs u of
        Some q \<Rightarrow> v u = Fine \<or> v u = Condemned (qr_core q)
      | None \<Rightarrow> v u = Fine \<or> dirty))"

definition world_inv :: "serde \<Rightarrow> fence_config \<Rightarrow> world \<Rightarrow> bool" where
  "world_inv sd fc w \<longleftrightarrow> (case w_process w of
     None \<Rightarrow> disk_inv sd fc (w_disk w) (w_verdict w)
   | Some p \<Rightarrow> process_inv sd fc (w_disk w) (w_verdict w) p)"

lemma crash_inv: "process_inv sd fc disk v p \<Longrightarrow> disk_inv sd fc disk v"
  unfolding process_inv_def disk_inv_def
  by (intro exI [of _ "gs_records (pr_store p)"] exI [of _ True]) (auto simp: store_inv_def replica_inv_def split: option.splits)

lemma stop_inv:
  assumes "process_inv sd fc disk v p" "confirms (fc_policy fc) env"
  shows "disk_inv sd fc (published_bytes [store_drop sd env (pr_store p)] disk) v"
proof -
  let ?st = "pr_store p"
  have S: "store_inv sd fc ?st disk" and R: "\<And>u. u < length (fc_upstreams fc) \<Longrightarrow> replica_inv ?st u (pr_replicas p ! u) (v u)"
    using assms(1) by (auto simp: process_inv_def)
  have conf: "confirms (gs_policy ?st) env" using S assms(2) by (simp add: store_inv_def)
  show ?thesis
  proof (cases "gs_poisoned ?st \<noteq> {} \<or> gs_uncertain ?st \<noteq> {} \<or> \<not> gs_dirty ?st")
    case True
    then show ?thesis using crash_inv [OF assms(1)] by (simp add: store_drop_def published_bytes_def)
  next
    case False
    have rec: "v u = Fine \<or> (\<exists>q. map_of (gs_records ?st) u = Some q \<and> v u = Condemned (qr_core q))" if "u < length (fc_upstreams fc)" for u
      using R [OF that] False by (auto simp: replica_inv_def split: option.splits)
    show ?thesis
    proof (rule publish_confirmed [OF conf, of sd "gs_records ?st" False])
      fix b m assume pub: "publish_replacement sd env (gs_records ?st) False ?st = (Inr (), ?st\<lparr>gs_target := m, gs_dirty := False\<rparr>, Some b)"
        "encode_document sd (gs_records ?st) False = Inr b"
      have "\<forall>u < length (fc_upstreams fc). case map_of (gs_records ?st) u of
          Some q \<Rightarrow> v u = Fine \<or> v u = Condemned (qr_core q) | None \<Rightarrow> v u = Fine \<or> False"
        using rec by (fastforce split: option.splits)
      then have "disk_inv sd fc b v"
        unfolding disk_inv_def using S pub(2) by (intro exI [of _ "gs_records ?st"] exI [of _ False]) (auto simp: store_inv_def)
      then show ?thesis using False pub(1) by (simp add: store_drop_def published_bytes_def)
    next
      fix e assume "publish_replacement sd env (gs_records ?st) False ?st = (Inl e, ?st, None)"
      then show ?thesis using False crash_inv [OF assms(1)] by (simp add: store_drop_def published_bytes_def)
    qed
  qed
qed

text \<open>Opening the store on a file, with the publication that sets the dirty marker confirmed.\<close>

lemma store_open_cases:
  assumes "store_open sd env path n policy ups = (res, pub)" "oe_read env = Some disk" "confirms policy (oe_publish env)"
  obtains (failed) e where "res = Inl e" "pub = None"
    | (opened) rs dirty st where "res = Inr st" "decode_document sd disk ups = Inr (rs, dirty)"
      "gs_upstreams st = ups" "gs_policy st = policy" "gs_records st = rs" "gs_dirty st" "gs_poisoned st = {}"
      "gs_uncertain st = (if dirty then {u. u < length ups \<and> map_of rs u = None} else {})"
      "if dirty then pub = None else (\<exists>b. pub = Some b \<and> encode_document sd rs True = Inr b)"
proof -
  consider e where "res = Inl e" "pub = None"
    | rs dirty parent target where "decode_document sd disk ups = Inr (rs, dirty)"
        "arm_loaded sd (oe_publish env) (store_loaded path parent target policy ups rs dirty) = (res, pub)"
    using assms(1,2) by (auto simp: store_open_def split: if_splits sum.splits option.splits)
  then show thesis
  proof cases
    case 1
    then show thesis by (rule failed)
  next
    case (2 rs dirty parent target)
    let ?st = "store_loaded path parent target policy ups rs dirty"
    have conf: "confirms (gs_policy ?st) (oe_publish env)" using assms(3) by (simp add: store_loaded_def)
    show thesis
    proof (cases dirty)
      case True
      then have "(res, pub) = (Inr ?st, None)" using 2(2) by (simp add: arm_loaded_def arm_runtime_def store_loaded_def)
      then show thesis using True 2(1) by (intro opened [of ?st rs dirty]) (auto simp: store_loaded_def)
    next
      case False
      show thesis
      proof (rule publish_confirmed [OF conf, of sd rs True])
        fix b m assume "publish_replacement sd (oe_publish env) rs True ?st = (Inr (), ?st\<lparr>gs_target := m, gs_dirty := True\<rparr>, Some b)"
          "encode_document sd rs True = Inr b"
        then show thesis using False 2
          by (intro opened [of "?st\<lparr>gs_target := m, gs_dirty := True\<rparr>" rs dirty]) (auto simp: arm_loaded_def arm_runtime_def store_loaded_def)
      next
        fix e assume "publish_replacement sd (oe_publish env) rs True ?st = (Inl e, ?st, None)"
        then show thesis using False 2(2) by (intro failed [of e]) (auto simp: arm_loaded_def arm_runtime_def store_loaded_def)
      qed
    qed
  qed
qed

lemma start_replica:
  assumes "replica_at_start fc st u = Inr r" "u < length (gs_upstreams st)"
    "gs_uncertain st = (if dirty then {u. u < length (gs_upstreams st) \<and> map_of (gs_records st) u = None} else {})"
    "case map_of (gs_records st) u of Some q \<Rightarrow> v = Fine \<or> v = Condemned (qr_core q) | None \<Rightarrow> v = Fine \<or> dirty"
  shows "replica_inv st u r v"
proof -
  obtain g where g: "guard_new (fc_positions fc) (fc_windows fc) (fc_minimum fc) = Inr g" "\<not> quarantined g"
    and r: "durable_fence r = (if requires_uncertain_fence u st then StartupUncertain else Fence_Ready)"
      "ri_guard r = (case quarantined_engine_core u st of None \<Rightarrow> g | Some c \<Rightarrow> restore_quarantine c g)"
    using assms(1) by (auto simp: replica_at_start_def replica_new_def guard_new_def split: if_splits)
  have "requires_uncertain_fence u st \<longleftrightarrow> dirty \<and> map_of (gs_records st) u = None"
    using assms(2,3) by (simp add: requires_uncertain_fence_def)
  then show ?thesis
    using r g(2) assms(4)
    by (cases "map_of (gs_records st) u") (auto simp: replica_inv_def quarantined_engine_core_def requires_uncertain_fence_def)
qed

lemma start_inv:
  assumes "disk_inv sd fc disk v" "serde_ok sd" "fc_ok fc" "confirms (fc_policy fc) (oe_publish env)" "oe_read env = Some disk"
    "store_open sd env (fc_path fc) (fc_path_bytes fc) (fc_policy fc) (fc_upstreams fc) = (Inr st, pub)"
    "length rs = length (fc_upstreams fc)" "\<And>u. u < length rs \<Longrightarrow> replica_at_start fc st u = Inr (rs ! u)"
  shows "process_inv sd fc (published_bytes [pub] disk) v \<lparr>pr_store = st, pr_replicas = rs, pr_published = map published_health rs\<rparr>"
proof -
  obtain recs dirty where D: "records_ok (fc_upstreams fc) recs" "encode_document sd recs dirty = Inr disk"
    "\<And>u. u < length (fc_upstreams fc) \<Longrightarrow> case map_of recs u of Some q \<Rightarrow> v u = Fine \<or> v u = Condemned (qr_core q) | None \<Rightarrow> v u = Fine \<or> dirty"
    using assms(1) by (auto simp: disk_inv_def)
  have dec: "decode_document sd disk (fc_upstreams fc) = Inr (recs, dirty)"
    by (rule decode_encode [OF assms(2) D(1) _ D(2)]) (use assms(3) in \<open>simp add: fc_ok_def\<close>)
  show ?thesis
  proof (rule store_open_cases [OF assms(6,5,4)])
    fix rs' dirty' st'
    assume o: "Inr st = Inr st'" "decode_document sd disk (fc_upstreams fc) = Inr (rs', dirty')"
      "gs_upstreams st' = fc_upstreams fc" "gs_policy st' = fc_policy fc" "gs_records st' = rs'" "gs_dirty st'"
      "gs_uncertain st' = (if dirty' then {u. u < length (fc_upstreams fc) \<and> map_of rs' u = None} else {})"
      "if dirty' then pub = None else (\<exists>b. pub = Some b \<and> encode_document sd rs' True = Inr b)"
    have st: "st = st'" "rs' = recs" "dirty' = dirty" using o(1,2) dec by auto
    have "encode_document sd recs True = Inr (published_bytes [pub] disk)"
      using o(8) D(2) st by (auto simp: published_bytes_def split: if_splits)
    then have "store_inv sd fc st (published_bytes [pub] disk)" using o D(1) st by (simp add: store_inv_def)
    moreover have "replica_inv st u (rs ! u) (v u)" if "u < length (fc_upstreams fc)" for u
      by (rule start_replica [where fc = fc and dirty = dirty]) (use assms(7,8) that o D(3) st in auto)
    ultimately show ?thesis using assms(7) by (simp add: process_inv_def)
  qed simp
qed

lemma process_inv_sample:
  assumes "process_inv sd fc disk v p" "fc_ok fc" "u < length (pr_replicas p)" "confirms (fc_policy fc) env1" "confirms (fc_policy fc) env2"
    "\<And>c. commitment = Some c \<Longrightarrow> length c = 32"
    "apply_sample Guard_Quarantine sd env1 env2 u sample commitment (pr_replicas p ! u) (Some (pr_store p)) = (ob, t, r, Some st, pubs)"
  shows "process_inv sd fc (published_bytes pubs disk)
    (v(u := if tripped sd env1 u sample commitment (pr_replicas p ! u) (pr_store p) then trip_verdict commitment else attest_verdict commitment (v u)))
    \<lparr>pr_store = st, pr_replicas = (pr_replicas p)[u := r], pr_published = (pr_published p)[u := published_health r]\<rparr>"
proof -
  have P: "store_inv sd fc (pr_store p) disk" "u < length (fc_upstreams fc)" "replica_inv (pr_store p) u (pr_replicas p ! u) (v u)"
    using assms(1,3) by (auto simp: process_inv_def)
  note I = sample_inv [OF P(1) assms(2) P(2) assms(4,5) P(3) assms(6,7)]
  show ?thesis
    using I assms(1) replica_inv_elsewhere [of u "pr_store p" st] by (auto simp: process_inv_def nth_list_update)
qed

lemma world_step_inv:
  "world_step sd fc w w' \<Longrightarrow> serde_ok sd \<Longrightarrow> fc_ok fc \<Longrightarrow> world_inv sd fc w \<Longrightarrow> world_inv sd fc w'"
proof (induction rule: world_step.induct)
  case (ws_start w env st pub rs)
  then have "disk_inv sd fc (w_disk w) (w_verdict w)" by (simp add: world_inv_def)
  from start_inv [OF this ws_start(7,8,3,2,4,5,6)] show ?case by (simp add: world_inv_def)
next
  case (ws_refused w env e pub)
  have "pub = None" by (rule store_open_cases [OF ws_refused(4,2,3)]) auto
  then show ?case using ws_refused by (simp add: world_inv_def published_bytes_def)
next
  case (ws_sample w p u env1 env2 commitment sample ob t r st pubs)
  then have "process_inv sd fc (w_disk w) (w_verdict w) p" by (simp add: world_inv_def)
  from process_inv_sample [OF this ws_sample(8,2,3,4,5,6)] show ?case by (simp add: world_inv_def)
next
  case (ws_probe w p u h eff r)
  then have "r = (pr_replicas p ! u)\<lparr>probe_healthy := h\<rparr>" "eff = published_health r"
    by (auto simp: publish_probe_health_def Let_def)
  then show ?case using ws_probe by (auto simp: world_inv_def process_inv_def nth_list_update replica_inv_observe(3))
next
  case (ws_withdraw w p u)
  have "(pr_published p)[u := False] ! a \<Longrightarrow> a < length (pr_published p) \<Longrightarrow> pr_published p ! a" for a
    by (cases "u = a") auto
  then show ?case using ws_withdraw by (auto simp: world_inv_def process_inv_def)
next
  case (ws_stop w p env)
  then show ?case using stop_inv [of sd fc "w_disk w" "w_verdict w" p env] by (simp add: world_inv_def)
next
  case (ws_crash w p)
  then show ?case using crash_inv [of sd fc "w_disk w" "w_verdict w" p] by (simp add: world_inv_def)
qed

lemma world_run_inv:
  "(world_step sd fc)\<^sup>*\<^sup>* w w' \<Longrightarrow> serde_ok sd \<Longrightarrow> fc_ok fc \<Longrightarrow> world_inv sd fc w \<Longrightarrow> world_inv sd fc w'"
  by (induction rule: rtranclp_induct) (auto intro: world_step_inv)

text \<open>
  C19. A condemned engine stays out of service across restarts. From a world with a well-formed state file and no
  verdict, and over any sequence of starts, samples, probes, failed publications, clean stops and crashes in which a
  renamed publication is confirmed: whenever a process runs and the detector has tripped on a replica in service, and
  no other engine incarnation has been attested since, the health published to the router for that replica is false.
\<close>

theorem condemned_engine_stays_fenced:
  assumes "serde_ok sd" "fc_ok fc" "records_ok (fc_upstreams fc) rs" "encode_document sd rs dirty = Inr (w_disk w0)"
    "w_process w0 = None" "w_verdict w0 = (\<lambda>_. Fine)"
    and "(world_step sd fc)\<^sup>*\<^sup>* w0 w" "w_process w = Some p" "u < length (fc_upstreams fc)" "w_verdict w u \<noteq> Fine"
  shows "\<not> pr_published p ! u \<and> sn_quarantined (replica_snapshot (pr_replicas p ! u))"
proof -
  have "world_inv sd fc w0"
    using assms(3-6) by (auto simp: world_inv_def disk_inv_def split: option.splits)
  then have "world_inv sd fc w" using world_run_inv [OF assms(7,1,2)] by simp
  then have "replica_inv (pr_store p) u (pr_replicas p ! u) (w_verdict w u)" "pr_published p ! u \<longrightarrow> published_health (pr_replicas p ! u)"
    using assms(8,9) by (auto simp: world_inv_def process_inv_def)
  then show ?thesis
    using replica_inv_fine [OF _ assms(10)] by (auto simp: published_health_def replica_snapshot_def Let_def)
qed

section \<open>A concrete run\<close>

definition good_policy :: store_policy where "good_policy = \<lparr>owner_uid = 1, group_gid = 1\<rparr>"
definition good_path :: "component list" where "good_path = [RootDir, Normal ''d'', Normal ''f'']"

definition root_meta :: file_metadata where
  "root_meta = \<lparr>md_is_dir = True, md_is_file = False, md_nlink = 2, md_uid = 0, md_gid = 0, md_mode = 493, md_len = 1,
     md_identity = \<lparr>fi_device = 1, fi_inode = 1\<rparr>\<rparr>"

definition dir_meta :: file_metadata where
  "dir_meta = \<lparr>md_is_dir = True, md_is_file = False, md_nlink = 2, md_uid = 1, md_gid = 1, md_mode = 448, md_len = 1,
     md_identity = \<lparr>fi_device = 1, fi_inode = 2\<rparr>\<rparr>"

definition file_meta :: file_metadata where
  "file_meta = \<lparr>md_is_dir = False, md_is_file = True, md_nlink = 1, md_uid = 1, md_gid = 1, md_mode = 384, md_len = 1,
     md_identity = \<lparr>fi_device = 1, fi_inode = 3\<rparr>\<rparr>"

definition good_fs :: file_system where
  "good_fs = (\<lambda>cs. if cs = [RootDir] then Some root_meta else if cs = [RootDir, Normal ''d''] then Some dir_meta
     else if cs = good_path then Some file_meta else None)"

definition good_env :: publish_env where
  "good_env = \<lparr>pe_fs = good_fs, pe_locked = Some dir_meta, pe_random = True, pe_create = True, pe_write_sync = True,
     pe_temporary = Some file_meta, pe_fs2 = good_fs, pe_locked2 = Some dir_meta, pe_rename = True, pe_dir_sync = True,
     pe_published = Some file_meta\<rparr>"

definition good_open :: "string \<Rightarrow> open_env" where
  "good_open disk = \<lparr>oe_fs = good_fs, oe_open = True, oe_lock = True, oe_locked = Some dir_meta, oe_read = Some disk,
     oe_after = Some file_meta, oe_publish = good_env\<rparr>"

definition one_replica :: fence_config where
  "one_replica = \<lparr>fc_upstreams = [upstream_a], fc_path = good_path, fc_path_bytes = 4, fc_policy = good_policy, fc_positions = 1,
     fc_windows = 2, fc_minimum = 100, fc_initial_health = True\<rparr>"

definition good_store :: "records \<Rightarrow> bool \<Rightarrow> guard_store" where
  "good_store rs dirty = store_loaded good_path (md_identity dir_meta) (md_identity file_meta) good_policy [upstream_a] rs dirty"

lemma file_meta_ok: "validate_file_metadata file_meta good_policy"
  by (simp add: validate_file_metadata_def file_meta_def good_policy_def max_state_bytes_def)

lemma good_parents: "validate_parents good_fs (butlast good_path) good_policy = Inr dir_meta"
  by (simp add: validate_parents_def good_path_def component_ok_def good_fs_def root_meta_def dir_meta_def good_policy_def)

lemma good_revalidate:
  "gs_parent st = butlast good_path \<Longrightarrow> gs_path st = good_path \<Longrightarrow> gs_policy st = good_policy \<Longrightarrow>
   gs_parent_identity st = md_identity dir_meta \<Longrightarrow> gs_target st = md_identity file_meta \<Longrightarrow>
   revalidate good_fs (Some dir_meta) st = Inr ()"
  by (simp add: revalidate_def good_parents file_meta_ok) (simp add: good_fs_def good_path_def file_meta_ok)

lemma good_confirms: "confirms good_policy good_env"
  by (simp add: confirms_def good_env_def file_meta_ok)

lemma good_open_run:
  assumes "decode_document small_serde disk [upstream_a] = Inr (rs, dirty)"
    "dirty \<or> (encode_document small_serde rs True = Inr b \<and> length b \<le> max_state_bytes)"
  shows "\<exists>st. store_open small_serde (good_open disk) good_path 4 good_policy [upstream_a] =
      (Inr st, if dirty then None else Some b) \<and> st = (good_store rs dirty)\<lparr>gs_dirty := True\<rparr>"
proof -
  have "arm_loaded small_serde good_env (good_store rs dirty) =
      (Inr ((good_store rs dirty)\<lparr>gs_dirty := True\<rparr>), if dirty then None else Some b)"
  proof (cases dirty)
    case True
    then show ?thesis by (simp add: arm_loaded_def arm_runtime_def good_store_def store_loaded_def)
  next
    case False
    then show ?thesis
      using assms(2) good_revalidate [of "good_store rs False"] file_meta_ok
      by (simp add: arm_loaded_def arm_runtime_def publish_replacement_def good_store_def store_loaded_def good_env_def)
  qed
  moreover have "validate_normalized_absolute_path good_path 4 = Inr ()"
    by (simp add: validate_normalized_absolute_path_def good_path_def max_path_bytes_def)
  moreover have "good_fs good_path = Some file_meta" by (simp add: good_fs_def good_path_def)
  ultimately show ?thesis
    using assms(1) good_parents file_meta_ok by (simp add: store_open_def good_open_def max_replicas_def good_store_def)
qed

text \<open>The detector of one replica after one, two and three samples of a degenerate engine.\<close>

definition guard_after :: "nat \<Rightarrow> dspark_guard" where
  "guard_after k = zero_guard\<lparr>previous := Some (zero_sample k), consecutive_zero_windows := k - 1, threshold_met := (k = 3)\<rparr>"

lemma observe_after:
  "snd (observe_sample (Inr (zero_sample 1)) zero_guard) = guard_after 1"
  "snd (observe_sample (Inr (zero_sample 2)) (guard_after 1)) = guard_after 2"
  "snd (observe_sample (Inr (zero_sample 3)) (guard_after 2)) = guard_after 3"
  "\<not> obs_threshold_met (fst (observe_sample (Inr (zero_sample 1)) zero_guard))"
  "\<not> obs_threshold_met (fst (observe_sample (Inr (zero_sample 2)) (guard_after 1)))"
  "obs_threshold_met (fst (observe_sample (Inr (zero_sample 3)) (guard_after 2)))"
  by (simp_all add: guard_after_def guard_eval zero_sample_def zero_guard_def)

lemma guard_after_simps: "\<not> quarantined (guard_after k)" "\<not> quarantined zero_guard"
  by (simp_all add: guard_after_def zero_guard_def)

text \<open>A sample without an attestation, when the detector does not trip and when it does.\<close>

lemma unattested_sample:
  assumes "observe_sample sample (ri_guard r) = (ob, g)" "\<not> obs_threshold_met ob"
  shows "apply_sample Guard_Quarantine sd env1 env2 u sample None r (Some st) =
      (ob, no_transition, r\<lparr>ri_guard := g, ri_state := state_after ob no_transition (r\<lparr>ri_guard := g\<rparr>)\<rparr>, Some st, [None])"
    "\<not> tripped sd env1 u sample None r st"
  using assms by (simp_all add: apply_sample_def reconcile_engine_core_def must_enforce_def tripped_def Let_def)

lemma unattested_trip:
  assumes "observe_sample sample (ri_guard r) = (ob, g)" "obs_threshold_met ob" "durable_fence r = Fence_Ready"
    "\<not> quarantined g" "\<not> quarantined (ri_guard r)" "get (gs_upstreams st) u = Some y"
  shows "\<exists>t r'. apply_sample Guard_Quarantine sd ea eb u sample None r (Some st) = (ob, t, r', Some (poison u st), [None, None])"
    "tripped sd ea u sample None r st"
  using assms by (simp_all add: apply_sample_def reconcile_engine_core_def must_enforce_def tripped_def blocks_serving_def
      enforce_quarantine_def poison_runtime_def Let_def)

definition world_of :: "string \<Rightarrow> process option \<Rightarrow> verdict \<Rightarrow> world" where
  "world_of disk p v = \<lparr>w_disk = disk, w_process = p, w_verdict = (\<lambda>_. Fine)(0 := v)\<rparr>"

definition process_of :: "guard_store \<Rightarrow> replica_inner \<Rightarrow> process" where
  "process_of st r = \<lparr>pr_store = st, pr_replicas = [r], pr_published = [published_health r]\<rparr>"

lemma world_of_fine: "(\<lambda>_. Fine)(0 := Fine) = (\<lambda>_. Fine)"
  by auto

lemma run_start:
  assumes "decode_document small_serde disk [upstream_a] = Inr (rs, dirty)"
    "dirty \<or> (encode_document small_serde rs True = Inr b \<and> length b \<le> max_state_bytes)"
    "replica_at_start one_replica ((good_store rs dirty)\<lparr>gs_dirty := True\<rparr>) 0 = Inr r"
  shows "world_step small_serde one_replica (world_of disk None v)
     (world_of (if dirty then disk else b) (Some (process_of ((good_store rs dirty)\<lparr>gs_dirty := True\<rparr>) r)) v)"
proof -
  have o: "store_open small_serde (good_open disk) (fc_path one_replica) (fc_path_bytes one_replica) (fc_policy one_replica)
      (fc_upstreams one_replica) = (Inr ((good_store rs dirty)\<lparr>gs_dirty := True\<rparr>), if dirty then None else Some b)"
    using good_open_run [OF assms(1,2)] by (simp add: one_replica_def)
  have "world_step small_serde one_replica (world_of disk None v)
      ((world_of disk None v)\<lparr>w_disk := published_bytes [if dirty then None else Some b] (w_disk (world_of disk None v)),
        w_process := Some \<lparr>pr_store = (good_store rs dirty)\<lparr>gs_dirty := True\<rparr>, pr_replicas = [r], pr_published = map published_health [r]\<rparr>\<rparr>)"
    by (rule ws_start [where env = "good_open disk", OF _ _ _ o])
      (use assms(3) good_confirms in \<open>simp_all add: world_of_def good_open_def one_replica_def\<close>)
  then show ?thesis by (auto simp: world_of_def process_of_def published_bytes_def)
qed

lemma run_sample:
  assumes "apply_sample Guard_Quarantine small_serde good_env good_env 0 sample None r (Some st) = (ob, t, r', Some st', pubs)"
    "list_all (\<lambda>x. x = None) pubs"
  shows "world_step small_serde one_replica (world_of disk (Some (process_of st r)) v) (world_of disk (Some (process_of st' r'))
     (if tripped small_serde good_env 0 sample None r st then Unattested else v))"
proof -
  have "published_bytes pubs disk = disk"
    using assms(2) by (induction pubs) (auto simp: published_bytes_def)
  then show ?thesis
    using ws_sample [of "world_of disk (Some (process_of st r)) v" "process_of st r" 0 one_replica good_env good_env None small_serde sample ob t r' st' pubs]
      assms(1) good_confirms
    by (cases "tripped small_serde good_env 0 sample None r st")
      (simp_all add: world_of_def process_of_def one_replica_def trip_verdict_def attest_verdict_def)
qed

lemma run_quiet:
  assumes "\<not> obs_threshold_met (fst (observe_sample sample (ri_guard r)))" "snd (observe_sample sample (ri_guard r)) = g"
  shows "\<exists>x. world_step small_serde one_replica (world_of disk (Some (process_of st r)) v)
     (world_of disk (Some (process_of st (r\<lparr>ri_guard := g, ri_state := x\<rparr>))) v)"
proof -
  obtain ob where o: "observe_sample sample (ri_guard r) = (ob, g)" "\<not> obs_threshold_met ob"
    using assms by (cases "observe_sample sample (ri_guard r)") simp
  show ?thesis
    using run_sample [OF unattested_sample(1) [OF o], where disk = disk and v = v and st = st] unattested_sample(2) [OF o, of small_serde good_env 0 st]
    by (auto intro!: exI)
qed

lemma run_trip:
  assumes "obs_threshold_met (fst (observe_sample sample (ri_guard r)))" "durable_fence r = Fence_Ready"
    "\<not> quarantined (snd (observe_sample sample (ri_guard r)))" "\<not> quarantined (ri_guard r)" "get (gs_upstreams st) 0 = Some y"
  shows "\<exists>r'. world_step small_serde one_replica (world_of disk (Some (process_of st r)) v)
     (world_of disk (Some (process_of (poison 0 st) r')) Unattested)"
proof -
  obtain ob g where o: "observe_sample sample (ri_guard r) = (ob, g)" by (cases "observe_sample sample (ri_guard r)")
  then obtain t r' where a: "apply_sample Guard_Quarantine small_serde good_env good_env 0 sample None r (Some st) =
      (ob, t, r', Some (poison 0 st), [None, None])" and "tripped small_serde good_env 0 sample None r st"
    using unattested_trip(1) [OF o _ assms(2) _ assms(4,5), where sd = small_serde and ea = good_env and eb = good_env]
      unattested_trip(2) [OF o _ assms(2) _ assms(4,5), where sd = small_serde and ea = good_env] assms(1,3) o by auto
  then show ?thesis using run_sample [OF a, of disk v] by auto
qed

definition fresh_replica :: replica_inner where
  "fresh_replica = \<lparr>ri_guard = zero_guard, probe_healthy = True, ri_state = RS_Baseline, durable_fence = Fence_Ready\<rparr>"

definition uncertain_replica :: replica_inner where
  "uncertain_replica = \<lparr>ri_guard = zero_guard, probe_healthy = True, ri_state = RS_PersistenceFailure, durable_fence = StartupUncertain\<rparr>"

lemma one_replica_starts:
  "replica_at_start one_replica ((good_store [] False)\<lparr>gs_dirty := True\<rparr>) 0 = Inr fresh_replica"
  "replica_at_start one_replica ((good_store [] True)\<lparr>gs_dirty := True\<rparr>) 0 = Inr uncertain_replica"
  by (simp_all add: replica_at_start_def replica_new_def one_replica_def zero_guard_new [simplified] good_store_def store_loaded_def
      quarantined_engine_core_def requires_uncertain_fence_def fresh_replica_def uncertain_replica_def)

lemma small_decode:
  "decode_document small_serde ''a'' [upstream_a] = Inr ([], False)" "decode_document small_serde ''b'' [upstream_a] = Inr ([], True)"
  "decode_document small_serde ''d'' [upstream_a] = Inr (record_a, True)"
proof -
  have n: "length [upstream_a] \<le> max_replicas" "records_ok [upstream_a] []" by (simp_all add: max_replicas_def records_ok_def)
  show "decode_document small_serde ''a'' [upstream_a] = Inr ([], False)"
    by (rule decode_encode [OF small_serde_ok n(2,1) small_encode(1)])
  show "decode_document small_serde ''b'' [upstream_a] = Inr ([], True)"
    by (rule decode_encode [OF small_serde_ok n(2,1) small_encode(2)])
  show "decode_document small_serde ''d'' [upstream_a] = Inr (record_a, True)"
    by (rule decode_encode [OF small_serde_ok record_a_ok n(1) small_encode(4)])
qed

text \<open>Start, three degenerate samples without an attestation, a crash, and a new process.\<close>

lemma concrete_run:
  "(world_step small_serde one_replica)\<^sup>*\<^sup>* (world_of ''a'' None Fine)
     (world_of ''b'' (Some (process_of ((good_store [] True)\<lparr>gs_dirty := True\<rparr>) uncertain_replica)) Unattested)"
proof -
  let ?S = "world_step small_serde one_replica" and ?st = "(good_store [] False)\<lparr>gs_dirty := True\<rparr>"
  have 0: "?S (world_of ''a'' None Fine) (world_of ''b'' (Some (process_of ?st fresh_replica)) Fine)"
    using run_start [OF small_decode(1), of "''b''" fresh_replica Fine] small_encode(2) one_replica_starts(1)
    by (simp add: max_state_bytes_def)
  obtain x1 where 1: "?S (world_of ''b'' (Some (process_of ?st fresh_replica)) Fine)
      (world_of ''b'' (Some (process_of ?st (fresh_replica\<lparr>ri_guard := guard_after 1, ri_state := x1\<rparr>))) Fine)"
    using run_quiet [of "Inr (zero_sample 1)" fresh_replica "guard_after 1" "''b''" ?st Fine] observe_after(1,4) by (auto simp: fresh_replica_def)
  let ?r1 = "fresh_replica\<lparr>ri_guard := guard_after 1, ri_state := x1\<rparr>"
  obtain x2 where 2: "?S (world_of ''b'' (Some (process_of ?st ?r1)) Fine)
      (world_of ''b'' (Some (process_of ?st (?r1\<lparr>ri_guard := guard_after 2, ri_state := x2\<rparr>))) Fine)"
    using run_quiet [of "Inr (zero_sample 2)" ?r1 "guard_after 2" "''b''" ?st Fine] observe_after by auto
  let ?r2 = "?r1\<lparr>ri_guard := guard_after 2, ri_state := x2\<rparr>"
  have up: "get (gs_upstreams ?st) 0 = Some upstream_a" by (simp add: good_store_def store_loaded_def get_def)
  obtain r3 where 3: "?S (world_of ''b'' (Some (process_of ?st ?r2)) Fine) (world_of ''b'' (Some (process_of (poison 0 ?st) r3)) Unattested)"
    using run_trip [OF _ _ _ _ up, of "Inr (zero_sample 3)" ?r2 "''b''" Fine] observe_after guard_after_simps by (auto simp: fresh_replica_def)
  have 4: "?S (world_of ''b'' (Some (process_of (poison 0 ?st) r3)) Unattested) (world_of ''b'' None Unattested)"
    using ws_crash [of "world_of ''b'' (Some (process_of (poison 0 ?st) r3)) Unattested"] by (simp add: world_of_def)
  have 5: "?S (world_of ''b'' None Unattested)
      (world_of ''b'' (Some (process_of ((good_store [] True)\<lparr>gs_dirty := True\<rparr>) uncertain_replica)) Unattested)"
    using run_start [OF small_decode(2), of "''b''" uncertain_replica Unattested] one_replica_starts(2) by simp
  from 0 1 2 3 4 5 show ?thesis by (meson converse_rtranclp_into_rtranclp r_into_rtranclp)
qed

theorem condemned_engine_stays_fenced_witness:
  "\<not> pr_published (process_of ((good_store [] True)\<lparr>gs_dirty := True\<rparr>) uncertain_replica) ! 0 \<and>
   sn_quarantined (replica_snapshot (pr_replicas (process_of ((good_store [] True)\<lparr>gs_dirty := True\<rparr>) uncertain_replica) ! 0))"
  by (rule condemned_engine_stays_fenced [OF small_serde_ok _ _ _ _ _ concrete_run, of "[]" False _ 0])
    (simp_all add: fc_ok_def one_replica_def max_replicas_def upstream_a_def records_ok_def small_encode world_of_def world_of_fine)

end
