(* ===== verification/Frame_Codec.thy ===== *)
theory Frame_Codec
  imports Ramjet_Prelude
begin

text \<open>
  What the binary frames of \<^verbatim>\<open>src/src/snapshot_session.rs\<close> and \<^verbatim>\<open>src/src/snapshot_tail_wire.rs\<close> share: big-endian
  integers at fixed offsets, the streaming HMAC over SHA-256 and the comparison of authenticators that inspects every
  byte. SHA-256 (crate \<^verbatim>\<open>sha2\<close>) is the parameter \<open>sha\<close>; \<open>sha_ok\<close> says that its digests have 32 bytes.
\<close>

unbundle bit_operations_syntax

section \<open>Integers in a frame\<close>

type_synonym bytes = "u8 list"

fun be_bytes :: "nat \<Rightarrow> nat \<Rightarrow> bytes" where
  "be_bytes 0 n = []"
| "be_bytes (Suc k) n = be_bytes k (n div 256) @ [of_nat n]"

definition be_value :: "bytes \<Rightarrow> nat" where
  "be_value bs = foldl (\<lambda>acc b. acc * 256 + unat b) 0 bs"

definition slice :: "nat \<Rightarrow> nat \<Rightarrow> bytes \<Rightarrow> bytes" where
  "slice a b frame = take (b - a) (drop a frame)"

text \<open>\<open>frame.get(offset..offset + width)\<close> followed by the conversion; \<open>None\<close> when the range is not inside the frame.\<close>

definition read_be :: "nat \<Rightarrow> bytes \<Rightarrow> nat \<Rightarrow> nat option" where
  "read_be width frame offset =
    (if offset + width \<le> length frame then Some (be_value (slice offset (offset + width) frame)) else None)"

definition bytes_of_string :: "string \<Rightarrow> bytes" where
  "bytes_of_string s = map (\<lambda>c. of_nat (of_char c)) s"

section \<open>Authentication\<close>

record hmac =
  hm_inner :: bytes
  hm_outer_pad :: bytes

definition hmac_new :: "bytes \<Rightarrow> hmac" where
  "hmac_new secret =
    (let pad = (\<lambda>fill :: u8. map (\<lambda>i. if i < length secret then fill XOR secret ! i else fill) [0..<64])
     in \<lparr>hm_inner = pad 0x36, hm_outer_pad = pad 0x5c\<rparr>)"

definition hmac_update :: "bytes \<Rightarrow> hmac \<Rightarrow> hmac" where
  "hmac_update bs h = h\<lparr>hm_inner := hm_inner h @ bs\<rparr>"

definition hmac_finalize :: "(bytes \<Rightarrow> bytes) \<Rightarrow> hmac \<Rightarrow> bytes" where
  "hmac_finalize sha h = sha (hm_outer_pad h @ sha (hm_inner h))"

definition constant_work_mac_eq :: "bytes \<Rightarrow> bytes \<Rightarrow> bool" where
  "constant_work_mac_eq candidate expected \<longleftrightarrow>
     fold (\<lambda>i difference. difference OR ucast ((case get candidate i of None \<Rightarrow> 0 | Some b \<Rightarrow> b) XOR expected ! i))
       [0..<length expected] (of_nat (length candidate) XOR 32) = (0 :: u64)"

definition sha_ok :: "(bytes \<Rightarrow> bytes) \<Rightarrow> bool" where
  "sha_ok sha \<longleftrightarrow> (\<forall>x. length (sha x) = 32)"

section \<open>Facts\<close>

lemma length_be_bytes [simp]: "length (be_bytes k n) = k"
  by (induction k arbitrary: n) auto

lemma be_value_snoc [simp]: "be_value (bs @ [b]) = be_value bs * 256 + unat b"
  by (simp add: be_value_def)

lemma be_value_be_bytes: "be_value (be_bytes k n) = n mod 256 ^ k"
proof (induction k arbitrary: n)
  case 0
  then show ?case by (simp add: be_value_def)
next
  case (Suc k)
  have "unat (of_nat n :: u8) = n mod 256" by (simp add: unat_of_nat)
  then show ?case using Suc by (simp add: mod_mult2_eq mult.commute)
qed

lemma be_value_fits: "n < 256 ^ k \<Longrightarrow> be_value (be_bytes k n) = n"
  by (simp add: be_value_be_bytes)

lemma be_value_u64 [simp]: "be_value (be_bytes 8 (unat (x :: u64))) = unat x"
  using unsigned_less [of x] by (intro be_value_fits) simp

lemma length_slice [simp]: "b \<le> length f \<Longrightarrow> a \<le> b \<Longrightarrow> length (slice a b f) = b - a"
  by (simp add: slice_def)

text \<open>A field of a frame that is a concatenation is found by the lengths of the parts before it.\<close>

lemma slice_append_skip: "length xs \<le> a \<Longrightarrow> a \<le> b \<Longrightarrow> slice a b (xs @ ys) = slice (a - length xs) (b - length xs) ys"
  by (simp add: slice_def)

lemma slice_Cons_skip: "0 < a \<Longrightarrow> a \<le> b \<Longrightarrow> slice a b (x # xs) = slice (a - 1) (b - 1) xs"
  by (cases a) (simp_all add: slice_def)

lemma slice_append_here: "b \<le> length xs \<Longrightarrow> slice a b (xs @ ys) = slice a b xs"
  by (cases "a \<le> b") (simp_all add: slice_def)

lemma slice_all [simp]: "length xs = b \<Longrightarrow> slice 0 b xs = xs"
  by (simp add: slice_def)

lemmas slice_fields = slice_append_skip slice_Cons_skip slice_append_here

lemma length_hmac_finalize: "sha_ok sha \<Longrightarrow> length (hmac_finalize sha h) = 32"
  by (simp add: sha_ok_def hmac_finalize_def)

lemma or_fold_zero:
  "fold (\<lambda>i d. d OR f i) xs (d0 :: u64) = 0 \<longleftrightarrow> d0 = 0 \<and> (\<forall>i \<in> set xs. f i = 0)"
proof (induction xs arbitrary: d0)
  case (Cons x xs)
  have "d0 OR f x = 0 \<longleftrightarrow> d0 = 0 \<and> f x = 0"
    by (metis or.left_neutral or_eq_0_iff)
  then show ?case using Cons by auto
qed simp

lemma xor_zero_iff: "(a :: 'a :: len word) XOR b = 0 \<longleftrightarrow> a = b"
proof
  assume "a XOR b = 0"
  then have "(a XOR b) XOR b = b" by simp
  then show "a = b" by (simp add: xor.assoc)
qed simp

lemma ucast_u8_zero_iff: "(ucast (x :: u8) :: u64) = 0 \<longleftrightarrow> x = 0"
proof -
  have "unat x < 256" using unsigned_less [of x] by simp
  then have "unat (ucast x :: u64) = unat x" by (simp add: unsigned_ucast_eq take_bit_nat_eq_self)
  then show ?thesis by (metis unat_eq_zero)
qed

text \<open>The comparison that inspects every byte decides equality of the authenticators.\<close>

lemma constant_work_mac_eq_iff:
  assumes "length expected = 32" "length candidate < 2 ^ 64"
  shows "constant_work_mac_eq candidate expected \<longleftrightarrow> candidate = expected"
proof -
  have "unat (of_nat (length candidate) :: u64) = length candidate" using assms(2) by (simp add: unat_of_nat)
  moreover have "unat (32 :: u64) = 32" by simp
  ultimately have len: "(of_nat (length candidate) :: u64) = 32 \<longleftrightarrow> length candidate = 32"
    by (metis of_nat_numeral)
  show ?thesis
    unfolding constant_work_mac_eq_def or_fold_zero xor_zero_iff ucast_u8_zero_iff len
    using assms(1) by (auto simp: get_def list_eq_iff_nth_eq)
qed

end
