(* ===== verification/Snapshot_Tail.thy ===== *)
theory Snapshot_Tail
  imports Ramjet_Prelude
begin

text \<open>
  The lifecycle fence of one snapshot session (\<^verbatim>\<open>src/src/snapshot_tail.rs\<close>), with the identity types of
  \<^verbatim>\<open>src/src/kv_snapshot.rs\<close> and \<^verbatim>\<open>src/src/snapshot_session.rs\<close> that it compares. The fence admits an authenticated
  snapshot as delivery zero, then exactly the deliveries one, two, and so on with growing event watermarks, and
  becomes ready on a marker that names what was applied last. Every irregularity fences it for good.
\<close>

section \<open>Types\<close>

record engine_incarnation =
  engine_id :: string
  model_revision :: string
  image_digest :: string
  process_started_unix_ns :: u64
  attestation_sha256 :: "u8 list"

datatype reset_kind = FullEngine | DataParallelRank | CacheGroup | Reset_Unsupported

record reset_scope =
  rs_kind :: reset_kind
  rs_rank :: "u32 option"
  rs_group :: "u32 option"

definition full_engine :: reset_scope where
  "full_engine = \<lparr>rs_kind = FullEngine, rs_rank = None, rs_group = None\<rparr>"

record authenticated_snapshot =
  as_incarnation :: engine_incarnation
  as_watermark :: u64
  as_key_id :: "u8 list"
  as_generation :: u64
  as_frame :: "u8 list"

datatype snapshot_tail_state = Tail_Awaiting | Tail_CatchingUp | Tail_Ready | Tail_Fenced

datatype fence_reason =
    StaleSnapshot | UnsupportedResetScope | IncarnationChanged | DigestKeyChanged | GenerationChanged | TailGap
  | EventWatermarkRegression | SequenceOverflow | BufferOverflow | CaughtUpMismatch | Disconnected | Cancelled
  | ApplicationFailed | UnexpectedState

fun fence_reason_str :: "fence_reason \<Rightarrow> string" where
  "fence_reason_str StaleSnapshot = ''stale_snapshot''"
| "fence_reason_str UnsupportedResetScope = ''unsupported_reset_scope''"
| "fence_reason_str IncarnationChanged = ''incarnation_changed''"
| "fence_reason_str DigestKeyChanged = ''digest_key_changed''"
| "fence_reason_str GenerationChanged = ''generation_changed''"
| "fence_reason_str TailGap = ''tail_gap''"
| "fence_reason_str EventWatermarkRegression = ''event_watermark_regression''"
| "fence_reason_str SequenceOverflow = ''sequence_overflow''"
| "fence_reason_str BufferOverflow = ''buffer_overflow''"
| "fence_reason_str CaughtUpMismatch = ''caught_up_mismatch''"
| "fence_reason_str Disconnected = ''disconnected''"
| "fence_reason_str Cancelled = ''cancelled''"
| "fence_reason_str ApplicationFailed = ''application_failed''"
| "fence_reason_str UnexpectedState = ''unexpected_state''"

text \<open>The identity every authenticated frame carries.\<close>

record identity =
  id_incarnation :: engine_incarnation
  id_key_id :: "u8 list"
  id_generation :: u64

text \<open>A tail frame and a caught-up frame have the same fields.\<close>

record sequenced_frame =
  sf_identity :: identity
  sf_delivery :: u64
  sf_watermark :: u64

datatype snapshot_action = Snapshot_Accepted u64 u64 | Snapshot_Fenced fence_reason
datatype tail_action = Tail_Apply u64 u64 | Tail_Duplicate | Tail_Refused fence_reason
datatype caught_up_action = CaughtUp_Ready | CaughtUp_AlreadyReady | CaughtUp_Fenced fence_reason
datatype identity_action = Identity_Current | Identity_Fenced fence_reason

record snapshot_tail_fence =
  expected_incarnation :: engine_incarnation
  expected_digest_key_id :: "u8 list"
  minimum_snapshot_watermark :: u64
  applied_delivery_sequence :: "u64 option"
  applied_event_watermark :: "u64 option"
  tf_revision :: u64
  tf_generation :: u64
  tf_state :: snapshot_tail_state
  tf_reason :: "fence_reason option"

record snapshot_tail_status =
  ts_revision :: u64
  ts_generation :: u64
  ts_state :: snapshot_tail_state
  ts_reason :: "fence_reason option"

section \<open>Operations\<close>

definition start_bootstrap :: "engine_incarnation \<Rightarrow> u64 \<Rightarrow> u8 list \<Rightarrow> u64 \<Rightarrow> snapshot_tail_fence" where
  "start_bootstrap incarnation minimum key_id gen =
    \<lparr>expected_incarnation = incarnation, expected_digest_key_id = key_id, minimum_snapshot_watermark = minimum,
     applied_delivery_sequence = None, applied_event_watermark = None, tf_revision = 1, tf_generation = gen,
     tf_state = Tail_Awaiting, tf_reason = None\<rparr>"

definition tail_status :: "snapshot_tail_fence \<Rightarrow> snapshot_tail_status" where
  "tail_status f = \<lparr>ts_revision = tf_revision f, ts_generation = tf_generation f, ts_state = tf_state f, ts_reason = tf_reason f\<rparr>"

definition bump_tail :: "snapshot_tail_fence \<Rightarrow> snapshot_tail_fence" where
  "bump_tail f = f\<lparr>tf_revision := u64_sat_add (tf_revision f) 1\<rparr>"

definition fence_tail :: "fence_reason \<Rightarrow> snapshot_tail_fence \<Rightarrow> fence_reason \<times> snapshot_tail_fence" where
  "fence_tail reason f =
    (let f1 = (if tf_state f \<noteq> Tail_Fenced then
         bump_tail (f\<lparr>tf_state := Tail_Fenced, tf_reason := Some reason, applied_delivery_sequence := None,
           applied_event_watermark := None\<rparr>)
       else f)
     in (case tf_reason f1 of None \<Rightarrow> reason | Some r \<Rightarrow> r, f1))"

definition check_identity :: "identity \<Rightarrow> snapshot_tail_fence \<Rightarrow> fence_reason + unit" where
  "check_identity i f =
    (if id_generation i \<noteq> tf_generation f then Inl GenerationChanged
     else if id_incarnation i \<noteq> expected_incarnation f then Inl IncarnationChanged
     else if id_key_id i \<noteq> expected_digest_key_id f then Inl DigestKeyChanged
     else Inr ())"

definition accept_snapshot ::
  "authenticated_snapshot \<Rightarrow> reset_scope \<Rightarrow> snapshot_tail_fence \<Rightarrow> snapshot_action \<times> snapshot_tail_fence" where
  "accept_snapshot snap scope f =
    (let refuse = (\<lambda>r. map_prod Snapshot_Fenced id (fence_tail r f)) in
     case tf_reason f of
       Some r \<Rightarrow> (Snapshot_Fenced r, f)
     | None \<Rightarrow>
        if tf_state f \<noteq> Tail_Awaiting then refuse UnexpectedState
        else case check_identity \<lparr>id_incarnation = as_incarnation snap, id_key_id = as_key_id snap, id_generation = as_generation snap\<rparr> f of
          Inl r \<Rightarrow> refuse r
        | Inr _ \<Rightarrow>
           if scope \<noteq> full_engine then refuse UnsupportedResetScope
           else if as_watermark snap < minimum_snapshot_watermark f then refuse StaleSnapshot
           else (Snapshot_Accepted (as_watermark snap) 0,
             bump_tail (f\<lparr>applied_delivery_sequence := Some 0, applied_event_watermark := Some (as_watermark snap),
               tf_state := Tail_CatchingUp\<rparr>)))"

definition accept_tail :: "sequenced_frame \<Rightarrow> snapshot_tail_fence \<Rightarrow> tail_action \<times> snapshot_tail_fence" where
  "accept_tail fr f =
    (let refuse = (\<lambda>r. map_prod Tail_Refused id (fence_tail r f)) in
     case tf_reason f of
       Some r \<Rightarrow> (Tail_Refused r, f)
     | None \<Rightarrow>
        if \<not> (tf_state f = Tail_CatchingUp \<or> tf_state f = Tail_Ready) then refuse UnexpectedState
        else case check_identity (sf_identity fr) f of
          Inl r \<Rightarrow> refuse r
        | Inr _ \<Rightarrow>
           (case (applied_delivery_sequence f, applied_event_watermark f) of
              (Some applied, Some event) \<Rightarrow>
                if sf_delivery fr \<le> applied then (Tail_Duplicate, f)
                else (case u64_checked_add applied 1 of
                   None \<Rightarrow> refuse SequenceOverflow
                 | Some expected \<Rightarrow>
                    if sf_delivery fr \<noteq> expected then refuse TailGap
                    else if sf_delivery fr = - 1 then refuse SequenceOverflow
                    else if sf_watermark fr \<le> event then refuse EventWatermarkRegression
                    else (Tail_Apply (sf_delivery fr) (sf_watermark fr),
                      bump_tail (f\<lparr>applied_delivery_sequence := Some (sf_delivery fr),
                        applied_event_watermark := Some (sf_watermark fr)\<rparr>)))
            | _ \<Rightarrow> refuse UnexpectedState))"

definition caught_up :: "sequenced_frame \<Rightarrow> snapshot_tail_fence \<Rightarrow> caught_up_action \<times> snapshot_tail_fence" where
  "caught_up fr f =
    (let refuse = (\<lambda>r. map_prod CaughtUp_Fenced id (fence_tail r f)) in
     case tf_reason f of
       Some r \<Rightarrow> (CaughtUp_Fenced r, f)
     | None \<Rightarrow>
        (case check_identity (sf_identity fr) f of
           Inl r \<Rightarrow> refuse r
         | Inr _ \<Rightarrow>
            if applied_delivery_sequence f \<noteq> Some (sf_delivery fr) \<or> applied_event_watermark f \<noteq> Some (sf_watermark fr)
            then refuse CaughtUpMismatch
            else (case tf_state f of
               Tail_CatchingUp \<Rightarrow> (CaughtUp_Ready, bump_tail (f\<lparr>tf_state := Tail_Ready\<rparr>))
             | Tail_Ready \<Rightarrow> (CaughtUp_AlreadyReady, f)
             | _ \<Rightarrow> refuse UnexpectedState)))"

definition observe_identity :: "identity \<Rightarrow> snapshot_tail_fence \<Rightarrow> identity_action \<times> snapshot_tail_fence" where
  "observe_identity i f = (case tf_reason f of
     Some r \<Rightarrow> (Identity_Fenced r, f)
   | None \<Rightarrow> (case check_identity i f of
       Inr _ \<Rightarrow> (Identity_Current, f)
     | Inl r \<Rightarrow> map_prod Identity_Fenced id (fence_tail r f)))"

definition tail_disconnected :: "snapshot_tail_fence \<Rightarrow> snapshot_tail_fence" where
  "tail_disconnected f = snd (fence_tail Disconnected f)"

definition buffer_overflowed :: "snapshot_tail_fence \<Rightarrow> snapshot_tail_fence" where
  "buffer_overflowed f = snd (fence_tail BufferOverflow f)"

definition cancel_tail :: "snapshot_tail_fence \<Rightarrow> snapshot_tail_fence" where
  "cancel_tail f = snd (fence_tail Cancelled f)"

definition application_failed :: "snapshot_tail_fence \<Rightarrow> snapshot_tail_fence" where
  "application_failed f = snd (fence_tail ApplicationFailed f)"

end
