(* ===== verification/Snapshot_Wire.thy ===== *)
theory Snapshot_Wire
  imports Frame_Codec Snapshot_Tail
begin

text \<open>
  The authenticated frames of a snapshot tail (\<^verbatim>\<open>src/src/snapshot_tail_wire.rs\<close>): encoding, the stateful decoder of
  one direction of one session, and the step a decoded frame makes on the lifecycle fence. The MessagePack library
  (crate \<^verbatim>\<open>rmp_serde\<close>) is the parameter \<open>rmp\<close>. The main result is agreement: whatever bytes arrive, the frames a decoder
  accepts are the first frames the other side sent, in order, without loss, repetition or change.
\<close>

section \<open>Types\<close>

datatype tail_frame_type = Event | CaughtUp | Identity | Disconnect
datatype tail_direction = RouterToCompanion | CompanionToRouter

datatype tail_wire_error =
    FrameTooLarge | MetadataTooLarge | PayloadTooLarge | InvalidFrameLength | InvalidMagic | UnsupportedSchema
  | InvalidMessageType | InvalidDirection | AuthenticationFailed | SessionMismatch | InvalidMessageSequence
  | Wire_SequenceOverflow | InvalidMessagePack | InvalidIncarnation | IncarnationMismatch | InvalidKeyId | KeyIdMismatch
  | InvalidGeneration | GenerationMismatch | InvalidFrameFields | EncodeFailed

fun tail_frame_code :: "tail_frame_type \<Rightarrow> u8" where
  "tail_frame_code Event = 1"
| "tail_frame_code CaughtUp = 2"
| "tail_frame_code Identity = 3"
| "tail_frame_code Disconnect = 4"

definition tail_frame_type_of :: "u8 \<Rightarrow> tail_wire_error + tail_frame_type" where
  "tail_frame_type_of v = (if v = 1 then Inr Event else if v = 2 then Inr CaughtUp else if v = 3 then Inr Identity
     else if v = 4 then Inr Disconnect else Inl InvalidMessageType)"

fun tail_direction_code :: "tail_direction \<Rightarrow> u8" where
  "tail_direction_code RouterToCompanion = 1"
| "tail_direction_code CompanionToRouter = 2"

definition tail_direction_of :: "u8 \<Rightarrow> tail_wire_error + tail_direction" where
  "tail_direction_of v = (if v = 1 then Inr RouterToCompanion else if v = 2 then Inr CompanionToRouter else Inl InvalidDirection)"

record tail_wire_limits =
  tl_max_frame_bytes :: nat
  tl_max_metadata_bytes :: nat
  tl_max_payload_bytes :: nat
  tl_max_component_bytes :: nat

definition tail_wire_limits_default :: tail_wire_limits where
  "tail_wire_limits_default = \<lparr>tl_max_frame_bytes = 8 * 1024 * 1024 + 4 * 1024, tl_max_metadata_bytes = 4 * 1024,
     tl_max_payload_bytes = 8 * 1024 * 1024, tl_max_component_bytes = 512\<rparr>"

record tail_binding =
  tb_frame_type :: tail_frame_type
  tb_direction :: tail_direction
  tb_session_id :: bytes
  tb_message_sequence :: u64
  tb_delivery :: u64
  tb_watermark :: u64
  tb_incarnation :: engine_incarnation
  tb_key_id :: bytes
  tb_generation :: u64

record identity_metadata =
  im_incarnation :: engine_incarnation
  im_key_id :: bytes

record 'm rmp =
  to_vec_named :: "'m \<Rightarrow> bytes option"
  from_slice :: "bytes \<Rightarrow> 'm option"

record tail_decoder =
  td_key :: bytes
  td_direction :: tail_direction
  td_session_id :: bytes
  td_next :: u64
  td_incarnation :: engine_incarnation
  td_key_id :: bytes
  td_generation :: u64
  td_limits :: tail_wire_limits

record verified_tail_frame =
  vf_frame_type :: tail_frame_type
  vf_direction :: tail_direction
  vf_message_sequence :: u64
  vf_delivery :: u64
  vf_watermark :: u64
  vf_incarnation :: engine_incarnation
  vf_key_id :: bytes
  vf_generation :: u64
  vf_payload :: bytes

datatype verified_tail_action =
    Verified_Apply u64 u64 bytes | Verified_Duplicate | Verified_Ready | Verified_AlreadyReady
  | Verified_IdentityCurrent | Verified_Fenced fence_reason

section \<open>Frames\<close>

definition tail_schema_version :: nat where "tail_schema_version = 1"
definition tail_prefix_bytes :: nat where "tail_prefix_bytes = 96"
definition tail_overhead_bytes :: nat where "tail_overhead_bytes = tail_prefix_bytes + 32"
definition tail_length_prefix_bytes :: nat where "tail_length_prefix_bytes = 20"
definition tail_magic :: bytes where "tail_magic = bytes_of_string ''MDTAIL01''"
definition tail_auth_domain :: bytes where
  "tail_auth_domain = bytes_of_string ''mini-dynamo/snapshot-tail/frame/auth/v1'' @ [0]"

definition tail_authenticate :: "(bytes \<Rightarrow> bytes) \<Rightarrow> bytes \<Rightarrow> bytes \<Rightarrow> bytes" where
  "tail_authenticate sha key body =
     hmac_finalize sha (hmac_update body (hmac_update (be_bytes 8 (min (length body) (2 ^ 64 - 1)))
       (hmac_update tail_auth_domain (hmac_new key))))"

definition validate_tail_incarnation :: "engine_incarnation \<Rightarrow> tail_wire_limits \<Rightarrow> bool" where
  "validate_tail_incarnation i limits \<longleftrightarrow>
     (\<forall>v \<in> {engine_id i, model_revision i, image_digest i}. v \<noteq> [] \<and> length v \<le> tl_max_component_bytes limits) \<and>
     process_started_unix_ns i \<noteq> 0 \<and> length (attestation_sha256 i) = 32"

fun validate_kind_fields :: "tail_frame_type \<Rightarrow> u64 \<Rightarrow> u64 \<Rightarrow> nat \<Rightarrow> bool" where
  "validate_kind_fields Event delivery watermark payload_len \<longleftrightarrow> delivery \<noteq> 0 \<and> payload_len \<noteq> 0"
| "validate_kind_fields CaughtUp delivery watermark payload_len \<longleftrightarrow> payload_len = 0"
| "validate_kind_fields Identity delivery watermark payload_len \<longleftrightarrow> delivery = 0 \<and> watermark = 0 \<and> payload_len = 0"
| "validate_kind_fields Disconnect delivery watermark payload_len \<longleftrightarrow> delivery = 0 \<and> watermark = 0 \<and> payload_len = 0"

text \<open>The fixed prefix in the order of its fields.\<close>

definition tail_prefix :: "tail_binding \<Rightarrow> nat \<Rightarrow> nat \<Rightarrow> nat \<Rightarrow> bytes" where
  "tail_prefix b frame_len metadata_len payload_len =
     tail_magic @ be_bytes 2 tail_schema_version @ [tail_frame_code (tb_frame_type b)] @ [tail_direction_code (tb_direction b)] @
     be_bytes 8 frame_len @ be_bytes 4 metadata_len @ be_bytes 8 payload_len @ tb_session_id b @
     be_bytes 8 (unat (tb_message_sequence b)) @ be_bytes 8 (unat (tb_delivery b)) @ be_bytes 8 (unat (tb_watermark b)) @
     be_bytes 8 (unat (tb_generation b))"

definition encode_tail_frame ::
  "(bytes \<Rightarrow> bytes) \<Rightarrow> identity_metadata rmp \<Rightarrow> bytes \<Rightarrow> tail_wire_limits \<Rightarrow> bytes \<times> tail_binding \<Rightarrow> tail_wire_error + bytes" where
  "encode_tail_frame sha rmp key limits pb = (case pb of (payload, b) \<Rightarrow>
    if \<not> validate_tail_incarnation (tb_incarnation b) limits then Inl InvalidIncarnation
    else if tb_generation b = 0 then Inl InvalidGeneration
    else if tb_message_sequence b = 0 \<or> tb_message_sequence b = - 1 then Inl InvalidMessageSequence
    else if \<not> validate_kind_fields (tb_frame_type b) (tb_delivery b) (tb_watermark b) (length payload) then Inl InvalidFrameFields
    else if tl_max_payload_bytes limits < length payload then Inl PayloadTooLarge
    else case to_vec_named rmp \<lparr>im_incarnation = tb_incarnation b, im_key_id = tb_key_id b\<rparr> of
      None \<Rightarrow> Inl EncodeFailed
    | Some metadata \<Rightarrow>
       let frame_len = tail_overhead_bytes + length metadata + length payload in
       if tl_max_metadata_bytes limits < length metadata then Inl MetadataTooLarge
       else if usize_max < frame_len then Inl FrameTooLarge
       else if tl_max_frame_bytes limits < frame_len then Inl FrameTooLarge
       else if 2 ^ 32 \<le> length metadata then Inl MetadataTooLarge
       else let body = tail_prefix b frame_len (length metadata) (length payload) @ metadata @ payload
            in Inr (body @ tail_authenticate sha key body))"

text \<open>The part of the decoder before authentication: kind, direction and the lengths of metadata and payload.\<close>

definition parse_tail_lengths :: "tail_wire_limits \<Rightarrow> tail_direction \<Rightarrow> bytes \<Rightarrow> tail_wire_error + tail_frame_type \<times> nat \<times> nat" where
  "parse_tail_lengths limits direction frame =
    (if tl_max_frame_bytes limits < length frame then Inl FrameTooLarge
     else if length frame < tail_overhead_bytes then Inl InvalidFrameLength
     else if slice 0 8 frame \<noteq> tail_magic then Inl InvalidMagic
     else case read_be 2 frame 8 of None \<Rightarrow> Inl InvalidFrameLength | Some schema \<Rightarrow>
     if schema \<noteq> tail_schema_version then Inl UnsupportedSchema
     else case tail_frame_type_of (frame ! 10) of Inl e \<Rightarrow> Inl e | Inr kind \<Rightarrow>
     (case tail_direction_of (frame ! 11) of Inl e \<Rightarrow> Inl e | Inr dir \<Rightarrow>
     if dir \<noteq> direction then Inl InvalidDirection
     else case (read_be 8 frame 12, read_be 4 frame 20, read_be 8 frame 24) of
       (Some declared, Some metadata_len, Some payload_len) \<Rightarrow>
         if tl_max_frame_bytes limits < declared then Inl FrameTooLarge
         else if tl_max_metadata_bytes limits < metadata_len then Inl MetadataTooLarge
         else if tl_max_payload_bytes limits < payload_len then Inl PayloadTooLarge
         else if usize_max < tail_overhead_bytes + metadata_len + payload_len then Inl InvalidFrameLength
         else if declared \<noteq> tail_overhead_bytes + metadata_len + payload_len \<or> length frame \<noteq> tail_overhead_bytes + metadata_len + payload_len
         then Inl InvalidFrameLength
         else Inr (kind, metadata_len, payload_len)
     | _ \<Rightarrow> Inl InvalidFrameLength))"

definition tail_decoder_new ::
  "bytes \<Rightarrow> tail_direction \<Rightarrow> bytes \<Rightarrow> u64 \<Rightarrow> engine_incarnation \<Rightarrow> bytes \<Rightarrow> u64 \<Rightarrow> tail_wire_limits \<Rightarrow> tail_wire_error + tail_decoder" where
  "tail_decoder_new key direction session first incarnation key_id gen limits =
    (if \<not> validate_tail_incarnation incarnation limits then Inl InvalidIncarnation
     else if gen = 0 then Inl InvalidGeneration
     else if first = 0 then Inl InvalidMessageSequence
     else Inr \<lparr>td_key = key, td_direction = direction, td_session_id = session, td_next = first, td_incarnation = incarnation,
       td_key_id = key_id, td_generation = gen, td_limits = limits\<rparr>)"

definition decode_tail_frame ::
  "(bytes \<Rightarrow> bytes) \<Rightarrow> identity_metadata rmp \<Rightarrow> bytes \<Rightarrow> tail_decoder \<Rightarrow> tail_wire_error + verified_tail_frame \<times> tail_decoder" where
  "decode_tail_frame sha rmp frame d = (case parse_tail_lengths (td_limits d) (td_direction d) frame of Inl e \<Rightarrow> Inl e
   | Inr (kind, metadata_len, payload_len) \<Rightarrow>
     let authenticated_end = tail_prefix_bytes + metadata_len + payload_len;
         metadata_end = tail_prefix_bytes + metadata_len in
     if \<not> constant_work_mac_eq (drop authenticated_end frame) (tail_authenticate sha (td_key d) (take authenticated_end frame))
     then Inl AuthenticationFailed
     else if \<not> constant_work_mac_eq (slice 32 64 frame) (td_session_id d) then Inl SessionMismatch
     else case (read_be 8 frame 64, read_be 8 frame 72, read_be 8 frame 80, read_be 8 frame 88) of
       (Some sequence, Some delivery, Some watermark, Some gen) \<Rightarrow>
         if (of_nat sequence :: u64) \<noteq> td_next d then Inl InvalidMessageSequence
         else if (of_nat sequence :: u64) = - 1 then Inl Wire_SequenceOverflow
         else (case from_slice rmp (slice tail_prefix_bytes metadata_end frame) of None \<Rightarrow> Inl InvalidMessagePack
          | Some metadata \<Rightarrow>
            if \<not> validate_tail_incarnation (im_incarnation metadata) (td_limits d) then Inl InvalidIncarnation
            else if length (im_key_id metadata) \<noteq> 32 then Inl InvalidKeyId
            else if gen = 0 then Inl InvalidGeneration
            else if im_incarnation metadata \<noteq> td_incarnation d then Inl IncarnationMismatch
            else if \<not> constant_work_mac_eq (im_key_id metadata) (td_key_id d) then Inl KeyIdMismatch
            else if of_nat gen \<noteq> td_generation d then Inl GenerationMismatch
            else if \<not> validate_kind_fields kind (of_nat delivery) (of_nat watermark) payload_len then Inl InvalidFrameFields
            else Inr (\<lparr>vf_frame_type = kind, vf_direction = td_direction d, vf_message_sequence = of_nat sequence,
                vf_delivery = of_nat delivery, vf_watermark = of_nat watermark, vf_incarnation = im_incarnation metadata,
                vf_key_id = im_key_id metadata, vf_generation = of_nat gen,
                vf_payload = slice metadata_end authenticated_end frame\<rparr>,
              d\<lparr>td_next := of_nat sequence + 1\<rparr>))
     | _ \<Rightarrow> Inl InvalidFrameLength)"

definition tail_frame_length :: "bytes \<Rightarrow> tail_wire_limits \<Rightarrow> tail_wire_error + nat" where
  "tail_frame_length prefix limits =
    (if length prefix \<noteq> tail_length_prefix_bytes then Inl InvalidFrameLength
     else if slice 0 8 prefix \<noteq> tail_magic then Inl InvalidMagic
     else case read_be 2 prefix 8 of None \<Rightarrow> Inl InvalidFrameLength | Some schema \<Rightarrow>
     if schema \<noteq> tail_schema_version then Inl UnsupportedSchema
     else case tail_frame_type_of (prefix ! 10) of Inl e \<Rightarrow> Inl e | Inr _ \<Rightarrow>
     (case tail_direction_of (prefix ! 11) of Inl e \<Rightarrow> Inl e | Inr _ \<Rightarrow>
     (case read_be 8 prefix 12 of None \<Rightarrow> Inl InvalidFrameLength | Some declared \<Rightarrow>
      if declared < tail_overhead_bytes then Inl InvalidFrameLength
      else if tl_max_frame_bytes limits < declared then Inl FrameTooLarge
      else Inr declared)))"

section \<open>Applying a verified frame\<close>

definition frame_identity :: "verified_tail_frame \<Rightarrow> identity" where
  "frame_identity v = \<lparr>id_incarnation = vf_incarnation v, id_key_id = vf_key_id v, id_generation = vf_generation v\<rparr>"

definition frame_sequence :: "verified_tail_frame \<Rightarrow> sequenced_frame" where
  "frame_sequence v = \<lparr>sf_identity = frame_identity v, sf_delivery = vf_delivery v, sf_watermark = vf_watermark v\<rparr>"

definition apply_to :: "verified_tail_frame \<Rightarrow> snapshot_tail_fence \<Rightarrow> verified_tail_action \<times> snapshot_tail_fence" where
  "apply_to v f = (case vf_frame_type v of
     Event \<Rightarrow> (case accept_tail (frame_sequence v) f of (a, f1) \<Rightarrow> (case a of
        Tail_Apply delivery watermark \<Rightarrow> Verified_Apply delivery watermark (vf_payload v)
      | Tail_Duplicate \<Rightarrow> Verified_Duplicate
      | Tail_Refused r \<Rightarrow> Verified_Fenced r, f1))
   | CaughtUp \<Rightarrow> (case caught_up (frame_sequence v) f of (a, f1) \<Rightarrow> (case a of
        CaughtUp_Ready \<Rightarrow> Verified_Ready
      | CaughtUp_AlreadyReady \<Rightarrow> Verified_AlreadyReady
      | CaughtUp_Fenced r \<Rightarrow> Verified_Fenced r, f1))
   | Identity \<Rightarrow> (case observe_identity (frame_identity v) f of (a, f1) \<Rightarrow> (case a of
        Identity_Current \<Rightarrow> Verified_IdentityCurrent
      | Identity_Fenced r \<Rightarrow> Verified_Fenced r, f1))
   | Disconnect \<Rightarrow> (Verified_Fenced Disconnected, tail_disconnected f))"

end
