(* ===== verification/Snapshot_Actor.thy ===== *)
theory Snapshot_Actor
  imports Snapshot_Wire "HOL-Library.AList"
begin

text \<open>
  The owner of snapshot bootstrap and publication (\<^verbatim>\<open>src/src/snapshot_actor.rs\<close>) with the prepared generation of
  \<^verbatim>\<open>src/src/snapshot_bootstrap.rs\<close>. As in the source the index type is arbitrary and the function that applies a payload
  to an index is an argument; it returns the index it leaves behind and whether it succeeded.
\<close>

section \<open>Types\<close>

type_synonym actor_identity = identity
type_synonym epoch = u64

record actor_limits =
  al_max_sessions :: nat
  al_max_queued_tail_frames :: nat

definition max_sessions :: nat where "max_sessions = 2"

definition actor_limits_default :: actor_limits where
  "actor_limits_default = \<lparr>al_max_sessions = max_sessions, al_max_queued_tail_frames = 1024\<rparr>"

datatype bootstrap_session_state = S_AwaitingSnapshot | S_BuildingSnapshot | S_CatchingUp | S_Published | S_Fenced

record session_status =
  st_epoch :: epoch
  st_state :: bootstrap_session_state
  st_queued :: nat
  st_reason :: "fence_reason option"

record publication_marker =
  pm_epoch :: epoch
  pm_revision :: u64

record start_session_result =
  sr_epoch :: epoch
  publication_revoked :: bool

datatype actor_action =
    SnapshotBuildStarted | SnapshotInstalled | TailQueued | TailApplied | DuplicateIgnored | IdentityCurrent | IdentityChanged
  | Published epoch | AlreadyPublished | SessionFenced fence_reason | StaleEpochIgnored

datatype actor_error = InvalidLimits | SessionCapacity | EpochExhausted | InvalidState

fun actor_error_reason :: "actor_error \<Rightarrow> string" where
  "actor_error_reason InvalidLimits = ''invalid_limits''"
| "actor_error_reason SessionCapacity = ''session_capacity''"
| "actor_error_reason EpochExhausted = ''epoch_exhausted''"
| "actor_error_reason InvalidState = ''invalid_state''"

record 'i prepared =
  pp_identity :: actor_identity
  pp_watermark :: u64
  pp_index :: 'i
  pp_lifecycle :: snapshot_tail_fence

record 'i published =
  pb_owner :: epoch
  pb_identity :: actor_identity
  pb_index :: 'i

record 'i bootstrap_session =
  bs_identity :: actor_identity
  bs_minimum :: u64
  bs_fence :: snapshot_tail_fence
  bs_state :: bootstrap_session_state
  bs_private :: "'i option"
  bs_queue :: "verified_tail_frame list"
  bs_reason :: "fence_reason option"

text \<open>A \<open>BTreeMap\<close> from epochs to sessions: an association list in key order.\<close>

type_synonym 'i sessions = "(epoch \<times> 'i bootstrap_session) list"

record 'i actor =
  ac_limits :: actor_limits
  ac_next_epoch :: epoch
  ac_sessions :: "'i sessions"
  ac_published :: "'i published option"

type_synonym 'i applier = "'i \<Rightarrow> bytes \<Rightarrow> 'i \<times> bool"

fun epoch_insert :: "epoch \<Rightarrow> 's \<Rightarrow> (epoch \<times> 's) list \<Rightarrow> (epoch \<times> 's) list" where
  "epoch_insert k v [] = [(k, v)]"
| "epoch_insert k v ((k', v') # m) =
    (if k < k' then (k, v) # (k', v') # m else if k = k' then (k, v) # m else (k', v') # epoch_insert k v m)"

abbreviation session_at :: "epoch \<Rightarrow> 'i actor \<Rightarrow> 'i bootstrap_session option" where
  "session_at e a \<equiv> map_of (ac_sessions a) e"

definition put_session :: "epoch \<Rightarrow> 'i bootstrap_session \<Rightarrow> 'i actor \<Rightarrow> 'i actor" where
  "put_session e s a = a\<lparr>ac_sessions := epoch_insert e s (ac_sessions a)\<rparr>"

section \<open>Reading\<close>

definition actor_new :: "actor_limits \<Rightarrow> actor_error + 'i actor" where
  "actor_new limits =
    (if al_max_sessions limits = 0 \<or> max_sessions < al_max_sessions limits \<or> al_max_queued_tail_frames limits = 0
     then Inl InvalidLimits
     else Inr \<lparr>ac_limits = limits, ac_next_epoch = 1, ac_sessions = [], ac_published = None\<rparr>)"

definition published_index :: "'i actor \<Rightarrow> 'i option" where
  "published_index a = map_option pb_index (ac_published a)"

definition published_epoch :: "'i actor \<Rightarrow> epoch option" where
  "published_epoch a = map_option pb_owner (ac_published a)"

definition published_marker :: "'i actor \<Rightarrow> publication_marker option" where
  "published_marker a = Option.bind (published_epoch a) (\<lambda>e. Option.bind (session_at e a) (\<lambda>s.
     if bs_state s = S_Published then Some \<lparr>pm_epoch = e, pm_revision = ts_revision (tail_status (bs_fence s))\<rparr> else None))"

definition session_count :: "'i actor \<Rightarrow> nat" where
  "session_count a = length (ac_sessions a)"

definition session_status_of :: "epoch \<Rightarrow> 'i actor \<Rightarrow> session_status option" where
  "session_status_of e a = map_option (\<lambda>s. \<lparr>st_epoch = e, st_state = bs_state s, st_queued = length (bs_queue s), st_reason = bs_reason s\<rparr>)
     (session_at e a)"

definition current_identity :: "'i actor \<Rightarrow> actor_identity option" where
  "current_identity a = (case ac_published a of Some p \<Rightarrow> Some (pb_identity p)
     | None \<Rightarrow> (case ac_sessions a of [] \<Rightarrow> None | (e, s) # _ \<Rightarrow> Some (bs_identity s)))"

section \<open>Operations\<close>

definition fence_session_record :: "fence_reason \<Rightarrow> 'i bootstrap_session \<Rightarrow> 'i bootstrap_session" where
  "fence_session_record r s = s\<lparr>bs_state := S_Fenced, bs_reason := Some r, bs_queue := [], bs_private := None\<rparr>"

definition revoke_if_owner :: "epoch \<Rightarrow> 'i actor \<Rightarrow> 'i actor" where
  "revoke_if_owner e a = (if published_epoch a = Some e then a\<lparr>ac_published := None\<rparr> else a)"

definition revoke_authority :: "'i actor \<Rightarrow> bool \<times> 'i actor" where
  "revoke_authority a = (ac_published a \<noteq> None \<or> ac_sessions a \<noteq> [], a\<lparr>ac_published := None, ac_sessions := []\<rparr>)"

definition actor_observe_identity :: "actor_identity \<Rightarrow> 'i actor \<Rightarrow> actor_action \<times> 'i actor" where
  "actor_observe_identity i a =
    (if (case current_identity a of None \<Rightarrow> False | Some c \<Rightarrow> c \<noteq> i)
     then (IdentityChanged, a\<lparr>ac_published := None, ac_sessions := []\<rparr>) else (IdentityCurrent, a))"

definition start_session :: "actor_identity \<Rightarrow> u64 \<Rightarrow> 'i actor \<Rightarrow> (actor_error + start_session_result) \<times> 'i actor" where
  "start_session i minimum a =
    (let a1 = a\<lparr>ac_sessions := filter (\<lambda>p. bs_state (snd p) \<noteq> S_Fenced) (ac_sessions a)\<rparr>;
         changed = (case current_identity a1 of None \<Rightarrow> False | Some c \<Rightarrow> c \<noteq> i);
         revoked = (changed \<and> ac_published a1 \<noteq> None);
         a2 = (if changed then a1\<lparr>ac_published := None, ac_sessions := []\<rparr> else a1)
     in if al_max_sessions (ac_limits a2) \<le> length (ac_sessions a2) then (Inl SessionCapacity, a2)
        else case u64_checked_add (ac_next_epoch a2) 1 of
          None \<Rightarrow> (Inl EpochExhausted, a2)
        | Some n \<Rightarrow>
           (Inr \<lparr>sr_epoch = ac_next_epoch a2, publication_revoked = revoked\<rparr>,
            put_session (ac_next_epoch a2)
              \<lparr>bs_identity = i, bs_minimum = minimum,
               bs_fence = start_bootstrap (id_incarnation i) minimum (id_key_id i) (id_generation i),
               bs_state = S_AwaitingSnapshot, bs_private = None, bs_queue = [], bs_reason = None\<rparr>
              (a2\<lparr>ac_next_epoch := n\<rparr>)))"

definition begin_snapshot_build :: "epoch \<Rightarrow> 'i actor \<Rightarrow> actor_action \<times> 'i actor" where
  "begin_snapshot_build e a = (case session_at e a of None \<Rightarrow> (StaleEpochIgnored, a)
   | Some s \<Rightarrow>
      if bs_state s = S_AwaitingSnapshot then (SnapshotBuildStarted, put_session e (s\<lparr>bs_state := S_BuildingSnapshot\<rparr>) a)
      else (SessionFenced UnexpectedState, revoke_if_owner e (put_session e (fence_session_record UnexpectedState s) a)))"

definition publish :: "epoch \<Rightarrow> 'i actor \<Rightarrow> actor_action \<times> 'i actor" where
  "publish e a = (case session_at e a of None \<Rightarrow> (StaleEpochIgnored, a)
   | Some s \<Rightarrow> (case bs_private s of
       None \<Rightarrow> (SessionFenced ApplicationFailed,
          a\<lparr>ac_sessions := epoch_insert e (s\<lparr>bs_fence := application_failed (bs_fence s), bs_state := S_Fenced,
             bs_reason := Some ApplicationFailed\<rparr>) (AList.delete e (ac_sessions a))\<rparr>)
     | Some index \<Rightarrow> (Published e,
          a\<lparr>ac_published := Some \<lparr>pb_owner = e, pb_identity = bs_identity s, pb_index = index\<rparr>,
            ac_sessions := [(e, s\<lparr>bs_private := None, bs_state := S_Published\<rparr>)]\<rparr>)))"

text \<open>The payload of an admitted frame goes to the published index of the owner, or to the private index of the session.\<close>

definition apply_payload_at :: "'i applier \<Rightarrow> epoch \<Rightarrow> bytes \<Rightarrow> 'i actor \<Rightarrow> bool \<times> 'i actor" where
  "apply_payload_at app e payload a =
    (if published_epoch a = Some e then (case ac_published a of None \<Rightarrow> (False, a)
       | Some p \<Rightarrow> (case app (pb_index p) payload of (index, ok) \<Rightarrow> (ok, a\<lparr>ac_published := Some (p\<lparr>pb_index := index\<rparr>)\<rparr>)))
     else (case session_at e a of None \<Rightarrow> (False, a)
       | Some s \<Rightarrow> (case bs_private s of None \<Rightarrow> (False, a)
          | Some i \<Rightarrow> (case app i payload of (index, ok) \<Rightarrow> (ok, put_session e (s\<lparr>bs_private := Some index\<rparr>) a)))))"

definition fail_application :: "epoch \<Rightarrow> 'i actor \<Rightarrow> 'i actor" where
  "fail_application e a = revoke_if_owner e (case session_at e a of None \<Rightarrow> a
     | Some s \<Rightarrow> put_session e (fence_session_record ApplicationFailed (s\<lparr>bs_fence := application_failed (bs_fence s)\<rparr>)) a)"

definition apply_verified_frame :: "'i applier \<Rightarrow> epoch \<Rightarrow> verified_tail_frame \<Rightarrow> 'i actor \<Rightarrow> actor_action \<times> 'i actor" where
  "apply_verified_frame app e frame a = (case session_at e a of None \<Rightarrow> (StaleEpochIgnored, a)
   | Some s \<Rightarrow> (case apply_to frame (bs_fence s) of (act, f) \<Rightarrow>
      let s1 = s\<lparr>bs_fence := f\<rparr>; a1 = put_session e s1 a in
      (case act of
         Verified_Apply _ _ payload \<Rightarrow> (case apply_payload_at app e payload a1 of (ok, a2) \<Rightarrow>
           if ok then (TailApplied, a2) else (SessionFenced ApplicationFailed, fail_application e a2))
       | Verified_Duplicate \<Rightarrow> (DuplicateIgnored, a1)
       | Verified_Ready \<Rightarrow> publish e a1
       | Verified_AlreadyReady \<Rightarrow> (AlreadyPublished, a1)
       | Verified_IdentityCurrent \<Rightarrow> (IdentityCurrent, a1)
       | Verified_Fenced r \<Rightarrow> (SessionFenced r, revoke_if_owner e (put_session e (fence_session_record r s1) a1)))))"

fun drain_queue :: "'i applier \<Rightarrow> epoch \<Rightarrow> verified_tail_frame list \<Rightarrow> actor_action \<Rightarrow> 'i actor \<Rightarrow> actor_action \<times> 'i actor" where
  "drain_queue app e [] action a = (action, a)"
| "drain_queue app e (frame # frames) action a = (case apply_verified_frame app e frame a of (act, a1) \<Rightarrow>
     case act of SessionFenced _ \<Rightarrow> (act, a1) | _ \<Rightarrow> drain_queue app e frames act a1)"

definition install_prepared_snapshot ::
  "'i applier \<Rightarrow> epoch \<Rightarrow> 'i prepared \<Rightarrow> 'i actor \<Rightarrow> (actor_error + actor_action) \<times> 'i actor" where
  "install_prepared_snapshot app e p a = (case session_at e a of None \<Rightarrow> (Inr StaleEpochIgnored, a)
   | Some s \<Rightarrow>
      if bs_state s \<noteq> S_BuildingSnapshot then (Inl InvalidState, a)
      else if pp_identity p \<noteq> bs_identity s \<or> pp_watermark p < bs_minimum s
      then (Inr (SessionFenced UnexpectedState), put_session e (fence_session_record UnexpectedState s) a)
      else map_prod Inr id (drain_queue app e (bs_queue s) SnapshotInstalled
        (put_session e (s\<lparr>bs_fence := pp_lifecycle p, bs_state := S_CatchingUp, bs_queue := [], bs_private := Some (pp_index p)\<rparr>) a)))"

definition accept_tail_frame :: "'i applier \<Rightarrow> epoch \<Rightarrow> verified_tail_frame \<Rightarrow> 'i actor \<Rightarrow> actor_action \<times> 'i actor" where
  "accept_tail_frame app e frame a = (case session_at e a of None \<Rightarrow> (StaleEpochIgnored, a)
   | Some s \<Rightarrow>
      if bs_state s = S_AwaitingSnapshot \<or> bs_state s = S_BuildingSnapshot then
        (if al_max_queued_tail_frames (ac_limits a) \<le> length (bs_queue s)
         then (SessionFenced BufferOverflow,
           put_session e (fence_session_record BufferOverflow (s\<lparr>bs_fence := buffer_overflowed (bs_fence s)\<rparr>)) a)
         else (TailQueued, put_session e (s\<lparr>bs_queue := bs_queue s @ [frame]\<rparr>) a))
      else if bs_state s = S_Fenced then (SessionFenced (case bs_reason s of None \<Rightarrow> UnexpectedState | Some r \<Rightarrow> r), a)
      else apply_verified_frame app e frame a)"

definition snapshot_build_failed :: "epoch \<Rightarrow> 'i actor \<Rightarrow> actor_action \<times> 'i actor" where
  "snapshot_build_failed e a = (case session_at e a of None \<Rightarrow> (StaleEpochIgnored, a)
   | Some s \<Rightarrow> (SessionFenced ApplicationFailed,
       revoke_if_owner e (put_session e (fence_session_record ApplicationFailed (s\<lparr>bs_fence := application_failed (bs_fence s)\<rparr>)) a)))"

definition actor_disconnected :: "epoch \<Rightarrow> 'i actor \<Rightarrow> actor_action \<times> 'i actor" where
  "actor_disconnected e a = (case session_at e a of None \<Rightarrow> (StaleEpochIgnored, a)
   | Some s \<Rightarrow> (SessionFenced Disconnected, revoke_if_owner e (a\<lparr>ac_sessions := AList.delete e (ac_sessions a)\<rparr>)))"

end
