(* ===== verification/Snapshot_Agreement.thy ===== *)
theory Snapshot_Agreement
  imports Snapshot_Wire
begin

text \<open>
  What an accepted tail frame is worth: the decoder reads back what the encoder wrote, accepts only bytes that carry a
  tag under the session key, and uses every message number once. If tags cannot be forged, both sides agree on the
  sequence of frames.
\<close>

section \<open>Assumptions on the libraries\<close>

definition rmp_ok :: "'m rmp \<Rightarrow> bool" where
  "rmp_ok rmp \<longleftrightarrow> (\<forall>m bs. to_vec_named rmp m = Some bs \<longrightarrow> from_slice rmp bs = Some m)"

text \<open>Arrays of the source have their length in their type; limits are \<open>usize\<close> values.\<close>

definition binding_ok :: "tail_binding \<Rightarrow> bool" where
  "binding_ok b \<longleftrightarrow> length (tb_session_id b) = 32 \<and> length (tb_key_id b) = 32"

definition decoder_ok :: "tail_decoder \<Rightarrow> bool" where
  "decoder_ok d \<longleftrightarrow> length (td_session_id d) = 32 \<and> length (td_key_id d) = 32 \<and> tl_max_frame_bytes (td_limits d) \<le> usize_max"

definition verified_of :: "bytes \<times> tail_binding \<Rightarrow> verified_tail_frame" where
  "verified_of pb = (case pb of (payload, b) \<Rightarrow>
     \<lparr>vf_frame_type = tb_frame_type b, vf_direction = tb_direction b, vf_message_sequence = tb_message_sequence b,
      vf_delivery = tb_delivery b, vf_watermark = tb_watermark b, vf_incarnation = tb_incarnation b,
      vf_key_id = tb_key_id b, vf_generation = tb_generation b, vf_payload = payload\<rparr>)"

section \<open>Fields of an encoded frame\<close>

lemma length_tail_magic [simp]: "length tail_magic = 8"
  by (simp add: tail_magic_def bytes_of_string_def)

lemma length_tail_authenticate [simp]: "sha_ok sha \<Longrightarrow> length (tail_authenticate sha key body) = 32"
  by (simp add: tail_authenticate_def length_hmac_finalize)

lemma length_tail_prefix [simp]: "length (tb_session_id b) = 32 \<Longrightarrow> length (tail_prefix b n m p) = 96"
  by (simp add: tail_prefix_def)

lemma tail_codes [simp]:
  "tail_frame_type_of (tail_frame_code t) = Inr t" "tail_direction_of (tail_direction_code d) = Inr d"
  by (cases t; simp add: tail_frame_type_of_def) (cases d; simp add: tail_direction_of_def)

lemma read_be_append:
  "offset + width \<le> length xs \<Longrightarrow> read_be width (xs @ ys) offset = read_be width xs offset"
  by (simp add: read_be_def slice_append_here)

lemma read_be_field:
  "length xs = offset \<Longrightarrow> length fs = width \<Longrightarrow> read_be width (xs @ fs @ ys) offset = Some (be_value fs)"
  by (simp add: read_be_def slice_fields)

text \<open>The fields of the prefix at the offsets the decoder reads.\<close>

lemma tail_prefix_fields:
  fixes n m p :: nat and rest :: bytes
  assumes "length (tb_session_id b) = 32"
  defines "f \<equiv> tail_prefix b n m p @ rest"
  shows "slice 0 8 f = tail_magic" "read_be 2 f 8 = Some (be_value (be_bytes 2 tail_schema_version))"
    "f ! 10 = tail_frame_code (tb_frame_type b)" "f ! 11 = tail_direction_code (tb_direction b)"
    "read_be 8 f 12 = Some (be_value (be_bytes 8 n))" "read_be 4 f 20 = Some (be_value (be_bytes 4 m))"
    "read_be 8 f 24 = Some (be_value (be_bytes 8 p))" "slice 32 64 f = tb_session_id b"
    "read_be 8 f 64 = Some (unat (tb_message_sequence b))" "read_be 8 f 72 = Some (unat (tb_delivery b))"
    "read_be 8 f 80 = Some (unat (tb_watermark b))" "read_be 8 f 88 = Some (unat (tb_generation b))"
  using assms(1)
  by (simp_all add: f_def tail_prefix_def read_be_def slice_fields nth_append)

lemma encoded_shape:
  assumes "encode_tail_frame sha rmp key limits (payload, b) = Inr frame"
  obtains md body where "to_vec_named rmp \<lparr>im_incarnation = tb_incarnation b, im_key_id = tb_key_id b\<rparr> = Some md"
    "body = tail_prefix b (tail_overhead_bytes + length md + length payload) (length md) (length payload) @ md @ payload"
    "frame = body @ tail_authenticate sha key body" "length md < 2 ^ 32" "length md \<le> tl_max_metadata_bytes limits"
    "length payload \<le> tl_max_payload_bytes limits" "tail_overhead_bytes + length md + length payload \<le> tl_max_frame_bytes limits"
    "tail_overhead_bytes + length md + length payload \<le> usize_max"
    "validate_tail_incarnation (tb_incarnation b) limits" "tb_generation b \<noteq> 0" "tb_message_sequence b \<noteq> 0" "tb_message_sequence b \<noteq> - 1"
    "validate_kind_fields (tb_frame_type b) (tb_delivery b) (tb_watermark b) (length payload)"
  using assms that by (auto simp: encode_tail_frame_def Let_def split: if_splits option.splits)

lemma parse_encoded:
  assumes e: "encode_tail_frame sha rmp key limits (payload, b) = Inr frame" and ok: "sha_ok sha" "binding_ok b"
    and md: "to_vec_named rmp \<lparr>im_incarnation = tb_incarnation b, im_key_id = tb_key_id b\<rparr> = Some md"
  shows "parse_tail_lengths limits dir frame =
    (if tb_direction b \<noteq> dir then Inl InvalidDirection else Inr (tb_frame_type b, length md, length payload))"
  using e
proof (rule encoded_shape)
  fix md' body
  assume h: "to_vec_named rmp \<lparr>im_incarnation = tb_incarnation b, im_key_id = tb_key_id b\<rparr> = Some md'"
    "body = tail_prefix b (tail_overhead_bytes + length md' + length payload) (length md') (length payload) @ md' @ payload"
    "frame = body @ tail_authenticate sha key body" "length md' < 2 ^ 32" "length md' \<le> tl_max_metadata_bytes limits"
    "length payload \<le> tl_max_payload_bytes limits" "tail_overhead_bytes + length md' + length payload \<le> tl_max_frame_bytes limits"
    "tail_overhead_bytes + length md' + length payload \<le> usize_max"
  have [simp]: "md' = md" using h(1) md by simp
  have sid: "length (tb_session_id b) = 32" using ok(2) by (simp add: binding_ok_def)
  have len: "length frame = tail_overhead_bytes + length md + length payload"
    using h(2,3) sid ok(1) by (simp add: tail_overhead_bytes_def tail_prefix_bytes_def)
  have f: "frame = tail_prefix b (tail_overhead_bytes + length md + length payload) (length md) (length payload) @
      (md @ payload @ tail_authenticate sha key body)"
    using h(2,3) by simp
  note fields = tail_prefix_fields [OF sid, of "tail_overhead_bytes + length md + length payload" "length md" "length payload"
      "md @ payload @ tail_authenticate sha key body", folded f]
  have v: "be_value (be_bytes 2 tail_schema_version) = tail_schema_version" "be_value (be_bytes 4 (length md)) = length md"
    "be_value (be_bytes 8 (tail_overhead_bytes + length md + length payload)) = tail_overhead_bytes + length md + length payload"
    "be_value (be_bytes 8 (length payload)) = length payload"
    using h(4,8) by (auto intro!: be_value_fits simp: tail_schema_version_def usize_max_eq)
  show ?thesis
    unfolding parse_tail_lengths_def fields v using h(5-8) len by (auto simp: tail_overhead_bytes_def)
qed

text \<open>What the decoder makes of an encoded frame, whatever session it belongs to.\<close>

lemma decode_encoded:
  assumes e: "encode_tail_frame sha rmp (td_key d) (td_limits d) (payload, b) = Inr frame"
    and ok: "sha_ok sha" "rmp_ok rmp" "binding_ok b" "decoder_ok d"
  shows "decode_tail_frame sha rmp frame d =
    (if tb_direction b \<noteq> td_direction d then Inl InvalidDirection
     else if tb_session_id b \<noteq> td_session_id d then Inl SessionMismatch
     else if tb_message_sequence b \<noteq> td_next d then Inl InvalidMessageSequence
     else if tb_incarnation b \<noteq> td_incarnation d then Inl IncarnationMismatch
     else if tb_key_id b \<noteq> td_key_id d then Inl KeyIdMismatch
     else if tb_generation b \<noteq> td_generation d then Inl GenerationMismatch
     else Inr (verified_of (payload, b), d\<lparr>td_next := td_next d + 1\<rparr>))"
  using e
proof (rule encoded_shape)
  fix md body
  assume h: "to_vec_named rmp \<lparr>im_incarnation = tb_incarnation b, im_key_id = tb_key_id b\<rparr> = Some md"
    "body = tail_prefix b (tail_overhead_bytes + length md + length payload) (length md) (length payload) @ md @ payload"
    "frame = body @ tail_authenticate sha (td_key d) body"
    and v: "validate_tail_incarnation (tb_incarnation b) (td_limits d)" "tb_generation b \<noteq> 0" "tb_message_sequence b \<noteq> - 1"
    "validate_kind_fields (tb_frame_type b) (tb_delivery b) (tb_watermark b) (length payload)"
  have sid: "length (tb_session_id b) = 32" "length (tb_key_id b) = 32" using ok(3) by (simp_all add: binding_ok_def)
  have blen: "length body = tail_prefix_bytes + length md + length payload" using h(2) sid by (simp add: tail_prefix_bytes_def)
  have f: "frame = tail_prefix b (tail_overhead_bytes + length md + length payload) (length md) (length payload) @
      (md @ payload @ tail_authenticate sha (td_key d) body)"
    using h(2,3) by simp
  note fields = tail_prefix_fields [OF sid(1), of "tail_overhead_bytes + length md + length payload" "length md" "length payload"
      "md @ payload @ tail_authenticate sha (td_key d) body", folded f]
  have parts: "slice tail_prefix_bytes (tail_prefix_bytes + length md) frame = md"
    "slice (tail_prefix_bytes + length md) (tail_prefix_bytes + length md + length payload) frame = payload"
    unfolding f using sid by (simp_all add: slice_fields tail_prefix_bytes_def)
  have cut: "drop (tail_prefix_bytes + length md + length payload) frame = tail_authenticate sha (td_key d) body"
    "take (tail_prefix_bytes + length md + length payload) frame = body"
    using h(3) blen by simp_all
  have eq32: "constant_work_mac_eq x y \<longleftrightarrow> x = y" if "length x = 32" "length y = 32" for x y
    using that by (simp add: constant_work_mac_eq_iff)
  have ids: "length (td_session_id d) = 32" "length (td_key_id d) = 32" using ok(4) by (simp_all add: decoder_ok_def)
  have m: "from_slice rmp md = Some \<lparr>im_incarnation = tb_incarnation b, im_key_id = tb_key_id b\<rparr>"
    using ok(2) h(1) by (simp add: rmp_ok_def)
  show ?thesis
    unfolding decode_tail_frame_def parse_encoded [OF e ok(1,3) h(1)]
    using v by (simp add: Let_def fields parts cut m sid ids eq32 ok(1) verified_of_def unat_eq_zero) auto
qed

text \<open>What every accepted frame has, whoever made it.\<close>

lemma decode_accepted:
  assumes "decode_tail_frame sha rmp frame d = Inr (v, d')" "sha_ok sha" "decoder_ok d"
  shows "\<exists>body. frame = body @ tail_authenticate sha (td_key d) body" "vf_message_sequence v = td_next d" "td_next d \<noteq> - 1"
    "d' = d\<lparr>td_next := td_next d + 1\<rparr>"
proof -
  obtain kind md_len p_len where p: "parse_tail_lengths (td_limits d) (td_direction d) frame = Inr (kind, md_len, p_len)"
    using assms(1) by (auto simp: decode_tail_frame_def split: sum.splits)
  let ?e = "tail_prefix_bytes + md_len + p_len"
  have len: "length frame = ?e + 32" "length frame < 2 ^ 64"
    using p assms(3) by (auto simp: parse_tail_lengths_def tail_overhead_bytes_def decoder_ok_def usize_max_eq split: if_splits sum.splits option.splits)
  have "constant_work_mac_eq (drop ?e frame) (tail_authenticate sha (td_key d) (take ?e frame))"
    using assms(1) p by (auto simp: decode_tail_frame_def Let_def split: if_splits)
  then have "drop ?e frame = tail_authenticate sha (td_key d) (take ?e frame)"
    using len assms(2) by (simp add: constant_work_mac_eq_iff)
  then show "\<exists>body. frame = body @ tail_authenticate sha (td_key d) body" by (metis append_take_drop_id)
  show "vf_message_sequence v = td_next d" "td_next d \<noteq> - 1" "d' = d\<lparr>td_next := td_next d + 1\<rparr>"
    using assms(1) p by (auto simp: decode_tail_frame_def Let_def split: if_splits option.splits)
qed

section \<open>Agreement\<close>

lemma u64_Suc: "x \<noteq> - 1 \<Longrightarrow> unat (x + 1 :: u64) = Suc (unat x)"
  by (metis add.commute eq_neg_iff_add_eq_0 unatSuc)

text \<open>The decoder over the byte strings that arrive; a rejected one leaves it as it was.\<close>

primrec decode_all :: "(bytes \<Rightarrow> bytes) \<Rightarrow> identity_metadata rmp \<Rightarrow> bytes list \<Rightarrow> tail_decoder \<Rightarrow> verified_tail_frame list" where
  "decode_all sha rmp [] d = []"
| "decode_all sha rmp (frame # frames) d = (case decode_tail_frame sha rmp frame d of
     Inl _ \<Rightarrow> decode_all sha rmp frames d
   | Inr (v, d') \<Rightarrow> v # decode_all sha rmp frames d')"

text \<open>The other side numbers its frames one, two, three and so on, and nobody else produces a tag under the key.\<close>

definition numbered :: "(bytes \<times> tail_binding) list \<Rightarrow> bool" where
  "numbered sent \<longleftrightarrow> (\<forall>i < length sent. binding_ok (snd (sent ! i)) \<and> unat (tb_message_sequence (snd (sent ! i))) = Suc i)"

definition unforged ::
  "(bytes \<Rightarrow> bytes) \<Rightarrow> identity_metadata rmp \<Rightarrow> bytes \<Rightarrow> tail_wire_limits \<Rightarrow> (bytes \<times> tail_binding) list \<Rightarrow> bytes list \<Rightarrow> bool" where
  "unforged sha rmp key limits sent received \<longleftrightarrow> (\<forall>body. body @ tail_authenticate sha key body \<in> set received \<longrightarrow>
     (\<exists>pb \<in> set sent. encode_tail_frame sha rmp key limits pb = Inr (body @ tail_authenticate sha key body)))"

lemma decode_all_agrees:
  assumes "sha_ok sha" "rmp_ok rmp" "decoder_ok d" "numbered sent" "unforged sha rmp (td_key d) (td_limits d) sent received"
    "unat (td_next d) = Suc k" "k \<le> length sent"
  shows "\<exists>n. k + n \<le> length sent \<and> decode_all sha rmp received d = map verified_of (take n (drop k sent))"
  using assms(3,5-7)
proof (induction received arbitrary: d k)
  case Nil
  then show ?case by (intro exI [of _ 0]) simp
next
  case (Cons frame received)
  have rest: "unforged sha rmp (td_key d) (td_limits d) sent received" using Cons.prems(2) by (simp add: unforged_def)
  show ?case
  proof (cases "decode_tail_frame sha rmp frame d")
    case (Inl e)
    then show ?thesis using Cons.IH [OF Cons.prems(1) rest Cons.prems(3,4)] by simp
  next
    case (Inr vd)
    then obtain v d' where dec: "decode_tail_frame sha rmp frame d = Inr (v, d')" by (cases vd) simp
    note acc = decode_accepted [OF dec assms(1) Cons.prems(1)]
    obtain payload b where pb: "(payload, b) \<in> set sent" "encode_tail_frame sha rmp (td_key d) (td_limits d) (payload, b) = Inr frame"
      using acc(1) Cons.prems(2) by (fastforce simp: unforged_def)
    then obtain i where i: "i < length sent" "sent ! i = (payload, b)" by (auto simp: in_set_conv_nth)
    then have b: "binding_ok b" "unat (tb_message_sequence b) = Suc i" using assms(4) by (auto simp: numbered_def)
    have v: "v = verified_of (payload, b)" "tb_message_sequence b = td_next d"
      using decode_encoded [OF pb(2) assms(1,2) b(1) Cons.prems(1)] dec by (auto split: if_splits)
    then have [simp]: "i = k" using b(2) Cons.prems(3) by simp
    have d': "decoder_ok d'" "td_key d' = td_key d" "td_limits d' = td_limits d" "td_next d' = td_next d + 1"
      using acc(4) Cons.prems(1) by (simp_all add: decoder_ok_def)
    have "unat (td_next d') = Suc (Suc k)" using Cons.prems(3) d'(4) u64_Suc [OF acc(3)] by simp
    from Cons.IH [OF d'(1) _ this] d' rest i obtain n where n: "Suc k + n \<le> length sent"
        "decode_all sha rmp received d' = map verified_of (take n (drop (Suc k) sent))" by auto
    have "drop k sent = (payload, b) # drop (Suc k) sent" using i by (simp add: Cons_nth_drop_Suc [symmetric])
    then show ?thesis using dec v(1) n by (intro exI [of _ "Suc n"]) simp
  qed
qed

text \<open>
  C7. Both sides of a snapshot tail agree. Let the other side number its frames from one and be the only one to produce
  tags under the session key. Then, whatever byte strings arrive at a new decoder, with losses, repetitions,
  reorderings and forgeries, the frames it accepts are exactly the first frames that were sent, in order and unchanged.
\<close>

theorem tail_sessions_agree:
  assumes "sha_ok sha" "rmp_ok rmp" "decoder_ok d" "td_next d = 1" "numbered sent"
    and "unforged sha rmp (td_key d) (td_limits d) sent received"
  shows "\<exists>n \<le> length sent. decode_all sha rmp received d = map verified_of (take n sent)"
  using decode_all_agrees [OF assms(1-3,5,6), of 0] assms(4) by auto

text \<open>
  Tail frames round trip. A frame that the encoder produces is accepted by every decoder that holds the same key,
  limits and identity and expects its number; the decoder returns exactly what was encoded, expects the next number,
  and refuses the same bytes from then on.
\<close>

theorem tail_frame_round_trip:
  assumes "sha_ok sha" "rmp_ok rmp" "binding_ok b" "decoder_ok d"
    and "encode_tail_frame sha rmp (td_key d) (td_limits d) (payload, b) = Inr frame"
    and "td_direction d = tb_direction b" "td_session_id d = tb_session_id b" "td_next d = tb_message_sequence b"
    "td_incarnation d = tb_incarnation b" "td_key_id d = tb_key_id b" "td_generation d = tb_generation b"
  shows "decode_tail_frame sha rmp frame d = Inr (verified_of (payload, b), d\<lparr>td_next := td_next d + 1\<rparr>) \<and>
    decode_tail_frame sha rmp frame (d\<lparr>td_next := td_next d + 1\<rparr>) = Inl InvalidMessageSequence"
proof -
  have "decoder_ok (d\<lparr>td_next := td_next d + 1\<rparr>)" using assms(4) by (simp add: decoder_ok_def)
  then show ?thesis
    using decode_encoded [OF assms(5,1-4)] decode_encoded [of sha rmp "d\<lparr>td_next := td_next d + 1\<rparr>" payload b frame] assms
    by simp
qed

section \<open>A concrete session\<close>

definition some_incarnation :: engine_incarnation where
  "some_incarnation = \<lparr>engine_id = ''e'', model_revision = ''m'', image_digest = ''i'', process_started_unix_ns = 1,
     attestation_sha256 = replicate 32 3\<rparr>"

definition some_rmp :: "identity_metadata rmp" where
  "some_rmp = \<lparr>to_vec_named = (\<lambda>m. if m = \<lparr>im_incarnation = some_incarnation, im_key_id = replicate 32 7\<rparr> then Some [1] else None),
     from_slice = (\<lambda>_. Some \<lparr>im_incarnation = some_incarnation, im_key_id = replicate 32 7\<rparr>)\<rparr>"

definition some_sha :: "bytes \<Rightarrow> bytes" where
  "some_sha x = replicate 32 (of_nat (length x))"

definition some_binding :: tail_binding where
  "some_binding = \<lparr>tb_frame_type = Event, tb_direction = CompanionToRouter, tb_session_id = replicate 32 9, tb_message_sequence = 1,
     tb_delivery = 1, tb_watermark = 5, tb_incarnation = some_incarnation, tb_key_id = replicate 32 7, tb_generation = 2\<rparr>"

definition some_decoder :: tail_decoder where
  "some_decoder = \<lparr>td_key = replicate 32 4, td_direction = CompanionToRouter, td_session_id = replicate 32 9, td_next = 1,
     td_incarnation = some_incarnation, td_key_id = replicate 32 7, td_generation = 2, td_limits = tail_wire_limits_default\<rparr>"

definition some_frame :: bytes where
  "some_frame = projr (encode_tail_frame some_sha some_rmp (replicate 32 4) tail_wire_limits_default ([8], some_binding))"

lemma some_encoded: "encode_tail_frame some_sha some_rmp (replicate 32 4) tail_wire_limits_default ([8], some_binding) = Inr some_frame"
  by (simp add: some_frame_def encode_tail_frame_def some_binding_def some_incarnation_def some_rmp_def tail_wire_limits_default_def
      validate_tail_incarnation_def tail_overhead_bytes_def tail_prefix_bytes_def usize_max_eq Let_def)

definition some_sent :: "(bytes \<times> tail_binding) list" where
  "some_sent = [([8], some_binding)]"

lemma some_ok: "sha_ok some_sha" "rmp_ok some_rmp" "binding_ok some_binding" "decoder_ok some_decoder"
  by (simp_all add: sha_ok_def some_sha_def rmp_ok_def some_rmp_def binding_ok_def some_binding_def decoder_ok_def some_decoder_def
      tail_wire_limits_default_def usize_max_eq)

theorem tail_sessions_agree_witness:
  "\<exists>n \<le> length some_sent. decode_all some_sha some_rmp [some_frame, some_frame, [1, 2]] some_decoder =
     map verified_of (take n some_sent)"
proof (rule tail_sessions_agree [OF some_ok(1,2,4)])
  have "body @ tail_authenticate some_sha (replicate 32 4) body \<noteq> [1, 2]" for body
  proof
    assume "body @ tail_authenticate some_sha (replicate 32 4) body = [1, 2]"
    then have "length (body @ tail_authenticate some_sha (replicate 32 4) body) = length [1 :: u8, 2]" by (rule arg_cong)
    then show False using some_ok(1) by simp
  qed
  then show "unforged some_sha some_rmp (td_key some_decoder) (td_limits some_decoder) some_sent [some_frame, some_frame, [1, 2]]"
    using some_encoded by (auto simp: unforged_def some_decoder_def some_sent_def)
qed (simp_all add: some_decoder_def numbered_def some_ok some_binding_def binding_ok_def some_sent_def)

theorem tail_frame_round_trip_witness:
  "decode_tail_frame some_sha some_rmp some_frame some_decoder = Inr (verified_of ([8], some_binding), some_decoder\<lparr>td_next := 2\<rparr>) \<and>
   decode_tail_frame some_sha some_rmp some_frame (some_decoder\<lparr>td_next := 2\<rparr>) = Inl InvalidMessageSequence"
  using tail_frame_round_trip [OF some_ok, of "[8]" some_frame] some_encoded by (simp add: some_decoder_def some_binding_def)

end
