(* ===== verification/Snapshot_Publication.thy ===== *)
theory Snapshot_Publication
  imports Snapshot_Actor Snapshot_Agreement
begin

text \<open>
  What the snapshot actor publishes. The commands of the runtime arrive in any order and for any epoch, including
  epochs that are not open; the invariant over all histories shows that a published index is always the prepared index
  of its owner with an unbroken run of the owner's tail applied to it.
\<close>

section \<open>Commands and histories\<close>

datatype 'i actor_command =
    Cmd_Start actor_identity u64 | Cmd_Observe actor_identity | Cmd_Revoke | Cmd_Begin epoch | Cmd_Install epoch "'i prepared"
  | Cmd_Frame epoch verified_tail_frame | Cmd_BuildFailed epoch | Cmd_Disconnected epoch

primrec actor_step :: "'i applier \<Rightarrow> 'i actor_command \<Rightarrow> 'i actor \<Rightarrow> 'i actor" where
  "actor_step app (Cmd_Start i m) = snd \<circ> start_session i m"
| "actor_step app (Cmd_Observe i) = snd \<circ> actor_observe_identity i"
| "actor_step app Cmd_Revoke = snd \<circ> revoke_authority"
| "actor_step app (Cmd_Begin e) = snd \<circ> begin_snapshot_build e"
| "actor_step app (Cmd_Install e p) = snd \<circ> install_prepared_snapshot app e p"
| "actor_step app (Cmd_Frame e v) = snd \<circ> accept_tail_frame app e v"
| "actor_step app (Cmd_BuildFailed e) = snd \<circ> snapshot_build_failed e"
| "actor_step app (Cmd_Disconnected e) = snd \<circ> actor_disconnected e"

text \<open>A history lists the commands newest first.\<close>

primrec actor_run :: "'i applier \<Rightarrow> 'i actor \<Rightarrow> 'i actor_command list \<Rightarrow> 'i actor" where
  "actor_run app a [] = a"
| "actor_run app a (c # h) = actor_step app c (actor_run app a h)"

fun latest_identity :: "'i actor_command list \<Rightarrow> actor_identity option" where
  "latest_identity [] = None"
| "latest_identity (Cmd_Start i m # h) = Some i"
| "latest_identity (Cmd_Observe i # h) = Some i"
| "latest_identity (c # h) = latest_identity h"

definition received :: "epoch \<Rightarrow> 'i actor_command list \<Rightarrow> verified_tail_frame set" where
  "received e h = {v. Cmd_Frame e v \<in> set h}"

text \<open>What \<open>prepare_authenticated_snapshot\<close> guarantees of the generation it returns.\<close>

definition prepared_ok :: "'i prepared \<Rightarrow> bool" where
  "prepared_ok p \<longleftrightarrow> (let f = pp_lifecycle p; i = pp_identity p in
     tf_state f = Tail_CatchingUp \<and> tf_reason f = None \<and> applied_delivery_sequence f = Some 0 \<and>
     applied_event_watermark f = Some (pp_watermark p) \<and> expected_incarnation f = id_incarnation i \<and>
     expected_digest_key_id f = id_key_id i \<and> tf_generation f = id_generation i)"

definition all_prepared :: "'i actor_command list \<Rightarrow> bool" where
  "all_prepared h \<longleftrightarrow> (\<forall>e p. Cmd_Install e p \<in> set h \<longrightarrow> prepared_ok p)"

text \<open>\<open>replay app p vs w i\<close>: the event frames \<open>vs\<close>, numbered from one, lead from the prepared generation to the
  index \<open>i\<close> at event watermark \<open>w\<close>.\<close>

inductive replay :: "'i applier \<Rightarrow> 'i prepared \<Rightarrow> verified_tail_frame list \<Rightarrow> u64 \<Rightarrow> 'i \<Rightarrow> bool" for app p where
  start: "replay app p [] (pp_watermark p) (pp_index p)"
| event: "replay app p vs w i \<Longrightarrow> vf_frame_type v = Event \<Longrightarrow> frame_identity v = pp_identity p \<Longrightarrow>
    unat (vf_delivery v) = Suc (length vs) \<Longrightarrow> w < vf_watermark v \<Longrightarrow> app i (vf_payload v) = (i', True) \<Longrightarrow>
    replay app p (vs @ [v]) (vf_watermark v) i'"

section \<open>Invariant\<close>

definition tail_fence_at :: "identity \<Rightarrow> snapshot_tail_state \<Rightarrow> nat \<Rightarrow> u64 \<Rightarrow> snapshot_tail_fence \<Rightarrow> bool" where
  "tail_fence_at i st n w f \<longleftrightarrow> tf_state f = st \<and> tf_reason f = None \<and>
     map_option unat (applied_delivery_sequence f) = Some n \<and> applied_event_watermark f = Some w \<and>
     expected_incarnation f = id_incarnation i \<and> expected_digest_key_id f = id_key_id i \<and> tf_generation f = id_generation i"

definition grounded ::
  "'i applier \<Rightarrow> 'i actor_command list \<Rightarrow> epoch \<Rightarrow> snapshot_tail_state \<Rightarrow> identity \<Rightarrow> snapshot_tail_fence \<Rightarrow> 'i \<Rightarrow>
   'i prepared \<Rightarrow> verified_tail_frame list \<Rightarrow> bool" where
  "grounded app h e st i f x p vs \<longleftrightarrow> Cmd_Install e p \<in> set h \<and> pp_identity p = i \<and> set vs \<subseteq> received e h \<and>
     (\<exists>w. replay app p vs w x \<and> tail_fence_at i st (length vs) w f)"

definition caught_up_marker :: "'i applier \<Rightarrow> 'i actor_command list \<Rightarrow> epoch \<Rightarrow> 'i prepared \<Rightarrow> verified_tail_frame list \<Rightarrow> bool" where
  "caught_up_marker app h e p vs \<longleftrightarrow> (\<exists>v \<in> received e h. \<exists>k \<le> length vs. \<exists>x.
     vf_frame_type v = CaughtUp \<and> frame_identity v = pp_identity p \<and> unat (vf_delivery v) = k \<and>
     replay app p (take k vs) (vf_watermark v) x)"

definition session_inv ::
  "'i applier \<Rightarrow> 'i actor_command list \<Rightarrow> 'i published option \<Rightarrow> epoch \<Rightarrow> 'i bootstrap_session \<Rightarrow> bool" where
  "session_inv app h pub e s \<longleftrightarrow>
     latest_identity h = Some (bs_identity s) \<and> set (bs_queue s) \<subseteq> received e h \<and>
     (bs_state s = S_CatchingUp \<longrightarrow> (\<exists>x p vs. bs_private s = Some x \<and>
        grounded app h e Tail_CatchingUp (bs_identity s) (bs_fence s) x p vs)) \<and>
     (bs_state s = S_Published \<longrightarrow> (\<exists>x p vs. pub = Some \<lparr>pb_owner = e, pb_identity = bs_identity s, pb_index = x\<rparr> \<and>
        grounded app h e Tail_Ready (bs_identity s) (bs_fence s) x p vs \<and> caught_up_marker app h e p vs))"

definition actor_inv :: "'i applier \<Rightarrow> 'i actor_command list \<Rightarrow> 'i actor \<Rightarrow> bool" where
  "actor_inv app h a \<longleftrightarrow>
     sorted_wrt (<) (map fst (ac_sessions a)) \<and> 0 < al_max_sessions (ac_limits a) \<and>
     (\<forall>e s. session_at e a = Some s \<longrightarrow> e < ac_next_epoch a \<and> session_inv app h (ac_published a) e s) \<and>
     (\<forall>pb. ac_published a = Some pb \<longrightarrow> (\<exists>s. session_at (pb_owner pb) a = Some s \<and> bs_state s = S_Published))"

lemmas actor_inv_defs = actor_inv_def session_inv_def

section \<open>The session map\<close>

lemma map_of_epoch_insert [simp]: "map_of (epoch_insert k v m) = (map_of m)(k \<mapsto> v)"
  by (induction k v m rule: epoch_insert.induct) (auto simp: fun_eq_iff)

lemma set_epoch_insert: "fst ` set (epoch_insert k v m) = insert k (fst ` set m)"
  by (induction k v m rule: epoch_insert.induct) auto

lemma sorted_epoch_insert: "sorted_wrt (<) (map fst m) \<Longrightarrow> sorted_wrt (<) (map fst (epoch_insert k v m))"
  by (induction k v m rule: epoch_insert.induct) (auto simp: set_epoch_insert)

lemma sorted_sub: "sorted_wrt (<) (map fst m) \<Longrightarrow> sorted_wrt (<) (map fst (filter P m))"
  by (induction m) auto

lemma map_of_retain:
  "sorted_wrt (<) (map fst m) \<Longrightarrow> map_of (filter P m) (k :: epoch) = Some v \<Longrightarrow> map_of m k = Some v \<and> P (k, v)"
  using map_of_SomeD [of "filter P m" k v] map_of_is_SomeI [of m k v] strict_sorted_iff [of "map fst m"] by (auto simp: sorted_wrt_map)

lemma current_identity_some:
  "current_identity a = Some c \<Longrightarrow> (\<exists>pb. ac_published a = Some pb \<and> pb_identity pb = c) \<or>
     (\<exists>e s. session_at e a = Some s \<and> bs_identity s = c)"
  by (auto simp: current_identity_def split: option.splits list.splits)

lemma current_identity_none: "current_identity a = None \<longleftrightarrow> ac_published a = None \<and> ac_sessions a = []"
  by (auto simp: current_identity_def split: option.splits list.splits)

lemma epoch_insert_twice [simp]: "epoch_insert k v (epoch_insert k v' m) = epoch_insert k v m"
  by (induction k v' m rule: epoch_insert.induct) auto

lemma put_session_simps [simp]:
  "session_at e' (put_session e s a) = (if e' = e then Some s else session_at e' a)"
  "ac_published (put_session e s a) = ac_published a" "ac_limits (put_session e s a) = ac_limits a"
  "ac_next_epoch (put_session e s a) = ac_next_epoch a" "published_epoch (put_session e s a) = published_epoch a"
  "put_session e s (put_session e s' a) = put_session e s a"
  by (simp_all add: put_session_def published_epoch_def)

lemma published_epoch_sessions [simp]: "published_epoch (a\<lparr>ac_sessions := m\<rparr>) = published_epoch a"
  by (simp add: published_epoch_def)

lemma fence_session_record_simps [simp]:
  "bs_state (fence_session_record r s) = S_Fenced" "bs_identity (fence_session_record r s) = bs_identity s"
  "bs_queue (fence_session_record r s) = []" "bs_private (fence_session_record r s) = None"
  by (simp_all add: fence_session_record_def)

section \<open>One frame at the lifecycle fence\<close>

lemma check_identity_at: "check_identity i f = Inr () \<longleftrightarrow> i = \<lparr>id_incarnation = expected_incarnation f,
    id_key_id = expected_digest_key_id f, id_generation = tf_generation f\<rparr>"
  by (cases i) (auto simp: check_identity_def)

lemma unat_next_sequence: "u64_checked_add (x :: u64) 1 = Some y \<Longrightarrow> unat y = Suc (unat x)"
  using unat_word_ariths(1) [of x 1] by (auto simp: u64_checked_add_def split: if_splits)

lemma apply_to_at:
  assumes "apply_to v f = (act, f')" "tail_fence_at i st n w f" "st = Tail_CatchingUp \<or> st = Tail_Ready"
  shows "case act of
      Verified_Apply d u payload \<Rightarrow> vf_frame_type v = Event \<and> frame_identity v = i \<and> unat (vf_delivery v) = Suc n \<and>
        w < vf_watermark v \<and> payload = vf_payload v \<and> tail_fence_at i st (Suc n) (vf_watermark v) f'
    | Verified_Ready \<Rightarrow> vf_frame_type v = CaughtUp \<and> frame_identity v = i \<and> unat (vf_delivery v) = n \<and> vf_watermark v = w \<and>
        st = Tail_CatchingUp \<and> tail_fence_at i Tail_Ready n w f'
    | Verified_Fenced r \<Rightarrow> True
    | _ \<Rightarrow> f' = f"
proof -
  have "frame_identity v = i" if "check_identity (frame_identity v) f = Inr ()"
    using that assms(2) by (cases i) (auto simp: check_identity_at tail_fence_at_def)
  then show ?thesis
    using assms unat_next_sequence
    by (auto simp: apply_to_def accept_tail_def caught_up_def observe_identity_def tail_disconnected_def frame_sequence_def
          tail_fence_at_def bump_tail_def Let_def map_prod_def split_beta
        split: tail_frame_type.splits option.splits sum.splits if_splits snapshot_tail_state.splits)
qed

section \<open>Every command keeps the invariant\<close>

abbreviation set_session :: "epoch \<Rightarrow> 'i bootstrap_session \<Rightarrow> 'i published option \<Rightarrow> 'i actor \<Rightarrow> 'i actor" where
  "set_session e s pub a \<equiv> a\<lparr>ac_sessions := epoch_insert e s (ac_sessions a), ac_published := pub\<rparr>"

lemma put_is_set: "put_session e s a = set_session e s (ac_published a) a"
  by (simp add: put_session_def)

lemma revoke_is_set:
  "revoke_if_owner e (put_session e s a) = set_session e s (if published_epoch a = Some e then None else ac_published a) a"
  by (auto simp: revoke_if_owner_def put_session_def published_epoch_def)

lemma session_inv_other:
  "session_inv app h (ac_published a) e' s \<Longrightarrow> e' \<noteq> e \<Longrightarrow> pub = ac_published a \<or> published_epoch a = Some e \<Longrightarrow>
   session_inv app h pub e' s"
  by (auto simp: session_inv_def published_epoch_def)

lemma actor_inv_set:
  assumes inv: "actor_inv app h a" and at: "session_at e a = Some s" and new: "session_inv app h pub e s'"
    and pub: "pub = ac_published a \<or> published_epoch a = Some e \<and> (\<forall>pb. pub = Some pb \<longrightarrow> pb_owner pb = e)"
    and own: "map_option pb_owner pub = Some e \<longrightarrow> bs_state s' = S_Published"
  shows "actor_inv app h (set_session e s' pub a)"
proof -
  have "e' < ac_next_epoch a \<and> session_inv app h pub e' t" if "session_at e' (set_session e s' pub a) = Some t" for e' t
    using that inv new at pub session_inv_other [of app h a e' t e pub] by (auto simp: actor_inv_def split: if_splits)
  moreover have "\<exists>t. session_at (pb_owner pb) (set_session e s' pub a) = Some t \<and> bs_state t = S_Published" if "pub = Some pb" for pb
    using that inv pub own by (auto simp: actor_inv_def)
  ultimately show ?thesis using inv by (simp add: actor_inv_def sorted_epoch_insert)
qed

lemma owner_published:
  "actor_inv app h a \<Longrightarrow> session_at e a = Some s \<Longrightarrow> published_epoch a = Some e \<longleftrightarrow> bs_state s = S_Published"
  by (fastforce simp: actor_inv_defs published_epoch_def)

lemma session_invD: "actor_inv app h a \<Longrightarrow> session_at e a = Some s \<Longrightarrow> session_inv app h (ac_published a) e s"
  by (simp add: actor_inv_def)

lemma session_identity: "actor_inv app h a \<Longrightarrow> session_at e a = Some s \<Longrightarrow> latest_identity h = Some (bs_identity s)"
  by (simp add: actor_inv_defs)

lemma session_queue: "actor_inv app h a \<Longrightarrow> session_at e a = Some s \<Longrightarrow> set (bs_queue s) \<subseteq> received e h"
  by (simp add: actor_inv_defs)

lemma fenced_inv:
  assumes "actor_inv app h a" "session_at e a = Some s" "bs_state s' = S_Fenced" "bs_identity s' = bs_identity s" "bs_queue s' = []"
  shows "actor_inv app h (revoke_if_owner e (put_session e s' a))"
  unfolding revoke_is_set
  by (rule actor_inv_set [OF assms(1,2)])
    (use assms session_identity [OF assms(1,2)] in \<open>auto simp: session_inv_def published_epoch_def\<close>)

lemma revoke_private:
  "actor_inv app h a \<Longrightarrow> session_at e a = Some s \<Longrightarrow> bs_state s \<noteq> S_Published \<Longrightarrow> revoke_if_owner e (put_session e t a) = put_session e t a"
  using owner_published by (fastforce simp: revoke_if_owner_def)

lemma waiting_inv:
  assumes "actor_inv app h a" "session_at e a = Some s" "bs_state s \<noteq> S_Published" "bs_identity s' = bs_identity s"
    and "set (bs_queue s') \<subseteq> received e h" "bs_state s' = S_AwaitingSnapshot \<or> bs_state s' = S_BuildingSnapshot"
  shows "actor_inv app h (put_session e s' a)"
  unfolding put_is_set
  by (rule actor_inv_set [OF assms(1,2)])
    (use assms session_identity [OF assms(1,2)] owner_published [OF assms(1,2)] in \<open>auto simp: session_inv_def published_epoch_def\<close>)

lemma cleared_inv:
  "actor_inv app h a \<Longrightarrow> actor_inv app h' (a\<lparr>ac_published := None, ac_sessions := []\<rparr>)"
  by (simp add: actor_inv_def)

lemma actor_inv_mono:
  assumes inv: "actor_inv app h a" and h: "set h \<subseteq> set h'" "latest_identity h' = latest_identity h"
  shows "actor_inv app h' a"
proof -
  have rec: "received e h \<subseteq> received e h'" for e using h(1) by (auto simp: received_def)
  have gr: "grounded app h' e st i f x p vs" if "grounded app h e st i f x p vs" for e st i f x p vs
    using that h(1) rec by (auto simp: grounded_def)
  have cu: "caught_up_marker app h' e p vs" if "caught_up_marker app h e p vs" for e p vs
    using that rec unfolding caught_up_marker_def by blast
  have "session_inv app h' pub e s" if "session_inv app h pub e s" for pub e s
    using that gr cu h(2) rec [of e] unfolding session_inv_def by (metis subset_trans)
  then show ?thesis using inv by (simp add: actor_inv_def)
qed

lemma grounded_event:
  assumes "grounded app h e st i f x p vs" "apply_to v f = (Verified_Apply d u pl, f')" "app x pl = (x', True)"
    and "v \<in> received e h" "st = Tail_CatchingUp \<or> st = Tail_Ready"
  shows "grounded app h e st i f' x' p (vs @ [v])"
proof -
  obtain w where w: "replay app p vs w x" "tail_fence_at i st (length vs) w f" using assms(1) by (auto simp: grounded_def)
  note ev = apply_to_at [OF assms(2) w(2) assms(5), simplified]
  have "replay app p (vs @ [v]) (vf_watermark v) x'"
    by (rule replay.event [OF w(1)]) (use ev assms in \<open>auto simp: grounded_def\<close>)
  then show ?thesis using assms ev by (auto simp: grounded_def)
qed

lemma caught_up_marker_snoc: "caught_up_marker app h e p vs \<Longrightarrow> caught_up_marker app h e p (vs @ [v])"
  unfolding caught_up_marker_def by (metis append_Nil2 le_SucI length_append_singleton take_append diff_is_0_eq take0)

lemma grounded_ready:
  assumes "grounded app h e st i f x p vs" "apply_to v f = (Verified_Ready, f')" "v \<in> received e h" "st = Tail_CatchingUp \<or> st = Tail_Ready"
  shows "grounded app h e Tail_Ready i f' x p vs" "caught_up_marker app h e p vs" "st = Tail_CatchingUp"
proof -
  obtain w where w: "replay app p vs w x" "tail_fence_at i st (length vs) w f" using assms(1) by (auto simp: grounded_def)
  note ev = apply_to_at [OF assms(2) w(2) assms(4), simplified]
  show "grounded app h e Tail_Ready i f' x p vs" using assms(1) w(1) ev by (auto simp: grounded_def)
  have "replay app p (take (length vs) vs) (vf_watermark v) x" using w(1) ev by simp
  then show "caught_up_marker app h e p vs"
    using assms(1,3) ev unfolding caught_up_marker_def grounded_def by (metis order_refl)
  show "st = Tail_CatchingUp" using ev by simp
qed

lemma grounded_still:
  assumes "grounded app h e st i f x p vs" "apply_to v f = (act, f')" "st = Tail_CatchingUp \<or> st = Tail_Ready"
    and "act = Verified_Duplicate \<or> act = Verified_AlreadyReady \<or> act = Verified_IdentityCurrent"
  shows "f' = f"
proof -
  obtain w where "tail_fence_at i st (length vs) w f" using assms(1) by (auto simp: grounded_def)
  from apply_to_at [OF assms(2) this assms(3)] assms(4) show ?thesis by auto
qed

lemma set_same_inv:
  assumes "actor_inv app h a" "session_at e a = Some s"
  shows "actor_inv app h (put_session e s a)"
  unfolding put_is_set
  by (rule actor_inv_set [OF assms session_invD [OF assms]])
    (use owner_published [OF assms] in \<open>simp_all add: published_epoch_def\<close>)

lemma publish_inv:
  assumes inv: "actor_inv app h a" and at: "session_at e a = Some s" and x: "bs_private s = Some x"
    and g: "grounded app h e Tail_Ready (bs_identity s) f x p vs" "caught_up_marker app h e p vs"
  shows "actor_inv app h (snd (publish e (put_session e (s\<lparr>bs_fence := f\<rparr>) a)))"
proof -
  let ?s = "s\<lparr>bs_fence := f, bs_private := None, bs_state := S_Published\<rparr>"
  let ?pub = "Some \<lparr>pb_owner = e, pb_identity = bs_identity s, pb_index = x\<rparr>"
  have eq: "snd (publish e (put_session e (s\<lparr>bs_fence := f\<rparr>) a)) = a\<lparr>ac_published := ?pub, ac_sessions := [(e, ?s)]\<rparr>"
    using x by (simp add: publish_def put_session_def)
  have "session_inv app h ?pub e ?s"
    using g session_identity [OF inv at] session_queue [OF inv at] by (auto simp: session_inv_def)
  then show ?thesis using inv at unfolding eq by (simp add: actor_inv_def)
qed

lemma apply_private_inv:
  assumes inv: "actor_inv app h a" and at: "session_at e a = Some s" and st: "bs_state s = S_CatchingUp" and v: "v \<in> received e h"
    and ap: "apply_to v (bs_fence s) = (Verified_Apply d u pl, f)" 
    and pa: "apply_payload_at app e pl (put_session e (s\<lparr>bs_fence := f\<rparr>) a) = (ok, b)"
  shows "actor_inv app h (if ok then b else fail_application e b)"
proof -
  obtain x p vs where x: "bs_private s = Some x" and g: "grounded app h e Tail_CatchingUp (bs_identity s) (bs_fence s) x p vs"
    using session_invD [OF inv at] st unfolding session_inv_def by blast
  obtain x' ok' where app: "app x pl = (x', ok')" by (cases "app x pl") auto
  have own: "published_epoch a \<noteq> Some e" using owner_published [OF inv at] st by simp
  have b: "ok = ok'" "b = put_session e (s\<lparr>bs_fence := f, bs_private := Some x'\<rparr>) a"
    using pa own x app by (simp_all add: apply_payload_at_def)
  show ?thesis
  proof (cases ok)
    case True
    note g' = grounded_event [OF g ap _ v, of x'] 
    have "session_inv app h (ac_published a) e (s\<lparr>bs_fence := f, bs_private := Some x'\<rparr>)"
      using g' app b True session_identity [OF inv at] session_queue [OF inv at] st by (auto simp: session_inv_def)
    then have "actor_inv app h b"
      unfolding b put_is_set by (rule actor_inv_set [OF inv at]) (use own in \<open>auto simp: published_epoch_def\<close>)
    then show ?thesis using True by simp
  next
    case False
    then show ?thesis using fenced_inv [OF inv at] b(2) by (simp add: fail_application_def)
  qed
qed

lemma apply_published_inv:
  assumes inv: "actor_inv app h a" and at: "session_at e a = Some s" and st: "bs_state s = S_Published" and v: "v \<in> received e h"
    and ap: "apply_to v (bs_fence s) = (Verified_Apply d u pl, f)"
    and pa: "apply_payload_at app e pl (put_session e (s\<lparr>bs_fence := f\<rparr>) a) = (ok, b)"
  shows "actor_inv app h (if ok then b else fail_application e b)"
proof -
  obtain x p vs where pub: "ac_published a = Some \<lparr>pb_owner = e, pb_identity = bs_identity s, pb_index = x\<rparr>"
      and g: "grounded app h e Tail_Ready (bs_identity s) (bs_fence s) x p vs" "caught_up_marker app h e p vs"
    using session_invD [OF inv at] st unfolding session_inv_def by blast
  obtain x' ok' where app: "app x pl = (x', ok')" by (cases "app x pl") auto
  let ?pub = "Some \<lparr>pb_owner = e, pb_identity = bs_identity s, pb_index = x'\<rparr>"
  have own: "published_epoch a = Some e" using pub by (simp add: published_epoch_def)
  have "(ok, b) = (ok', (put_session e (s\<lparr>bs_fence := f\<rparr>) a)\<lparr>ac_published := ?pub\<rparr>)"
    using own pub app unfolding pa [symmetric] by (simp add: apply_payload_at_def)
  then have b: "ok = ok'" "b = set_session e (s\<lparr>bs_fence := f\<rparr>) ?pub a" by (simp_all add: put_session_def)
  show ?thesis
  proof (cases ok)
    case True
    have "session_inv app h ?pub e (s\<lparr>bs_fence := f\<rparr>)"
      using grounded_event [OF g(1) ap _ v, of x'] caught_up_marker_snoc [OF g(2)] app b True st
        session_identity [OF inv at] session_queue [OF inv at] by (auto simp: session_inv_def)
    then have "actor_inv app h b" unfolding b by (rule actor_inv_set [OF inv at]) (use own st in simp_all)
    then show ?thesis using True by simp
  next
    case False
    have "fail_application e b =
      revoke_if_owner e (put_session e (fence_session_record ApplicationFailed (s\<lparr>bs_fence := application_failed f\<rparr>)) a)"
      using own by (simp add: fail_application_def b revoke_if_owner_def put_session_def published_epoch_def)
    then show ?thesis using False fenced_inv [OF inv at] by simp
  qed
qed

lemma frame_inv:
  assumes inv: "actor_inv app h a" and at: "session_at e a = Some s"
    and st: "bs_state s = S_CatchingUp \<or> bs_state s = S_Published" and v: "v \<in> received e h"
  shows "actor_inv app h (snd (apply_verified_frame app e v a))"
proof -
  define t where "t = (if bs_state s = S_CatchingUp then Tail_CatchingUp else Tail_Ready)"
  have "\<exists>x p vs. grounded app h e t (bs_identity s) (bs_fence s) x p vs \<and> (t = Tail_CatchingUp \<longrightarrow> bs_private s = Some x)"
    using st
  proof
    assume c: "bs_state s = S_CatchingUp"
    then show ?thesis using session_invD [OF inv at] unfolding session_inv_def t_def by fastforce
  next
    assume c: "bs_state s = S_Published"
    then show ?thesis using session_invD [OF inv at] unfolding session_inv_def t_def by fastforce
  qed
  then obtain x p vs where g: "grounded app h e t (bs_identity s) (bs_fence s) x p vs" and x: "t = Tail_CatchingUp \<longrightarrow> bs_private s = Some x"
    by blast
  have t: "t = Tail_CatchingUp \<or> t = Tail_Ready" by (simp add: t_def)
  obtain act f where ap: "apply_to v (bs_fence s) = (act, f)" by (cases "apply_to v (bs_fence s)") auto
  show ?thesis
  proof (cases act)
    case (Verified_Apply d u pl)
    obtain ok b where pa: "apply_payload_at app e pl (put_session e (s\<lparr>bs_fence := f\<rparr>) a) = (ok, b)"
      by (cases "apply_payload_at app e pl (put_session e (s\<lparr>bs_fence := f\<rparr>) a)") auto
    have "actor_inv app h (if ok then b else fail_application e b)"
      using st apply_private_inv [OF inv at _ v _ pa] apply_published_inv [OF inv at _ v _ pa] ap Verified_Apply by blast
    then show ?thesis using at ap Verified_Apply pa by (simp add: apply_verified_frame_def split: if_splits)
  next
    case Verified_Ready
    note r = grounded_ready [OF g ap [unfolded Verified_Ready] v t]
    then show ?thesis using publish_inv [OF inv at _ r(1,2)] x at ap Verified_Ready by (simp add: apply_verified_frame_def)
  next
    case (Verified_Fenced r)
    then show ?thesis using at ap fenced_inv [OF inv at] by (simp add: apply_verified_frame_def)
  qed (use grounded_still [OF g ap t] set_same_inv [OF inv at] at ap in \<open>simp_all add: apply_verified_frame_def\<close>)
qed

lemma frame_open:
  assumes "apply_verified_frame app e v a = (act, b)" "session_at e a = Some s" "bs_state s = S_CatchingUp \<or> bs_state s = S_Published"
    and "\<forall>r. act \<noteq> SessionFenced r"
  shows "\<exists>t. session_at e b = Some t \<and> (bs_state t = S_CatchingUp \<or> bs_state t = S_Published)"
proof -
  obtain act' f where ap: "apply_to v (bs_fence s) = (act', f)" by (cases "apply_to v (bs_fence s)") auto
  show ?thesis
  proof (cases act')
    case (Verified_Apply d u pl)
    obtain ok c where pa: "apply_payload_at app e pl (put_session e (s\<lparr>bs_fence := f\<rparr>) a) = (ok, c)"
      by (cases "apply_payload_at app e pl (put_session e (s\<lparr>bs_fence := f\<rparr>) a)") auto
    have "b = c" using assms ap Verified_Apply pa by (auto simp: apply_verified_frame_def split: if_splits)
    moreover have "\<exists>t. session_at e c = Some t \<and> bs_state t = bs_state s"
      using pa by (auto simp: apply_payload_at_def split: if_splits option.splits prod.splits)
    ultimately show ?thesis using assms(3) by auto
  next
    case Verified_Ready
    then show ?thesis using assms ap by (auto simp: apply_verified_frame_def publish_def Let_def split: option.splits)
  qed (use assms ap in \<open>auto simp: apply_verified_frame_def\<close>)
qed

lemma drain_inv:
  assumes "actor_inv app h a" "session_at e a = Some s" "bs_state s = S_CatchingUp \<or> bs_state s = S_Published" "set vs \<subseteq> received e h"
  shows "actor_inv app h (snd (drain_queue app e vs act a))"
  using assms
proof (induction vs arbitrary: a s act)
  case (Cons v vs)
  obtain act' b where ap: "apply_verified_frame app e v a = (act', b)" by (cases "apply_verified_frame app e v a") auto
  have b: "actor_inv app h b" using frame_inv [OF Cons.prems(1-3), of v] Cons.prems(4) ap by simp
  show ?case
  proof (cases "\<exists>r. act' = SessionFenced r")
    case True
    then show ?thesis using ap b by auto
  next
    case False
    then obtain t where "session_at e b = Some t" "bs_state t = S_CatchingUp \<or> bs_state t = S_Published"
      using frame_open [OF ap Cons.prems(2,3)] by auto
    then have "actor_inv app h (snd (drain_queue app e vs act' b))" using Cons.IH [OF b] Cons.prems(4) by auto
    then show ?thesis using ap False by (cases act') simp_all
  qed
qed simp

lemma install_inv:
  assumes inv: "actor_inv app h a" and p: "prepared_ok p" "Cmd_Install e p \<in> set h"
  shows "actor_inv app h (snd (install_prepared_snapshot app e p a))"
proof (cases "session_at e a")
  case (Some s)
  let ?s = "s\<lparr>bs_fence := pp_lifecycle p, bs_state := S_CatchingUp, bs_queue := [], bs_private := Some (pp_index p)\<rparr>"
  consider "bs_state s \<noteq> S_BuildingSnapshot" | "bs_state s = S_BuildingSnapshot" "pp_identity p \<noteq> bs_identity s \<or> pp_watermark p < bs_minimum s"
    | "bs_state s = S_BuildingSnapshot" "pp_identity p = bs_identity s" "\<not> pp_watermark p < bs_minimum s" by blast
  then show ?thesis
  proof cases
    case 2
    then show ?thesis using fenced_inv [OF inv Some] revoke_private [OF inv Some] Some
      by (simp add: install_prepared_snapshot_def)
  next
    case 3
    have "tail_fence_at (bs_identity s) Tail_CatchingUp 0 (pp_watermark p) (pp_lifecycle p)"
      using p(1) 3 by (simp add: prepared_ok_def tail_fence_at_def Let_def)
    then have "grounded app h e Tail_CatchingUp (bs_identity s) (pp_lifecycle p) (pp_index p) p []"
      using p(2) 3 replay.start [of app p] by (auto simp: grounded_def)
    then have "session_inv app h (ac_published a) e ?s" using session_identity [OF inv Some] by (auto simp: session_inv_def)
    then have "actor_inv app h (put_session e ?s a)"
      unfolding put_is_set by (rule actor_inv_set [OF inv Some])
        (use owner_published [OF inv Some] 3 in \<open>simp_all add: published_epoch_def\<close>)
    then have "actor_inv app h (snd (drain_queue app e (bs_queue s) SnapshotInstalled (put_session e ?s a)))"
      by (rule drain_inv [where s = ?s]) (use session_queue [OF inv Some] in simp_all)
    then show ?thesis using 3 Some by (simp add: install_prepared_snapshot_def)
  qed (use inv Some in \<open>simp add: install_prepared_snapshot_def\<close>)
qed (use inv in \<open>simp add: install_prepared_snapshot_def\<close>)

lemma accept_frame_inv:
  assumes inv: "actor_inv app h a" and v: "v \<in> received e h"
  shows "actor_inv app h (snd (accept_tail_frame app e v a))"
proof (cases "session_at e a")
  case (Some s)
  show ?thesis
  proof (cases "bs_state s = S_AwaitingSnapshot \<or> bs_state s = S_BuildingSnapshot")
    case True
    then have np: "bs_state s \<noteq> S_Published" by auto
    have "actor_inv app h (put_session e (fence_session_record BufferOverflow (s\<lparr>bs_fence := buffer_overflowed (bs_fence s)\<rparr>)) a)"
      using fenced_inv [OF inv Some] revoke_private [OF inv Some np] by simp
    moreover have "actor_inv app h (put_session e (s\<lparr>bs_queue := bs_queue s @ [v]\<rparr>) a)"
      by (rule waiting_inv [OF inv Some np]) (use True v session_queue [OF inv Some] in simp_all)
    ultimately show ?thesis using True Some by (simp add: accept_tail_frame_def)
  next
    case False
    then have "bs_state s = S_CatchingUp \<or> bs_state s = S_Published \<or> bs_state s = S_Fenced" by (cases "bs_state s") simp_all
    then show ?thesis using frame_inv [OF inv Some _ v] inv Some False by (auto simp: accept_tail_frame_def)
  qed
qed (use inv in \<open>simp add: accept_tail_frame_def\<close>)

lemma begin_inv: "actor_inv app h a \<Longrightarrow> actor_inv app h (snd (begin_snapshot_build e a))"
proof (cases "session_at e a")
  case (Some s)
  assume inv: "actor_inv app h a"
  have "actor_inv app h (put_session e (s\<lparr>bs_state := S_BuildingSnapshot\<rparr>) a)" if "bs_state s = S_AwaitingSnapshot"
    by (rule waiting_inv [OF inv Some]) (use that session_queue [OF inv Some] in simp_all)
  then show ?thesis using fenced_inv [OF inv Some] Some by (simp add: begin_snapshot_build_def)
qed (simp add: begin_snapshot_build_def)

lemma build_failed_inv: "actor_inv app h a \<Longrightarrow> actor_inv app h (snd (snapshot_build_failed e a))"
  using fenced_inv [of app h a e] by (auto simp: snapshot_build_failed_def split: option.splits)

lemma sub_inv:
  assumes inv: "actor_inv app h a" and srt: "sorted_wrt (<) (map fst m)"
    and sub: "\<And>e s. map_of m e = Some s \<Longrightarrow> session_at e a = Some s"
    and pub: "\<And>pb. pub = Some pb \<Longrightarrow> ac_published a = Some pb \<and> map_of m (pb_owner pb) \<noteq> None"
    and same: "\<And>e s. map_of m e = Some s \<Longrightarrow> bs_state s = S_Published \<Longrightarrow> pub = ac_published a"
  shows "actor_inv app h (a\<lparr>ac_published := pub, ac_sessions := m\<rparr>)"
proof -
  have "e < ac_next_epoch a \<and> session_inv app h pub e s" if "map_of m e = Some s" for e s
    using inv sub [OF that] same [OF that] unfolding actor_inv_def session_inv_def by metis
  moreover have "\<exists>s. map_of m (pb_owner pb) = Some s \<and> bs_state s = S_Published" if p: "pub = Some pb" for pb
  proof -
    obtain s where s: "map_of m (pb_owner pb) = Some s" using pub [OF p] by auto
    then show ?thesis using owner_published [OF inv sub [OF s]] pub [OF p] by (auto simp: published_epoch_def)
  qed
  ultimately show ?thesis using srt inv by (simp add: actor_inv_def)
qed

lemma inv_sorted: "actor_inv app h a \<Longrightarrow> sorted_wrt (<) (map fst (ac_sessions a))"
  by (simp add: actor_inv_def)

lemma map_of_retained:
  assumes "sorted_wrt (<) (map fst m)" "map_of m (k :: epoch) = Some v" "P (k, v)"
  shows "map_of (filter P m) k = Some v"
  using assms sorted_sub [OF assms(1), of P] map_of_SomeD [OF assms(2)]
  by (intro map_of_is_SomeI) (auto simp: strict_sorted_iff)

lemma retained_inv:
  assumes inv: "actor_inv app h a"
  shows "actor_inv app h (a\<lparr>ac_sessions := filter (\<lambda>p. bs_state (snd p) \<noteq> S_Fenced) (ac_sessions a)\<rparr>)"
proof -
  let ?m = "filter (\<lambda>p. bs_state (snd p) \<noteq> S_Fenced) (ac_sessions a)"
  note srt = inv_sorted [OF inv]
  have "actor_inv app h (a\<lparr>ac_published := ac_published a, ac_sessions := ?m\<rparr>)"
  proof (rule sub_inv [OF inv sorted_sub [OF srt]])
    fix pb assume pb: "ac_published a = Some pb"
    then obtain s where "session_at (pb_owner pb) a = Some s" "bs_state s = S_Published" using inv by (auto simp: actor_inv_def)
    then show "ac_published a = Some pb \<and> map_of ?m (pb_owner pb) \<noteq> None" using map_of_retained [OF srt] pb by simp
  qed (use map_of_retain [OF srt] in auto)
  then show ?thesis by simp
qed

lemma delete_is_filter: "AList.delete e m = filter (\<lambda>p. fst p \<noteq> e) m"
  by (induction m) auto

lemma disconnected_inv:
  assumes inv: "actor_inv app h a"
  shows "actor_inv app h (snd (actor_disconnected e a))"
proof (cases "session_at e a")
  case (Some s)
  let ?pub = "if published_epoch a = Some e then None else ac_published a"
  note srt = inv_sorted [OF inv]
  have sub: "session_at e' a = Some t \<and> e' \<noteq> e" if "map_of (AList.delete e (ac_sessions a)) e' = Some t" for e' t
    using that by (auto simp: AList.delete_conv split: if_splits)
  have "actor_inv app h (a\<lparr>ac_published := ?pub, ac_sessions := AList.delete e (ac_sessions a)\<rparr>)"
  proof (rule sub_inv [OF inv])
    show "sorted_wrt (<) (map fst (AList.delete e (ac_sessions a)))" unfolding delete_is_filter by (rule sorted_sub [OF srt])
  next
    fix pb assume "?pub = Some pb"
    then show "ac_published a = Some pb \<and> map_of (AList.delete e (ac_sessions a)) (pb_owner pb) \<noteq> None"
      using inv by (auto simp: AList.delete_conv published_epoch_def actor_inv_def split: if_splits)
  next
    fix e' t assume "map_of (AList.delete e (ac_sessions a)) e' = Some t" "bs_state t = S_Published"
    then show "?pub = ac_published a" using sub owner_published [OF inv, of e' t] by auto
  qed (use sub in blast)
  moreover have "snd (actor_disconnected e a) = a\<lparr>ac_published := ?pub, ac_sessions := AList.delete e (ac_sessions a)\<rparr>"
    unfolding actor_disconnected_def Some option.case snd_conv revoke_if_owner_def published_epoch_sessions
    by (cases "published_epoch a = Some e") simp_all
  ultimately show ?thesis by (rule back_subst [of "actor_inv app h", OF _ sym])
qed (use inv in \<open>simp add: actor_disconnected_def\<close>)

definition identity_changed :: "actor_identity \<Rightarrow> 'i actor \<Rightarrow> bool" where
  "identity_changed i a \<longleftrightarrow> (case current_identity a of None \<Rightarrow> False | Some c \<Rightarrow> c \<noteq> i)"

lemma current_latest:
  assumes inv: "actor_inv app h a" and c: "current_identity a = Some c"
  shows "latest_identity h = Some c"
  using current_identity_some [OF c]
proof
  assume "\<exists>pb. ac_published a = Some pb \<and> pb_identity pb = c"
  then obtain pb s where "ac_published a = Some pb" "pb_identity pb = c" "session_at (pb_owner pb) a = Some s" "bs_state s = S_Published"
    using inv by (auto simp: actor_inv_def)
  then show ?thesis using session_invD [OF inv, of "pb_owner pb" s] by (cases pb) (auto simp: session_inv_def)
qed (use session_identity [OF inv] in auto)

lemma identity_inv:
  assumes inv: "actor_inv app h a" and h: "set h \<subseteq> set h'" "latest_identity h' = Some i"
  shows "actor_inv app h' (if identity_changed i a then a\<lparr>ac_published := None, ac_sessions := []\<rparr> else a)"
proof (cases "current_identity a")
  case None
  then show ?thesis using inv by (simp add: identity_changed_def current_identity_none actor_inv_def)
next
  case (Some c)
  show ?thesis
  proof (cases "c = i")
    case True
    then show ?thesis using Some actor_inv_mono [OF inv h(1)] current_latest [OF inv Some] h(2) by (simp add: identity_changed_def)
  next
    case False
    then show ?thesis using Some cleared_inv [OF inv, of h'] by (simp add: identity_changed_def)
  qed
qed

lemma opened_inv:
  assumes inv: "actor_inv app h a" and n: "u64_checked_add (ac_next_epoch a) 1 = Some n"
    and s: "latest_identity h = Some (bs_identity s)" "bs_queue s = []" "bs_state s = S_AwaitingSnapshot"
  shows "actor_inv app h (put_session (ac_next_epoch a) s (a\<lparr>ac_next_epoch := n\<rparr>))"
proof -
  have less: "ac_next_epoch a < n" using unat_next_sequence [OF n] by (simp add: word_less_nat_alt)
  have none: "session_at (ac_next_epoch a) a = None"
    using inv by (cases "session_at (ac_next_epoch a) a") (auto simp: actor_inv_def)
  have "session_inv app h (ac_published a) (ac_next_epoch a) s" using s by (simp add: session_inv_def)
  then show ?thesis
    using inv less none order.strict_trans [OF _ less] unfolding put_session_def actor_inv_def by (auto simp: sorted_epoch_insert)
qed

definition kept_sessions :: "actor_identity \<Rightarrow> 'i actor \<Rightarrow> 'i actor" where
  "kept_sessions i a = (let a1 = a\<lparr>ac_sessions := filter (\<lambda>p. bs_state (snd p) \<noteq> S_Fenced) (ac_sessions a)\<rparr>
     in if identity_changed i a1 then a1\<lparr>ac_published := None, ac_sessions := []\<rparr> else a1)"

lemma start_session_state:
  "snd (start_session i m a) = (let a2 = kept_sessions i a in
     if al_max_sessions (ac_limits a2) \<le> length (ac_sessions a2) then a2
     else case u64_checked_add (ac_next_epoch a2) 1 of None \<Rightarrow> a2
       | Some n \<Rightarrow> put_session (ac_next_epoch a2)
              \<lparr>bs_identity = i, bs_minimum = m,
               bs_fence = start_bootstrap (id_incarnation i) m (id_key_id i) (id_generation i),
               bs_state = S_AwaitingSnapshot, bs_private = None, bs_queue = [], bs_reason = None\<rparr>
              (a2\<lparr>ac_next_epoch := n\<rparr>))"
  unfolding start_session_def Let_def kept_sessions_def identity_changed_def by (auto split: option.split)

lemma start_session_inv:
  assumes inv: "actor_inv app h a" and h: "set h \<subseteq> set h'" "latest_identity h' = Some i"
  shows "actor_inv app h' (snd (start_session i m a))"
proof -
  have a2: "actor_inv app h' (kept_sessions i a)"
    unfolding kept_sessions_def Let_def by (rule identity_inv [OF retained_inv [OF inv] h])
  show ?thesis
  proof (cases "u64_checked_add (ac_next_epoch (kept_sessions i a)) 1")
    case (Some n)
    have "actor_inv app h' (put_session (ac_next_epoch (kept_sessions i a)) s (kept_sessions i a\<lparr>ac_next_epoch := n\<rparr>))"
      if "bs_identity s = i" "bs_queue s = []" "bs_state s = S_AwaitingSnapshot" for s
      by (rule opened_inv [OF a2 Some]) (use that h(2) in simp_all)
    then show ?thesis unfolding start_session_state Let_def using a2 Some by simp
  qed (use a2 in \<open>simp add: start_session_state Let_def\<close>)
qed

lemma step_inv:
  assumes inv: "actor_inv app h a" and ok: "all_prepared (c # h)"
  shows "actor_inv app (c # h) (actor_step app c a)"
proof -
  have sub: "set h \<subseteq> set (c # h)" by auto
  show ?thesis
  proof (cases c)
    case (Cmd_Start i m)
    then show ?thesis using start_session_inv [OF inv sub, of i m] by auto
  next
    case (Cmd_Observe i)
    then show ?thesis using identity_inv [OF inv sub, of i] by (auto simp: actor_observe_identity_def identity_changed_def)
  next
    case Cmd_Revoke
    then show ?thesis using cleared_inv [OF inv] by (simp add: revoke_authority_def)
  next
    case (Cmd_Begin e)
    then show ?thesis using begin_inv actor_inv_mono [OF inv sub] by auto
  next
    case (Cmd_Install e p)
    then have "prepared_ok p" using ok by (simp add: all_prepared_def)
    then show ?thesis using Cmd_Install install_inv [OF actor_inv_mono [OF inv sub], of p e] by auto
  next
    case (Cmd_Frame e v)
    then show ?thesis using accept_frame_inv [OF actor_inv_mono [OF inv sub], of v e] by (auto simp: received_def)
  next
    case (Cmd_BuildFailed e)
    then show ?thesis using build_failed_inv actor_inv_mono [OF inv sub] by auto
  next
    case (Cmd_Disconnected e)
    then show ?thesis using disconnected_inv actor_inv_mono [OF inv sub] by auto
  qed
qed

lemma run_inv:
  assumes "actor_new limits = Inr a"
  shows "all_prepared h \<Longrightarrow> actor_inv app h (actor_run app a h)"
proof (induction h)
  case Nil
  then show ?case using assms by (auto simp: actor_new_def actor_inv_def split: if_splits)
next
  case (Cons c h)
  then show ?case using step_inv [of app h "actor_run app a h" c] by (auto simp: all_prepared_def)
qed

section \<open>What is published\<close>

lemma published_complete:
  assumes "actor_new limits = Inr a" "all_prepared h" "ac_published (actor_run app a h) = Some pb"
  shows "\<exists>p vs w. Cmd_Install (pb_owner pb) p \<in> set h \<and> set vs \<subseteq> received (pb_owner pb) h \<and>
    replay app p vs w (pb_index pb) \<and> caught_up_marker app h (pb_owner pb) p vs \<and>
    pp_identity p = pb_identity pb \<and> latest_identity h = Some (pb_identity pb)"
proof -
  note inv = run_inv [OF assms(1,2), of app]
  obtain s where s: "session_at (pb_owner pb) (actor_run app a h) = Some s" "bs_state s = S_Published"
    using inv assms(3) by (auto simp: actor_inv_def)
  show ?thesis using session_invD [OF inv s(1)] s(2) assms(3) by (cases pb) (auto simp: session_inv_def grounded_def)
qed

text \<open>
  C5. Whatever commands the actor received, in any order and under any epochs, a published index is complete: it is the
  prepared index of a snapshot installed for its owner, with the payloads of the owner's event frames one, two, and so on
  applied in order, none missing and none failed; the owner received a caught-up marker for a position that has been
  applied; and snapshot, frames and publication carry the identity that was attested last.
\<close>

theorem published_index_complete:
  assumes "actor_new limits = Inr a" "all_prepared h" "ac_published (actor_run app a h) = Some pb"
  shows "\<exists>p vs w. Cmd_Install (pb_owner pb) p \<in> set h \<and> set vs \<subseteq> received (pb_owner pb) h \<and>
    replay app p vs w (pb_index pb) \<and> caught_up_marker app h (pb_owner pb) p vs \<and>
    pp_identity p = pb_identity pb \<and> latest_identity h = Some (pb_identity pb)"
  by (rule published_complete [OF assms])

text \<open>The companion's log: payload \<open>L k\<close> has delivery number \<open>k\<close>.\<close>

primrec replay_log :: "'i applier \<Rightarrow> (nat \<Rightarrow> bytes) \<Rightarrow> nat \<Rightarrow> 'i \<Rightarrow> 'i" where
  "replay_log app L 0 x = x"
| "replay_log app L (Suc n) x = fst (app (replay_log app L n x) (L (Suc n)))"

lemma replay_is_log:
  assumes "replay app p vs w x" "\<And>v. v \<in> set vs \<Longrightarrow> vf_frame_type v = Event \<Longrightarrow> vf_payload v = L (unat (vf_delivery v))"
  shows "x = replay_log app L (length vs) (pp_index p)"
  using assms by (induction rule: replay.induct) auto

text \<open>
  C4. From the companion to the published index. Let the frames that reach the actor under the owner's epoch come out of
  one authenticated tail session whose other side alone holds the key, and let the other side give delivery \<open>k\<close> to
  the payload \<open>L k\<close> of its log. Then, over a network that loses, repeats, reorders and forges, and under any
  commands, a published index is the installed snapshot followed by the log up to some position \<open>n\<close>, and the
  companion declared the router caught up at or before \<open>n\<close>.
\<close>

theorem published_index_is_log:
  assumes "actor_new limits = Inr a" "all_prepared h" "ac_published (actor_run app a h) = Some pb"
    and "sha_ok sha" "rmp_ok rmp" "decoder_ok d" "td_next d = 1" "numbered sent"
    and "unforged sha rmp (td_key d) (td_limits d) sent raw"
    and "received (pb_owner pb) h \<subseteq> set (decode_all sha rmp raw d)"
    and "\<And>payload b. (payload, b) \<in> set sent \<Longrightarrow> tb_frame_type b = Event \<Longrightarrow> payload = L (unat (tb_delivery b))"
  shows "\<exists>p n. Cmd_Install (pb_owner pb) p \<in> set h \<and> pb_index pb = replay_log app L n (pp_index p) \<and>
    (\<exists>payload b. (payload, b) \<in> set sent \<and> tb_frame_type b = CaughtUp \<and> unat (tb_delivery b) \<le> n)"
proof -
  obtain p vs w where p: "Cmd_Install (pb_owner pb) p \<in> set h" and vs: "set vs \<subseteq> received (pb_owner pb) h"
      and r: "replay app p vs w (pb_index pb)" and m: "caught_up_marker app h (pb_owner pb) p vs"
    using published_complete [OF assms(1-3)] by blast
  obtain n where "decode_all sha rmp raw d = map verified_of (take n sent)"
    using decode_all_agrees [OF assms(4-6,8,9), of 0] assms(7) by auto
  then have sent: "\<exists>q \<in> set sent. v = verified_of q" if "v \<in> received (pb_owner pb) h" for v
    using that assms(10) set_take_subset [of n sent] by fastforce
  have "pb_index pb = replay_log app L (length vs) (pp_index p)"
    by (rule replay_is_log [OF r]) (use vs sent assms(11) in \<open>fastforce simp: verified_of_def\<close>)
  moreover obtain v where v: "v \<in> received (pb_owner pb) h" "vf_frame_type v = CaughtUp" "unat (vf_delivery v) \<le> length vs"
    using m by (auto simp: caught_up_marker_def)
  then obtain payload b where "(payload, b) \<in> set sent" "v = verified_of (payload, b)" using sent by fastforce
  then have "(payload, b) \<in> set sent \<and> tb_frame_type b = CaughtUp \<and> unat (tb_delivery b) \<le> length vs"
    using v by (simp add: verified_of_def)
  ultimately show ?thesis using p by blast
qed

section \<open>A concrete history\<close>

definition some_identity :: actor_identity where
  "some_identity = \<lparr>id_incarnation = some_incarnation, id_key_id = replicate 32 7, id_generation = 2\<rparr>"

definition some_applier :: "bytes applier" where
  "some_applier i payload = (i @ payload, True)"

definition some_prepared :: "bytes prepared" where
  "some_prepared = \<lparr>pp_identity = some_identity, pp_watermark = 4, pp_index = [1],
     pp_lifecycle = snd (accept_snapshot
       \<lparr>as_incarnation = some_incarnation, as_watermark = 4, as_key_id = replicate 32 7, as_generation = 2, as_frame = []\<rparr>
       full_engine (start_bootstrap some_incarnation 0 (replicate 32 7) 2))\<rparr>"

definition some_marker_binding :: tail_binding where
  "some_marker_binding = some_binding\<lparr>tb_frame_type := CaughtUp, tb_message_sequence := 2\<rparr>"

definition some_history :: "bytes actor_command list" where
  "some_history = [Cmd_Frame 1 (verified_of ([], some_marker_binding)), Cmd_Frame 1 (verified_of ([8], some_binding)),
     Cmd_Install 1 some_prepared, Cmd_Begin 1, Cmd_Start some_identity 0]"

definition some_actor :: "bytes actor" where
  "some_actor = \<lparr>ac_limits = actor_limits_default, ac_next_epoch = 1, ac_sessions = [], ac_published = None\<rparr>"

lemma some_new: "actor_new actor_limits_default = Inr some_actor"
  by (simp add: actor_new_def some_actor_def actor_limits_default_def max_sessions_def)

lemma some_all_prepared: "all_prepared some_history"
  by (simp add: all_prepared_def some_history_def prepared_ok_def some_prepared_def some_identity_def accept_snapshot_def start_bootstrap_def
    check_identity_def bump_tail_def Let_def)

lemmas some_eval = some_history_def some_actor_def actor_limits_default_def max_sessions_def start_session_def current_identity_def
  put_session_def begin_snapshot_build_def install_prepared_snapshot_def accept_tail_frame_def apply_verified_frame_def
  apply_payload_at_def published_epoch_def publish_def apply_to_def accept_tail_def caught_up_def accept_snapshot_def start_bootstrap_def
  check_identity_def bump_tail_def u64_sat_add_def u64_checked_add_def Let_def verified_of_def frame_sequence_def frame_identity_def
  some_prepared_def some_identity_def some_binding_def some_marker_binding_def some_applier_def

lemma some_published: "ac_published (actor_run some_applier some_actor some_history) =
    Some \<lparr>pb_owner = 1, pb_identity = some_identity, pb_index = [1, 8]\<rparr>"
  by (simp add: some_eval)

theorem published_index_complete_witness:
  "\<exists>p vs w. Cmd_Install 1 p \<in> set some_history \<and> set vs \<subseteq> received 1 some_history \<and> replay some_applier p vs w [1, 8] \<and>
    caught_up_marker some_applier some_history 1 p vs \<and> pp_identity p = some_identity \<and> latest_identity some_history = Some some_identity"
  using published_index_complete [OF some_new some_all_prepared some_published] by simp

definition some_marker_frame :: bytes where
  "some_marker_frame = projr (encode_tail_frame some_sha some_rmp (replicate 32 4) tail_wire_limits_default ([], some_marker_binding))"

lemma some_marker_encoded:
  "encode_tail_frame some_sha some_rmp (replicate 32 4) tail_wire_limits_default ([], some_marker_binding) = Inr some_marker_frame"
  by (simp add: some_marker_frame_def encode_tail_frame_def some_marker_binding_def some_binding_def some_incarnation_def some_rmp_def
      tail_wire_limits_default_def validate_tail_incarnation_def tail_overhead_bytes_def tail_prefix_bytes_def usize_max_eq Let_def)

definition some_log :: "(bytes \<times> tail_binding) list" where
  "some_log = [([8], some_binding), ([], some_marker_binding)]"

lemma some_marker_ok: "binding_ok some_marker_binding" "decoder_ok (some_decoder\<lparr>td_next := 2\<rparr>)"
  using some_ok by (simp_all add: binding_ok_def some_marker_binding_def decoder_ok_def)

lemma some_decoded: "decode_all some_sha some_rmp [some_frame, some_marker_frame] some_decoder = map verified_of some_log"
proof -
  have "decode_tail_frame some_sha some_rmp some_frame some_decoder = Inr (verified_of ([8], some_binding), some_decoder\<lparr>td_next := 2\<rparr>)"
    using decode_encoded [OF _ some_ok, of "[8]" some_frame] some_encoded by (simp add: some_decoder_def some_binding_def)
  moreover have "decode_tail_frame some_sha some_rmp some_marker_frame (some_decoder\<lparr>td_next := 2\<rparr>) =
      Inr (verified_of ([], some_marker_binding), some_decoder\<lparr>td_next := 3\<rparr>)"
    using decode_encoded [OF _ some_ok(1,2) some_marker_ok, of "[]" some_marker_frame] some_marker_encoded
    by (simp add: some_decoder_def some_binding_def some_marker_binding_def)
  ultimately show ?thesis by (simp add: some_log_def)
qed

theorem published_index_is_log_witness:
  "\<exists>p n. Cmd_Install 1 p \<in> set some_history \<and> [1, 8] = replay_log some_applier (\<lambda>_. [8]) n (pp_index p) \<and>
    (\<exists>payload b. (payload, b) \<in> set some_log \<and> tb_frame_type b = CaughtUp \<and> unat (tb_delivery b) \<le> n)"
proof -
  have one: "td_next some_decoder = 1" by (simp add: some_decoder_def)
  have num: "numbered some_log"
    using some_ok(3) some_marker_ok(1)
    by (simp add: numbered_def some_log_def nth_Cons' some_marker_binding_def) (simp add: some_binding_def)
  have unf: "unforged some_sha some_rmp (td_key some_decoder) (td_limits some_decoder) some_log [some_frame, some_marker_frame]"
    using some_encoded some_marker_encoded by (auto simp: unforged_def some_decoder_def some_log_def)
  have rec: "received (pb_owner \<lparr>pb_owner = 1, pb_identity = some_identity, pb_index = [1 :: u8, 8]\<rparr>) some_history \<subseteq>
      set (decode_all some_sha some_rmp [some_frame, some_marker_frame] some_decoder)"
    unfolding some_decoded by (auto simp: received_def some_history_def some_log_def)
  have "payload = [8]" if "(payload, b) \<in> set some_log" "tb_frame_type b = Event" for payload b
    using that by (auto simp: some_log_def some_marker_binding_def)
  from published_index_is_log [OF some_new some_all_prepared some_published some_ok(1,2,4) one num unf rec this]
  show ?thesis by simp
qed

end
