(* ===== verification/Snapshot_Marker.thy ===== *)
theory Snapshot_Marker
  imports Snapshot_Publication
begin

text \<open>
  The publication marker of the snapshot actor: an epoch and the revision of its fence. Two reads that see the same
  marker have seen the same index, whatever happened in between.
\<close>

section \<open>The revision of the fence\<close>

lemma sat_next: "r \<le> u64_sat_add r 1" "r \<noteq> - 1 \<Longrightarrow> r < u64_sat_add r 1"
proof -
  show "r \<le> u64_sat_add r 1" by (rule u64_sat_add_ge)
  assume "r \<noteq> - 1"
  then have "unat r < 2 ^ 64 - 1" using u64_Suc [of r] unat_u64_lt [of "r + 1"] by simp
  then show "r < u64_sat_add r 1" by (simp add: word_less_nat_alt unat_u64_sat_add)
qed

lemma fence_tail_revision: "tf_revision f \<le> tf_revision (snd (fence_tail r f))"
  by (simp add: fence_tail_def bump_tail_def Let_def sat_next)

lemma apply_revision:
  "apply_to v f = (act, f') \<Longrightarrow> tf_revision f \<le> tf_revision f'"
  "apply_to v f = (Verified_Apply d u pl, f') \<Longrightarrow> tf_revision f' = u64_sat_add (tf_revision f) 1"
  using fence_tail_revision [of f]
  by (auto simp: apply_to_def accept_tail_def caught_up_def observe_identity_def tail_disconnected_def bump_tail_def Let_def
        map_prod_def split_beta sat_next
      split: tail_frame_type.splits option.splits sum.splits if_splits snapshot_tail_state.splits)

section \<open>Sessions other than the one a command names\<close>

definition kept :: "epoch \<Rightarrow> 'i actor \<Rightarrow> 'i actor \<Rightarrow> bool" where
  "kept e a b \<longleftrightarrow> ac_next_epoch b = ac_next_epoch a \<and>
     (session_at e b = session_at e a \<and> (if published_epoch a = Some e then ac_published b = ac_published a else published_epoch b \<noteq> Some e) \<or>
      session_at e b = None \<and> published_epoch b \<noteq> Some e)"

lemma kept_refl [simp]: "kept e a a"
  by (simp add: kept_def)

lemma kept_trans: "kept e a b \<Longrightarrow> kept e b c \<Longrightarrow> kept e a c"
  by (auto simp: kept_def published_epoch_def split: if_splits)

lemma kept_put: "e' \<noteq> e \<Longrightarrow> kept e a (put_session e' s a)" "e' \<noteq> e \<Longrightarrow> kept e a (revoke_if_owner e' (put_session e' s a))"
  by (auto simp: kept_def revoke_if_owner_def published_epoch_def)

lemma kept_apply: "e' \<noteq> e \<Longrightarrow> kept e a (snd (apply_payload_at app e' pl a))"
  by (auto simp: kept_def apply_payload_at_def published_epoch_def split: option.splits prod.splits)

lemma kept_fail: "e' \<noteq> e \<Longrightarrow> kept e a (fail_application e' a)"
  by (auto simp: fail_application_def kept_put revoke_if_owner_def kept_def published_epoch_def split: option.splits)

lemma kept_publish: "e' \<noteq> e \<Longrightarrow> kept e a (snd (publish e' a))"
  by (auto simp: kept_def publish_def published_epoch_def AList.delete_conv split: option.splits)

lemma kept_frame:
  assumes "e' \<noteq> e"
  shows "kept e a (snd (apply_verified_frame app e' v a))"
proof (cases "session_at e' a")
  case (Some s)
  obtain act f where ap: "apply_to v (bs_fence s) = (act, f)" by (cases "apply_to v (bs_fence s)") auto
  have k: "kept e a (put_session e' (s\<lparr>bs_fence := f\<rparr>) a)" by (rule kept_put(1) [OF assms])
  show ?thesis
  proof (cases act)
    case (Verified_Apply d u pl)
    obtain ok b where pa: "apply_payload_at app e' pl (put_session e' (s\<lparr>bs_fence := f\<rparr>) a) = (ok, b)"
      by (cases "apply_payload_at app e' pl (put_session e' (s\<lparr>bs_fence := f\<rparr>) a)") auto
    have "kept e a b" using kept_trans [OF k kept_apply [OF assms]] pa by (metis snd_conv)
    then show ?thesis using Some ap Verified_Apply pa kept_trans [OF _ kept_fail [OF assms]]
      by (auto simp: apply_verified_frame_def)
  next
    case Verified_Ready
    then show ?thesis using Some ap kept_trans [OF k kept_publish [OF assms]] by (simp add: apply_verified_frame_def)
  next
    case (Verified_Fenced r)
    then show ?thesis using Some ap kept_put(2) [OF assms] by (simp add: apply_verified_frame_def)
  qed (use Some ap k in \<open>simp_all add: apply_verified_frame_def\<close>)
qed (simp add: apply_verified_frame_def)

lemma kept_drain: "e' \<noteq> e \<Longrightarrow> kept e a (snd (drain_queue app e' vs act a))"
proof (induction vs arbitrary: a act)
  case (Cons v vs)
  obtain act' b where ap: "apply_verified_frame app e' v a = (act', b)" by (cases "apply_verified_frame app e' v a") auto
  have "kept e a b" using kept_frame [OF Cons.prems, of a app v] ap by simp
  then show ?case using ap kept_trans [OF _ Cons.IH [OF Cons.prems]] by (cases act') simp_all
qed simp

section \<open>After a marker was read\<close>

text \<open>\<open>pinned e r x a\<close>: epoch \<open>e\<close> can show revision \<open>r\<close> only together with index \<open>x\<close>.\<close>

definition pinned :: "epoch \<Rightarrow> u64 \<Rightarrow> 'i \<Rightarrow> 'i actor \<Rightarrow> bool" where
  "pinned e r x a \<longleftrightarrow> e < ac_next_epoch a \<and> (case session_at e a of
     None \<Rightarrow> published_epoch a \<noteq> Some e
   | Some s \<Rightarrow> bs_state s = S_Fenced \<and> published_epoch a \<noteq> Some e \<or>
       bs_state s = S_Published \<and> published_epoch a = Some e \<and>
       (r < tf_revision (bs_fence s) \<or> r = tf_revision (bs_fence s) \<and> published_index a = Some x))"

lemma same_published: "ac_published b = ac_published a \<Longrightarrow> published_epoch b = published_epoch a \<and> published_index b = published_index a"
  by (simp add: published_epoch_def published_index_def)

lemma pinned_kept: "pinned e r x a \<Longrightarrow> kept e a b \<Longrightarrow> pinned e r x b"
  by (auto simp: pinned_def kept_def dest!: same_published split: option.splits if_splits)

lemma pinned_fenced:
  "pinned e r x a \<Longrightarrow> bs_state s = S_Fenced \<Longrightarrow> pinned e r x (revoke_if_owner e (put_session e s a))"
  by (auto simp: pinned_def revoke_if_owner_def published_epoch_def)

lemma pinned_cleared: "pinned e r x a \<Longrightarrow> pinned e r x (a\<lparr>ac_published := None, ac_sessions := []\<rparr>)"
  by (simp add: pinned_def published_epoch_def)

lemma pinned_open:
  "pinned e r x a \<Longrightarrow> session_at e a = Some s \<Longrightarrow> bs_state s \<noteq> S_Fenced \<Longrightarrow> bs_state s = S_Published \<and> published_epoch a = Some e \<and>
     (r < tf_revision (bs_fence s) \<or> r = tf_revision (bs_fence s) \<and> published_index a = Some x)"
  by (simp add: pinned_def)

lemma pinned_frame:
  assumes inv: "actor_inv app h a" and pin: "pinned e r x a" and r: "r \<noteq> - 1" and at: "session_at e a = Some s"
    and st: "bs_state s = S_Published"
  shows "pinned e r x (snd (apply_verified_frame app e v a))"
proof -
  note po = pinned_open [OF pin at, unfolded st, simplified]
  obtain y p vs where pub: "ac_published a = Some \<lparr>pb_owner = e, pb_identity = bs_identity s, pb_index = y\<rparr>"
      and g: "grounded app h e Tail_Ready (bs_identity s) (bs_fence s) y p vs"
    using session_invD [OF inv at] st unfolding session_inv_def by blast
  obtain act f where ap: "apply_to v (bs_fence s) = (act, f)" by (cases "apply_to v (bs_fence s)") auto
  have next_epoch: "e < ac_next_epoch a" using pin by (simp add: pinned_def)
  have same: "pinned e r x (put_session e (s\<lparr>bs_fence := f\<rparr>) a)" if "f = bs_fence s"
    using that po st next_epoch by (simp add: pinned_def published_index_def)
  show ?thesis
  proof (cases act)
    case (Verified_Apply d u pl)
    obtain y' ok where app: "app y pl = (y', ok)" by (cases "app y pl") auto
    have rev: "r < tf_revision f"
      using apply_revision(2) [OF ap [unfolded Verified_Apply]] po sat_next [of "tf_revision (bs_fence s)"] r by auto
    then show ?thesis using at ap Verified_Apply app pub st next_epoch
      by (auto simp: apply_verified_frame_def apply_payload_at_def pinned_def published_epoch_def fail_application_def
            revoke_if_owner_def Let_def)
  next
    case Verified_Ready
    then show ?thesis using apply_to_at [of v "bs_fence s" Verified_Ready f] ap g by (auto simp: grounded_def)
  next
    case (Verified_Fenced q)
    then show ?thesis using at ap pinned_fenced [OF pin] by (simp add: apply_verified_frame_def)
  qed (use at ap same grounded_still [OF g ap] in \<open>simp_all add: apply_verified_frame_def\<close>)
qed

lemma pinned_accept:
  assumes "actor_inv app h a" "pinned e r x a" "r \<noteq> - 1"
  shows "pinned e r x (snd (accept_tail_frame app e' v a))"
proof (cases "e' = e")
  case True
  then show ?thesis using pinned_frame [OF assms] pinned_open [OF assms(2)] assms(2)
    by (auto simp: accept_tail_frame_def split: option.split)
next
  case False
  note k = pinned_kept [OF assms(2)]
  show ?thesis using k [OF kept_frame [OF False]] k [OF kept_put(1) [OF False]] assms(2)
    by (simp add: accept_tail_frame_def split: option.split)
qed

lemma pinned_install:
  assumes "pinned e r x a"
  shows "pinned e r x (snd (install_prepared_snapshot app e' p a))"
proof (cases "e' = e")
  case True
  then show ?thesis using pinned_open [OF assms] assms by (auto simp: install_prepared_snapshot_def split: option.split)
next
  case False
  note k = pinned_kept [OF assms]
  show ?thesis
    using k [OF kept_put(1) [OF False]] k [OF kept_trans [OF kept_put(1) [OF False] kept_drain [OF False]]] assms
    by (simp add: install_prepared_snapshot_def split: option.split)
qed

lemma pinned_put:
  assumes "pinned e r x a" "bs_state s = S_Fenced"
  shows "pinned e r x (revoke_if_owner e' (put_session e' s a))"
  using pinned_fenced [OF assms] pinned_kept [OF assms(1) kept_put(2)] by (cases "e' = e") auto

lemma pinned_begin:
  assumes "pinned e r x a"
  shows "pinned e r x (snd (begin_snapshot_build e' a))"
proof (cases "e' = e")
  case True
  then show ?thesis using pinned_put [OF assms, of _ e] pinned_open [OF assms] assms
    by (auto simp: begin_snapshot_build_def split: option.split)
next
  case False
  then show ?thesis using pinned_put [OF assms] pinned_kept [OF assms kept_put(1)] assms
    by (simp add: begin_snapshot_build_def split: option.split)
qed

lemma pinned_disconnected:
  assumes "pinned e r x a"
  shows "pinned e r x (snd (actor_disconnected e' a))"
proof (cases "e' = e")
  case True
  then show ?thesis using assms
    by (auto simp: actor_disconnected_def pinned_def revoke_if_owner_def AList.delete_conv published_epoch_def split: option.split)
next
  case False
  then have "kept e a (snd (actor_disconnected e' a))"
    by (auto simp: actor_disconnected_def kept_def revoke_if_owner_def AList.delete_conv published_epoch_def split: option.split)
  then show ?thesis by (rule pinned_kept [OF assms])
qed

lemma pinned_retained:
  assumes inv: "actor_inv app h a" and pin: "pinned e r x a"
  shows "pinned e r x (a\<lparr>ac_sessions := filter (\<lambda>p. bs_state (snd p) \<noteq> S_Fenced) (ac_sessions a)\<rparr>)"
proof -
  let ?m = "filter (\<lambda>p. bs_state (snd p) \<noteq> S_Fenced) (ac_sessions a)"
  have old: "session_at e a = Some s \<and> bs_state s \<noteq> S_Fenced" if "map_of ?m e = Some s" for s
    using map_of_retain [OF inv_sorted [OF inv] that] by simp
  have new: "map_of ?m e = Some s" if "session_at e a = Some s" "bs_state s \<noteq> S_Fenced" for s
    using map_of_retained [OF inv_sorted [OF inv] that(1)] that(2) by simp
  show ?thesis
  proof (cases "map_of ?m e")
    case None
    then show ?thesis using new pin by (auto simp: pinned_def split: option.splits)
  next
    case (Some s)
    then show ?thesis using old [OF Some] pin by (simp add: pinned_def published_index_def)
  qed
qed

lemma pinned_start:
  assumes inv: "actor_inv app h a" and pin: "pinned e r x a"
  shows "pinned e r x (snd (start_session i m a))"
proof -
  let ?b = "kept_sessions i a"
  have b: "pinned e r x ?b"
    using pinned_retained [OF inv pin] pinned_cleared [OF pinned_retained [OF inv pin]] by (simp add: kept_sessions_def Let_def)
  have "pinned e r x (put_session (ac_next_epoch ?b) s (?b\<lparr>ac_next_epoch := n\<rparr>))" if "u64_checked_add (ac_next_epoch ?b) 1 = Some n" for s n
  proof -
    have "ac_next_epoch ?b < n" using unat_next_sequence [OF that] by (simp add: word_less_nat_alt)
    then show ?thesis using b by (auto simp: pinned_def put_session_def published_epoch_def published_index_def split: option.splits)
  qed
  then show ?thesis using b by (simp add: start_session_state Let_def split: option.split)
qed

lemma pinned_step:
  assumes inv: "actor_inv app h a" and pin: "pinned e r x a" and r: "r \<noteq> - 1"
  shows "pinned e r x (actor_step app c a)"
proof (cases c)
  case (Cmd_Start i m)
  then show ?thesis using pinned_start [OF inv pin] by simp
next
  case (Cmd_Observe i)
  then show ?thesis using pin pinned_cleared [OF pin] by (simp add: actor_observe_identity_def)
next
  case Cmd_Revoke
  then show ?thesis using pinned_cleared [OF pin] by (simp add: revoke_authority_def)
next
  case (Cmd_Begin e')
  then show ?thesis using pinned_begin [OF pin] by simp
next
  case (Cmd_Install e' p)
  then show ?thesis using pinned_install [OF pin] by simp
next
  case (Cmd_Frame e' v)
  then show ?thesis using pinned_accept [OF inv pin r] by simp
next
  case (Cmd_BuildFailed e')
  then show ?thesis using pin pinned_put [OF pin] by (simp add: snapshot_build_failed_def split: option.split)
next
  case (Cmd_Disconnected e')
  then show ?thesis using pinned_disconnected [OF pin] by simp
qed

lemma pinned_run:
  assumes "actor_new limits = Inr a" "pinned e r x (actor_run app a h)" "r \<noteq> - 1"
  shows "all_prepared (h' @ h) \<Longrightarrow> pinned e r x (actor_run app a (h' @ h))"
proof (induction h')
  case (Cons c h')
  then have "all_prepared (h' @ h)" by (auto simp: all_prepared_def)
  then show ?case using pinned_step [OF run_inv [OF assms(1)] Cons.IH assms(3)] by simp
qed (use assms(2) in simp)

text \<open>
  C6. The publication marker pins the index. When two reads of the actor return the same marker, they see the same
  published index, whatever commands ran in between; the revision must not have reached its largest value, where
  it saturates.
\<close>

theorem marker_pins_index:
  assumes "actor_new limits = Inr a" "all_prepared (later @ h)"
    and "published_marker (actor_run app a h) = Some m" "published_marker (actor_run app a (later @ h)) = Some m"
    and "pm_revision m \<noteq> - 1"
  shows "published_index (actor_run app a (later @ h)) = published_index (actor_run app a h)"
proof -
  let ?a = "actor_run app a h" and ?b = "actor_run app a (later @ h)"
  have inv: "actor_inv app h ?a" by (rule run_inv [OF assms(1)]) (use assms(2) in \<open>auto simp: all_prepared_def\<close>)
  obtain s where s: "published_epoch ?a = Some (pm_epoch m)" "session_at (pm_epoch m) ?a = Some s" "bs_state s = S_Published"
      "pm_revision m = tf_revision (bs_fence s)"
    using assms(3) by (auto simp: published_marker_def bind_eq_Some_conv tail_status_def split: if_splits)
  then obtain x where x: "published_index ?a = Some x" by (auto simp: published_epoch_def published_index_def)
  have "pinned (pm_epoch m) (pm_revision m) x ?a"
    using s x inv by (auto simp: pinned_def actor_inv_def)
  from pinned_run [OF assms(1) this assms(5,2)] have "pinned (pm_epoch m) (pm_revision m) x ?b" .
  then have "published_index ?b = Some x"
    using assms(4) by (auto simp: pinned_def published_marker_def bind_eq_Some_conv tail_status_def split: if_splits option.splits)
  then show ?thesis using x by simp
qed

lemma some_read: "published_marker (actor_run some_applier some_actor some_history) = Some \<lparr>pm_epoch = 1, pm_revision = 4\<rparr>"
  "published_marker (actor_run some_applier some_actor ([Cmd_Observe some_identity, Cmd_Start some_identity 3] @ some_history)) =
     Some \<lparr>pm_epoch = 1, pm_revision = 4\<rparr>"
  by (simp_all add: some_eval published_marker_def tail_status_def actor_observe_identity_def)

theorem marker_pins_index_witness:
  "published_index (actor_run some_applier some_actor ([Cmd_Observe some_identity, Cmd_Start some_identity 3] @ some_history)) =
   published_index (actor_run some_applier some_actor some_history)"
proof (rule marker_pins_index [OF some_new _ some_read])
  show "all_prepared ([Cmd_Observe some_identity, Cmd_Start some_identity 3] @ some_history)"
    using some_all_prepared by (simp add: all_prepared_def)
qed simp

end
