(* ===== verification/Kv_Snapshot.thy ===== *)
theory Kv_Snapshot
  imports Snapshot_Agreement
begin

text \<open>
  The snapshot frame of \<^verbatim>\<open>src/src/kv_snapshot.rs\<close>: an envelope with a checksum around a body, and the validation of the
  body. MessagePack and SHA-256 are parameters. The cancellation probe is a function of the number of polls so far.
\<close>

section \<open>Types\<close>

record snapshot_limits =
  sl_max_frame_bytes :: nat
  sl_max_payload_bytes :: nat
  sl_max_incarnation_component_bytes :: nat
  sl_max_key_id_bytes :: nat
  sl_max_groups :: nat
  sl_max_records :: nat
  sl_max_external_hash_bytes :: nat
  sl_max_total_external_hash_bytes :: nat
  sl_max_prefix_token_ids :: u64

definition snapshot_limits_default :: snapshot_limits where
  "snapshot_limits_default = \<lparr>sl_max_frame_bytes = 32 * 1024 * 1024, sl_max_payload_bytes = 32 * 1024 * 1024,
     sl_max_incarnation_component_bytes = 512, sl_max_key_id_bytes = 32, sl_max_groups = 4096, sl_max_records = 131072,
     sl_max_external_hash_bytes = 256, sl_max_total_external_hash_bytes = 32 * 1024 * 1024, sl_max_prefix_token_ids = 16777216\<rparr>"

datatype digest_algorithm = HmacSha256V1 | Digest_Unsupported

record digest_spec =
  dg_algorithm :: digest_algorithm
  dg_key_id :: bytes
  dg_digest_bytes :: "16 word"

datatype snap_attention_kind =
    Snap_FullAttention | Snap_MlaAttention | Snap_SinkFullAttention | Snap_SlidingWindow | Snap_SlidingWindowMla | Snap_Mamba
  | Snap_ChunkedLocalAttention | Snap_EncoderOnlyAttention | Snap_CrossAttention | Snap_Unsupported

datatype group_disposition = Indexed | Filtered | Disposition_Unsupported

record group_metadata =
  gm_data_parallel_rank :: u32
  gm_group_idx :: u32
  gm_attention_kind :: snap_attention_kind
  gm_disposition :: group_disposition
  gm_block_size :: u32

datatype snapshot_block_hash = Snap_Bytes bytes | Snap_Signed "64 word" | Snap_Unsigned u64

record digest_record =
  dr_group_slot :: u32
  dr_parent_record :: "u32 option"
  dr_external_hash :: snapshot_block_hash
  dr_block_digest :: bytes
  dr_block_token_ids :: u32
  dr_prefix_token_ids :: u64
  dr_present :: bool

record snapshot_capacity =
  sc_groups :: u64
  sc_records :: u64
  sc_external_hash_bytes :: u64
  sc_digest_bytes :: u64

record snapshot_body =
  sb_incarnation :: engine_incarnation
  sb_watermark :: u64
  sb_reset_scope :: reset_scope
  sb_digest :: digest_spec
  sb_capacity :: snapshot_capacity
  sb_groups :: "group_metadata list"
  sb_records :: "digest_record list"

record snapshot_expectations =
  se_incarnation :: engine_incarnation
  se_reset_scope :: reset_scope
  se_digest :: digest_spec

datatype snapshot_error =
    Snap_FrameTooLarge | Snap_InvalidMessagePack | Snap_UnsupportedSchema | UnsupportedChecksum | InvalidPayloadLength
  | InvalidChecksum | Snap_InvalidIncarnation | Snap_IncarnationMismatch | UnsupportedDigest | DigestMismatch
  | Snap_UnsupportedResetScope | ResetScopeMismatch | TooManyGroups | TooManyRecords | Snap_CapacityExceeded | CapacityMismatch
  | InvalidGroup | InvalidRecord | Snap_Cancelled | Snap_EncodeFailed

datatype checksum_algorithm = Sha256 | Checksum_Unsupported

record snapshot_envelope =
  ev_schema_version :: "16 word"
  ev_checksum_algorithm :: checksum_algorithm
  ev_payload_bytes :: u64
  ev_checksum :: bytes
  ev_payload :: bytes

definition snapshot_schema_version :: "16 word" where
  "snapshot_schema_version = 2"

section \<open>Validation\<close>

type_synonym probe = "nat \<Rightarrow> bool"

definition check_cancelled :: "probe \<Rightarrow> nat \<Rightarrow> snapshot_error + nat" where
  "check_cancelled cancelled polls = (if cancelled polls then Inl Snap_Cancelled else Inr (Suc polls))"

fun snapshot_hash_len :: "snapshot_block_hash \<Rightarrow> nat" where
  "snapshot_hash_len (Snap_Bytes bs) = length bs"
| "snapshot_hash_len (Snap_Signed _) = 8"
| "snapshot_hash_len (Snap_Unsigned _) = 8"

fun checked_total_u64 :: "u64 \<Rightarrow> nat list \<Rightarrow> u64 option" where
  "checked_total_u64 acc [] = Some acc"
| "checked_total_u64 acc (n # ns) = Option.bind (u64_checked_add acc (of_nat n)) (\<lambda>acc'. checked_total_u64 acc' ns)"

text \<open>Lengths are at most \<open>usize::MAX\<close>, which \<open>u64\<close> holds, so \<open>u64::try_from\<close> of a length succeeds.\<close>

definition measured_capacity :: "group_metadata list \<Rightarrow> digest_record list \<Rightarrow> snapshot_error + snapshot_capacity" where
  "measured_capacity groups records =
    (case (checked_total_u64 0 (map (\<lambda>r. snapshot_hash_len (dr_external_hash r)) records),
           checked_total_u64 0 (map (\<lambda>r. length (dr_block_digest r)) records)) of
       (Some external, Some digest) \<Rightarrow> Inr \<lparr>sc_groups = of_nat (length groups), sc_records = of_nat (length records),
          sc_external_hash_bytes = external, sc_digest_bytes = digest\<rparr>
     | _ \<Rightarrow> Inl Snap_CapacityExceeded)"

definition refresh_capacity :: "snapshot_body \<Rightarrow> snapshot_error + snapshot_body" where
  "refresh_capacity body = (case measured_capacity (sb_groups body) (sb_records body) of
     Inl e \<Rightarrow> Inl e | Inr c \<Rightarrow> Inr (body\<lparr>sb_capacity := c\<rparr>))"

definition group_in_scope :: "group_metadata \<Rightarrow> reset_scope \<Rightarrow> bool" where
  "group_in_scope g scope = (case rs_kind scope of
     FullEngine \<Rightarrow> True
   | DataParallelRank \<Rightarrow> rs_rank scope = Some (gm_data_parallel_rank g)
   | CacheGroup \<Rightarrow> rs_rank scope = Some (gm_data_parallel_rank g) \<and> rs_group scope = Some (gm_group_idx g)
   | Reset_Unsupported \<Rightarrow> False)"

definition valid_disposition :: "group_metadata \<Rightarrow> bool" where
  "valid_disposition g \<longleftrightarrow>
    (let main = (gm_attention_kind g \<in> {Snap_FullAttention, Snap_MlaAttention, Snap_SinkFullAttention})
     in main \<and> gm_disposition g = Indexed \<or> \<not> main \<and> gm_disposition g = Filtered)"

definition validate_incarnation :: "engine_incarnation \<Rightarrow> snapshot_limits \<Rightarrow> snapshot_error + unit" where
  "validate_incarnation i limits =
    (let valid = (\<lambda>v. v \<noteq> [] \<and> length v \<le> sl_max_incarnation_component_bytes limits) in
     if \<not> valid (engine_id i) \<or> \<not> valid (model_revision i) \<or> \<not> valid (image_digest i) \<or> process_started_unix_ns i = 0 \<or>
        length (attestation_sha256 i) \<noteq> 32
     then Inl Snap_InvalidIncarnation else Inr ())"

definition validate_reset_scope :: "reset_scope \<Rightarrow> snapshot_error + unit" where
  "validate_reset_scope scope =
    (if (case rs_kind scope of
           FullEngine \<Rightarrow> rs_rank scope = None \<and> rs_group scope = None
         | DataParallelRank \<Rightarrow> rs_rank scope \<noteq> None \<and> rs_group scope = None
         | CacheGroup \<Rightarrow> rs_rank scope \<noteq> None \<and> rs_group scope \<noteq> None
         | Reset_Unsupported \<Rightarrow> False)
     then Inr () else Inl Snap_UnsupportedResetScope)"

definition validate_header :: "snapshot_body \<Rightarrow> snapshot_limits \<Rightarrow> snapshot_error + unit" where
  "validate_header body limits = (case validate_incarnation (sb_incarnation body) limits of Inl e \<Rightarrow> Inl e
   | Inr _ \<Rightarrow>
      if dg_algorithm (sb_digest body) \<noteq> HmacSha256V1 \<or> unat (dg_digest_bytes (sb_digest body)) \<noteq> 32 \<or>
         length (dg_key_id (sb_digest body)) \<noteq> 32 \<or> sl_max_key_id_bytes limits < length (dg_key_id (sb_digest body))
      then Inl UnsupportedDigest
      else (case validate_reset_scope (sb_reset_scope body) of Inl e \<Rightarrow> Inl e
      | Inr _ \<Rightarrow>
         if sl_max_groups limits < length (sb_groups body) then Inl TooManyGroups
         else if sl_max_records limits < length (sb_records body) then Inl TooManyRecords
         else Inr ()))"

fun validate_groups :: "reset_scope \<Rightarrow> probe \<Rightarrow> nat \<Rightarrow> (u32 \<times> u32) list \<Rightarrow> group_metadata list \<Rightarrow> snapshot_error + nat" where
  "validate_groups scope cancelled polls seen [] = Inr polls"
| "validate_groups scope cancelled polls seen (g # gs) = (case check_cancelled cancelled polls of Inl e \<Rightarrow> Inl e
   | Inr polls' \<Rightarrow>
      if gm_block_size g = 0 \<or> gm_attention_kind g = Snap_Unsupported \<or> gm_disposition g = Disposition_Unsupported \<or>
         (gm_data_parallel_rank g, gm_group_idx g) \<in> set seen \<or> \<not> group_in_scope g scope \<or> \<not> valid_disposition g
      then Inl InvalidGroup
      else validate_groups scope cancelled polls' ((gm_data_parallel_rank g, gm_group_idx g) # seen) gs)"

text \<open>The loop over the records: the hashes seen, the depth of every record so far, the number of children of every
  record and the last depth of every group. A depth is at most the index of its record.\<close>

record record_state =
  rv_hashes :: "(u32 \<times> snapshot_block_hash) list"
  rv_depths :: "nat list"
  rv_child_counts :: "nat list"
  rv_previous_depths :: "nat list"

definition record_ok :: "snapshot_limits \<Rightarrow> snapshot_body \<Rightarrow> group_metadata \<Rightarrow> digest_record \<Rightarrow> bool" where
  "record_ok limits body g r \<longleftrightarrow>
     gm_disposition g = Indexed \<and> length (dr_block_digest r) = unat (dg_digest_bytes (sb_digest body)) \<and>
     dr_block_token_ids r \<noteq> 0 \<and> dr_block_token_ids r \<le> gm_block_size g \<and>
     dr_prefix_token_ids r \<le> sl_max_prefix_token_ids limits \<and> snapshot_hash_len (dr_external_hash r) \<noteq> 0 \<and>
     snapshot_hash_len (dr_external_hash r) \<le> sl_max_external_hash_bytes limits"

definition record_parent ::
  "snapshot_body \<Rightarrow> nat \<Rightarrow> digest_record \<Rightarrow> record_state \<Rightarrow> (nat \<times> u64 \<times> record_state) option" where
  "record_parent body index r st = (case dr_parent_record r of
     None \<Rightarrow> Some (0, ucast (dr_block_token_ids r), st)
   | Some p \<Rightarrow>
      let i = unat p in
      if index \<le> i then None
      else if dr_group_slot (sb_records body ! i) \<noteq> dr_group_slot r then None
      else Option.bind (u64_checked_add (dr_prefix_token_ids (sb_records body ! i)) (ucast (dr_block_token_ids r))) (\<lambda>expected.
        Some (rv_depths st ! i + 1, expected,
          st\<lparr>rv_child_counts := (rv_child_counts st)[i := sat_add (rv_child_counts st ! i) 1]\<rparr>)))"

fun validate_records ::
  "snapshot_limits \<Rightarrow> snapshot_body \<Rightarrow> probe \<Rightarrow> nat \<Rightarrow> nat \<Rightarrow> record_state \<Rightarrow> digest_record list \<Rightarrow> snapshot_error + nat \<times> record_state" where
  "validate_records limits body cancelled polls index st [] = Inr (polls, st)"
| "validate_records limits body cancelled polls index st (r # rs) = (case check_cancelled cancelled polls of Inl e \<Rightarrow> Inl e
   | Inr polls' \<Rightarrow>
      let slot = unat (dr_group_slot r) in
      if length (sb_groups body) \<le> slot then Inl InvalidRecord
      else if \<not> record_ok limits body (sb_groups body ! slot) r \<or> (dr_group_slot r, dr_external_hash r) \<in> set (rv_hashes st)
      then Inl InvalidRecord
      else (case record_parent body index r st of None \<Rightarrow> Inl InvalidRecord
      | Some (depth, expected, st1) \<Rightarrow>
         if depth < rv_previous_depths st ! slot \<or> dr_prefix_token_ids r \<noteq> expected then Inl InvalidRecord
         else validate_records limits body cancelled polls' (Suc index)
           (st1\<lparr>rv_hashes := (dr_group_slot r, dr_external_hash r) # rv_hashes st1, rv_depths := rv_depths st1 @ [depth],
                rv_previous_depths := (rv_previous_depths st1)[slot := depth]\<rparr>) rs))"

definition validate_collections :: "snapshot_limits \<Rightarrow> snapshot_body \<Rightarrow> probe \<Rightarrow> nat \<Rightarrow> snapshot_error + nat" where
  "validate_collections limits body cancelled polls =
    (case validate_groups (sb_reset_scope body) cancelled polls [] (sb_groups body) of Inl e \<Rightarrow> Inl e
     | Inr polls1 \<Rightarrow>
        (case validate_records limits body cancelled polls1 0
            \<lparr>rv_hashes = [], rv_depths = [], rv_child_counts = replicate (length (sb_records body)) 0,
             rv_previous_depths = replicate (length (sb_groups body)) 0\<rparr> (sb_records body) of Inl e \<Rightarrow> Inl e
         | Inr (polls2, st) \<Rightarrow>
            if list_ex (\<lambda>(r, children). \<not> dr_present r \<and> children = 0) (zip (sb_records body) (rv_child_counts st))
            then Inl InvalidRecord
            else (case measured_capacity (sb_groups body) (sb_records body) of Inl e \<Rightarrow> Inl e
              | Inr measured \<Rightarrow>
                 if sl_max_total_external_hash_bytes limits < unat (sc_external_hash_bytes measured) then Inl Snap_CapacityExceeded
                 else if measured \<noteq> sb_capacity body then Inl CapacityMismatch
                 else Inr polls2)))"

definition validate_body :: "snapshot_limits \<Rightarrow> snapshot_body \<Rightarrow> probe \<Rightarrow> nat \<Rightarrow> snapshot_error + nat" where
  "validate_body limits body cancelled polls = (case validate_header body limits of Inl e \<Rightarrow> Inl e
   | Inr _ \<Rightarrow> validate_collections limits body cancelled polls)"

section \<open>Frames\<close>

record snapshot_codec =
  cd_body :: "snapshot_body rmp"
  cd_envelope :: "snapshot_envelope rmp"

definition encode_snapshot_with_cancel ::
  "(bytes \<Rightarrow> bytes) \<Rightarrow> snapshot_codec \<Rightarrow> snapshot_body \<Rightarrow> snapshot_limits \<Rightarrow> probe \<Rightarrow> snapshot_error + bytes" where
  "encode_snapshot_with_cancel sha codec body limits cancelled =
    (case check_cancelled cancelled 0 of Inl e \<Rightarrow> Inl e | Inr n1 \<Rightarrow>
     (case validate_body limits body cancelled n1 of Inl e \<Rightarrow> Inl e | Inr n2 \<Rightarrow>
     (case check_cancelled cancelled n2 of Inl e \<Rightarrow> Inl e | Inr n3 \<Rightarrow>
     (case to_vec_named (cd_body codec) body of None \<Rightarrow> Inl Snap_EncodeFailed
      | Some payload \<Rightarrow>
         if sl_max_payload_bytes limits < length payload then Inl Snap_CapacityExceeded
         else (case check_cancelled cancelled n3 of Inl e \<Rightarrow> Inl e | Inr n4 \<Rightarrow>
         (case to_vec_named (cd_envelope codec) \<lparr>ev_schema_version = snapshot_schema_version, ev_checksum_algorithm = Sha256,
              ev_payload_bytes = of_nat (length payload), ev_checksum = sha payload, ev_payload = payload\<rparr> of
            None \<Rightarrow> Inl Snap_EncodeFailed
          | Some frame \<Rightarrow> if sl_max_frame_bytes limits < length frame then Inl Snap_FrameTooLarge else Inr frame))))))"

definition encode_snapshot :: "(bytes \<Rightarrow> bytes) \<Rightarrow> snapshot_codec \<Rightarrow> snapshot_body \<Rightarrow> snapshot_limits \<Rightarrow> snapshot_error + bytes" where
  "encode_snapshot sha codec body limits = encode_snapshot_with_cancel sha codec body limits (\<lambda>_. False)"

definition check_envelope :: "(bytes \<Rightarrow> bytes) \<Rightarrow> snapshot_limits \<Rightarrow> snapshot_envelope \<Rightarrow> snapshot_error + unit" where
  "check_envelope sha limits ev =
    (if ev_schema_version ev \<noteq> snapshot_schema_version then Inl Snap_UnsupportedSchema
     else if ev_checksum_algorithm ev \<noteq> Sha256 then Inl UnsupportedChecksum
     else if sl_max_payload_bytes limits < length (ev_payload ev) \<or> of_nat (length (ev_payload ev)) \<noteq> ev_payload_bytes ev
     then Inl InvalidPayloadLength
     else if length (ev_checksum ev) \<noteq> 32 \<or> sha (ev_payload ev) \<noteq> ev_checksum ev then Inl InvalidChecksum
     else Inr ())"

definition decode_snapshot_with_cancel ::
  "(bytes \<Rightarrow> bytes) \<Rightarrow> snapshot_codec \<Rightarrow> bytes \<Rightarrow> snapshot_limits \<Rightarrow> snapshot_expectations \<Rightarrow> probe \<Rightarrow> snapshot_error + snapshot_body \<times> nat" where
  "decode_snapshot_with_cancel sha codec frame limits expected cancelled =
    (case check_cancelled cancelled 0 of Inl e \<Rightarrow> Inl e | Inr n1 \<Rightarrow>
     if sl_max_frame_bytes limits < length frame then Inl Snap_FrameTooLarge
     else (case from_slice (cd_envelope codec) frame of None \<Rightarrow> Inl Snap_InvalidMessagePack
     | Some ev \<Rightarrow>
     (case check_cancelled cancelled n1 of Inl e \<Rightarrow> Inl e | Inr n2 \<Rightarrow>
     (case check_envelope sha limits ev of Inl e \<Rightarrow> Inl e | Inr _ \<Rightarrow>
     (case check_cancelled cancelled n2 of Inl e \<Rightarrow> Inl e | Inr n3 \<Rightarrow>
     (case from_slice (cd_body codec) (ev_payload ev) of None \<Rightarrow> Inl Snap_InvalidMessagePack
     | Some body \<Rightarrow>
     (case validate_header body limits of Inl e \<Rightarrow> Inl e | Inr _ \<Rightarrow>
        if sb_incarnation body \<noteq> se_incarnation expected then Inl Snap_IncarnationMismatch
        else if sb_digest body \<noteq> se_digest expected then Inl DigestMismatch
        else if sb_reset_scope body \<noteq> se_reset_scope expected then Inl ResetScopeMismatch
        else (case check_cancelled cancelled n3 of Inl e \<Rightarrow> Inl e | Inr n4 \<Rightarrow>
          (case validate_collections limits body cancelled n4 of Inl e \<Rightarrow> Inl e | Inr n5 \<Rightarrow> Inr (body, n5))))))))))"

definition decode_snapshot ::
  "(bytes \<Rightarrow> bytes) \<Rightarrow> snapshot_codec \<Rightarrow> bytes \<Rightarrow> snapshot_limits \<Rightarrow> snapshot_expectations \<Rightarrow> snapshot_error + snapshot_body" where
  "decode_snapshot sha codec frame limits expected =
    map_sum id fst (decode_snapshot_with_cancel sha codec frame limits expected (\<lambda>_. False))"

section \<open>Well-formed bodies\<close>

definition record_wf :: "snapshot_limits \<Rightarrow> snapshot_body \<Rightarrow> nat \<Rightarrow> bool" where
  "record_wf limits body i \<longleftrightarrow> (let r = sb_records body ! i in
     unat (dr_group_slot r) < length (sb_groups body) \<and> record_ok limits body (sb_groups body ! unat (dr_group_slot r)) r \<and>
     (case dr_parent_record r of
        None \<Rightarrow> unat (dr_prefix_token_ids r) = unat (dr_block_token_ids r)
      | Some p \<Rightarrow> unat p < i \<and> dr_group_slot (sb_records body ! unat p) = dr_group_slot r \<and>
          unat (dr_prefix_token_ids r) = unat (dr_prefix_token_ids (sb_records body ! unat p)) + unat (dr_block_token_ids r)))"

abbreviation record_key :: "digest_record \<Rightarrow> u32 \<times> snapshot_block_hash" where
  "record_key r \<equiv> (dr_group_slot r, dr_external_hash r)"

text \<open>A forest in which parents come first, prefixes add up, no hash occurs twice and every absent record has a child.\<close>

definition forest_wf :: "snapshot_limits \<Rightarrow> snapshot_body \<Rightarrow> bool" where
  "forest_wf limits body \<longleftrightarrow>
     (\<forall>i < length (sb_records body). record_wf limits body i) \<and> distinct (map record_key (sb_records body)) \<and>
     (\<forall>i < length (sb_records body). \<not> dr_present (sb_records body ! i) \<longrightarrow>
        (\<exists>r \<in> set (sb_records body). map_option unat (dr_parent_record r) = Some i)) \<and>
     distinct (map (\<lambda>g. (gm_data_parallel_rank g, gm_group_idx g)) (sb_groups body)) \<and>
     measured_capacity (sb_groups body) (sb_records body) = Inr (sb_capacity body)"

end
