(* ===== verification/Snapshot_Forest.thy ===== *)
theory Snapshot_Forest
  imports Kv_Snapshot
begin

text \<open>
  What a decoded snapshot satisfies, and that decoding inverts encoding.
\<close>

section \<open>Validation is sound\<close>

lemma unat_widen [simp]: "unat (ucast (x :: u32) :: u64) = unat x"
  by (simp add: unsigned_ucast_eq take_bit_nat_eq_self_iff) (rule order_less_le_trans [OF unsigned_less], simp)

lemma groups_distinct:
  "validate_groups scope c n seen gs = Inr k \<Longrightarrow> distinct (map (\<lambda>g. (gm_data_parallel_rank g, gm_group_idx g)) gs) \<and>
   set (map (\<lambda>g. (gm_data_parallel_rank g, gm_group_idx g)) gs) \<inter> set seen = {}"
  by (induction gs arbitrary: n seen) (fastforce split: sum.splits if_splits)+

definition seen_inv :: "snapshot_limits \<Rightarrow> snapshot_body \<Rightarrow> digest_record list \<Rightarrow> record_state \<Rightarrow> bool" where
  "seen_inv limits body rs st \<longleftrightarrow> (\<forall>i < length rs. record_wf limits body i) \<and>
     set (rv_hashes st) = record_key ` set rs \<and> distinct (map record_key rs) \<and>
     length (rv_child_counts st) = length (sb_records body) \<and>
     (\<forall>i < length (sb_records body). rv_child_counts st ! i \<noteq> 0 \<longrightarrow> (\<exists>r \<in> set rs. map_option unat (dr_parent_record r) = Some i))"

lemma record_parent_wf:
  assumes "record_parent body i r st = Some (depth, dr_prefix_token_ids r, st1)"
  shows "case dr_parent_record r of
      None \<Rightarrow> unat (dr_prefix_token_ids r) = unat (dr_block_token_ids r)
    | Some p \<Rightarrow> unat p < i \<and> dr_group_slot (sb_records body ! unat p) = dr_group_slot r \<and>
        unat (dr_prefix_token_ids r) = unat (dr_prefix_token_ids (sb_records body ! unat p)) + unat (dr_block_token_ids r)"
proof (cases "dr_parent_record r")
  case None
  then have "dr_prefix_token_ids r = ucast (dr_block_token_ids r)" using assms by (simp add: record_parent_def)
  then show ?thesis using None by simp
next
  case (Some p)
  then have "u64_checked_add (dr_prefix_token_ids (sb_records body ! unat p)) (ucast (dr_block_token_ids r)) = Some (dr_prefix_token_ids r)"
      "unat p < i" "dr_group_slot (sb_records body ! unat p) = dr_group_slot r"
    using assms by (auto simp: record_parent_def Let_def bind_eq_Some_conv split: if_splits)
  moreover have "unat (a + b) = unat a + unat b" if "unat a + unat b < 2 ^ 64" for a b :: u64
    using that unat_word_ariths(1) [of a b] by simp
  ultimately show ?thesis using Some by (auto simp: u64_checked_add_Some)
qed

lemma record_parent_counts:
  assumes "record_parent body i r st = Some (depth, expected, st1)"
  shows "rv_hashes st1 = rv_hashes st \<and> length (rv_child_counts st1) = length (rv_child_counts st) \<and>
    (\<forall>j < length (rv_child_counts st). rv_child_counts st1 ! j \<noteq> 0 \<longrightarrow>
       rv_child_counts st ! j \<noteq> 0 \<or> map_option unat (dr_parent_record r) = Some j)"
  using assms by (auto simp: record_parent_def Let_def bind_eq_Some_conv nth_list_update split: if_splits option.splits)

lemma validate_records_sound:
  "validate_records limits body c n (length ds) st rs = Inr (k, st') \<Longrightarrow> sb_records body = ds @ rs \<Longrightarrow>
   seen_inv limits body ds st \<Longrightarrow> seen_inv limits body (sb_records body) st'"
proof (induction rs arbitrary: n ds st)
  case (Cons r rs)
  let ?g = "sb_groups body ! unat (dr_group_slot r)"
  obtain m depth st1 where slot: "unat (dr_group_slot r) < length (sb_groups body)" and ok: "record_ok limits body ?g r"
      and fresh: "record_key r \<notin> set (rv_hashes st)"
      and par: "record_parent body (length ds) r st = Some (depth, dr_prefix_token_ids r, st1)"
      and rest: "validate_records limits body c m (Suc (length ds)) (st1\<lparr>rv_hashes := record_key r # rv_hashes st1,
        rv_depths := rv_depths st1 @ [depth], rv_previous_depths := (rv_previous_depths st1)[unat (dr_group_slot r) := depth]\<rparr>) rs = Inr (k, st')"
    using Cons.prems(1) by (auto simp: Let_def not_le split: sum.splits if_splits option.splits)
  have r: "sb_records body ! length ds = r" using Cons.prems(2) by simp
  have "record_wf limits body (length ds)" using slot ok record_parent_wf [OF par] by (simp add: record_wf_def r Let_def)
  then have "seen_inv limits body (ds @ [r]) (st1\<lparr>rv_hashes := record_key r # rv_hashes st1,
        rv_depths := rv_depths st1 @ [depth], rv_previous_depths := (rv_previous_depths st1)[unat (dr_group_slot r) := depth]\<rparr>)"
    using Cons.prems(3) fresh record_parent_counts [OF par] by (auto simp: seen_inv_def less_Suc_eq)
  then show ?case using Cons.IH [of m "ds @ [r]"] rest Cons.prems(2) by simp
qed simp

lemma validate_collections_sound:
  assumes "validate_collections limits body c n = Inr k"
  shows "forest_wf limits body"
proof -
  let ?st = "\<lparr>rv_hashes = [], rv_depths = [], rv_child_counts = replicate (length (sb_records body)) 0,
      rv_previous_depths = replicate (length (sb_groups body)) 0\<rparr>"
  obtain n1 st where g: "validate_groups (sb_reset_scope body) c n [] (sb_groups body) = Inr n1"
      and r: "validate_records limits body c n1 (length ([] :: digest_record list)) ?st (sb_records body) = Inr (k, st)"
      and leaf: "\<not> list_ex (\<lambda>(r, children). \<not> dr_present r \<and> children = 0) (zip (sb_records body) (rv_child_counts st))"
      and cap: "measured_capacity (sb_groups body) (sb_records body) = Inr (sb_capacity body)"
    using assms by (auto simp: validate_collections_def split: sum.splits if_splits prod.splits)
  have inv: "seen_inv limits body (sb_records body) st"
    by (rule validate_records_sound [OF r]) (simp_all add: seen_inv_def)
  have "\<exists>r \<in> set (sb_records body). map_option unat (dr_parent_record r) = Some i"
    if i: "i < length (sb_records body)" "\<not> dr_present (sb_records body ! i)" for i
  proof -
    have "(sb_records body ! i, rv_child_counts st ! i) \<in> set (zip (sb_records body) (rv_child_counts st))"
      using i inv by (auto simp: set_zip seen_inv_def)
    then have "rv_child_counts st ! i \<noteq> 0" using leaf i(2) by (auto simp: list_ex_iff)
    then show ?thesis using inv i(1) by (simp add: seen_inv_def)
  qed
  then show ?thesis using inv cap groups_distinct [OF g] by (auto simp: forest_wf_def seen_inv_def)
qed

lemma header_limits:
  "validate_header body limits = Inr u \<Longrightarrow> length (sb_groups body) \<le> sl_max_groups limits \<and> length (sb_records body) \<le> sl_max_records limits"
  by (auto simp: validate_header_def split: sum.splits if_splits)

lemma decoded_body:
  assumes "decode_snapshot_with_cancel sha codec frame limits expected c = Inr (body, n)"
  shows "validate_header body limits = Inr () \<and> (\<exists>k. validate_collections limits body c k = Inr n) \<and>
    sb_incarnation body = se_incarnation expected \<and> sb_digest body = se_digest expected \<and> sb_reset_scope body = se_reset_scope expected"
  using assms by (auto simp: decode_snapshot_with_cancel_def split: sum.splits if_splits option.splits)

section \<open>Without cancellation\<close>

lemma never_cancelled [simp]: "check_cancelled (\<lambda>_. False) n = Inr (Suc n)"
  by (simp add: check_cancelled_def)

lemma groups_polls:
  "validate_groups scope (\<lambda>_. False) n seen gs = Inr k \<Longrightarrow> \<exists>k'. validate_groups scope (\<lambda>_. False) m seen gs = Inr k'"
  by (induction gs arbitrary: n m seen) (auto split: if_splits)

lemma records_polls:
  "validate_records limits body (\<lambda>_. False) n i st rs = Inr (k, st') \<Longrightarrow>
   \<exists>k'. validate_records limits body (\<lambda>_. False) m i st rs = Inr (k', st')"
  by (induction rs arbitrary: n m i st) (fastforce simp: Let_def split: if_splits option.splits)+

lemma collections_polls:
  assumes "validate_collections limits body (\<lambda>_. False) n = Inr k"
  shows "\<exists>k'. validate_collections limits body (\<lambda>_. False) m = Inr k'"
proof -
  let ?st = "\<lparr>rv_hashes = [], rv_depths = [], rv_child_counts = replicate (length (sb_records body)) 0,
      rv_previous_depths = replicate (length (sb_groups body)) 0\<rparr>"
  obtain n1 st where g: "validate_groups (sb_reset_scope body) (\<lambda>_. False) n [] (sb_groups body) = Inr n1"
      and r: "validate_records limits body (\<lambda>_. False) n1 0 ?st (sb_records body) = Inr (k, st)"
    using assms by (auto simp: validate_collections_def split: sum.splits if_splits prod.splits)
  obtain m1 where "validate_groups (sb_reset_scope body) (\<lambda>_. False) m [] (sb_groups body) = Inr m1" using groups_polls [OF g] by blast
  moreover obtain m2 where "validate_records limits body (\<lambda>_. False) m1 0 ?st (sb_records body) = Inr (m2, st)"
    using records_polls [OF r] by blast
  ultimately show ?thesis using assms g r by (auto simp: validate_collections_def split: sum.splits if_splits)
qed

definition own_expectations :: "snapshot_body \<Rightarrow> snapshot_expectations" where
  "own_expectations body = \<lparr>se_incarnation = sb_incarnation body, se_reset_scope = sb_reset_scope body, se_digest = sb_digest body\<rparr>"

lemma decoded_snapshot_facts:
  assumes "decode_snapshot_with_cancel sha codec frame limits expected cancelled = Inr (body, polls)"
  shows "forest_wf limits body \<and> length (sb_groups body) \<le> sl_max_groups limits \<and> length (sb_records body) \<le> sl_max_records limits \<and>
    expected = own_expectations body"
  using decoded_body [OF assms] validate_collections_sound header_limits [of body limits]
  by (auto simp: own_expectations_def)

section \<open>Properties\<close>


text \<open>
  C12. Snapshots round trip. A body that the encoder accepts is decoded from its frame unchanged, under the same limits,
  when the decoder expects the identity, digest contract and scope of the body.
\<close>

theorem snapshot_round_trip:
  assumes "sha_ok sha" "rmp_ok (cd_body codec)" "rmp_ok (cd_envelope codec)" "encode_snapshot sha codec body limits = Inr frame"
  shows "decode_snapshot sha codec frame limits (own_expectations body) = Inr body"
proof -
  let ?ev = "\<lambda>payload. \<lparr>ev_schema_version = snapshot_schema_version, ev_checksum_algorithm = Sha256,
      ev_payload_bytes = of_nat (length payload), ev_checksum = sha payload, ev_payload = payload\<rparr>"
  obtain n k payload where h: "validate_header body limits = Inr ()" and v: "validate_collections limits body (\<lambda>_. False) n = Inr k"
      and p: "to_vec_named (cd_body codec) body = Some payload" "length payload \<le> sl_max_payload_bytes limits"
      and f: "to_vec_named (cd_envelope codec) (?ev payload) = Some frame" "length frame \<le> sl_max_frame_bytes limits"
    using assms(4) by (auto simp: encode_snapshot_def encode_snapshot_with_cancel_def validate_body_def
        split: sum.splits option.splits if_splits)
  have "from_slice (cd_body codec) payload = Some body" "from_slice (cd_envelope codec) frame = Some (?ev payload)"
    using assms(2,3) p f by (auto simp: rmp_ok_def)
  moreover have "check_envelope sha limits (?ev payload) = Inr ()" using assms(1) p(2) by (simp add: check_envelope_def sha_ok_def)
  moreover obtain k' where "validate_collections limits body (\<lambda>_. False) (Suc (Suc (Suc (Suc 0)))) = Inr k'"
    using collections_polls [OF v] by blast
  ultimately show ?thesis using h f(2) by (simp add: decode_snapshot_def decode_snapshot_with_cancel_def own_expectations_def)
qed

section \<open>A concrete snapshot\<close>

definition some_group :: group_metadata where
  "some_group = \<lparr>gm_data_parallel_rank = 0, gm_group_idx = 0, gm_attention_kind = Snap_FullAttention, gm_disposition = Indexed,
     gm_block_size = 16\<rparr>"

definition some_record :: "u32 option \<Rightarrow> u64 \<Rightarrow> u64 \<Rightarrow> bool \<Rightarrow> digest_record" where
  "some_record p h prefix_ids there = \<lparr>dr_group_slot = 0, dr_parent_record = p, dr_external_hash = Snap_Unsigned h,
     dr_block_digest = replicate 32 1, dr_block_token_ids = 16, dr_prefix_token_ids = prefix_ids, dr_present = there\<rparr>"

definition some_body :: snapshot_body where
  "some_body = \<lparr>sb_incarnation = some_incarnation, sb_watermark = 4, sb_reset_scope = full_engine,
     sb_digest = \<lparr>dg_algorithm = HmacSha256V1, dg_key_id = replicate 32 67, dg_digest_bytes = 32\<rparr>,
     sb_capacity = \<lparr>sc_groups = 1, sc_records = 2, sc_external_hash_bytes = 16, sc_digest_bytes = 64\<rparr>,
     sb_groups = [some_group], sb_records = [some_record None 1 16 False, some_record (Some 0) 2 32 True]\<rparr>"

definition some_codec :: snapshot_codec where
  "some_codec = \<lparr>cd_body = \<lparr>to_vec_named = (\<lambda>b. if b = some_body then Some [1] else None), from_slice = (\<lambda>_. Some some_body)\<rparr>,
     cd_envelope = \<lparr>to_vec_named = (\<lambda>e. if e = \<lparr>ev_schema_version = snapshot_schema_version, ev_checksum_algorithm = Sha256,
         ev_payload_bytes = 1, ev_checksum = some_sha [1], ev_payload = [1]\<rparr> then Some [2] else None),
       from_slice = (\<lambda>_. Some \<lparr>ev_schema_version = snapshot_schema_version, ev_checksum_algorithm = Sha256,
         ev_payload_bytes = 1, ev_checksum = some_sha [1], ev_payload = [1]\<rparr>)\<rparr>\<rparr>"

lemma some_snapshot_encoded: "encode_snapshot some_sha some_codec some_body snapshot_limits_default = Inr [2]"
  by (simp add: encode_snapshot_def encode_snapshot_with_cancel_def some_codec_def validate_body_def validate_header_def
      validate_incarnation_def validate_reset_scope_def validate_collections_def measured_capacity_def record_parent_def record_ok_def
      valid_disposition_def group_in_scope_def some_body_def some_group_def some_record_def some_incarnation_def full_engine_def
      snapshot_limits_default_def u64_checked_add_def sat_add_def usize_max_eq Let_def)

lemma some_codec_ok: "rmp_ok (cd_body some_codec)" "rmp_ok (cd_envelope some_codec)"
  by (simp_all add: rmp_ok_def some_codec_def)

theorem snapshot_round_trip_witness:
  "decode_snapshot some_sha some_codec [2] snapshot_limits_default (own_expectations some_body) = Inr some_body"
  by (rule snapshot_round_trip [OF some_ok(1) some_codec_ok some_snapshot_encoded])

lemma some_snapshot_decoded:
  "decode_snapshot_with_cancel some_sha some_codec [2] snapshot_limits_default (own_expectations some_body) (\<lambda>n. n = 9) = Inr (some_body, 7)"
  by (simp add: decode_snapshot_with_cancel_def check_cancelled_def check_envelope_def some_codec_def some_sha_def own_expectations_def validate_header_def
      validate_incarnation_def validate_reset_scope_def validate_collections_def measured_capacity_def record_parent_def record_ok_def
      valid_disposition_def group_in_scope_def some_body_def some_group_def some_record_def some_incarnation_def full_engine_def
      snapshot_limits_default_def u64_checked_add_def sat_add_def usize_max_eq Let_def)


end
