(* ===== verification/Block_Digest.thy ===== *)
theory Block_Digest
  imports Frame_Codec
begin

text \<open>
  The keyed block commitments of \<^verbatim>\<open>src/src/block_digest.rs\<close>: an HMAC over the domain, the token count and the tokens,
  split into a map key and a guard. SHA-256 is the parameter \<open>sha\<close>.
\<close>

record primary_commitment =
  pc_token_count :: u32
  pc_digest :: bytes

record block_commitment =
  bc_primary :: primary_commitment
  bc_guard :: bytes

datatype block_digest_error = InvalidSecretLength | TokenCountOverflow

record block_digester =
  bd_secret :: bytes
  bd_key_id :: bytes

definition key_id_domain :: bytes where
  "key_id_domain = bytes_of_string ''mini-dynamo:block-digest-key-id:v1'' @ [0]"

definition block_domain :: bytes where
  "block_domain = bytes_of_string ''mini-dynamo:block-digest:v1'' @ [0]"

definition derive_key_id :: "(bytes \<Rightarrow> bytes) \<Rightarrow> bytes \<Rightarrow> bytes" where
  "derive_key_id sha secret = sha (key_id_domain @ secret)"

definition matches_wire :: "bytes \<Rightarrow> bytes \<Rightarrow> bool" where
  "matches_wire key_id candidate \<longleftrightarrow> length candidate = 32 \<and>
     fold (\<lambda>(expected, actual) difference. difference OR (expected XOR actual)) (zip key_id candidate) 0 = 0"

definition digester_new :: "(bytes \<Rightarrow> bytes) \<Rightarrow> bytes \<Rightarrow> block_digester" where
  "digester_new sha secret = \<lparr>bd_secret = secret, bd_key_id = derive_key_id sha secret\<rparr>"

definition digester_from_slice :: "(bytes \<Rightarrow> bytes) \<Rightarrow> bytes \<Rightarrow> block_digest_error + block_digester" where
  "digester_from_slice sha secret = (if length secret \<noteq> 32 then Inl InvalidSecretLength else Inr (digester_new sha secret))"

text \<open>The HMAC of this file first normalizes the key to 64 bytes.\<close>

definition block_hmac_new :: "(bytes \<Rightarrow> bytes) \<Rightarrow> bytes \<Rightarrow> hmac" where
  "block_hmac_new sha key =
    (let short = (if 64 < length key then sha key else key);
         normalized = take 64 (short @ replicate 64 0)
     in \<lparr>hm_inner = map (\<lambda>b. 0x36 XOR b) normalized, hm_outer_pad = map (\<lambda>b. 0x5c XOR b) normalized\<rparr>)"

definition le_bytes32 :: "u32 \<Rightarrow> bytes" where
  "le_bytes32 x = rev (be_bytes 4 (unat x))"

definition commitment_from_digest :: "u32 \<Rightarrow> bytes \<Rightarrow> block_commitment" where
  "commitment_from_digest token_count digest =
    \<lparr>bc_primary = \<lparr>pc_token_count = token_count, pc_digest = take 16 digest\<rparr>, bc_guard = drop 16 digest\<rparr>"

definition commit :: "(bytes \<Rightarrow> bytes) \<Rightarrow> block_digester \<Rightarrow> u32 list \<Rightarrow> block_digest_error + block_commitment" where
  "commit sha d tokens =
    (if 2 ^ 32 \<le> length tokens then Inl TokenCountOverflow
     else
       let token_count = of_nat (length tokens);
           inner = hmac_update (le_bytes32 token_count) (hmac_update block_domain (block_hmac_new sha (bd_secret d)));
           digest = hmac_finalize sha (fold (\<lambda>t. hmac_update (le_bytes32 t)) tokens inner)
       in Inr \<lparr>bc_primary = \<lparr>pc_token_count = token_count, pc_digest = take 16 digest\<rparr>, bc_guard = drop 16 digest\<rparr>)"

definition digest_bytes :: "block_commitment \<Rightarrow> bytes" where
  "digest_bytes c = pc_digest (bc_primary c) @ bc_guard c"

section \<open>Facts\<close>

lemma commitment_round_trip [simp]: "digest_bytes (commitment_from_digest n digest) = digest"
  by (simp add: digest_bytes_def commitment_from_digest_def)

lemma commit_length: "commit sha d tokens = Inr c \<Longrightarrow> unat (pc_token_count (bc_primary c)) = length tokens"
  by (auto simp: commit_def Let_def unat_of_nat split: if_splits)

lemma or8_fold_zero:
  "fold (\<lambda>(a, b) d. d OR (a XOR b)) ps (d0 :: u8) = 0 \<longleftrightarrow> d0 = 0 \<and> (\<forall>(a, b) \<in> set ps. a = b)"
proof (induction ps arbitrary: d0)
  case (Cons p ps)
  have "d0 OR x = 0 \<longleftrightarrow> d0 = 0 \<and> x = 0" for x :: u8 by (metis or.left_neutral or_eq_0_iff)
  then show ?case using Cons by (cases p) (auto simp: xor_zero_iff)
qed simp

lemma zip_all_equal: "length xs = length ys \<Longrightarrow> (\<forall>(a, b) \<in> set (zip xs ys). a = b) \<longleftrightarrow> ys = xs"
  by (induction xs ys rule: list_induct2) auto

lemma matches_wire_iff: "length key_id = 32 \<Longrightarrow> matches_wire key_id candidate \<longleftrightarrow> candidate = key_id"
  using zip_all_equal [of key_id candidate] unfolding matches_wire_def or8_fold_zero by (cases "length candidate = 32") auto

end
