(* ===== verification/Digest_Index.thy ===== *)
theory Digest_Index
  imports Block_Digest Kv_Wire
begin

text \<open>
  The compact index of \<^verbatim>\<open>src/src/digest_index.rs\<close>, \<open>DigestKvIndex\<close>: the arena of \<^verbatim>\<open>Exact_Index\<close> with every block
  replaced by its commitment. An edge whose compact key collides is poisoned. The outer \<open>option\<close> is \<open>None\<close> where the
  source panics; the function pointer \<open>commit\<close> of the source is \<open>commit_block\<close> outside its tests.
\<close>

section \<open>Data\<close>

record digest_index_limits =
  dl_max_nodes :: nat
  dl_max_logical_token_ids :: nat
  dl_max_lookup_steps :: nat
  dl_max_external_hash_bytes :: nat
  dl_max_total_external_hash_bytes :: nat

definition digest_index_limits_default :: digest_index_limits where
  "digest_index_limits_default = \<lparr>dl_max_nodes = 131072, dl_max_logical_token_ids = 16777216, dl_max_lookup_steps = 131072,
     dl_max_external_hash_bytes = 256, dl_max_total_external_hash_bytes = 32 * 1024 * 1024\<rparr>"

record digest_match =
  dm_blocks :: nat
  dm_token_ids :: nat

record digest_index_stats =
  ds_nodes :: nat
  ds_logical_token_ids :: nat
  ds_external_hashes :: nat
  ds_external_hash_bytes :: nat
  ds_commitment_bytes :: nat
  ds_poisoned_edges :: nat

datatype digest_index_error =
    BlockDigestFailed | Digest_InconsistentBlockShape | Digest_ParentNotFound | Digest_DuplicateHash | DigestCollision
  | Digest_CapacityExceeded | Digest_LookupBudgetExceeded | SnapshotDigestMismatch | SnapshotGroupNotFound
  | InvalidSnapshotScope | UnsupportedSnapshotGroups | InvalidSnapshotRecord | Digest_Cancelled

fun digest_index_reason :: "digest_index_error \<Rightarrow> string" where
  "digest_index_reason BlockDigestFailed = ''digest_construction_failed''"
| "digest_index_reason Digest_InconsistentBlockShape = ''digest_inconsistent_block_shape''"
| "digest_index_reason Digest_ParentNotFound = ''digest_parent_not_found''"
| "digest_index_reason Digest_DuplicateHash = ''digest_duplicate_hash''"
| "digest_index_reason DigestCollision = ''digest_collision''"
| "digest_index_reason Digest_CapacityExceeded = ''digest_capacity_exceeded''"
| "digest_index_reason Digest_LookupBudgetExceeded = ''digest_lookup_budget_exceeded''"
| "digest_index_reason SnapshotDigestMismatch = ''digest_snapshot_contract_mismatch''"
| "digest_index_reason SnapshotGroupNotFound = ''digest_snapshot_group_not_found''"
| "digest_index_reason InvalidSnapshotScope = ''digest_snapshot_scope_invalid''"
| "digest_index_reason UnsupportedSnapshotGroups = ''digest_snapshot_groups_unsupported''"
| "digest_index_reason InvalidSnapshotRecord = ''digest_snapshot_invalid_record''"
| "digest_index_reason Digest_Cancelled = ''digest_snapshot_cancelled''"

datatype child_entry = Unique bytes nat | Poisoned nat

record digest_node =
  dn_parent :: "nat option"
  dn_block :: "primary_commitment option"
  dn_children :: "(primary_commitment \<times> child_entry) list"
  dn_child_lengths :: "nat list"
  dn_external_hash :: "external_block_hash option"
  dn_present :: bool
  dn_logical_token_ids :: nat

definition digest_root :: digest_node where
  "digest_root = \<lparr>dn_parent = None, dn_block = None, dn_children = [], dn_child_lengths = [], dn_external_hash = None,
     dn_present = True, dn_logical_token_ids = 0\<rparr>"

record digest_kv_index =
  dx_limits :: digest_index_limits
  dx_digester :: block_digester
  dx_nodes :: "digest_node option list"
  dx_free_nodes :: "nat list"
  dx_by_external_hash :: "(external_block_hash \<times> nat) list"
  dx_live_nodes :: nat
  dx_logical_token_ids :: nat
  dx_external_hash_bytes :: nat
  dx_poisoned_edges :: nat

fun external_hash_len :: "external_block_hash \<Rightarrow> nat" where
  "external_hash_len (Bytes bs) = length bs"
| "external_hash_len (Signed _) = 8"
| "external_hash_len (Unsigned _) = 8"

section \<open>Operations\<close>

definition digest_new :: "digest_index_limits \<Rightarrow> block_digester \<Rightarrow> digest_kv_index" where
  "digest_new l d = \<lparr>dx_limits = l, dx_digester = d, dx_nodes = [Some digest_root], dx_free_nodes = [], dx_by_external_hash = [],
     dx_live_nodes = 0, dx_logical_token_ids = 0, dx_external_hash_bytes = 0, dx_poisoned_edges = 0\<rparr>"

definition digest_from_secret ::
  "(bytes \<Rightarrow> bytes) \<Rightarrow> digest_index_limits \<Rightarrow> bytes \<Rightarrow> digest_index_error + digest_kv_index" where
  "digest_from_secret sha l secret = (case digester_from_slice sha secret of
     Inl _ \<Rightarrow> Inl BlockDigestFailed | Inr d \<Rightarrow> Inr (digest_new l d))"

definition digest_clear :: "digest_kv_index \<Rightarrow> digest_kv_index" where
  "digest_clear dx = dx\<lparr>dx_nodes := [Some digest_root], dx_free_nodes := [], dx_by_external_hash := [],
     dx_live_nodes := 0, dx_logical_token_ids := 0, dx_external_hash_bytes := 0, dx_poisoned_edges := 0\<rparr>"

definition digest_stats :: "digest_kv_index \<Rightarrow> digest_index_stats" where
  "digest_stats dx = \<lparr>ds_nodes = dx_live_nodes dx, ds_logical_token_ids = dx_logical_token_ids dx,
     ds_external_hashes = length (dx_by_external_hash dx), ds_external_hash_bytes = dx_external_hash_bytes dx,
     ds_commitment_bytes = sat_mul (dx_live_nodes dx) 32, ds_poisoned_edges = dx_poisoned_edges dx\<rparr>"

definition dnode :: "digest_kv_index \<Rightarrow> nat \<Rightarrow> digest_node option" where
  "dnode dx i = (case get (dx_nodes dx) i of None \<Rightarrow> None | Some n \<Rightarrow> n)"

definition put_dnode :: "nat \<Rightarrow> digest_node option \<Rightarrow> digest_kv_index \<Rightarrow> digest_kv_index" where
  "put_dnode i n dx = dx\<lparr>dx_nodes := (dx_nodes dx)[i := n]\<rparr>"

definition commit_block :: "(bytes \<Rightarrow> bytes) \<Rightarrow> block_digester \<Rightarrow> token_id list \<Rightarrow> digest_index_error + block_commitment" where
  "commit_block sha d tokens = (case commit sha d tokens of Inl _ \<Rightarrow> Inl BlockDigestFailed | Inr c \<Rightarrow> Inr c)"

fun commit_chunks ::
  "(bytes \<Rightarrow> bytes) \<Rightarrow> block_digester \<Rightarrow> token_id list list \<Rightarrow> digest_index_error + block_commitment list" where
  "commit_chunks sha d [] = Inr []"
| "commit_chunks sha d (c # cs) = (case commit_block sha d c of Inl e \<Rightarrow> Inl e
     | Inr k \<Rightarrow> (case commit_chunks sha d cs of Inl e \<Rightarrow> Inl e | Inr ks \<Rightarrow> Inr (k # ks)))"

definition valid_external_hashes :: "external_block_hash list \<Rightarrow> digest_kv_index \<Rightarrow> bool" where
  "valid_external_hashes hs dx \<longleftrightarrow>
     list_all (\<lambda>h. external_hash_len h \<noteq> 0 \<and> external_hash_len h \<le> dl_max_external_hash_bytes (dx_limits dx)) hs"

definition capacity_left :: "nat \<Rightarrow> nat \<Rightarrow> nat \<Rightarrow> digest_kv_index \<Rightarrow> bool" where
  "capacity_left new_nodes new_token_ids new_hash_bytes dx \<longleftrightarrow>
     sat_add (dx_live_nodes dx) new_nodes \<le> dl_max_nodes (dx_limits dx) \<and>
     sat_add (dx_logical_token_ids dx) new_token_ids \<le> dl_max_logical_token_ids (dx_limits dx) \<and>
     sat_add (dx_external_hash_bytes dx) new_hash_bytes \<le> dl_max_total_external_hash_bytes (dx_limits dx)"

definition poison_edge :: "nat \<Rightarrow> primary_commitment \<Rightarrow> digest_kv_index \<Rightarrow> digest_kv_index option" where
  "poison_edge parent_id primary dx = Option.bind (dnode dx parent_id) (\<lambda>p.
     case map_of (dn_children p) primary of
       Some (Unique _ n) \<Rightarrow> Some ((put_dnode parent_id
           (Some (p\<lparr>dn_children := AList.update primary (Poisoned n) (dn_children p)\<rparr>)) dx)
           \<lparr>dx_poisoned_edges := sat_add (dx_poisoned_edges dx) 1\<rparr>)
     | _ \<Rightarrow> Some dx)"

definition allocate_dnode :: "digest_node \<Rightarrow> digest_kv_index \<Rightarrow> (digest_kv_index \<times> nat) option" where
  "allocate_dnode n dx =
     (if dx_free_nodes dx \<noteq> [] then
        let node_id = last (dx_free_nodes dx);
            dx' = dx\<lparr>dx_free_nodes := butlast (dx_free_nodes dx)\<rparr>
        in if node_id < length (dx_nodes dx) then Some (put_dnode node_id (Some n) dx', node_id) else None
      else Some (dx\<lparr>dx_nodes := dx_nodes dx @ [Some n]\<rparr>, length (dx_nodes dx)))"

definition add_child_length :: "nat \<Rightarrow> nat list \<Rightarrow> nat list" where
  "add_child_length l ls = (if l \<in> set ls then ls else rev (sort (ls @ [l])))"

definition insert_dchild ::
  "nat \<Rightarrow> block_commitment \<Rightarrow> external_block_hash \<Rightarrow> nat \<Rightarrow> digest_kv_index \<Rightarrow> (digest_kv_index \<times> nat) option" where
  "insert_dchild parent_id c h tokens dx =
    Option.bind (allocate_dnode \<lparr>dn_parent = Some parent_id, dn_block = Some (bc_primary c), dn_children = [],
        dn_child_lengths = [], dn_external_hash = Some h, dn_present = True, dn_logical_token_ids = tokens\<rparr> dx) (\<lambda>(dx1, node_id).
    Option.bind (dnode dx1 parent_id) (\<lambda>p.
      Some ((put_dnode parent_id (Some (p\<lparr>dn_children := AList.update (bc_primary c) (Unique (bc_guard c) node_id) (dn_children p),
               dn_child_lengths := add_child_length (unat (pc_token_count (bc_primary c))) (dn_child_lengths p)\<rparr>)) dx1)
              \<lparr>dx_live_nodes := dx_live_nodes dx1 + 1, dx_logical_token_ids := dx_logical_token_ids dx1 + tokens,
               dx_external_hash_bytes := dx_external_hash_bytes dx1 + external_hash_len h\<rparr>, node_id)))"

text \<open>The walk over the part of the path that exists already. A collision is \<open>Inl\<close> with the index it poisons.\<close>

fun scan_commitments ::
  "digest_kv_index \<Rightarrow> nat \<Rightarrow> nat \<Rightarrow> (block_commitment \<times> external_block_hash) list \<Rightarrow> nat \<Rightarrow> nat list
    \<Rightarrow> (digest_kv_index + nat \<times> nat list) option" where
  "scan_commitments dx first_new pos [] cursor path = Some (Inr (first_new, path))"
| "scan_commitments dx first_new pos ((c, h) # rest) cursor path =
    Option.bind (dnode dx cursor) (\<lambda>n.
      case map_of (dn_children n) (bc_primary c) of
        None \<Rightarrow> Some (Inr (pos, path))
      | Some (Poisoned _) \<Rightarrow> Some (Inl dx)
      | Some (Unique guard child_id) \<Rightarrow>
          if guard \<noteq> bc_guard c then map_option Inl (poison_edge cursor (bc_primary c) dx)
          else Option.bind (dnode dx child_id) (\<lambda>child.
            if dn_external_hash child \<noteq> Some h then map_option Inl (poison_edge cursor (bc_primary c) dx)
            else scan_commitments dx first_new (Suc pos) rest child_id (path @ [child_id])))"

fun dhash_conflict :: "digest_kv_index \<Rightarrow> nat list \<Rightarrow> nat \<Rightarrow> external_block_hash list \<Rightarrow> bool" where
  "dhash_conflict dx path pos [] = False"
| "dhash_conflict dx path pos (h # hs) =
     ((case map_of (dx_by_external_hash dx) h of None \<Rightarrow> False | Some e \<Rightarrow> get path pos \<noteq> Some e)
      \<or> dhash_conflict dx path (Suc pos) hs)"

fun dchecked_sum :: "nat \<Rightarrow> nat list \<Rightarrow> nat option" where
  "dchecked_sum acc [] = Some acc"
| "dchecked_sum acc (x # xs) = (if acc + x \<le> usize_max then dchecked_sum (acc + x) xs else None)"

fun attach_commitments ::
  "nat \<Rightarrow> (block_commitment \<times> external_block_hash \<times> nat) list \<Rightarrow> digest_kv_index \<Rightarrow> (bool \<times> digest_kv_index) option" where
  "attach_commitments cursor [] dx = Some (True, dx)"
| "attach_commitments cursor ((c, h, tokens) # rest) dx =
    Option.bind (dnode dx cursor) (\<lambda>n.
      case map_of (dn_children n) (bc_primary c) of
        Some (Poisoned _) \<Rightarrow> Some (False, dx)
      | entry \<Rightarrow>
          Option.bind (case entry of Some (Unique _ existing) \<Rightarrow> Some (dx, existing) | _ \<Rightarrow> insert_dchild cursor c h tokens dx)
            (\<lambda>(dx1, child_id).
          Option.bind (dnode dx1 child_id) (\<lambda>child.
            let dx2 = put_dnode child_id (Some (child\<lparr>dn_present := True, dn_external_hash := Some h\<rparr>)) dx1
            in attach_commitments child_id rest
                 (dx2\<lparr>dx_by_external_hash := AList.update h child_id (dx_by_external_hash dx2)\<rparr>))))"

definition dstore_parent :: "block_stored \<Rightarrow> digest_kv_index \<Rightarrow> nat option" where
  "dstore_parent event dx = (case parent_block_hash event of
     None \<Rightarrow> Some 0 | Some p \<Rightarrow> map_of (dx_by_external_hash dx) p)"

definition digest_store ::
  "(bytes \<Rightarrow> bytes) \<Rightarrow> block_stored \<Rightarrow> digest_kv_index \<Rightarrow> ((digest_index_error + nat) \<times> digest_kv_index) option" where
  "digest_store sha event dx =
    (if block_size event = 0 \<or> token_ids event = [] \<or> block_hashes event = [] \<or>
        div_ceil (length (token_ids event)) (block_size event) \<noteq> length (block_hashes event)
     then Some (Inl Digest_InconsistentBlockShape, dx)
     else if \<not> valid_external_hashes (block_hashes event) dx then Some (Inl Digest_CapacityExceeded, dx)
     else case dstore_parent event dx of
       None \<Rightarrow> Some (Inl Digest_ParentNotFound, dx)
     | Some parent_id \<Rightarrow>
        if \<not> distinct ((case parent_block_hash event of None \<Rightarrow> [] | Some p \<Rightarrow> [p]) @ block_hashes event)
        then Some (Inl Digest_DuplicateHash, dx)
        else
          let cs = chunks (block_size event) (token_ids event) in
          case commit_chunks sha (dx_digester dx) cs of Inl e \<Rightarrow> Some (Inl e, dx)
          | Inr commitments \<Rightarrow>
             Option.bind (scan_commitments dx (length commitments) 0 (zip commitments (block_hashes event)) parent_id []) (\<lambda>r.
               case r of Inl dx' \<Rightarrow> Some (Inl DigestCollision, dx')
               | Inr (first_new, path) \<Rightarrow>
                  if dhash_conflict dx path 0 (block_hashes event) then Some (Inl DigestCollision, dx)
                  else (case (dchecked_sum 0 (map length (drop first_new cs)),
                              dchecked_sum 0 (map external_hash_len (drop first_new (block_hashes event)))) of
                     (Some new_token_ids, Some new_hash_bytes) \<Rightarrow>
                       if \<not> capacity_left (length commitments - first_new) new_token_ids new_hash_bytes dx
                       then Some (Inl Digest_CapacityExceeded, dx)
                       else map_option (\<lambda>(ok, dx'). (if ok then Inr (length (block_hashes event)) else Inl DigestCollision, dx'))
                         (attach_commitments parent_id (zip commitments (zip (block_hashes event) (map length cs))) dx)
                   | _ \<Rightarrow> Some (Inl Digest_CapacityExceeded, dx))))"

section \<open>Removal\<close>

abbreviation live_dslots :: "digest_kv_index \<Rightarrow> nat" where
  "live_dslots dx \<equiv> length (filter (\<lambda>n. n \<noteq> None) (dx_nodes dx))"

definition unlink_dnode :: "nat \<Rightarrow> digest_node \<Rightarrow> nat \<Rightarrow> primary_commitment \<Rightarrow> digest_kv_index \<Rightarrow> digest_kv_index option" where
  "unlink_dnode node_id n parent_id key dx =
    (let dx1 = put_dnode node_id None dx in
     Option.bind (dnode dx1 parent_id) (\<lambda>p.
       if dx_live_nodes dx = 0 \<or> dx_logical_token_ids dx < dn_logical_token_ids n then None
       else Some ((put_dnode parent_id (Some (p\<lparr>dn_children := AList.delete key (dn_children p)\<rparr>)) dx1)
          \<lparr>dx_live_nodes := dx_live_nodes dx - 1,
           dx_logical_token_ids := dx_logical_token_ids dx - dn_logical_token_ids n,
           dx_external_hash_bytes := dx_external_hash_bytes dx - (case dn_external_hash n of None \<Rightarrow> 0 | Some h \<Rightarrow> external_hash_len h),
           dx_free_nodes := dx_free_nodes dx @ [node_id]\<rparr>)))"

lemma live_dslots_Some:
  "i < length xs \<Longrightarrow> xs ! i \<noteq> None \<Longrightarrow> m \<noteq> None \<Longrightarrow>
    length (filter (\<lambda>n. n \<noteq> None) (xs[i := m])) = length (filter (\<lambda>n. n \<noteq> None) xs)"
  by (induction xs arbitrary: i) (auto split: nat.splits)

lemma live_dslots_None:
  "i < length xs \<Longrightarrow> xs ! i \<noteq> None \<Longrightarrow>
    Suc (length (filter (\<lambda>n. n \<noteq> None) (xs[i := None]))) = length (filter (\<lambda>n. n \<noteq> None) xs)"
  by (induction xs arbitrary: i) (auto split: nat.splits)

lemma unlink_dnode_slots:
  assumes "dnode dx i = Some n" "unlink_dnode i n p key dx = Some dx'"
  shows "live_dslots dx' < live_dslots dx"
proof -
  obtain pn m where pn: "dnode (put_dnode i None dx) p = Some pn" and dx': "dx_nodes dx' = (dx_nodes dx)[i := None, p := Some m]"
    using assms(2) by (auto simp: unlink_dnode_def Let_def put_dnode_def bind_eq_Some_conv split: if_splits)
  have i: "i < length (dx_nodes dx)" "dx_nodes dx ! i \<noteq> None"
    using assms(1) by (auto simp: dnode_def get_def split: if_splits)
  have p: "p < length (dx_nodes dx)" "(dx_nodes dx)[i := None] ! p \<noteq> None"
    using pn by (auto simp: dnode_def get_def put_dnode_def split: if_splits)
  have "live_dslots dx' = length (filter (\<lambda>n. n \<noteq> None) ((dx_nodes dx)[i := None]))"
    unfolding dx' using p by (intro live_dslots_Some) auto
  with live_dslots_None [OF i] show ?thesis by simp
qed

function prune_dnodes :: "nat \<Rightarrow> digest_kv_index \<Rightarrow> digest_kv_index option" where
  "prune_dnodes node_id dx =
    (if node_id = 0 then Some dx
     else case dnode dx node_id of
       None \<Rightarrow> None
     | Some n \<Rightarrow>
        if dn_present n \<or> dn_children n \<noteq> [] then Some dx
        else (case (dn_parent n, dn_block n) of
          (Some parent_id, Some key) \<Rightarrow>
            (case dnode dx parent_id of
               None \<Rightarrow> None
             | Some p \<Rightarrow>
                if map_of (dn_children p) key = Some (Poisoned node_id) then Some dx
                else (case unlink_dnode node_id n parent_id key dx of
                    None \<Rightarrow> None
                  | Some dx' \<Rightarrow> prune_dnodes parent_id dx'))
        | _ \<Rightarrow> None))"
  by pat_completeness auto
termination
  by (relation "measure (\<lambda>(i, dx). live_dslots dx)") (auto dest: unlink_dnode_slots)

declare prune_dnodes.simps [simp del]

fun remove_dhashes :: "external_block_hash list \<Rightarrow> nat \<Rightarrow> digest_kv_index \<Rightarrow> (digest_kv_index \<times> nat) option" where
  "remove_dhashes [] removed dx = Some (dx, removed)"
| "remove_dhashes (h # hs) removed dx =
    (case map_of (dx_by_external_hash dx) h of
       None \<Rightarrow> remove_dhashes hs removed dx
     | Some node_id \<Rightarrow>
        let dx1 = dx\<lparr>dx_by_external_hash := AList.delete h (dx_by_external_hash dx)\<rparr> in
        Option.bind (dnode dx1 node_id) (\<lambda>n.
          if \<not> dn_present n \<or> dn_external_hash n \<noteq> Some h then remove_dhashes hs removed dx1
          else
            Option.bind (prune_dnodes node_id (put_dnode node_id (Some (n\<lparr>dn_present := False\<rparr>)) dx1))
              (\<lambda>dx2. remove_dhashes hs (Suc removed) dx2)))"

definition digest_remove :: "block_removed \<Rightarrow> digest_kv_index \<Rightarrow> (digest_kv_index \<times> nat) option" where
  "digest_remove event dx = remove_dhashes (rm_block_hashes event) 0 dx"

section \<open>Lookup\<close>

fun dexpand ::
  "(bytes \<Rightarrow> bytes) \<Rightarrow> digest_kv_index \<Rightarrow> token_id list \<Rightarrow> digest_node \<Rightarrow> nat \<Rightarrow> nat \<Rightarrow> nat list \<Rightarrow> nat \<Rightarrow> (nat \<times> nat \<times> nat) list
    \<Rightarrow> (digest_index_error + nat \<times> (nat \<times> nat \<times> nat) list) option" where
  "dexpand sha dx toks n offset blocks [] steps stack = Some (Inr (steps, stack))"
| "dexpand sha dx toks n offset blocks (l # ls) steps stack =
    (let steps' = sat_add steps 1 in
     if dl_max_lookup_steps (dx_limits dx) < steps' then Some (Inl Digest_LookupBudgetExceeded)
     else if usize_max < offset + l \<or> length toks < offset + l
     then dexpand sha dx toks n offset blocks ls steps' stack
     else case commit_block sha (dx_digester dx) (take l (drop offset toks)) of
       Inl e \<Rightarrow> Some (Inl e)
     | Inr c \<Rightarrow>
        (case map_of (dn_children n) (bc_primary c) of
           Some (Unique guard child_id) \<Rightarrow>
             if guard = bc_guard c then
               Option.bind (dnode dx child_id) (\<lambda>child.
                 dexpand sha dx toks n offset blocks ls steps'
                   (if dn_present child then stack @ [(child_id, offset + l, blocks + 1)] else stack))
             else dexpand sha dx toks n offset blocks ls steps' stack
         | _ \<Rightarrow> dexpand sha dx toks n offset blocks ls steps' stack))"

definition dbetter :: "digest_match \<Rightarrow> nat \<Rightarrow> nat \<Rightarrow> digest_match" where
  "dbetter best offset blocks =
     (if dm_token_ids best < offset \<or> (offset = dm_token_ids best \<and> dm_blocks best < blocks)
      then \<lparr>dm_blocks = blocks, dm_token_ids = offset\<rparr> else best)"

partial_function (option) dlookup_loop ::
  "(bytes \<Rightarrow> bytes) \<Rightarrow> digest_kv_index \<Rightarrow> token_id list \<Rightarrow> (nat \<times> nat \<times> nat) list \<Rightarrow> nat \<Rightarrow> digest_match
    \<Rightarrow> (digest_index_error + digest_match) option" where
  "dlookup_loop sha dx toks stack steps best =
    (if stack = [] then Some (Inr best)
     else
       let (node_id, offset, blocks) = last stack;
           best' = dbetter best offset blocks
       in Option.bind (dnode dx node_id) (\<lambda>n.
          Option.bind (dexpand sha dx toks n offset blocks (dn_child_lengths n) steps (butlast stack)) (\<lambda>r.
            case r of Inl e \<Rightarrow> Some (Inl e)
            | Inr (steps', stack') \<Rightarrow> dlookup_loop sha dx toks stack' steps' best')))"

definition digest_find_longest ::
  "(bytes \<Rightarrow> bytes) \<Rightarrow> token_id list \<Rightarrow> digest_kv_index \<Rightarrow> (digest_index_error + digest_match) option" where
  "digest_find_longest sha toks dx = dlookup_loop sha dx toks [(0, 0, 0)] 0 \<lparr>dm_blocks = 0, dm_token_ids = 0\<rparr>"

end
