(* ===== verification/Digest_Refines.thy ===== *)
theory Digest_Refines
  imports Digest_Index Exact_Lookup
begin

text \<open>
  The compact index against the exact one. While no two different blocks have the same compact key, the compact index
  is the exact index with every block replaced by its commitment: it stores, removes and finds exactly what the exact
  index of \<^verbatim>\<open>src/src/exact_index.rs\<close> stores, removes and finds.
\<close>

section \<open>The abstraction\<close>

definition chunk_commitment :: "(bytes \<Rightarrow> bytes) \<Rightarrow> block_digester \<Rightarrow> token_id list \<Rightarrow> block_commitment" where
  "chunk_commitment sha d c = projr (commit sha d c)"

abbreviation key_of :: "(bytes \<Rightarrow> bytes) \<Rightarrow> block_digester \<Rightarrow> token_id list \<Rightarrow> primary_commitment" where
  "key_of sha d c \<equiv> bc_primary (chunk_commitment sha d c)"

definition entry_of :: "(bytes \<Rightarrow> bytes) \<Rightarrow> block_digester \<Rightarrow> token_id list \<times> nat \<Rightarrow> primary_commitment \<times> child_entry" where
  "entry_of sha d ci = (key_of sha d (fst ci), Unique (bc_guard (chunk_commitment sha d (fst ci))) (snd ci))"

definition dnode_of :: "(bytes \<Rightarrow> bytes) \<Rightarrow> block_digester \<Rightarrow> node \<Rightarrow> digest_node" where
  "dnode_of sha d n = \<lparr>dn_parent = parent n, dn_block = (if parent n = None then None else Some (key_of sha d (block n))),
     dn_children = map (entry_of sha d) (children n), dn_child_lengths = child_lengths n,
     dn_external_hash = external_hash n, dn_present = present n, dn_logical_token_ids = length (block n)\<rparr>"

text \<open>No two blocks of \<open>S\<close> have the same compact key.\<close>

definition collision_free :: "(bytes \<Rightarrow> bytes) \<Rightarrow> block_digester \<Rightarrow> token_id list set \<Rightarrow> bool" where
  "collision_free sha d S \<longleftrightarrow> inj_on (key_of sha d) S \<and> (\<forall>c \<in> S. length c < 2 ^ 32)"

definition keys_in :: "token_id list set \<Rightarrow> node \<Rightarrow> bool" where
  "keys_in S n \<longleftrightarrow> fst ` set (children n) \<subseteq> S \<and> (parent n \<noteq> None \<longrightarrow> block n \<in> S)"

definition node_keys :: "exact_kv_index \<Rightarrow> token_id list set \<Rightarrow> bool" where
  "node_keys ix S \<longleftrightarrow> (\<forall>i n. node_at ix i = Some n \<longrightarrow> keys_in S n)"

definition compacts :: "(bytes \<Rightarrow> bytes) \<Rightarrow> token_id list set \<Rightarrow> exact_kv_index \<Rightarrow> digest_kv_index \<Rightarrow> bool" where
  "compacts sha S ix dx \<longleftrightarrow> collision_free sha (dx_digester dx) S \<and> node_keys ix S \<and>
     dx_nodes dx = map (map_option (dnode_of sha (dx_digester dx))) (nodes ix) \<and>
     dx_free_nodes dx = free_nodes ix \<and> dx_by_external_hash dx = by_external_hash ix \<and>
     dx_live_nodes dx = live_nodes ix \<and> dx_logical_token_ids dx = resident_token_ids ix \<and> dx_poisoned_edges dx = 0 \<and>
     dl_max_nodes (dx_limits dx) = max_nodes (limits ix) \<and>
     dl_max_logical_token_ids (dx_limits dx) = max_token_ids (limits ix) \<and>
     dl_max_lookup_steps (dx_limits dx) = max_lookup_steps (limits ix)"

lemma dnode_of_simps [simp]:
  "dn_parent (dnode_of sha d n) = parent n" "dn_children (dnode_of sha d n) = map (entry_of sha d) (children n)"
  "dn_child_lengths (dnode_of sha d n) = child_lengths n" "dn_external_hash (dnode_of sha d n) = external_hash n"
  "dn_present (dnode_of sha d n) = present n" "dn_logical_token_ids (dnode_of sha d n) = length (block n)"
  by (simp_all add: dnode_of_def)

section \<open>Children\<close>

lemma commit_block_is: "length c < 2 ^ 32 \<Longrightarrow> commit_block sha d c = Inr (chunk_commitment sha d c)"
  by (simp add: commit_block_def chunk_commitment_def commit_def Let_def)

lemma commit_chunks_is: "\<forall>c \<in> set cs. length c < 2 ^ 32 \<Longrightarrow> commit_chunks sha d cs = Inr (map (chunk_commitment sha d) cs)"
  by (induction cs) (simp_all add: commit_block_is)

lemma commitment_length: "length c < 2 ^ 32 \<Longrightarrow> unat (pc_token_count (key_of sha d c)) = length c"
  by (rule commit_length [of sha d]) (simp add: chunk_commitment_def commit_def Let_def)

lemma child_lookup:
  assumes "inj_on (key_of sha d) S" "fst ` set ch \<subseteq> S" "c \<in> S"
  shows "map_of (map (entry_of sha d) ch) (key_of sha d c) =
    map_option (Unique (bc_guard (chunk_commitment sha d c))) (map_of ch c)"
  using assms(2) by (induction ch) (auto simp: entry_of_def inj_on_eq_iff [OF assms(1)] assms(3) dest: inj_onD [OF assms(1)])

lemma child_update:
  assumes "inj_on (key_of sha d) S" "fst ` set ch \<subseteq> S" "c \<in> S"
  shows "AList.update (key_of sha d c) (Unique (bc_guard (chunk_commitment sha d c)) i) (map (entry_of sha d) ch) =
    map (entry_of sha d) (AList.update c i ch)"
  using assms(2) by (induction ch) (auto simp: entry_of_def inj_on_eq_iff [OF assms(1)] assms(3))

lemma child_delete:
  assumes "inj_on (key_of sha d) S" "fst ` set ch \<subseteq> S" "c \<in> S"
  shows "AList.delete (key_of sha d c) (map (entry_of sha d) ch) = map (entry_of sha d) (AList.delete c ch)"
  using assms(2) by (induction ch) (auto simp: entry_of_def inj_on_eq_iff [OF assms(1)] assms(3) dest: inj_onD [OF assms(1)])

section \<open>The arena\<close>

lemma compact_dnode: "compacts sha S ix dx \<Longrightarrow> dnode dx i = map_option (dnode_of sha (dx_digester dx)) (node_at ix i)"
  by (auto simp: compacts_def dnode_def node_at_def get_def split: option.split)

lemma compact_keys: "compacts sha S ix dx \<Longrightarrow> node_at ix i = Some n \<Longrightarrow> keys_in S n"
  by (simp add: compacts_def node_keys_def)

lemma compact_inj: "compacts sha S ix dx \<Longrightarrow> inj_on (key_of sha (dx_digester dx)) S"
  by (simp add: compacts_def collision_free_def)

lemma compact_short: "compacts sha S ix dx \<Longrightarrow> c \<in> S \<Longrightarrow> length c < 2 ^ 32"
  by (simp add: compacts_def collision_free_def)

lemma node_at_put_any: "node_at (put_node i n ix) j = (if j = i \<and> i < length (nodes ix) then n else node_at ix j)"
  by (auto simp: node_at_def put_node_def get_def nth_list_update)

lemma node_keys_put: "node_keys ix S \<Longrightarrow> (\<And>m. n = Some m \<Longrightarrow> keys_in S m) \<Longrightarrow> node_keys (put_node i n ix) S"
  by (auto simp: node_keys_def node_at_put_any split: if_splits)

lemma compact_put:
  assumes "compacts sha S ix dx" "\<And>m. n = Some m \<Longrightarrow> keys_in S m"
  shows "compacts sha S (put_node i n ix) (put_dnode i (map_option (dnode_of sha (dx_digester dx)) n) dx)"
proof -
  have "node_keys (put_node i n ix) S" using assms(1) node_keys_put [OF _ assms(2)] by (simp add: compacts_def)
  then show ?thesis using assms(1) unfolding compacts_def by (simp add: put_dnode_def put_node_def map_update)
qed

lemma put_dnode_fields [simp]:
  "dx_digester (put_dnode i n dx) = dx_digester dx" "dx_limits (put_dnode i n dx) = dx_limits dx"
  "dx_free_nodes (put_dnode i n dx) = dx_free_nodes dx" "dx_by_external_hash (put_dnode i n dx) = dx_by_external_hash dx"
  "dx_live_nodes (put_dnode i n dx) = dx_live_nodes dx" "dx_logical_token_ids (put_dnode i n dx) = dx_logical_token_ids dx"
  by (simp_all add: put_dnode_def)

text \<open>The counters, the free list and the hash map move together.\<close>

lemma compact_counters:
  "compacts sha S ix dx \<Longrightarrow> compacts sha S
     (ix\<lparr>live_nodes := a, resident_token_ids := b\<rparr>) (dx\<lparr>dx_live_nodes := a, dx_logical_token_ids := b, dx_external_hash_bytes := c\<rparr>)"
  "compacts sha S ix dx \<Longrightarrow> compacts sha S (ix\<lparr>free_nodes := fs\<rparr>) (dx\<lparr>dx_free_nodes := fs\<rparr>)"
  "compacts sha S ix dx \<Longrightarrow> compacts sha S (ix\<lparr>by_external_hash := hs\<rparr>) (dx\<lparr>dx_by_external_hash := hs\<rparr>)"
  by (simp_all add: compacts_def node_keys_def node_at_def)

lemma compact_allocate:
  assumes sim: "compacts sha S ix dx" and m: "keys_in S m" and al: "allocate_node m ix = Some (ix', i)"
  shows "\<exists>dx'. allocate_dnode (dnode_of sha (dx_digester dx) m) dx = Some (dx', i) \<and> compacts sha S ix' dx' \<and>
    dx_digester dx' = dx_digester dx \<and> dx_external_hash_bytes dx' = dx_external_hash_bytes dx"
proof (cases "free_nodes ix = []")
  case True
  then have ix': "ix' = ix\<lparr>nodes := nodes ix @ [Some m]\<rparr>" "i = length (nodes ix)" using al by (simp_all add: allocate_node_def)
  let ?dx = "dx\<lparr>dx_nodes := dx_nodes dx @ [Some (dnode_of sha (dx_digester dx) m)]\<rparr>"
  have "node_keys ix' S" using sim m by (auto simp: compacts_def node_keys_def node_at_def get_def nth_append ix' split: if_splits)
  then have "compacts sha S ix' ?dx" using sim by (simp add: compacts_def ix')
  moreover have "allocate_dnode (dnode_of sha (dx_digester dx) m) dx = Some (?dx, i)"
    using sim True ix'(2) by (simp add: allocate_dnode_def compacts_def)
  ultimately show ?thesis by auto
next
  case False
  let ?ix = "ix\<lparr>free_nodes := butlast (free_nodes ix)\<rparr>" and ?dx = "dx\<lparr>dx_free_nodes := butlast (free_nodes ix)\<rparr>"
  have ix': "i = last (free_nodes ix)" "i < length (nodes ix)" "ix' = put_node i (Some m) ?ix"
    using False al by (auto simp: allocate_node_def Let_def split: if_splits)
  have "compacts sha S ix' (put_dnode i (map_option (dnode_of sha (dx_digester ?dx)) (Some m)) ?dx)"
    unfolding ix'(3) by (rule compact_put [OF compact_counters(2) [OF sim]]) (use m in simp)
  moreover have "allocate_dnode (dnode_of sha (dx_digester dx) m) dx = Some (put_dnode i (Some (dnode_of sha (dx_digester dx) m)) ?dx, i)"
    using sim False ix' by (simp add: allocate_dnode_def compacts_def Let_def)
  ultimately show ?thesis by (auto simp: put_dnode_def)
qed

section \<open>Storing\<close>

lemma add_length_same: "add_child_length = add_length"
  by (simp add: fun_eq_iff add_child_length_def add_length_def)

lemma compact_insert:
  assumes sim: "compacts sha S ix dx" and c: "c \<in> S" and ins: "insert_child pid c h ix = Some (ix', i)"
  shows "\<exists>dx'. insert_dchild pid (chunk_commitment sha (dx_digester dx) c) h (length c) dx = Some (dx', i) \<and> compacts sha S ix' dx' \<and>
    dx_digester dx' = dx_digester dx"
proof -
  let ?d = "dx_digester dx"
  let ?m = "\<lparr>parent = Some pid, block = c, children = [], child_lengths = [], external_hash = Some h, present = True\<rparr>"
  obtain ix1 p where al: "allocate_node ?m ix = Some (ix1, i)" and p: "node_at ix1 pid = Some p"
    and ix': "ix' = (put_node pid (Some (p\<lparr>children := AList.update c i (children p),
        child_lengths := add_length (length c) (child_lengths p)\<rparr>)) ix1)
        \<lparr>live_nodes := live_nodes ix1 + 1, resident_token_ids := resident_token_ids ix1 + length c\<rparr>"
    using ins by (auto simp: insert_child_def bind_eq_Some_conv)
  have "keys_in S ?m" using c by (simp add: keys_in_def)
  from compact_allocate [OF sim this al] obtain dx1 where dx1: "allocate_dnode (dnode_of sha ?d ?m) dx = Some (dx1, i)"
    "compacts sha S ix1 dx1" "dx_digester dx1 = ?d" "dx_external_hash_bytes dx1 = dx_external_hash_bytes dx" by blast
  let ?p = "p\<lparr>children := AList.update c i (children p), child_lengths := add_length (length c) (child_lengths p)\<rparr>"
  have kp: "keys_in S p" by (rule compact_keys [OF dx1(2) p])
  have "keys_in S ?p" using kp c by (auto simp: keys_in_def AList.dom_update)
  have dp: "dnode_of sha ?d ?p = (dnode_of sha ?d p)\<lparr>dn_children := AList.update (key_of sha ?d c) (Unique (bc_guard (chunk_commitment sha ?d c)) i)
      (map (entry_of sha ?d) (children p)), dn_child_lengths := add_child_length (unat (pc_token_count (key_of sha ?d c))) (child_lengths p)\<rparr>"
    using child_update [OF compact_inj [OF sim] _ c, of "children p" i] kp commitment_length [OF compact_short [OF sim c], of sha ?d]
    by (simp add: dnode_of_def keys_in_def add_length_same)
  have "compacts sha S (put_node pid (Some ?p) ix1) (put_dnode pid (Some (dnode_of sha ?d ?p)) dx1)"
    using compact_put [OF dx1(2), of "Some ?p" pid] \<open>keys_in S ?p\<close> dx1(3) by simp
  from compact_counters(1) [OF this] have "compacts sha S ix' ((put_dnode pid (Some (dnode_of sha ?d ?p)) dx1)
      \<lparr>dx_live_nodes := dx_live_nodes dx1 + 1, dx_logical_token_ids := dx_logical_token_ids dx1 + length c,
       dx_external_hash_bytes := dx_external_hash_bytes dx1 + external_hash_len h\<rparr>)"
    using dx1(2) unfolding ix' by (simp only: compacts_def [of sha S ix1 dx1])
  moreover have m: "dnode_of sha ?d ?m = \<lparr>dn_parent = Some pid, dn_block = Some (key_of sha ?d c), dn_children = [],
        dn_child_lengths = [], dn_external_hash = Some h, dn_present = True, dn_logical_token_ids = length c\<rparr>"
    by (simp add: dnode_of_def)
  ultimately show ?thesis
    using dx1(1,3) p compact_dnode [OF dx1(2), of pid] by (simp add: insert_dchild_def dp)
qed

lemma compact_child:
  assumes "compacts sha S ix dx" "node_at ix i = Some n" "c \<in> S"
  shows "map_of (dn_children (dnode_of sha (dx_digester dx) n)) (key_of sha (dx_digester dx) c) =
    map_option (Unique (bc_guard (chunk_commitment sha (dx_digester dx) c))) (map_of (children n) c)"
  using child_lookup [OF compact_inj [OF assms(1)] _ assms(3)] compact_keys [OF assms(1,2)] by (simp add: keys_in_def)

lemma compact_mark:
  assumes sim: "compacts sha S ix dx" and n: "node_at ix i = Some n" and k: "keys_in S m"
    and m: "dnode_of sha (dx_digester dx) m = dm"
  shows "compacts sha S ((put_node i (Some m) ix)\<lparr>by_external_hash := hs\<rparr>) ((put_dnode i (Some dm) dx)\<lparr>dx_by_external_hash := hs\<rparr>)"
  using compact_counters(3) [OF compact_put [OF sim, of "Some m" i]] k m by simp

lemma compact_attach:
  assumes "compacts sha S ix dx" "\<forall>(c, h) \<in> set items. c \<in> S" "attach_path cur items ix = Some ix'"
  shows "\<exists>dx'. attach_commitments cur (map (\<lambda>(c, h). (chunk_commitment sha (dx_digester dx) c, h, length c)) items) dx = Some (True, dx') \<and>
    compacts sha S ix' dx' \<and> dx_digester dx' = dx_digester dx"
  using assms
proof (induction items arbitrary: cur ix dx)
  case (Cons it items)
  obtain c h where it: "it = (c, h)" by force
  let ?d = "dx_digester dx"
  have c: "c \<in> S" using Cons.prems(2) it by simp
  obtain n ix1 child_id child where n: "node_at ix cur = Some n"
    and st: "(case map_of (children n) c of Some existing \<Rightarrow> Some (ix, existing) | None \<Rightarrow> insert_child cur c h ix) = Some (ix1, child_id)"
    and child: "node_at ix1 child_id = Some child"
    and rest: "attach_path child_id items ((put_node child_id (Some (child\<lparr>present := True, external_hash := Some h\<rparr>)) ix1)
      \<lparr>by_external_hash := AList.update h child_id (by_external_hash ix1)\<rparr>) = Some ix'"
    using Cons.prems(3) it by (auto simp: attach_one_def bind_eq_Some_conv Let_def)
  obtain dx1 where dx1: "(case map_of (children n) c of Some existing \<Rightarrow> Some (dx, existing)
       | None \<Rightarrow> insert_dchild cur (chunk_commitment sha ?d c) h (length c) dx) = Some (dx1, child_id)"
      "compacts sha S ix1 dx1" "dx_digester dx1 = ?d"
    using st Cons.prems(1) compact_insert [OF Cons.prems(1) c, of cur h ix1 child_id] by (cases "map_of (children n) c") auto
  let ?dx2 = "(put_dnode child_id (Some ((dnode_of sha ?d child)\<lparr>dn_present := True, dn_external_hash := Some h\<rparr>)) dx1)
      \<lparr>dx_by_external_hash := AList.update h child_id (dx_by_external_hash dx1)\<rparr>"
  have "dx_by_external_hash dx1 = by_external_hash ix1" using dx1(2) by (simp add: compacts_def)
  then have sim2: "compacts sha S ((put_node child_id (Some (child\<lparr>present := True, external_hash := Some h\<rparr>)) ix1)
      \<lparr>by_external_hash := AList.update h child_id (by_external_hash ix1)\<rparr>) ?dx2"
    using compact_mark [OF dx1(2) child, of "child\<lparr>present := True, external_hash := Some h\<rparr>"] compact_keys [OF dx1(2) child]
    by (simp add: dx1(3) keys_in_def dnode_of_def)
  have d2: "dx_digester ?dx2 = ?d" using dx1(3) by simp
  obtain dx' where dx': "attach_commitments child_id (map (\<lambda>(c, h). (chunk_commitment sha ?d c, h, length c)) items) ?dx2 = Some (True, dx')"
      "compacts sha S ix' dx'" "dx_digester dx' = ?d"
    using Cons.IH [OF sim2 _ rest, unfolded d2] Cons.prems(2) by auto
  have nodes: "dnode dx cur = Some (dnode_of sha ?d n)" "dnode dx1 child_id = Some (dnode_of sha ?d child)"
    using compact_dnode [OF Cons.prems(1), of cur] compact_dnode [OF dx1(2), of child_id] n child dx1(3) by simp_all
  have "attach_commitments cur (map (\<lambda>(c, h). (chunk_commitment sha ?d c, h, length c)) (it # items)) dx = Some (True, dx')"
    using dx'(1) dx1(1) nodes compact_child [OF Cons.prems(1) n c] it
    by (cases "map_of (children n) c") (simp_all add: Let_def)
  then show ?case using dx'(2,3) by blast
qed simp

lemma scan_extends: "scan_commitments dx fn pos items cur path = Some (Inr (k, path')) \<Longrightarrow> \<exists>more. path' = path @ more"
proof (induction items arbitrary: pos cur path)
  case (Cons it items)
  obtain c h where it: "it = (c, h)" by force
  obtain n where n: "dnode dx cur = Some n" using Cons.prems it by (auto simp: bind_eq_Some_conv)
  have "path' = path \<or> (\<exists>pos' child_id. scan_commitments dx fn pos' items child_id (path @ [child_id]) = Some (Inr (k, path')))"
  proof (cases "map_of (dn_children n) (bc_primary c)")
    case (Some entry)
    then show ?thesis using Cons.prems n it by (cases entry) (auto simp: bind_eq_Some_conv split: if_splits)
  qed (use Cons.prems n it in simp)
  then show ?case using Cons.IH by fastforce
qed simp

lemma compact_scan:
  assumes sim: "compacts sha S ix dx" and S: "\<forall>(c, h) \<in> set items. c \<in> S"
  shows "scan_path ix fn pos items cur path = Some (Inr r) \<Longrightarrow>
    scan_commitments dx fn pos (map (\<lambda>(c, h). (chunk_commitment sha (dx_digester dx) c, h)) items) cur path = Some (Inr r)"
  using S
proof (induction items arbitrary: pos cur path)
  case (Cons it items)
  obtain c h where it: "it = (c, h)" by force
  have c: "c \<in> S" using Cons.prems(2) it by simp
  obtain n where n: "node_at ix cur = Some n" using Cons.prems(1) it by (auto simp: bind_eq_Some_conv)
  note lk = compact_child [OF sim n c] and nd = compact_dnode [OF sim]
  show ?case
  proof (cases "map_of (children n) c")
    case None
    then show ?thesis using Cons.prems(1) n lk nd [of cur] it by simp
  next
    case (Some child_id)
    then obtain child where child: "node_at ix child_id = Some child" "external_hash child = Some h"
        and rest: "scan_path ix fn (Suc pos) items child_id (path @ [child_id]) = Some (Inr r)"
      using Cons.prems(1) n it by (auto simp: bind_eq_Some_conv split: if_splits)
    have "scan_commitments dx fn (Suc pos) (map (\<lambda>(c, h). (chunk_commitment sha (dx_digester dx) c, h)) items) child_id (path @ [child_id]) = Some (Inr r)"
      using Cons.IH [OF rest] Cons.prems(2) by simp
    then show ?thesis using Some n child lk nd [of cur] nd [of child_id] it by simp
  qed
qed simp

lemma dhash_conflict_same: "compacts sha S ix dx \<Longrightarrow> dhash_conflict dx path pos hs = hash_conflict ix path pos hs"
  by (induction hs arbitrary: pos) (simp_all add: compacts_def)

lemma compact_scan_back:
  assumes sim: "compacts sha S ix dx" and S: "\<forall>(c, h) \<in> set items. c \<in> S"
  shows "scan_commitments dx fn pos (map (\<lambda>(c, h). (chunk_commitment sha (dx_digester dx) c, h)) items) cur path = Some (Inr (k, path')) \<Longrightarrow>
    pos = length path \<Longrightarrow> \<not> hash_conflict ix path' pos (map snd items) \<Longrightarrow> scan_path ix fn pos items cur path = Some (Inr (k, path'))"
  using S
proof (induction items arbitrary: pos cur path)
  case (Cons it items)
  obtain c h where it: "it = (c, h)" by force
  have c: "c \<in> S" using Cons.prems(4) it by simp
  obtain n where n: "node_at ix cur = Some n"
    using Cons.prems(1) it compact_dnode [OF sim, of cur] by (auto simp: bind_eq_Some_conv)
  note lk = compact_child [OF sim n c] and nd = compact_dnode [OF sim]
  show ?case
  proof (cases "map_of (children n) c")
    case None
    then show ?thesis using Cons.prems(1) n lk nd [of cur] it by simp
  next
    case (Some child_id)
    then obtain child where child: "node_at ix child_id = Some child" "external_hash child = Some h"
        and rest: "scan_commitments dx fn (Suc pos) (map (\<lambda>(c, h). (chunk_commitment sha (dx_digester dx) c, h)) items) child_id
          (path @ [child_id]) = Some (Inr (k, path'))"
      using Cons.prems(1) n lk nd [of cur] nd [of child_id] it by (auto simp: bind_eq_Some_conv split: if_splits)
    obtain more where "path' = (path @ [child_id]) @ more" using scan_extends [OF rest] by blast
    then have "get path' pos = Some child_id" using Cons.prems(2) by (simp add: get_def nth_append)
    then have "\<not> (case hmap ix h of None \<Rightarrow> False | Some e \<Rightarrow> e \<noteq> child_id)" using Cons.prems(3) it by (auto split: option.splits)
    then show ?thesis using Cons.IH [OF rest] Cons.prems Some n child it by (simp split: option.splits)
  qed
qed simp

lemma dchecked_sum_same: "dchecked_sum = checked_sum"
proof (intro ext)
  show "dchecked_sum acc xs = checked_sum acc xs" for acc xs by (induction xs arbitrary: acc) simp_all
qed

lemma set_event_items: "\<forall>(c, h) \<in> set (zip (chunks (block_size event) (token_ids event)) hs). c \<in> S"
  if "set (chunks (block_size event) (token_ids event)) \<subseteq> S"
  using that by (auto dest: set_zip_leftD)

lemma zip_commitments:
  "zip (map f cs) hs = map (\<lambda>(c, h). (f c, h)) (zip cs hs)"
  "zip (map f cs) (zip hs (map length cs)) = map (\<lambda>(c, h). (f c, h, length c)) (zip cs hs)"
  by (induction cs arbitrary: hs; auto simp: zip_Cons1 split: list.splits)+

lemma digest_store_back:
  assumes sim: "compacts sha S ix dx" and wf: "index_wf ix" and S: "set (chunks (block_size event) (token_ids event)) \<subseteq> S"
    and st: "digest_store sha event dx = Some (Inr k, dx')"
  shows "\<exists>ix'. index_store event ix = Some (Inr (ix', k)) \<and> compacts sha S ix' dx'"
proof -
  let ?cs = "chunks (block_size event) (token_ids event)" and ?d = "dx_digester dx"
  have com: "commit_chunks sha ?d ?cs = Inr (map (chunk_commitment sha ?d) ?cs)"
    using S compact_short [OF sim] by (intro commit_chunks_is) blast
  have par: "dstore_parent event dx = store_parent ix event"
    using sim by (simp add: dstore_parent_def store_parent_def compacts_def root_node_def split: option.split)
  note items = set_event_items [OF S, of "block_hashes event"]
  obtain pid fn path new_ids where shape: "\<not> (block_size event = 0 \<or> token_ids event = [] \<or> block_hashes event = [] \<or>
        div_ceil (length (token_ids event)) (block_size event) \<noteq> length (block_hashes event))"
    and pid: "store_parent ix event = Some pid"
    and dist: "distinct ((case parent_block_hash event of None \<Rightarrow> [] | Some p \<Rightarrow> [p]) @ block_hashes event)"
    and scan: "scan_commitments dx (length ?cs) 0 (zip (map (chunk_commitment sha ?d) ?cs) (block_hashes event)) pid [] = Some (Inr (fn, path))"
    and nc: "\<not> dhash_conflict dx path 0 (block_hashes event)"
    and sum: "dchecked_sum 0 (map length (drop fn ?cs)) = Some new_ids"
    and cap: "sat_add (dx_live_nodes dx) (length ?cs - fn) \<le> dl_max_nodes (dx_limits dx)"
      "sat_add (dx_logical_token_ids dx) new_ids \<le> dl_max_logical_token_ids (dx_limits dx)"
    and att: "attach_commitments pid (zip (map (chunk_commitment sha ?d) ?cs) (zip (block_hashes event) (map length ?cs))) dx = Some (True, dx')"
    and k: "k = length (block_hashes event)"
    using st by (auto simp: digest_store_def com par Let_def bind_eq_Some_conv capacity_left_def not_le
        split: if_splits option.splits sum.splits)
  have len: "length ?cs = length (block_hashes event)" using shape by (simp add: length_chunks)
  have "map snd (zip ?cs (block_hashes event)) = block_hashes event" using len by simp
  then have "scan_path ix (length ?cs) 0 (zip ?cs (block_hashes event)) pid [] = Some (Inr (fn, path))"
    using compact_scan_back [OF sim items, of "length ?cs" 0 pid "[]" fn path] scan nc
    by (simp add: zip_commitments(1) dhash_conflict_same [OF sim])
  then have run: "index_store event ix = map_option (\<lambda>ix'. Inr (ix', length (block_hashes event)))
      (attach_path pid (zip ?cs (block_hashes event)) ix)"
    using shape pid dist nc sum cap sim
    by (simp add: index_store_def Let_def dhash_conflict_same [OF sim] dchecked_sum_same compacts_def not_le)
  obtain ix' where ix': "attach_path pid (zip ?cs (block_hashes event)) ix = Some ix'"
    using index_store_ok [OF wf, of event] run by auto
  then show ?thesis using compact_attach [OF sim items ix'] att run k by (auto simp: zip_commitments(2))
qed

lemma digest_store_forward:
  assumes sim: "compacts sha S ix dx" and S: "set (chunks (block_size event) (token_ids event)) \<subseteq> S"
    and st: "index_store event ix = Some (Inr (ix', k))"
  shows "digest_store sha event dx = Some (Inl Digest_CapacityExceeded, dx) \<or>
    (\<exists>dx'. digest_store sha event dx = Some (Inr k, dx') \<and> compacts sha S ix' dx')"
proof -
  let ?cs = "chunks (block_size event) (token_ids event)" and ?d = "dx_digester dx"
  have com: "commit_chunks sha ?d ?cs = Inr (map (chunk_commitment sha ?d) ?cs)"
    using S compact_short [OF sim] by (intro commit_chunks_is) blast
  have par: "dstore_parent event dx = store_parent ix event"
    using sim by (simp add: dstore_parent_def store_parent_def compacts_def root_node_def split: option.split)
  note items = set_event_items [OF S, of "block_hashes event"]
  obtain pid fn path new_ids where shape: "\<not> (block_size event = 0 \<or> token_ids event = [] \<or> block_hashes event = [] \<or>
        div_ceil (length (token_ids event)) (block_size event) \<noteq> length (block_hashes event))"
    and pid: "store_parent ix event = Some pid"
    and dist: "distinct ((case parent_block_hash event of None \<Rightarrow> [] | Some p \<Rightarrow> [p]) @ block_hashes event)"
    and scan: "scan_path ix (length ?cs) 0 (zip ?cs (block_hashes event)) pid [] = Some (Inr (fn, path))"
    and nc: "\<not> hash_conflict ix path 0 (block_hashes event)"
    and sum: "checked_sum 0 (map length (drop fn ?cs)) = Some new_ids"
    and att: "attach_path pid (zip ?cs (block_hashes event)) ix = Some ix'"
    and k: "k = length (block_hashes event)"
    using st by (auto simp: index_store_def Let_def bind_eq_Some_conv split: if_splits option.splits sum.splits)
  obtain dx' where dx': "attach_commitments pid (zip (map (chunk_commitment sha ?d) ?cs) (zip (block_hashes event) (map length ?cs))) dx =
      Some (True, dx')" "compacts sha S ix' dx'"
    using compact_attach [OF sim items att] by (auto simp: zip_commitments(2))
  have "scan_commitments dx (length ?cs) 0 (zip (map (chunk_commitment sha ?d) ?cs) (block_hashes event)) pid [] = Some (Inr (fn, path))"
    using compact_scan [OF sim items scan] by (simp add: zip_commitments(1))
  then show ?thesis using shape pid dist nc sum dx' k
    by (auto simp: digest_store_def Let_def com par dhash_conflict_same [OF sim] dchecked_sum_same split: option.split)
qed

lemma digest_store_orphan:
  assumes sim: "compacts sha S ix dx" and S: "set (chunks (block_size event) (token_ids event)) \<subseteq> S"
    and st: "digest_store sha event dx = Some (Inl Digest_ParentNotFound, dx')"
  shows "index_store event ix = Some (Inl ParentNotFound) \<and> dx' = dx"
proof -
  have com: "commit_chunks sha (dx_digester dx) (chunks (block_size event) (token_ids event)) =
      Inr (map (chunk_commitment sha (dx_digester dx)) (chunks (block_size event) (token_ids event)))"
    using S compact_short [OF sim] by (intro commit_chunks_is) blast
  have par: "dstore_parent event dx = store_parent ix event"
    using sim by (simp add: dstore_parent_def store_parent_def compacts_def root_node_def split: option.split)
  show ?thesis using st
    by (auto simp: digest_store_def index_store_def com par Let_def bind_eq_Some_conv split: if_splits option.splits sum.splits)
qed

section \<open>Removing\<close>

lemma compact_unlink:
  assumes sim: "compacts sha S ix dx" and n: "node_at ix i = Some n" and un: "unlink_node i ix = Some (ix', pid)"
  shows "\<exists>p dx'. parent n = Some pid \<and> node_at ix pid = Some p \<and> compacts sha S ix' dx' \<and> dx_digester dx' = dx_digester dx \<and>
    unlink_dnode i (dnode_of sha (dx_digester dx) n) pid (key_of sha (dx_digester dx) (block n)) dx = Some dx'"
proof -
  let ?d = "dx_digester dx"
  obtain q where par: "parent n = Some pid" and q: "node_at (put_node i None ix) pid = Some q"
    and ok: "live_nodes ix \<noteq> 0" "length (block n) \<le> resident_token_ids ix"
    and ix': "ix' = (put_node pid (Some (q\<lparr>children := AList.delete (block n) (children q)\<rparr>)) (put_node i None ix))
        \<lparr>live_nodes := live_nodes ix - 1, resident_token_ids := resident_token_ids ix - length (block n),
         free_nodes := free_nodes ix @ [i]\<rparr>"
    using un n by (auto simp: unlink_node_def Let_def bind_eq_Some_conv split: if_splits)
  have p: "node_at ix pid = Some q" using q by (auto simp: node_at_put_any split: if_splits)
  have kq: "keys_in S q" by (rule compact_keys [OF sim p])
  have bl: "block n \<in> S" using compact_keys [OF sim n] par by (simp add: keys_in_def)
  let ?q = "q\<lparr>children := AList.delete (block n) (children q)\<rparr>"
  have kq': "keys_in S ?q" using kq by (auto simp: keys_in_def AList.delete_eq)
  have dq: "dnode_of sha ?d ?q = (dnode_of sha ?d q)\<lparr>dn_children := AList.delete (key_of sha ?d (block n)) (dn_children (dnode_of sha ?d q))\<rparr>"
    using child_delete [OF compact_inj [OF sim] _ bl, of "children q"] kq by (simp add: dnode_of_def keys_in_def)
  have sim1: "compacts sha S (put_node i None ix) (put_dnode i None dx)"
    using compact_put [OF sim, of None i] by simp
  have sim2: "compacts sha S (put_node pid (Some ?q) (put_node i None ix)) (put_dnode pid (Some (dnode_of sha ?d ?q)) (put_dnode i None dx))"
    using compact_put [OF sim1, of "Some ?q" pid] kq' by simp
  have "dnode (put_dnode i None dx) pid = Some (dnode_of sha ?d q)" using compact_dnode [OF sim1, of pid] q by simp
  moreover have "dx_live_nodes dx = live_nodes ix" "dx_logical_token_ids dx = resident_token_ids ix" "dx_free_nodes dx = free_nodes ix"
    using sim by (simp_all add: compacts_def)
  ultimately show ?thesis
    using compact_counters(2) [OF compact_counters(1) [OF sim2]] ok par p
    by (simp add: unlink_dnode_def Let_def ix' dq)
qed

lemma compact_prune:
  "compacts sha S ix dx \<Longrightarrow> prune_from i ix = Some ix' \<Longrightarrow>
   \<exists>dx'. prune_dnodes i dx = Some dx' \<and> compacts sha S ix' dx' \<and> dx_digester dx' = dx_digester dx"
proof (induction i ix arbitrary: dx rule: prune_from.induct)
  case (1 i ix)
  note sim = 1(2)
  show ?case
  proof (cases "i = root_node")
    case True
    then show ?thesis using 1(2,3) by (simp add: prune_from.simps prune_dnodes.simps root_node_def)
  next
    case False
    obtain n where n: "node_at ix i = Some n" using 1(3) False by (auto simp: prune_from.simps [of i ix] split: option.splits)
    have dn: "dnode dx i = Some (dnode_of sha (dx_digester dx) n)" using compact_dnode [OF sim, of i] n by simp
    show ?thesis
    proof (cases "present n \<or> children n \<noteq> []")
      case True
      then show ?thesis using 1(2,3) False n dn by (auto simp: prune_from.simps [of i ix] prune_dnodes.simps [of i dx] root_node_def)
    next
      case live: False
      obtain ix1 pid where un: "unlink_node i ix = Some (ix1, pid)" and rest: "prune_from pid ix1 = Some ix'"
        using 1(3) False n live by (auto simp: prune_from.simps [of i ix] split: option.splits prod.splits)
      obtain p dx1 where p: "parent n = Some pid" "node_at ix pid = Some p" and dx1: "compacts sha S ix1 dx1" "dx_digester dx1 = dx_digester dx"
          "unlink_dnode i (dnode_of sha (dx_digester dx) n) pid (key_of sha (dx_digester dx) (block n)) dx = Some dx1"
        using compact_unlink [OF sim n un] by blast
      have bl: "block n \<in> S" using compact_keys [OF sim n] p(1) by (simp add: keys_in_def)
      have np: "map_of (map (entry_of sha (dx_digester dx)) (children p)) (key_of sha (dx_digester dx) (block n)) \<noteq> Some (Poisoned i)"
        using compact_child [OF sim p(2) bl] by auto
      have dp: "dnode dx pid = Some (dnode_of sha (dx_digester dx) p)" using compact_dnode [OF sim, of pid] p by simp
      have db: "dn_block (dnode_of sha (dx_digester dx) n) = Some (key_of sha (dx_digester dx) (block n))" using p by (simp add: dnode_of_def)
      obtain dx' where "prune_dnodes pid dx1 = Some dx'" "compacts sha S ix' dx'" "dx_digester dx' = dx_digester dx1"
        using 1(1) [OF False n live un refl dx1(1) rest] by blast
      then show ?thesis using False live dn dp db p(1) np dx1 by (simp add: prune_dnodes.simps [of i dx] root_node_def)
    qed
  qed
qed

lemma dnode_of_absent: "dnode_of sha d (n\<lparr>present := False\<rparr>) = (dnode_of sha d n)\<lparr>dn_present := False\<rparr>"
  by (simp add: dnode_of_def)

lemma compact_remove_hashes:
  "compacts sha S ix dx \<Longrightarrow> remove_hashes hs r ix = Some (ix', k) \<Longrightarrow>
   \<exists>dx'. remove_dhashes hs r dx = Some (dx', k) \<and> compacts sha S ix' dx' \<and> dx_digester dx' = dx_digester dx"
proof (induction hs arbitrary: r ix dx)
  case (Cons h hs)
  note sim = Cons.prems(1)
  have hm: "map_of (dx_by_external_hash dx) h = hmap ix h" using sim by (simp add: compacts_def)
  show ?case
  proof (cases "hmap ix h")
    case None
    then show ?thesis using Cons hm by simp
  next
    case (Some i)
    let ?ix = "ix\<lparr>by_external_hash := AList.delete h (by_external_hash ix)\<rparr>"
    let ?dx = "dx\<lparr>dx_by_external_hash := AList.delete h (dx_by_external_hash dx)\<rparr>"
    have sim1: "compacts sha S ?ix ?dx" using compact_counters(3) [OF sim] sim by (simp add: compacts_def)
    obtain n where n: "node_at ?ix i = Some n" using Cons.prems(2) Some by (auto simp: Let_def bind_eq_Some_conv)
    have dn: "dnode ?dx i = Some (dnode_of sha (dx_digester dx) n)" using compact_dnode [OF sim1, of i] n by simp
    show ?thesis
    proof (cases "\<not> present n \<or> external_hash n \<noteq> Some h")
      case True
      then have "remove_hashes hs r ?ix = Some (ix', k)" using Cons.prems(2) Some n by (simp add: Let_def)
      from Cons.IH [OF sim1 this] show ?thesis using Some hm dn True by (simp add: Let_def)
    next
      case False
      obtain ix2 where pr: "prune_from i (put_node i (Some (n\<lparr>present := False\<rparr>)) ?ix) = Some ix2"
          and rest: "remove_hashes hs (Suc r) ix2 = Some (ix', k)"
        using Cons.prems(2) Some n False by (auto simp: Let_def bind_eq_Some_conv)
      have "keys_in S (n\<lparr>present := False\<rparr>)" using compact_keys [OF sim1 n] by (simp add: keys_in_def)
      then have "compacts sha S (put_node i (Some (n\<lparr>present := False\<rparr>)) ?ix)
          (put_dnode i (Some ((dnode_of sha (dx_digester dx) n)\<lparr>dn_present := False\<rparr>)) ?dx)"
        using compact_put [OF sim1, of "Some (n\<lparr>present := False\<rparr>)" i] by (simp add: dnode_of_absent)
      from compact_prune [OF this pr] obtain dx2
        where dx2: "prune_dnodes i (put_dnode i (Some ((dnode_of sha (dx_digester dx) n)\<lparr>dn_present := False\<rparr>)) ?dx) = Some dx2"
          "compacts sha S ix2 dx2" "dx_digester dx2 = dx_digester dx" by auto
      from Cons.IH [OF dx2(2) rest] show ?thesis using Some hm dn False dx2(1,3) by (simp add: Let_def)
    qed
  qed
qed simp

lemma compact_new:
  assumes "collision_free sha d S" "dl_max_nodes l = max_nodes el" "dl_max_logical_token_ids l = max_token_ids el"
    "dl_max_lookup_steps l = max_lookup_steps el"
  shows "compacts sha S (index_new el) (digest_new l d)"
  using assms by (auto simp: compacts_def index_new_def digest_new_def node_keys_def keys_in_def node_at_def get_def node_root_def
      dnode_of_def digest_root_def split: if_splits)

lemma compact_clear: "compacts sha S ix dx \<Longrightarrow> compacts sha S (index_clear ix) (digest_clear dx)"
  by (auto simp: compacts_def index_clear_def digest_clear_def node_keys_def keys_in_def node_at_def get_def node_root_def
      dnode_of_def digest_root_def split: if_splits)

section \<open>Finding\<close>

definition slices :: "token_id list \<Rightarrow> token_id list set" where
  "slices toks = {take l (drop i toks) | l i. True}"

fun error_of :: "exact_index_error \<Rightarrow> digest_index_error" where
  "error_of LookupBudgetExceeded = Digest_LookupBudgetExceeded"
| "error_of CapacityExceeded = Digest_CapacityExceeded"
| "error_of ParentNotFound = Digest_ParentNotFound"
| "error_of DuplicateHash = Digest_DuplicateHash"
| "error_of InconsistentBlockShape = Digest_InconsistentBlockShape"
| "error_of _ = DigestCollision"

definition match_of :: "exact_match \<Rightarrow> digest_match" where
  "match_of m = \<lparr>dm_blocks = em_blocks m, dm_token_ids = em_token_ids m\<rparr>"

lemma compact_expand:
  assumes sim: "compacts sha S ix dx" and S: "slices toks \<subseteq> S" and n: "node_at ix i = Some n"
  shows "expand ix toks n off b ls steps st = Some r \<Longrightarrow>
    dexpand sha dx toks (dnode_of sha (dx_digester dx) n) off b ls steps st = Some (map_sum error_of id r)"
proof (induction ls arbitrary: steps st)
  case (Cons l ls)
  let ?c = "take l (drop off toks)" and ?d = "dx_digester dx"
  have c: "?c \<in> S" using S by (auto simp: slices_def)
  have com: "commit_block sha ?d ?c = Inr (chunk_commitment sha ?d ?c)" by (rule commit_block_is [OF compact_short [OF sim c]])
  have lim: "dl_max_lookup_steps (dx_limits dx) = max_lookup_steps (limits ix)" using sim by (simp add: compacts_def)
  note lk = compact_child [OF sim n c]
  show ?case
  proof (cases "map_of (children n) ?c")
    case None
    then show ?thesis using Cons lk com lim by (auto simp: Let_def split: if_splits)
  next
    case (Some child_id)
    then show ?thesis using Cons lk com lim compact_dnode [OF sim, of child_id]
      by (auto simp: Let_def bind_eq_Some_conv split: if_splits)
  qed
qed auto

lemma match_of_better: "match_of (better m off b) = dbetter (match_of m) off b"
  by (simp add: match_of_def better_def dbetter_def)

lemma compact_loop:
  assumes "lookup_loop ix toks st steps best = Some r" "compacts sha S ix dx" "slices toks \<subseteq> S"
  shows "dlookup_loop sha dx toks st steps (match_of best) = Some (map_sum error_of match_of r)"
  using assms
proof (induction rule: lookup_loop.raw_induct [rotated, consumes 1, case_names step])
  case (step loop ix toks st steps best r)
  show ?case
  proof (cases "st = []")
    case True
    then show ?thesis using step(2) by (auto simp: dlookup_loop.simps)
  next
    case False
    obtain i off b where it: "last st = (i, off, b)" by (cases "last st")
    obtain n q where n: "node_at ix i = Some n" and e: "expand ix toks n off b (child_lengths n) steps (butlast st) = Some q"
      and rest: "(case q of Inl e \<Rightarrow> Some (Inl e) | Inr (steps', stack') \<Rightarrow> loop ix toks stack' steps' (better best off b)) = Some r"
      using step(2) False it by (auto simp: bind_eq_Some_conv)
    have dn: "dnode dx i = Some (dnode_of sha (dx_digester dx) n)" using compact_dnode [OF step(3), of i] n by simp
    note de = compact_expand [OF step(3,4) n e]
    show ?thesis
    proof (cases q)
      case (Inl err)
      then show ?thesis using rest de dn it False by (subst dlookup_loop.simps) auto
    next
      case (Inr p)
      obtain steps' st' where p: "p = (steps', st')" by force
      have "dlookup_loop sha dx toks st' steps' (match_of (better best off b)) = Some (map_sum error_of match_of r)"
        using step(1) [of ix toks st' steps' "better best off b" r] rest Inr p step(3,4) by simp
      then show ?thesis using de dn it False Inr p by (subst dlookup_loop.simps) (simp add: match_of_better)
    qed
  qed
qed

lemma compact_find:
  assumes "compacts sha S ix dx" "slices toks \<subseteq> S" "index_find_longest toks ix = Some r"
  shows "digest_find_longest sha toks dx = Some (map_sum error_of match_of r)"
  using compact_loop [OF assms(3) [unfolded index_find_longest_def] assms(1,2)]
  by (simp add: digest_find_longest_def match_of_def root_node_def)

end
