(* ===== verification/Snapshot_Delta.thy ===== *)
theory Snapshot_Delta
  imports Digest_Refines
begin

text \<open>
  The adapter that applies authenticated tail payloads to the compact index
  (\<^verbatim>\<open>src/src/snapshot_digest_delta.rs\<close>). MessagePack is the parameter \<open>parse\<close> of \<^verbatim>\<open>Kv_Wire\<close>. A generation that the
  adapter has built without an error answers every lookup as the exact index of the same events does.
\<close>

section \<open>The adapter\<close>

record snapshot_group_key =
  sg_data_parallel_rank :: u32
  sg_group_idx :: u32

record delta_adapter =
  da_group :: snapshot_group_key
  da_wire_limits :: kv_wire_limits

record delta_summary =
  de_stored_blocks :: nat
  de_removed_blocks :: nat
  de_filtered_events :: nat
  de_clear_events :: nat

datatype delta_error = Delta_Decode decode_error | Delta_Index digest_index_error

definition delta_summary_default :: delta_summary where
  "delta_summary_default = \<lparr>de_stored_blocks = 0, de_removed_blocks = 0, de_filtered_events = 0, de_clear_events = 0\<rparr>"

definition delta_group_matches :: "u32 option \<Rightarrow> u32 \<Rightarrow> bool" where
  "delta_group_matches event_group selected \<longleftrightarrow> event_group = Some selected \<or> (selected = 0 \<and> event_group = None)"

definition delta_local_gpu :: "string option \<Rightarrow> string option \<Rightarrow> bool" where
  "delta_local_gpu med loc \<longleftrightarrow> (med = None \<or> med = Some ''GPU'') \<and> (loc = None \<or> loc = Some ''LOCAL'')"

definition delta_main_attention :: "string \<Rightarrow> bool" where
  "delta_main_attention kind \<longleftrightarrow> kind = ''full_attention'' \<or> kind = ''mla_attention'' \<or> kind = ''sink_full_attention''"

definition delta_accept_store :: "delta_adapter \<Rightarrow> u32 \<Rightarrow> block_stored \<Rightarrow> bool" where
  "delta_accept_store ad rank event \<longleftrightarrow>
     rank = sg_data_parallel_rank (da_group ad) \<and> delta_group_matches (group_idx event) (sg_group_idx (da_group ad)) \<and>
     delta_local_gpu (medium event) (locality event) \<and>
     (case kv_cache_spec_kind event of None \<Rightarrow> True | Some kind \<Rightarrow> delta_main_attention kind) \<and>
     lora_name event = None \<and> cache_namespace event = None \<and> \<not> has_extra_keys event"

definition delta_accept_remove :: "delta_adapter \<Rightarrow> u32 \<Rightarrow> block_removed \<Rightarrow> bool" where
  "delta_accept_remove ad rank event \<longleftrightarrow>
     rank = sg_data_parallel_rank (da_group ad) \<and> delta_group_matches (rm_group_idx event) (sg_group_idx (da_group ad)) \<and>
     delta_local_gpu (rm_medium event) (rm_locality event)"

definition delta_filtered :: "delta_summary \<Rightarrow> delta_summary" where
  "delta_filtered s = s\<lparr>de_filtered_events := sat_add (de_filtered_events s) 1\<rparr>"

text \<open>One event: the error, or the summary and the index.\<close>

fun delta_event ::
  "(bytes \<Rightarrow> bytes) \<Rightarrow> delta_adapter \<Rightarrow> u32 \<Rightarrow> kv_event \<Rightarrow> delta_summary \<times> digest_kv_index
    \<Rightarrow> ((digest_index_error + delta_summary) \<times> digest_kv_index) option" where
  "delta_event sha ad rank (BlockStored event) (s, dx) =
    (if delta_accept_store ad rank event then
       map_option (\<lambda>(r, dx'). (case r of
            Inr blocks \<Rightarrow> Inr (s\<lparr>de_stored_blocks := sat_add (de_stored_blocks s) blocks\<rparr>)
          | Inl e \<Rightarrow> if e = Digest_ParentNotFound then Inr (delta_filtered s) else Inl e, dx')) (digest_store sha event dx)
     else Some (Inr (delta_filtered s), dx))"
| "delta_event sha ad rank (BlockRemoved event) (s, dx) =
    (if delta_accept_remove ad rank event then
       map_option (\<lambda>(dx', removed). (Inr (s\<lparr>de_removed_blocks := sat_add (de_removed_blocks s) removed\<rparr>), dx'))
         (digest_remove event dx)
     else Some (Inr (delta_filtered s), dx))"
| "delta_event sha ad rank AllBlocksCleared (s, dx) =
    (if rank = sg_data_parallel_rank (da_group ad)
     then Some (Inr (s\<lparr>de_clear_events := sat_add (de_clear_events s) 1\<rparr>), digest_clear dx)
     else Some (Inr (delta_filtered s), dx))"

fun delta_events ::
  "(bytes \<Rightarrow> bytes) \<Rightarrow> delta_adapter \<Rightarrow> u32 \<Rightarrow> kv_event list \<Rightarrow> delta_summary \<times> digest_kv_index
    \<Rightarrow> ((delta_error + delta_summary) \<times> digest_kv_index) option" where
  "delta_events sha ad rank [] (s, dx) = Some (Inr s, dx)"
| "delta_events sha ad rank (e # es) (s, dx) = Option.bind (delta_event sha ad rank e (s, dx)) (\<lambda>(r, dx').
     case r of Inl err \<Rightarrow> Some (Inl (Delta_Index err), digest_clear dx') | Inr s' \<Rightarrow> delta_events sha ad rank es (s', dx'))"

definition delta_apply_batch ::
  "(bytes \<Rightarrow> bytes) \<Rightarrow> delta_adapter \<Rightarrow> kv_event_batch \<Rightarrow> digest_kv_index
    \<Rightarrow> ((delta_error + delta_summary) \<times> digest_kv_index) option" where
  "delta_apply_batch sha ad batch dx =
    delta_events sha ad (case data_parallel_rank batch of None \<Rightarrow> 0 | Some r \<Rightarrow> r) (events batch) (delta_summary_default, dx)"

definition delta_apply ::
  "(bytes \<Rightarrow> bytes) \<Rightarrow> (bytes \<Rightarrow> raw_batch option) \<Rightarrow> delta_adapter \<Rightarrow> bytes \<Rightarrow> digest_kv_index
    \<Rightarrow> ((delta_error + delta_summary) \<times> digest_kv_index) option" where
  "delta_apply sha parse ad payload dx = (case decode_batch parse payload (da_wire_limits ad) of
     Inl e \<Rightarrow> Some (Inl (Delta_Decode e), digest_clear dx)
   | Inr batch \<Rightarrow> delta_apply_batch sha ad batch dx)"

section \<open>The reference\<close>

text \<open>The same events on the exact index; a store without its parent is left out.\<close>

fun reference_event :: "delta_adapter \<Rightarrow> u32 \<Rightarrow> kv_event \<Rightarrow> exact_kv_index \<Rightarrow> exact_kv_index option" where
  "reference_event ad rank (BlockStored event) ix =
    (if delta_accept_store ad rank event then
       (case index_store event ix of Some (Inr (ix', _)) \<Rightarrow> Some ix' | Some (Inl ParentNotFound) \<Rightarrow> Some ix | _ \<Rightarrow> None)
     else Some ix)"
| "reference_event ad rank (BlockRemoved event) ix =
    (if delta_accept_remove ad rank event then map_option fst (index_remove event ix) else Some ix)"
| "reference_event ad rank AllBlocksCleared ix =
    Some (if rank = sg_data_parallel_rank (da_group ad) then index_clear ix else ix)"

primrec reference_events :: "delta_adapter \<Rightarrow> u32 \<Rightarrow> kv_event list \<Rightarrow> exact_kv_index \<Rightarrow> exact_kv_index option" where
  "reference_events ad rank [] ix = Some ix"
| "reference_events ad rank (e # es) ix = Option.bind (reference_event ad rank e ix) (reference_events ad rank es)"

definition reference_batch :: "delta_adapter \<Rightarrow> kv_event_batch \<Rightarrow> exact_kv_index \<Rightarrow> exact_kv_index option" where
  "reference_batch ad batch ix =
    reference_events ad (case data_parallel_rank batch of None \<Rightarrow> 0 | Some r \<Rightarrow> r) (events batch) ix"

fun event_blocks :: "kv_event \<Rightarrow> token_id list set" where
  "event_blocks (BlockStored event) = set (chunks (block_size event) (token_ids event))"
| "event_blocks _ = {}"

definition batch_blocks :: "kv_event_batch \<Rightarrow> token_id list set" where
  "batch_blocks batch = (\<Union>e \<in> set (events batch). event_blocks e)"

section \<open>Agreement\<close>

lemma delta_event_agrees:
  assumes sim: "compacts sha S ix dx" and wf: "index_wf ix" and S: "event_blocks e \<subseteq> S"
    and run: "delta_event sha ad rank e (s, dx) = Some (Inr s', dx')"
  shows "\<exists>ix'. reference_event ad rank e ix = Some ix' \<and> compacts sha S ix' dx' \<and> index_wf ix' \<and> limits ix' = limits ix"
proof (cases e)
  case (BlockStored event)
  show ?thesis
  proof (cases "delta_accept_store ad rank event")
    case True
    obtain r where r: "digest_store sha event dx = Some (r, dx')" using run BlockStored True by auto
    consider k where "digest_store sha event dx = Some (Inr k, dx')" | "digest_store sha event dx = Some (Inl Digest_ParentNotFound, dx')"
      using run BlockStored True r by (cases r) (auto split: if_splits)
    then show ?thesis
    proof cases
      case 1
      obtain ix' where ix': "index_store event ix = Some (Inr (ix', k))" "compacts sha S ix' dx'"
        using digest_store_back [OF sim wf _ 1] S BlockStored by auto
      then show ?thesis using index_store_ok [OF wf, of event] True BlockStored by auto
    next
      case 2
      then show ?thesis using digest_store_orphan [OF sim _ 2] S BlockStored True sim wf by auto
    qed
  qed (use run sim wf BlockStored in auto)
next
  case (BlockRemoved event)
  show ?thesis
  proof (cases "delta_accept_remove ad rank event")
    case True
    obtain ix' k where ix': "index_remove event ix = Some (ix', k)" "index_wf ix'" "limits ix' = limits ix"
      using index_remove_ok [OF wf, of event] by blast
    then obtain dx2 where "digest_remove event dx = Some (dx2, k)" "compacts sha S ix' dx2"
      using compact_remove_hashes [OF sim, of "rm_block_hashes event" 0] by (auto simp: index_remove_def digest_remove_def)
    then show ?thesis using ix' run True BlockRemoved by auto
  qed (use run sim wf BlockRemoved in auto)
next
  case AllBlocksCleared
  then show ?thesis using run sim wf compact_clear [OF sim] index_clear_wf [OF wf] by (auto simp: index_clear_def split: if_splits)
qed

lemma delta_events_agree:
  "compacts sha S ix dx \<Longrightarrow> index_wf ix \<Longrightarrow> (\<Union>e \<in> set es. event_blocks e) \<subseteq> S \<Longrightarrow>
   delta_events sha ad rank es (s, dx) = Some (Inr s', dx') \<Longrightarrow>
   \<exists>ix'. reference_events ad rank es ix = Some ix' \<and> compacts sha S ix' dx' \<and> index_wf ix' \<and> limits ix' = limits ix"
proof (induction es arbitrary: ix dx s)
  case (Cons e es)
  obtain r dx1 where r: "delta_event sha ad rank e (s, dx) = Some (r, dx1)" using Cons.prems(4) by (auto simp: bind_eq_Some_conv)
  then obtain s1 where e: "delta_event sha ad rank e (s, dx) = Some (Inr s1, dx1)"
      and rest: "delta_events sha ad rank es (s1, dx1) = Some (Inr s', dx')"
    using Cons.prems(4) by (cases r) auto
  obtain ix1 where ix1: "reference_event ad rank e ix = Some ix1" "compacts sha S ix1 dx1" "index_wf ix1" "limits ix1 = limits ix"
    using delta_event_agrees [OF Cons.prems(1,2) _ e] Cons.prems(3) by auto
  then show ?case using Cons.IH [OF ix1(2,3) _ rest] Cons.prems(3) by auto
qed simp

lemma delta_error_clears:
  "delta_events sha ad rank es (s, dx) = Some (Inl err, dx') \<Longrightarrow> \<exists>dx1. dx' = digest_clear dx1"
proof (induction es arbitrary: s dx)
  case (Cons e es)
  obtain r dx1 where r: "delta_event sha ad rank e (s, dx) = Some (r, dx1)" using Cons.prems by (auto simp: bind_eq_Some_conv)
  then show ?case using Cons by (cases r) auto
qed simp

text \<open>A generation: the batches in order, as long as each of them succeeds.\<close>

primrec delta_batches :: "(bytes \<Rightarrow> bytes) \<Rightarrow> delta_adapter \<Rightarrow> kv_event_batch list \<Rightarrow> digest_kv_index \<Rightarrow> digest_kv_index option" where
  "delta_batches sha ad [] dx = Some dx"
| "delta_batches sha ad (b # bs) dx = (case delta_apply_batch sha ad b dx of
     Some (Inr _, dx') \<Rightarrow> delta_batches sha ad bs dx' | _ \<Rightarrow> None)"

primrec reference_batches :: "delta_adapter \<Rightarrow> kv_event_batch list \<Rightarrow> exact_kv_index \<Rightarrow> exact_kv_index option" where
  "reference_batches ad [] ix = Some ix"
| "reference_batches ad (b # bs) ix = Option.bind (reference_batch ad b ix) (reference_batches ad bs)"

lemma delta_batches_agree:
  "compacts sha S ix dx \<Longrightarrow> index_wf ix \<Longrightarrow> (\<Union>b \<in> set bs. batch_blocks b) \<subseteq> S \<Longrightarrow> delta_batches sha ad bs dx = Some dx' \<Longrightarrow>
   \<exists>ix'. reference_batches ad bs ix = Some ix' \<and> compacts sha S ix' dx' \<and> index_wf ix' \<and> limits ix' = limits ix"
proof (induction bs arbitrary: ix dx)
  case (Cons b bs)
  obtain s1 dx1 where b: "delta_apply_batch sha ad b dx = Some (Inr s1, dx1)" "delta_batches sha ad bs dx1 = Some dx'"
    using Cons.prems(4) by (auto split: option.splits sum.splits prod.splits)
  obtain ix1 where ix1: "reference_batch ad b ix = Some ix1" "compacts sha S ix1 dx1" "index_wf ix1" "limits ix1 = limits ix"
    using delta_events_agree [OF Cons.prems(1,2) _ b(1) [unfolded delta_apply_batch_def]] Cons.prems(3)
    by (auto simp: batch_blocks_def reference_batch_def)
  then show ?case using Cons.IH [OF ix1(2,3) _ b(2)] Cons.prems(3) by auto
qed simp

section \<open>Properties\<close>

text \<open>
  C8. The compact index is equivalent to the exact index. Let the batches of a generation be applied without an error,
  and let no two blocks of the batches or of the request have the same compact key. Then the same events succeed on the
  exact index, and for every request both indexes return the same number of matched blocks and tokens, or both run out of
  their lookup budget.
\<close>

theorem compact_index_equivalent:
  assumes "collision_free sha d S" "limits_ok el" "dl_max_nodes l = max_nodes el" "dl_max_logical_token_ids l = max_token_ids el"
      "dl_max_lookup_steps l = max_lookup_steps el"
    and "(\<Union>b \<in> set bs. batch_blocks b) \<subseteq> S" "slices toks \<subseteq> S" "length toks \<le> usize_max"
    and "delta_batches sha ad bs (digest_new l d) = Some dx"
  shows "\<exists>ix r. reference_batches ad bs (index_new el) = Some ix \<and> index_find_longest toks ix = Some r \<and>
    digest_find_longest sha toks dx = Some (map_sum error_of match_of r)"
proof -
  obtain ix where ix: "reference_batches ad bs (index_new el) = Some ix" "compacts sha S ix dx" "index_wf ix"
    using delta_batches_agree [OF compact_new [OF assms(1,3-5)] index_new_wf [OF assms(2)] assms(6,9)] by blast
  obtain r where "index_find_longest toks ix = Some r" using index_find_longest_ok [OF ix(3) assms(8)] by blast
  then show ?thesis using ix compact_find [OF ix(2) assms(7)] by blast
qed

text \<open>
  Storing into the compact index refines storing into the exact index. On indexes that correspond, with no colliding
  blocks, a store that succeeds on the compact index succeeds on the exact one with the same count and leaves
  indexes that correspond; a store that succeeds on the exact index succeeds on the compact one too, unless the
  additional bounds on external hashes refuse it and nothing changes.
\<close>

theorem compact_store_refines:
  assumes "compacts sha S ix dx" "index_wf ix" "set (chunks (block_size event) (token_ids event)) \<subseteq> S"
  shows "(digest_store sha event dx = Some (Inr k, dx') \<longrightarrow>
      (\<exists>ix'. index_store event ix = Some (Inr (ix', k)) \<and> compacts sha S ix' dx')) \<and>
    (index_store event ix = Some (Inr (ix', k)) \<longrightarrow> digest_store sha event dx = Some (Inl Digest_CapacityExceeded, dx) \<or>
      (\<exists>dx'. digest_store sha event dx = Some (Inr k, dx') \<and> compacts sha S ix' dx'))"
  using digest_store_back [OF assms] digest_store_forward [OF assms(1,3)] by blast

section \<open>A concrete generation\<close>

text \<open>A digest that keeps the last bytes of its input apart.\<close>

definition tail_sha :: "bytes \<Rightarrow> bytes" where
  "tail_sha x = (if length x = 96 then drop 64 x else take 32 (rev x @ replicate 32 0))"

definition some_digester :: block_digester where
  "some_digester = digester_new tail_sha (replicate 32 5)"

definition some_event :: block_stored where
  "some_event = \<lparr>block_hashes = [Unsigned 1, Unsigned 2], parent_block_hash = None,
     token_ids = [10, 11], block_size = 1, group_idx = None, kv_cache_spec_kind = None,
     kv_cache_spec_sliding_window = None, medium = None, locality = None, lora_name = None,
     cache_namespace = None, has_extra_keys = False\<rparr>"

definition some_batch :: kv_event_batch where
  "some_batch = \<lparr>timestamp = Finite 0, events = [BlockStored some_event], data_parallel_rank = None\<rparr>"

definition some_adapter :: delta_adapter where
  "some_adapter = \<lparr>da_group = \<lparr>sg_data_parallel_rank = 0, sg_group_idx = 0\<rparr>, da_wire_limits = kv_wire_limits_default\<rparr>"

definition some_digest_limits :: digest_index_limits where
  "some_digest_limits = \<lparr>dl_max_nodes = 8, dl_max_logical_token_ids = 32, dl_max_lookup_steps = 16,
     dl_max_external_hash_bytes = 256, dl_max_total_external_hash_bytes = 1024\<rparr>"

lemma some_slices: "slices [10, 11] \<subseteq> {[], [10], [11], [10, 11]}"
proof
  fix c assume "c \<in> slices [10, 11 :: u32]"
  then obtain l i where c: "c = take l (drop i [10, 11])" by (auto simp: slices_def)
  consider "i = 0" | "i = 1" | "2 \<le> i" by linarith
  moreover consider "l = 0" | "l = 1" | "2 \<le> l" by linarith
  ultimately show "c \<in> {[], [10], [11], [10, 11]}" unfolding c by cases (auto simp: take_Cons' drop_Cons')
qed

lemma one_token_digest:
  "\<exists>rest. pc_digest (key_of tail_sha some_digester [t]) = take 16 (be_bytes 4 (unat t) @ rest)"
proof -
  have pad: "length (hm_inner (block_hmac_new tail_sha (bd_secret some_digester))) = 64"
    "length (hm_outer_pad (block_hmac_new tail_sha (bd_secret some_digester))) = 64" "length block_domain = 28"
    by (simp_all add: block_hmac_new_def Let_def some_digester_def digester_new_def block_domain_def bytes_of_string_def)
  define P where "P = hm_inner (block_hmac_new tail_sha (bd_secret some_digester)) @ block_domain @ le_bytes32 1"
  have P: "length P = 96" using pad by (simp add: P_def le_bytes32_def)
  have inner: "tail_sha (P @ le_bytes32 t) = take 32 (be_bytes 4 (unat t) @ rev P)" using P by (simp add: tail_sha_def le_bytes32_def)
  then have "tail_sha (hm_outer_pad (block_hmac_new tail_sha (bd_secret some_digester)) @ tail_sha (P @ le_bytes32 t)) =
      take 32 (be_bytes 4 (unat t) @ rev P)"
    using pad(2) P by (simp add: tail_sha_def [of "hm_outer_pad _ @ _"])
  then show ?thesis
    by (intro exI [of _ "rev P"])
      (simp add: chunk_commitment_def commit_def Let_def hmac_update_def hmac_finalize_def P_def del: take_append)
qed

lemma some_keys: "key_of tail_sha some_digester [10] \<noteq> key_of tail_sha some_digester [11]"
proof
  obtain x y where "pc_digest (key_of tail_sha some_digester [10]) = take 16 (be_bytes 4 (unat (10 :: u32)) @ x)"
    "pc_digest (key_of tail_sha some_digester [11]) = take 16 (be_bytes 4 (unat (11 :: u32)) @ y)" using one_token_digest by blast
  moreover assume "key_of tail_sha some_digester [10] = key_of tail_sha some_digester [11]"
  ultimately have "be_bytes 4 10 = be_bytes 4 11" by simp
  then have "be_value (be_bytes 4 10) = be_value (be_bytes 4 11)" by simp
  then show False by (simp add: be_value_be_bytes)
qed

lemma some_collision_free: "collision_free tail_sha some_digester {[], [10], [11], [10, 11]}"
proof -
  have "key_of tail_sha some_digester c = key_of tail_sha some_digester c' \<Longrightarrow> length c = length c'" if "length c < 3" "length c' < 3" for c c'
    using commitment_length [of c tail_sha some_digester] commitment_length [of c' tail_sha some_digester] that by auto
  from this [of "[]" "[10]"] this [of "[]" "[11]"] this [of "[]" "[10, 11]"] this [of "[10]" "[10, 11]"] this [of "[11]" "[10, 11]"]
  show ?thesis using some_keys by (auto simp: collision_free_def)
qed

lemma some_store: "\<exists>dx. digest_store tail_sha some_event (digest_new some_digest_limits some_digester) = Some (Inr 2, dx)"
  by (simp add: some_event_def some_digest_limits_def digest_store_def div_ceil_def valid_external_hashes_def dstore_parent_def
    commit_block_is chunks.simps Let_def digest_new_def dnode_def get_def digest_root_def capacity_left_def sat_add_def usize_max_def
    insert_dchild_def allocate_dnode_def put_dnode_def)

lemma some_run: "\<exists>dx. delta_batches tail_sha some_adapter [some_batch] (digest_new some_digest_limits some_digester) = Some dx"
proof -
  have "delta_accept_store some_adapter 0 some_event"
    by (simp add: delta_accept_store_def some_event_def some_adapter_def delta_group_matches_def delta_local_gpu_def)
  then show ?thesis using some_store by (auto simp: some_batch_def delta_apply_batch_def)
qed

lemma some_sim: "compacts tail_sha {[], [10], [11], [10, 11]} (index_new sample_limits) (digest_new some_digest_limits some_digester)"
  by (rule compact_new [OF some_collision_free]) (simp_all add: some_digest_limits_def sample_limits_def)

lemma some_blocks: "set (chunks (block_size some_event) (token_ids some_event)) \<subseteq> {[], [10], [11], [10, 11]}"
  by (simp add: some_event_def chunks.simps)

theorem compact_index_equivalent_witness:
  "\<exists>dx ix r. delta_batches tail_sha some_adapter [some_batch] (digest_new some_digest_limits some_digester) = Some dx \<and>
    reference_batches some_adapter [some_batch] (index_new sample_limits) = Some ix \<and> index_find_longest [10, 11] ix = Some r \<and>
    digest_find_longest tail_sha [10, 11] dx = Some (map_sum error_of match_of r)"
proof -
  obtain dx where dx: "delta_batches tail_sha some_adapter [some_batch] (digest_new some_digest_limits some_digester) = Some dx"
    using some_run by blast
  have "(\<Union>b \<in> set [some_batch]. batch_blocks b) \<subseteq> {[], [10], [11], [10, 11]}"
    using some_blocks by (simp add: batch_blocks_def some_batch_def)
  from compact_index_equivalent [OF some_collision_free sample_limits_ok _ _ _ this some_slices _ dx] show ?thesis
    using dx by (auto simp: some_digest_limits_def sample_limits_def usize_max_eq)
qed

theorem compact_store_refines_witness:
  "\<exists>ix dx. index_store some_event (index_new sample_limits) = Some (Inr (ix, 2)) \<and>
    digest_store tail_sha some_event (digest_new some_digest_limits some_digester) = Some (Inr 2, dx) \<and>
    compacts tail_sha {[], [10], [11], [10, 11]} ix dx"
proof -
  obtain dx where dx: "digest_store tail_sha some_event (digest_new some_digest_limits some_digester) = Some (Inr 2, dx)"
    using some_store by blast
  then show ?thesis using compact_store_refines [OF some_sim sample_new_wf some_blocks, of 2 dx] by blast
qed

end
