(* ===== verification/Snapshot_Bootstrap.thy ===== *)
theory Snapshot_Bootstrap
  imports Snapshot_Forest Snapshot_Delta Snapshot_Publication
begin

text \<open>
  From an authenticated snapshot to a prepared generation: the import of a snapshot into the compact index
  (\<open>replace_from_snapshot_with_cancel\<close> of \<^verbatim>\<open>src/src/digest_index.rs\<close>) and
  \<open>prepare_authenticated_snapshot_with_cancel\<close> of \<^verbatim>\<open>src/src/snapshot_bootstrap.rs\<close>, which closes the assumption the actor of
  \<^verbatim>\<open>Snapshot_Publication\<close> makes about the generations it installs.
\<close>

section \<open>Import\<close>

fun snapshot_hash :: "snapshot_block_hash \<Rightarrow> digest_index_error + external_block_hash" where
  "snapshot_hash (Snap_Bytes bs) = (if bs \<noteq> [] then Inr (Bytes bs) else Inl InvalidSnapshotRecord)"
| "snapshot_hash (Snap_Signed v) = Inr (Signed v)"
| "snapshot_hash (Snap_Unsigned v) = Inr (Unsigned v)"

definition insert_snapshot_child ::
  "nat \<Rightarrow> block_commitment \<Rightarrow> external_block_hash \<Rightarrow> bool \<Rightarrow> digest_kv_index \<Rightarrow> (digest_index_error + digest_kv_index \<times> nat) option" where
  "insert_snapshot_child parent_id c h there dx =
    (if map_of (dx_by_external_hash dx) h \<noteq> None then Some (Inl Digest_DuplicateHash)
     else Option.bind (dnode dx parent_id) (\<lambda>p.
       if map_of (dn_children p) (bc_primary c) \<noteq> None then Some (Inl DigestCollision)
       else
         let tokens = unat (pc_token_count (bc_primary c)) in
         if \<not> capacity_left 1 tokens (external_hash_len h) dx then Some (Inl Digest_CapacityExceeded)
         else Option.bind (insert_dchild parent_id c h tokens dx) (\<lambda>(dx1, node_id).
           Option.bind (dnode dx1 node_id) (\<lambda>n.
             let dx2 = put_dnode node_id (Some (n\<lparr>dn_present := there\<rparr>)) dx1 in
             Some (Inr (if there then dx2\<lparr>dx_by_external_hash := AList.update h node_id (dx_by_external_hash dx2)\<rparr> else dx2, node_id))))))"

text \<open>The loop over the records: the index built so far, the node of every record, the hashes seen and the count.\<close>

record import_state =
  is_index :: digest_kv_index
  is_nodes :: "nat option list"
  is_hashes :: "external_block_hash list"
  is_imported :: nat

definition import_record :: "nat \<Rightarrow> digest_record \<Rightarrow> import_state \<Rightarrow> (digest_index_error + import_state) option" where
  "import_record i r st =
    (case (case dr_parent_record r of
         Some p \<Rightarrow> if unat p < i then is_nodes st ! unat p else None
       | None \<Rightarrow> Some 0) of
       None \<Rightarrow> Some (Inl InvalidSnapshotRecord)
     | Some parent_id \<Rightarrow>
        if dr_block_token_ids r = 0 \<or> length (dr_block_digest r) \<noteq> 32 then Some (Inl InvalidSnapshotRecord)
        else (case snapshot_hash (dr_external_hash r) of Inl e \<Rightarrow> Some (Inl e)
        | Inr h \<Rightarrow>
           if \<not> valid_external_hashes [h] (is_index st) then Some (Inl Digest_CapacityExceeded)
           else if h \<in> set (is_hashes st) then Some (Inl Digest_DuplicateHash)
           else Option.bind (insert_snapshot_child parent_id (commitment_from_digest (dr_block_token_ids r) (dr_block_digest r))
               h (dr_present r) (is_index st)) (\<lambda>res. case res of Inl e \<Rightarrow> Some (Inl e)
             | Inr (dx, node_id) \<Rightarrow>
                if usize_max < is_imported st + 1 then Some (Inl Digest_CapacityExceeded)
                else Some (Inr \<lparr>is_index = dx, is_nodes = (is_nodes st)[i := Some node_id], is_hashes = h # is_hashes st,
                       is_imported = is_imported st + 1\<rparr>))))"

fun import_records ::
  "nat \<Rightarrow> probe \<Rightarrow> nat \<Rightarrow> nat \<Rightarrow> digest_record list \<Rightarrow> import_state \<Rightarrow> (digest_index_error + import_state) option" where
  "import_records slot cancelled polls i [] st = Some (Inr st)"
| "import_records slot cancelled polls i (r # rs) st =
    (if cancelled polls then Some (Inl Digest_Cancelled)
     else if unat (dr_group_slot r) \<noteq> slot then import_records slot cancelled (Suc polls) (Suc i) rs st
     else Option.bind (import_record i r st) (\<lambda>res. case res of Inl e \<Rightarrow> Some (Inl e)
       | Inr st' \<Rightarrow> import_records slot cancelled (Suc polls) (Suc i) rs st'))"

text \<open>The only indexed group of a snapshot and its position.\<close>

definition indexed_groups :: "snapshot_body \<Rightarrow> (nat \<times> group_metadata) list" where
  "indexed_groups body = filter (\<lambda>(i, g). gm_disposition g = Indexed) (enumerate 0 (sb_groups body))"

definition replace_from_snapshot_with_cancel ::
  "snapshot_body \<Rightarrow> snapshot_group_key \<Rightarrow> probe \<Rightarrow> nat \<Rightarrow> digest_kv_index \<Rightarrow> ((digest_index_error + nat) \<times> digest_kv_index) option" where
  "replace_from_snapshot_with_cancel body key cancelled polls dx =
    (if dg_algorithm (sb_digest body) \<noteq> HmacSha256V1 \<or> unat (dg_digest_bytes (sb_digest body)) \<noteq> 32 \<or>
        \<not> matches_wire (bd_key_id (dx_digester dx)) (dg_key_id (sb_digest body))
     then Some (Inl SnapshotDigestMismatch, dx)
     else if rs_kind (sb_reset_scope body) \<noteq> FullEngine \<or> rs_rank (sb_reset_scope body) \<noteq> None \<or> rs_group (sb_reset_scope body) \<noteq> None
     then Some (Inl InvalidSnapshotScope, dx)
     else if dl_max_nodes (dx_limits dx) < length (sb_records body) then Some (Inl Digest_CapacityExceeded, dx)
     else (case indexed_groups body of
       [(slot, g)] \<Rightarrow>
         if gm_data_parallel_rank g \<noteq> sg_data_parallel_rank key \<or> gm_group_idx g \<noteq> sg_group_idx key
         then Some (Inl SnapshotGroupNotFound, dx)
         else map_option (\<lambda>res. case res of Inl e \<Rightarrow> (Inl e, dx) | Inr st \<Rightarrow> (Inr (is_imported st), is_index st))
           (import_records slot cancelled polls 0 (sb_records body)
             \<lparr>is_index = digest_new (dx_limits dx) (dx_digester dx), is_nodes = replicate (length (sb_records body)) None,
              is_hashes = [], is_imported = 0\<rparr>)
     | _ \<Rightarrow> Some (Inl UnsupportedSnapshotGroups, dx)))"

definition replace_from_snapshot ::
  "snapshot_body \<Rightarrow> snapshot_group_key \<Rightarrow> digest_kv_index \<Rightarrow> ((digest_index_error + nat) \<times> digest_kv_index) option" where
  "replace_from_snapshot body key dx = replace_from_snapshot_with_cancel body key (\<lambda>_. False) 0 dx"

section \<open>Preparation\<close>

datatype bootstrap_error =
    BindingMismatch | Bootstrap_Snapshot snapshot_error | Bootstrap_Index digest_index_error | Bootstrap_Lifecycle fence_reason

definition prepare_authenticated_snapshot_with_cancel ::
  "(bytes \<Rightarrow> bytes) \<Rightarrow> snapshot_codec \<Rightarrow> authenticated_snapshot \<Rightarrow> bytes \<Rightarrow> snapshot_limits \<Rightarrow> digest_index_limits \<Rightarrow> snapshot_group_key
    \<Rightarrow> u64 \<Rightarrow> probe \<Rightarrow> (bootstrap_error + digest_kv_index prepared) option" where
  "prepare_authenticated_snapshot_with_cancel sha codec snap secret snap_limits index_limits key minimum cancelled =
    (let who = \<lparr>id_incarnation = as_incarnation snap, id_key_id = as_key_id snap, id_generation = as_generation snap\<rparr> in
     if \<not> matches_wire (bd_key_id (digester_new sha secret)) (as_key_id snap) then Some (Inl BindingMismatch)
     else case decode_snapshot_with_cancel sha codec (as_frame snap) snap_limits
         \<lparr>se_incarnation = as_incarnation snap, se_reset_scope = full_engine,
          se_digest = \<lparr>dg_algorithm = HmacSha256V1, dg_key_id = as_key_id snap, dg_digest_bytes = 32\<rparr>\<rparr> cancelled of
       Inl e \<Rightarrow> Some (Inl (Bootstrap_Snapshot e))
     | Inr (body, polls) \<Rightarrow>
        if sb_watermark body \<noteq> as_watermark snap then Some (Inl BindingMismatch)
        else (case digest_from_secret sha index_limits secret of Inl e \<Rightarrow> Some (Inl (Bootstrap_Index e))
        | Inr dx \<Rightarrow>
           Option.bind (replace_from_snapshot_with_cancel body key cancelled polls dx) (\<lambda>(res, dx').
             case res of Inl e \<Rightarrow> Some (Inl (Bootstrap_Index e))
             | Inr _ \<Rightarrow>
                let (action, lifecycle) = accept_snapshot snap (sb_reset_scope body)
                      (start_bootstrap (sb_incarnation body) minimum (as_key_id snap) (as_generation snap)) in
                (case action of
                   Snapshot_Accepted _ _ \<Rightarrow> Some (Inr \<lparr>pp_identity = who, pp_watermark = sb_watermark body, pp_index = dx',
                      pp_lifecycle = lifecycle\<rparr>)
                 | Snapshot_Fenced r \<Rightarrow> Some (Inl (Bootstrap_Lifecycle r))))))"

definition prepare_authenticated_snapshot ::
  "(bytes \<Rightarrow> bytes) \<Rightarrow> snapshot_codec \<Rightarrow> authenticated_snapshot \<Rightarrow> bytes \<Rightarrow> snapshot_limits \<Rightarrow> digest_index_limits \<Rightarrow> snapshot_group_key
    \<Rightarrow> u64 \<Rightarrow> (bootstrap_error + digest_kv_index prepared) option" where
  "prepare_authenticated_snapshot sha codec snap secret snap_limits index_limits key minimum =
    prepare_authenticated_snapshot_with_cancel sha codec snap secret snap_limits index_limits key minimum (\<lambda>_. False)"

section \<open>What the import builds\<close>

lemma case_error_ok:
  "(case y of Inl e \<Rightarrow> Some (Inl (k e)) | Inr b \<Rightarrow> f b) = Some (Inr x) \<longleftrightarrow> (\<exists>b. y = Inr b \<and> f b = Some (Inr x))"
  by (cases y) auto

lemma case_action_ok:
  "(case y of (a, f) \<Rightarrow> case a of Snapshot_Accepted w s \<Rightarrow> Some (Inr (k f)) | Snapshot_Fenced r \<Rightarrow> Some (Inl (e r))) = Some (Inr x) \<longleftrightarrow>
    (\<exists>w s f. y = (Snapshot_Accepted w s, f) \<and> x = k f)"
  by (auto split: prod.splits snapshot_action.splits)

lemma insert_dchild_fields:
  assumes "insert_dchild pid c h tokens dx = Some (dx', i)"
  shows "dx_live_nodes dx' = dx_live_nodes dx + 1 \<and> dx_logical_token_ids dx' = dx_logical_token_ids dx + tokens \<and>
    dx_poisoned_edges dx' = dx_poisoned_edges dx \<and> dx_by_external_hash dx' = dx_by_external_hash dx \<and>
    dx_limits dx' = dx_limits dx \<and> dx_digester dx' = dx_digester dx"
  using assms
  by (auto simp: insert_dchild_def allocate_dnode_def put_dnode_def bind_eq_Some_conv Let_def split: if_splits)

lemma insert_snapshot_child_fields:
  assumes "insert_snapshot_child pid c h there dx = Some (Inr (dx', i))"
  shows "dx_live_nodes dx' = dx_live_nodes dx + 1 \<and> dx_poisoned_edges dx' = dx_poisoned_edges dx \<and> dx_limits dx' = dx_limits dx \<and>
    dx_digester dx' = dx_digester dx \<and> dom (map_of (dx_by_external_hash dx')) = dom (map_of (dx_by_external_hash dx)) \<union> (if there then {h} else {}) \<and>
    capacity_left 1 (unat (pc_token_count (bc_primary c))) (external_hash_len h) dx"
proof -
  obtain dx1 n where ins: "insert_dchild pid c h (unat (pc_token_count (bc_primary c))) dx = Some (dx1, i)"
      and dx': "dx' = (if there then (put_dnode i (Some (n\<lparr>dn_present := there\<rparr>)) dx1)\<lparr>dx_by_external_hash := AList.update h i (dx_by_external_hash dx1)\<rparr>
        else put_dnode i (Some (n\<lparr>dn_present := there\<rparr>)) dx1)"
      and cap: "capacity_left 1 (unat (pc_token_count (bc_primary c))) (external_hash_len h) dx"
    using assms by (cases there) (auto simp: insert_snapshot_child_def Let_def bind_eq_Some_conv split: if_splits)
  show ?thesis using insert_dchild_fields [OF ins] cap unfolding dx' by (auto simp: put_dnode_def AList.update_conv')
qed

definition wire_hash :: "digest_record \<Rightarrow> external_block_hash" where
  "wire_hash r = projr (snapshot_hash (dr_external_hash r))"

definition import_inv :: "digest_index_limits \<Rightarrow> nat \<Rightarrow> digest_record list \<Rightarrow> import_state \<Rightarrow> bool" where
  "import_inv l slot rs st \<longleftrightarrow> (let own = filter (\<lambda>r. unat (dr_group_slot r) = slot) rs; dx = is_index st in
     is_imported st = length own \<and> dx_live_nodes dx = length own \<and> dx_poisoned_edges dx = 0 \<and> dx_limits dx = l \<and>
     dom (map_of (dx_by_external_hash dx)) = wire_hash ` {r \<in> set own. dr_present r} \<and>
     set (is_hashes st) = wire_hash ` set own \<and> distinct (map wire_hash own))"

lemma import_record_inv:
  assumes run: "import_record i r st = Some (Inr st')" and slot: "unat (dr_group_slot r) = slot" and inv: "import_inv l slot rs st"
  shows "import_inv l slot (rs @ [r]) st'"
proof -
  obtain pid h dx j where h: "snapshot_hash (dr_external_hash r) = Inr h" "h \<notin> set (is_hashes st)"
      and ins: "insert_snapshot_child pid (commitment_from_digest (dr_block_token_ids r) (dr_block_digest r)) h (dr_present r) (is_index st) = Some (Inr (dx, j))"
      and st': "st' = \<lparr>is_index = dx, is_nodes = (is_nodes st)[i := Some j], is_hashes = h # is_hashes st, is_imported = is_imported st + 1\<rparr>"
    using run by (auto simp: import_record_def bind_eq_Some_conv case_error_ok split: option.splits if_splits)
  have w: "wire_hash r = h" using h(1) by (simp add: wire_hash_def)
  show ?thesis using insert_snapshot_child_fields [OF ins] inv slot h(2) w unfolding st' import_inv_def Let_def by auto
qed

lemma import_records_inv:
  "import_records slot c n i rs st = Some (Inr st') \<Longrightarrow> import_inv l slot ds st \<Longrightarrow> import_inv l slot (ds @ rs) st'"
proof (induction rs arbitrary: n i ds st)
  case (Cons r rs)
  show ?case
  proof (cases "unat (dr_group_slot r) = slot")
    case True
    obtain st1 where st1: "import_record i r st = Some (Inr st1)" "import_records slot c (Suc n) (Suc i) rs st1 = Some (Inr st')"
      using Cons.prems(1) True by (auto simp: bind_eq_Some_conv case_error_ok split: if_splits)
    show ?thesis using Cons.IH [OF st1(2) import_record_inv [OF st1(1) True Cons.prems(2)]] by simp
  next
    case False
    then have "import_inv l slot (ds @ [r]) st" using Cons.prems(2) by (simp add: import_inv_def)
    then show ?thesis using Cons.IH [of "Suc n" "Suc i" st "ds @ [r]"] Cons.prems(1) False by (simp split: if_splits)
  qed
qed simp

section \<open>Properties\<close>

text \<open>
  C10. Importing a snapshot is transactional and exact. An error leaves the index as it was. Success replaces it by an
  index with one live node for every record of the only indexed group, no poisoned edge, the same limits, and a hash map
  whose keys are exactly the hashes of the present records of that group, all hashes of the group being different.
\<close>

theorem snapshot_import_exact:
  assumes "replace_from_snapshot_with_cancel body key cancelled polls dx = Some (res, dx')"
  shows "case res of Inl e \<Rightarrow> dx' = dx
    | Inr n \<Rightarrow> \<exists>slot g. indexed_groups body = [(slot, g)] \<and>
        (let own = filter (\<lambda>r. unat (dr_group_slot r) = slot) (sb_records body) in
         n = length own \<and> dx_live_nodes dx' = n \<and> n \<le> dl_max_nodes (dx_limits dx) \<and> dx_poisoned_edges dx' = 0 \<and> dx_limits dx' = dx_limits dx \<and>
         dom (map_of (dx_by_external_hash dx')) = wire_hash ` {r \<in> set own. dr_present r} \<and> distinct (map wire_hash own))"
proof (cases res)
  case (Inl e)
  have import_keeps: "map_option (\<lambda>r. case r of Inl e \<Rightarrow> (Inl e, dx) | Inr st \<Rightarrow> (Inr (is_imported st), is_index st)) y = Some (Inl e, dx') \<Longrightarrow>
    dx' = dx" for y by (cases y) (simp_all split: sum.splits)
  show ?thesis using assms unfolding Inl replace_from_snapshot_with_cancel_def
    by (auto dest!: import_keeps simp del: map_option_eq_Some split: if_splits list.splits prod.splits)
next
  case (Inr n)
  have import_done: "map_option (\<lambda>r. case r of Inl e \<Rightarrow> (Inl e, dx) | Inr st \<Rightarrow> (Inr (is_imported st), is_index st)) y = Some (Inr n, dx') \<Longrightarrow>
    \<exists>st. y = Some (Inr st) \<and> dx' = is_index st \<and> n = is_imported st" for y by (cases y) (simp_all split: sum.splits)
  obtain slot g st where g: "indexed_groups body = [(slot, g)]" and cap: "length (sb_records body) \<le> dl_max_nodes (dx_limits dx)"
      and run: "import_records slot cancelled polls 0 (sb_records body)
        \<lparr>is_index = digest_new (dx_limits dx) (dx_digester dx), is_nodes = replicate (length (sb_records body)) None, is_hashes = [], is_imported = 0\<rparr> =
        Some (Inr st)"
      and dx': "dx' = is_index st" "n = is_imported st"
    using assms unfolding Inr replace_from_snapshot_with_cancel_def
    by (auto dest!: import_done simp del: map_option_eq_Some split: if_splits list.splits prod.splits)
  have "import_inv (dx_limits dx) slot ([] @ sb_records body) st"
    by (rule import_records_inv [OF run]) (simp add: import_inv_def digest_new_def)
  moreover have "length (filter (\<lambda>r. unat (dr_group_slot r) = slot) (sb_records body)) \<le> dl_max_nodes (dx_limits dx)"
    using cap length_filter_le le_trans by blast
  ultimately show ?thesis using g dx' Inr by (auto simp: import_inv_def Let_def)
qed

text \<open>
  C9. A prepared generation is bound to its authentication. It carries the identity and the watermark of the
  authenticated snapshot, which is not below the minimum; its lifecycle has applied delivery zero at that watermark under
  that identity and is catching up; the digest secret is the one the snapshot names; and its index is the import of a
  body that was decoded from the authenticated frame and is a well-formed forest.
\<close>

theorem prepared_generation_bound:
  assumes "prepare_authenticated_snapshot_with_cancel sha codec snap secret snap_limits index_limits key minimum cancelled = Some (Inr p)"
    and "sha_ok sha"
  shows "prepared_ok p \<and> pp_watermark p = as_watermark snap \<and> minimum \<le> pp_watermark p \<and> as_key_id snap = derive_key_id sha secret \<and>
    pp_identity p = \<lparr>id_incarnation = as_incarnation snap, id_key_id = as_key_id snap, id_generation = as_generation snap\<rparr> \<and>
    (\<exists>body polls n. decode_snapshot_with_cancel sha codec (as_frame snap) snap_limits (own_expectations body) cancelled = Inr (body, polls) \<and>
       forest_wf snap_limits body \<and> sb_watermark body = as_watermark snap \<and>
       replace_from_snapshot_with_cancel body key cancelled polls (digest_new index_limits (digester_new sha secret)) = Some (Inr n, pp_index p))"
proof -
  let ?ex = "\<lparr>se_incarnation = as_incarnation snap, se_reset_scope = full_engine,
      se_digest = \<lparr>dg_algorithm = HmacSha256V1, dg_key_id = as_key_id snap, dg_digest_bytes = 32\<rparr>\<rparr>"
  obtain body polls n w s f where key: "matches_wire (bd_key_id (digester_new sha secret)) (as_key_id snap)"
      and dec: "decode_snapshot_with_cancel sha codec (as_frame snap) snap_limits ?ex cancelled = Inr (body, polls)"
      and wm: "sb_watermark body = as_watermark snap"
      and imp: "replace_from_snapshot_with_cancel body key cancelled polls (digest_new index_limits (digester_new sha secret)) = Some (Inr n, pp_index p)"
      and acc: "accept_snapshot snap (sb_reset_scope body) (start_bootstrap (sb_incarnation body) minimum (as_key_id snap) (as_generation snap)) =
        (Snapshot_Accepted w s, f)"
      and p: "p = \<lparr>pp_identity = \<lparr>id_incarnation = as_incarnation snap, id_key_id = as_key_id snap, id_generation = as_generation snap\<rparr>,
        pp_watermark = sb_watermark body, pp_index = pp_index p, pp_lifecycle = f\<rparr>"
    using assms(1)
    by (auto simp: prepare_authenticated_snapshot_with_cancel_def digest_from_secret_def digester_from_slice_def Let_def bind_eq_Some_conv
        case_error_ok case_action_ok split: if_splits)
  have wf: "forest_wf snap_limits body" "?ex = own_expectations body" using decoded_snapshot_facts [OF dec] by simp_all
  have "minimum \<le> as_watermark snap" "tf_state f = Tail_CatchingUp" "tf_reason f = None" "applied_delivery_sequence f = Some 0"
      "applied_event_watermark f = Some (as_watermark snap)" "expected_incarnation f = as_incarnation snap"
      "expected_digest_key_id f = as_key_id snap" "tf_generation f = as_generation snap"
    using acc by (auto simp: accept_snapshot_def start_bootstrap_def check_identity_def bump_tail_def Let_def map_prod_def split_beta
        split: if_splits option.splits sum.splits)
  moreover have "as_key_id snap = derive_key_id sha secret"
    using key assms(2) by (simp add: matches_wire_iff digester_new_def derive_key_id_def sha_ok_def)
  ultimately show ?thesis using p wm wf dec imp
    by (metis (no_types, lifting) prepared_ok_def prepared.select_convs identity.select_convs)
qed

section \<open>A concrete bootstrap\<close>

definition some_import :: digest_kv_index where
  "some_import = digest_new some_digest_limits (digester_new some_sha (replicate 32 9))"

definition some_snapshot :: authenticated_snapshot where
  "some_snapshot = \<lparr>as_incarnation = some_incarnation, as_watermark = 4, as_key_id = replicate 32 67, as_generation = 6, as_frame = [2]\<rparr>"

lemma some_key: "bd_key_id (digester_new some_sha (replicate 32 9)) = replicate 32 67"
  by (simp add: digester_new_def derive_key_id_def some_sha_def key_id_domain_def bytes_of_string_def)

lemma some_key_wire: "matches_wire (replicate 32 67) (replicate 32 67)" by (simp add: matches_wire_iff)

lemma some_imported:
  "\<exists>dx'. replace_from_snapshot_with_cancel some_body \<lparr>sg_data_parallel_rank = 0, sg_group_idx = 0\<rparr> (\<lambda>n. n = 9) 7 some_import = Some (Inr 2, dx')"
  by (simp add: replace_from_snapshot_with_cancel_def some_import_def some_body_def some_group_def some_record_def digest_new_def some_key some_key_wire
      full_engine_def indexed_groups_def import_record_def insert_snapshot_child_def insert_dchild_def allocate_dnode_def put_dnode_def dnode_def
      capacity_left_def valid_external_hashes_def some_digest_limits_def commitment_from_digest_def digest_root_def sat_add_def usize_max_eq
      add_child_length_def get_def Let_def)

theorem snapshot_import_exact_witness:
  "\<exists>dx'. replace_from_snapshot_with_cancel some_body \<lparr>sg_data_parallel_rank = 0, sg_group_idx = 0\<rparr> (\<lambda>n. n = 9) 7 some_import = Some (Inr 2, dx') \<and>
    dx_live_nodes dx' = 2 \<and> dx_poisoned_edges dx' = 0 \<and> dom (map_of (dx_by_external_hash dx')) = {Unsigned 2}"
proof -
  obtain dx' where dx': "replace_from_snapshot_with_cancel some_body \<lparr>sg_data_parallel_rank = 0, sg_group_idx = 0\<rparr> (\<lambda>n. n = 9) 7 some_import =
    Some (Inr 2, dx')" using some_imported by blast
  have own: "indexed_groups some_body = [(0, some_group)]" "sb_records some_body = [some_record None 1 16 False, some_record (Some 0) 2 32 True]"
    by (simp_all add: indexed_groups_def some_body_def some_group_def)
  have "{r \<in> set (filter (\<lambda>r. unat (dr_group_slot r) = 0) (sb_records some_body)). dr_present r} = {some_record (Some 0) 2 32 True}"
    unfolding own by (auto simp: some_record_def)
  moreover have "wire_hash (some_record (Some 0) 2 32 True) = Unsigned 2" by (simp add: some_record_def wire_hash_def)
  ultimately have "dx_live_nodes dx' = 2 \<and> dx_poisoned_edges dx' = 0 \<and> dom (map_of (dx_by_external_hash dx')) = {Unsigned 2}"
    using snapshot_import_exact [OF dx'] own(1) by (simp add: Let_def)
  then show ?thesis using dx' by blast
qed

theorem prepared_generation_bound_witness:
  "\<exists>p. prepare_authenticated_snapshot_with_cancel some_sha some_codec some_snapshot (replicate 32 9) snapshot_limits_default some_digest_limits
      \<lparr>sg_data_parallel_rank = 0, sg_group_idx = 0\<rparr> 3 (\<lambda>n. n = 9) = Some (Inr p) \<and> prepared_ok p \<and> pp_watermark p = 4 \<and> (3::u64) \<le> pp_watermark p"
proof -
  obtain dx' where dx': "replace_from_snapshot_with_cancel some_body \<lparr>sg_data_parallel_rank = 0, sg_group_idx = 0\<rparr> (\<lambda>n. n = 9) 7 some_import =
    Some (Inr 2, dx')" using some_imported by blast
  have ex: "own_expectations some_body = \<lparr>se_incarnation = some_incarnation, se_reset_scope = full_engine,
      se_digest = \<lparr>dg_algorithm = HmacSha256V1, dg_key_id = replicate 32 67, dg_digest_bytes = 32\<rparr>\<rparr>"
    by (simp add: own_expectations_def some_body_def)
  have body: "sb_watermark some_body = 4" "sb_incarnation some_body = some_incarnation" "sb_reset_scope some_body = full_engine"
    by (simp_all add: some_body_def)
  have "\<exists>p. prepare_authenticated_snapshot_with_cancel some_sha some_codec some_snapshot (replicate 32 9) snapshot_limits_default some_digest_limits
      \<lparr>sg_data_parallel_rank = 0, sg_group_idx = 0\<rparr> 3 (\<lambda>n. n = 9) = Some (Inr p)"
    using some_snapshot_decoded [unfolded ex] dx' [unfolded some_import_def]
    by (simp add: prepare_authenticated_snapshot_with_cancel_def some_snapshot_def some_key some_key_wire body digest_from_secret_def
        digester_from_slice_def accept_snapshot_def start_bootstrap_def check_identity_def del: replicate.simps)
  then obtain p where p: "prepare_authenticated_snapshot_with_cancel some_sha some_codec some_snapshot (replicate 32 9) snapshot_limits_default
      some_digest_limits \<lparr>sg_data_parallel_rank = 0, sg_group_idx = 0\<rparr> 3 (\<lambda>n. n = 9) = Some (Inr p)" by blast
  have "as_watermark some_snapshot = 4" by (simp add: some_snapshot_def)
  then have "prepared_ok p \<and> pp_watermark p = 4 \<and> 3 \<le> pp_watermark p" using prepared_generation_bound [OF p some_ok(1)] by simp
  then show ?thesis using p by blast
qed

end
