(* ===== verification/Spec2Isabelle.thy ===== *)
theory Spec2Isabelle
  imports Exact_Trust Router_Served Router_Load Long_Prompt_Lane Long_Session Prefix_Single_Flight
    Exact_Errors Fingerprint Decision_State Warmup_Admission Session_Affinity Fleet_Drain Dspark_World
    Snapshot_Marker Snapshot_Bootstrap
begin

text \<open>
  \<^bold>\<open>Ramjet, verified.\<close> Ramjet is a proxy in front of a fleet of language-model engines. It sends a request to the
  replica that already holds the key-value cache of its prompt, keeps an inventory of what each engine has cached, parks
  idle engines, and fences engines that have degenerated. The sources are the Rust files under \<^verbatim>\<open>src/src\<close>; the name of a
  definition is the name in the source wherever HOL leaves it free.

  \<^bold>\<open>The parts and how they meet.\<close>

  \<^item> \<^emph>\<open>Exact inventory.\<close> An engine publishes its cache events in numbered batches. \<^verbatim>\<open>kv_wire.rs\<close> decodes a batch
    (theory \<^verbatim>\<open>Kv_Wire\<close>), \<^verbatim>\<open>kv_fence.rs\<close> decides whether it may be applied and whether the result may be trusted (\<^verbatim>\<open>Kv_Fence\<close>), and
    \<^verbatim>\<open>exact_index.rs\<close> holds the blocks in an arena trie (\<^verbatim>\<open>Exact_Index\<close>; the inventory with its filters and the fenced inventory
    in \<^verbatim>\<open>Exact_Inventory\<close>). \<^verbatim>\<open>kv_consumer.rs\<close> is the order of calls, the step relation of \<^verbatim>\<open>Exact_Trust\<close>.
  \<^item> \<^emph>\<open>Snapshot tail.\<close> A companion process sends a snapshot of its inventory and then a tail of events.
    \<^verbatim>\<open>kv_snapshot.rs\<close> is the snapshot format (\<^verbatim>\<open>Kv_Snapshot\<close>), \<^verbatim>\<open>block_digest.rs\<close> and \<^verbatim>\<open>digest_index.rs\<close> are the compact index with
    keyed digests in place of tokens (\<^verbatim>\<open>Block_Digest\<close>, \<^verbatim>\<open>Digest_Index\<close>, the import in \<^verbatim>\<open>Snapshot_Bootstrap\<close>),
    \<^verbatim>\<open>snapshot_digest_delta.rs\<close> applies tail payloads to it (\<^verbatim>\<open>Snapshot_Delta\<close>), \<^verbatim>\<open>snapshot_tail_wire.rs\<close> is the authenticated frame
    format (\<^verbatim>\<open>Frame_Codec\<close>, \<^verbatim>\<open>Snapshot_Wire\<close>), \<^verbatim>\<open>snapshot_tail.rs\<close> the lifecycle of one session (\<^verbatim>\<open>Snapshot_Tail\<close>),
    \<^verbatim>\<open>snapshot_actor.rs\<close> the owner of sessions and publication (\<^verbatim>\<open>Snapshot_Actor\<close>), and \<^verbatim>\<open>snapshot_bootstrap.rs\<close> turns an
    authenticated snapshot into a generation the actor can install (\<^verbatim>\<open>Snapshot_Bootstrap\<close>).
  \<^item> \<^emph>\<open>Router.\<close> \<^verbatim>\<open>router.rs\<close> fingerprints a request body (\<^verbatim>\<open>Json\<close>, \<^verbatim>\<open>Fingerprint\<close>), scores every replica in binary64
    arithmetic (\<^verbatim>\<open>F64\<close>, \<^verbatim>\<open>Router_Score\<close>) with the eviction estimate of \<^verbatim>\<open>affinity_horizon.rs\<close> (\<^verbatim>\<open>Affinity_Horizon\<close>), orders them
    (\<^verbatim>\<open>Router_Order\<close>), returns a decision (\<^verbatim>\<open>Router_Decision\<close>, \<^verbatim>\<open>Router_Route\<close>) and accounts for load (\<^verbatim>\<open>Router_Load\<close>).
    The cache of the crate lru is a record of operations with their documented laws (\<^verbatim>\<open>Lru_Cache\<close>).
  \<^item> \<^emph>\<open>Policies on a decision.\<close> \<^verbatim>\<open>long_prompt_lane.rs\<close>, \<^verbatim>\<open>long_session.rs\<close>, \<^verbatim>\<open>prefix_single_flight.rs\<close>, \<^verbatim>\<open>warmup_admission.rs\<close>,
    \<^verbatim>\<open>decision_state.rs\<close>, \<^verbatim>\<open>session_affinity.rs\<close> with \<^verbatim>\<open>session.rs\<close>, and the body shims of \<^verbatim>\<open>shims.rs\<close> and \<^verbatim>\<open>model/mod.rs\<close>, each
    in the theory of its name.
  \<^item> \<^emph>\<open>Fleet.\<close> \<^verbatim>\<open>idle_drain.rs\<close> chooses which replicas to park (\<^verbatim>\<open>Idle_Drain\<close>), \<^verbatim>\<open>engine_park.rs\<close> plans the calls
    (\<^verbatim>\<open>Engine_Park\<close>), \<^verbatim>\<open>tokenizer.rs\<close> attests the fleet (\<^verbatim>\<open>Attestation\<close>), and the drain round and topology change of \<^verbatim>\<open>proxy.rs\<close> join
    them with the router (\<^verbatim>\<open>Fleet_Drain\<close>).
  \<^item> \<^emph>\<open>Reliability fence.\<close> \<^verbatim>\<open>dspark_guard.rs\<close> detects a degenerated engine (\<^verbatim>\<open>Dspark_Guard\<close>), \<^verbatim>\<open>dspark_guard_store.rs\<close> makes the
    verdict durable (\<^verbatim>\<open>Dspark_Store\<close>), \<^verbatim>\<open>proxy.rs\<close> joins the two (\<^verbatim>\<open>Dspark_Replica\<close>); process lifetimes and crashes are the
    step relation of \<^verbatim>\<open>Dspark_World\<close>.

  \<^bold>\<open>How code becomes HOL.\<close> A struct is a record, an enum a datatype. A method that mutates returns the new state. A lock that is
  held over a whole method makes it one step; where the code gives a lock up in between, the sections are separate steps
  of an inductive relation. A \<open>Result\<close> is a sum with the error on the left, a panic is the outer \<open>None\<close>, and totality
  theorems show where panics cannot happen. Sequence numbers, generations and hashes are 64-bit words; counts are
  natural numbers with every saturating, checked or wrapping operation of the source written out (\<^verbatim>\<open>Ramjet_Prelude\<close>). A
  \<open>HashMap\<close> is an association list, and no modelled operation depends on its iteration order. Instants are natural
  numbers of nanoseconds or milliseconds and arguments of the operations that read the clock.

  \<^bold>\<open>Parameters.\<close> SHA-256, the MessagePack and JSON libraries, the cache of the crate lru, and the answers of the file
  system and of engines are arguments. The hypotheses about them are named: \<open>sha_ok\<close> (digests have 32 bytes),
  \<open>rmp_ok\<close> (decoding inverts encoding), \<open>lru_laws\<close>, \<open>confirms\<close> (a rename that took place is confirmed),
  \<open>collision_free\<close> (different blocks have different compact keys) and \<open>unforged\<close> (only the sender of a session can
  produce a tag). Every property with a hypothesis has a witness at a concrete input.

  \<^bold>\<open>What is shown.\<close>

  \<^item> \<^emph>\<open>Exact inventory.\<close> Whenever the fence reports trust, the inventory is what applying every event of the engine
    log gives, for every order of live batches, replays and disconnections; a trusted match is the longest resident prefix of
    the prompt; store and remove refine an abstract map from hashes to token chains; no live batch panics or exceeds a bound;
    every error of store is characterized; the lookup always ends; a decoded batch obeys its limits. The invariant of
    the arena is in \<^verbatim>\<open>Exact_Trie\<close>, its elementary updates in \<^verbatim>\<open>Exact_Trie_Updates\<close>, the operations in \<^verbatim>\<open>Exact_Index_Proofs\<close>; the locale
    \<open>prefix_index\<close> of \<^verbatim>\<open>Exact_Lookup\<close> is the contract the inventory relies on, interpreted on the operations of the index.
  \<^item> \<^emph>\<open>Snapshot tail.\<close> Tail decoder and sender agree on the sequence of frames under every interference that cannot
    forge tags (\<^verbatim>\<open>Snapshot_Agreement\<close>); a published index is an installed snapshot followed by an unbroken run of the
    companion log, for every order of commands over all epochs (\<^verbatim>\<open>Snapshot_Publication\<close>); an unchanged publication marker
    means an unchanged index (\<^verbatim>\<open>Snapshot_Marker\<close>); the compact index answers like the exact one (\<^verbatim>\<open>Digest_Refines\<close>,
    \<^verbatim>\<open>Snapshot_Delta\<close>); an accepted snapshot is a well-formed forest and decoding inverts encoding (\<^verbatim>\<open>Snapshot_Forest\<close>); a prepared
    generation is bound to its authentication and its import is exact (\<^verbatim>\<open>Snapshot_Bootstrap\<close>).
  \<^item> \<^emph>\<open>Router.\<close> A pass returns a well-formed decision whose head is optimal; model restriction is a boundary no later
    policy crosses; ties rotate fairly; load counters equal what the live guards hold and a drain can always complete; a
    follow-up turn is credited with the blocks of its conversation; a block the horizon credits has not been evicted.
  \<^item> \<^emph>\<open>Policies, fleet and reliability.\<close> Each policy keeps its bound and the well-formedness of the decision; no request
    reaches a parked engine and no sleep call aborts a request, in every interleaving; the warm floor and the park cap hold; a
    quarantined engine incarnation stays fenced across restarts and crashes until it is replaced.

  \<^bold>\<open>Loops, bounds and fuel.\<close> No definition uses fuel. Loops over lists are structural; pruning
  (\<open>prune_from\<close>, \<open>prune_dnodes\<close>) is a function that ends because each step frees a live slot; the lookup loops
  (\<open>lookup_loop\<close>, \<open>dlookup_loop\<close>) are partial functions in the option type, and \<open>lookup_terminates\<close> shows for the
  exact index that they return. The word length of usize is 64 throughout. Float arithmetic is exact rational arithmetic with
  one rounding per operation, so no error bound is assumed.

  \<^bold>\<open>Not modelled.\<close> The asynchronous request path of \<^verbatim>\<open>proxy.rs\<close>, tasks, timers and sockets (\<^verbatim>\<open>kv_transport.rs\<close>,
  \<^verbatim>\<open>snapshot_consumer.rs\<close>, \<^verbatim>\<open>snapshot_producer.rs\<close>, \<^verbatim>\<open>snapshot_reconnect.rs\<close>, \<^verbatim>\<open>snapshot_supervisor.rs\<close>, \<^verbatim>\<open>snapshot_transport.rs\<close>, the companion
  process): they call what is modelled in orders the step relations leave open. Environment parsing (\<^verbatim>\<open>config.rs\<close>), metrics,
  the dashboard and its samplers (\<^verbatim>\<open>machineview.rs\<close>), the Docker controller (\<^verbatim>\<open>adaptive.rs\<close>), tokenizing and prompt rendering,
  accounting and tokens, journals: input, output and text. The handshake of \<^verbatim>\<open>snapshot_session.rs\<close>, whose result is an
  argument of the preparation; \<open>TailSessionKey::derive\<close>, as keys are arguments; \<open>export_snapshot_with_cancel\<close> of the
  compact index; the Prometheus text parser of \<^verbatim>\<open>dspark_guard.rs\<close>. Debug instances, metric labels and the zeroing of
  secrets have no effect on results.
\<close>

end
